(* ===== verification/Prelude.thy ===== *)
theory Prelude
  imports Main "HOL-Library.Word" "HOL-Library.List_Lexorder" "HOL-Library.AList"
begin

text \<open>
  Shared vocabulary of the development: the machine types the Rust sources use, the
  slice and little-endian helpers of the storage engine, the ordering type of
  comparators, insertion-ordered maps (\<open>IndexMap\<close>, \<open>HashMap\<close>, \<open>BTreeMap\<close> all become
  association lists with distinct keys), the result type, and the generic lemmas the
  component theories rely on. The three collections below gather the facts that
  \<open>simp\<close> and \<open>auto\<close> need in the component proofs.
\<close>

named_theorems slice_simps \<open>slices, prefixes and little-endian fields\<close>
named_theorems imap_simps \<open>association lists as insertion-ordered maps\<close>
named_theorems inv_intros \<open>preservation of component invariants\<close>

section \<open>Machine types\<close>

type_synonym byte = "8 word"
type_synonym bytes = "byte list"
type_synonym u32 = "32 word"
type_synonym u64 = "64 word"
type_synonym i64 = int

text \<open>A Rust string is the list of its Unicode scalar values.\<close>

type_synonym str = "nat list"

definition lit :: "string \<Rightarrow> str" where
  "lit s = map of_char s"

text \<open>
  Lengths, offsets and capacities (\<open>usize\<close>, \<open>u64\<close> file positions) are naturals. Rust's
  \<open>checked_add\<close> on a 64-bit \<open>usize\<close> fails above \<open>2 ^ 64 - 1\<close>; truncating subtraction on
  naturals is \<open>saturating_sub\<close>.
\<close>

definition checked_add :: "nat \<Rightarrow> nat \<Rightarrow> nat option" where
  "checked_add a b = (if a + b < 2 ^ 64 then Some (a + b) else None)"

definition is_i64 :: "i64 \<Rightarrow> bool" where
  "is_i64 i \<longleftrightarrow> - (2 ^ 63) \<le> i \<and> i < 2 ^ 63"

section \<open>Comparators\<close>

datatype ordering = Less | Equal | Greater

definition cmp :: "'a::linorder \<Rightarrow> 'a \<Rightarrow> ordering" where
  "cmp a b = (if a < b then Less else if a = b then Equal else Greater)"

fun is_lt :: "ordering \<Rightarrow> bool" where
  "is_lt Less = True"
| "is_lt _ = False"

fun is_le :: "ordering \<Rightarrow> bool" where
  "is_le Greater = False"
| "is_le _ = True"

fun is_gt :: "ordering \<Rightarrow> bool" where
  "is_gt Greater = True"
| "is_gt _ = False"

fun is_ge :: "ordering \<Rightarrow> bool" where
  "is_ge Less = False"
| "is_ge _ = True"

lemma cmp_simps [simp]:
  "cmp a b = Less \<longleftrightarrow> a < b"
  "cmp a b = Equal \<longleftrightarrow> a = b"
  "cmp a b = Greater \<longleftrightarrow> b < a"
  by (auto simp: cmp_def)

lemma is_cmp [simp]:
  "is_lt (cmp a b) \<longleftrightarrow> a < b"
  "is_le (cmp a b) \<longleftrightarrow> a \<le> b"
  "is_gt (cmp a b) \<longleftrightarrow> b < a"
  "is_ge (cmp a b) \<longleftrightarrow> b \<le> a"
  by (auto simp: cmp_def)

lemma is_le_not_gt: "is_le r \<longleftrightarrow> \<not> is_gt r"
  by (cases r) auto

lemma is_ge_not_lt: "is_ge r \<longleftrightarrow> \<not> is_lt r"
  by (cases r) auto

section \<open>Slices\<close>

text \<open>\<open>xs[a..b]\<close>, and \<open>xs.get(a..b)\<close>, which is \<open>None\<close> out of range.\<close>

definition slice :: "nat \<Rightarrow> nat \<Rightarrow> 'a list \<Rightarrow> 'a list" where
  "slice a b xs = take (b - a) (drop a xs)"

definition get_range :: "'a list \<Rightarrow> nat \<Rightarrow> nat \<Rightarrow> 'a list option" where
  "get_range xs a b = (if a \<le> b \<and> b \<le> length xs then Some (slice a b xs) else None)"

lemma length_slice [slice_simps]: "b \<le> length xs \<Longrightarrow> length (slice a b xs) = b - a"
  by (simp add: slice_def)

lemma slice_append_left: "b \<le> length xs \<Longrightarrow> slice a b (xs @ ys) = slice a b xs"
  by (cases "a \<le> length xs") (simp_all add: slice_def)

lemma slice_shift: "slice (length p + a) (length p + b) (p @ xs) = slice a b xs"
  by (simp add: slice_def)

lemma slice_0 [simp]: "slice 0 b xs = take b xs"
  by (simp add: slice_def)

lemma slice_mid: "slice (length p) (length p + length m) (p @ m @ s) = m"
  by (simp add: slice_def)

lemma slice_slice:
  assumes "c + b' \<le> b" and "a' \<le> b'"
  shows "slice a' b' (slice c b xs) = slice (c + a') (c + b') xs"
proof -
  have "slice a' b' (slice c b xs) = take (b' - a') (take (b - c - a') (drop (c + a') xs))"
    by (simp add: slice_def drop_take add.commute)
  also have "\<dots> = take (b' - a') (drop (c + a') xs)"
    using assms by (simp add: min_def)
  finally show ?thesis by (simp add: slice_def)
qed

section \<open>Little-endian integers\<close>

text \<open>
  \<open>le_bytes n v\<close> is the \<open>n\<close>-byte little-endian encoding of \<open>v mod 256 ^ n\<close>, which is
  what \<open>(v as uN).to_le_bytes()\<close> writes; \<open>le_nat\<close> is \<open>uN::from_le_bytes\<close>.
\<close>

fun le_bytes :: "nat \<Rightarrow> nat \<Rightarrow> bytes" where
  "le_bytes 0 v = []"
| "le_bytes (Suc n) v = word_of_nat (v mod 256) # le_bytes n (v div 256)"

fun le_nat :: "bytes \<Rightarrow> nat" where
  "le_nat [] = 0"
| "le_nat (b # bs) = unat b + 256 * le_nat bs"

lemma length_le_bytes [simp]: "length (le_bytes n v) = n"
  by (induction n arbitrary: v) auto

lemma unat_byte [simp]: "unat (word_of_nat (v mod 256) :: byte) = v mod 256"
  by (simp add: unat_of_nat)

lemma le_nat_le_bytes: "le_nat (le_bytes n v) = v mod 256 ^ n"
proof (induction n arbitrary: v)
  case (Suc n)
  then show ?case by (simp add: mod_mult2_eq)
qed simp

lemma le_bytes_le_nat: "le_bytes (length bs) (le_nat bs) = bs"
proof (induction bs)
  case (Cons b bs)
  have b: "unat b < 256" using unsigned_less [of b, where ?'a = nat] by simp
  then have "(unat b + 256 * le_nat bs) mod 256 = unat b"
    and "(unat b + 256 * le_nat bs) div 256 = le_nat bs" by simp_all
  with Cons show ?case by simp
qed simp

lemma le_nat_less: "le_nat bs < 256 ^ length bs"
proof (induction bs)
  case (Cons b bs)
  have "unat b < 256" using unsigned_less [of b, where ?'a = nat] by simp
  with Cons show ?case by simp
qed simp

lemma le_nat_bound: "length bs = n \<Longrightarrow> le_nat bs < 256 ^ n"
  using le_nat_less by blast

text \<open>Signed 64-bit integers through their two's complement.\<close>

definition i64_bytes :: "i64 \<Rightarrow> bytes" where
  "i64_bytes i = le_bytes 8 (nat (i mod 2 ^ 64))"

definition i64_of_bytes :: "bytes \<Rightarrow> i64" where
  "i64_of_bytes bs = (let n = int (le_nat bs) in if n < 2 ^ 63 then n else n - 2 ^ 64)"

lemma length_i64_bytes [simp]: "length (i64_bytes i) = 8"
  by (simp add: i64_bytes_def)

lemma i64_roundtrip: "is_i64 i \<Longrightarrow> i64_of_bytes (i64_bytes i) = i"
proof -
  assume i: "is_i64 i"
  have "le_nat (i64_bytes i) = nat (i mod 2 ^ 64) mod 256 ^ 8"
    by (simp add: i64_bytes_def le_nat_le_bytes)
  also have "\<dots> = nat (i mod 2 ^ 64)"
  proof -
    have "i mod 2 ^ 64 < 2 ^ 64" by simp
    then have "nat (i mod 2 ^ 64) < 256 ^ 8" by (simp add: nat_less_iff)
    then show ?thesis by (rule mod_less)
  qed
  finally have n: "int (le_nat (i64_bytes i)) = i mod 2 ^ 64" by simp
  show ?thesis
  proof (cases "0 \<le> i")
    case True
    with i have "i mod 2 ^ 64 = i" by (simp add: is_i64_def)
    with n i show ?thesis by (simp add: i64_of_bytes_def is_i64_def)
  next
    case False
    with i have "(i + 2 ^ 64) mod 2 ^ 64 = i + 2 ^ 64"
      by (intro mod_pos_pos_trivial) (simp_all add: is_i64_def)
    then have "i mod 2 ^ 64 = i + 2 ^ 64" by simp
    with n i False show ?thesis by (simp add: i64_of_bytes_def is_i64_def)
  qed
qed

lemma is_i64_of_bytes: "length bs = 8 \<Longrightarrow> is_i64 (i64_of_bytes bs)"
proof -
  assume "length bs = 8"
  then have "le_nat bs < 256 ^ 8" by (rule le_nat_bound)
  then have "int (le_nat bs) < 2 ^ 64" by simp
  then show ?thesis by (simp add: i64_of_bytes_def is_i64_def Let_def)
qed

section \<open>Insertion-ordered maps\<close>

text \<open>
  \<open>IndexMap\<close> keeps insertion order: \<open>insert\<close> overwrites in place or appends, and
  \<open>shift_remove\<close> deletes keeping the order of the rest. \<open>HashMap\<close> iterates in an
  unspecified order; it is modelled by the same lists, and the theorems about it hold
  for every order of the list.
\<close>

type_synonym ('k, 'v) imap = "('k \<times> 'v) list"

abbreviation imap_get :: "('k, 'v) imap \<Rightarrow> 'k \<Rightarrow> 'v option" where
  "imap_get \<equiv> map_of"

abbreviation imap_insert :: "'k \<Rightarrow> 'v \<Rightarrow> ('k, 'v) imap \<Rightarrow> ('k, 'v) imap" where
  "imap_insert \<equiv> AList.update"

abbreviation imap_remove :: "'k \<Rightarrow> ('k, 'v) imap \<Rightarrow> ('k, 'v) imap" where
  "imap_remove \<equiv> AList.delete"

abbreviation imap_wf :: "('k, 'v) imap \<Rightarrow> bool" where
  "imap_wf m \<equiv> distinct (map fst m)"

lemma imap_get_insert [imap_simps]:
  "imap_get (imap_insert k v m) = (imap_get m)(k \<mapsto> v)"
  by (rule update_conv')

lemma imap_get_remove [imap_simps]:
  "imap_get (imap_remove k m) = (imap_get m)(k := None)"
  by (rule delete_conv')

lemma imap_wf_insert [imap_simps, inv_intros]:
  "imap_wf m \<Longrightarrow> imap_wf (imap_insert k v m)"
  by (rule distinct_update)

lemma imap_wf_remove [imap_simps, inv_intros]:
  "imap_wf m \<Longrightarrow> imap_wf (imap_remove k m)"
  by (rule distinct_delete)

lemma imap_keys_insert [imap_simps]:
  "fst ` set (imap_insert k v m) = insert k (fst ` set m)"
  by (metis dom_map_of_conv_image_fst dom_fun_upd option.distinct(1) update_conv')

lemma imap_keys_remove [imap_simps]:
  "fst ` set (imap_remove k m) = fst ` set m - {k}"
  by (metis dom_map_of_conv_image_fst dom_fun_upd delete_conv')

lemma imap_insert_new: "k \<notin> fst ` set m \<Longrightarrow> imap_insert k v m = m @ [(k, v)]"
  by (induction m) auto

section \<open>Strings and ordered sets\<close>

text \<open>\<open>char::is_whitespace\<close>, \<open>str::trim\<close> and \<open>str::strip_prefix\<close>.\<close>

definition is_space :: "nat \<Rightarrow> bool" where
  "is_space c \<longleftrightarrow> 9 \<le> c \<and> c \<le> 13 \<or> c = 32 \<or> c = 0x85 \<or> c = 0xA0 \<or> c = 0x1680 \<or> 0x2000 \<le> c \<and> c \<le> 0x200A
     \<or> c = 0x2028 \<or> c = 0x2029 \<or> c = 0x202F \<or> c = 0x205F \<or> c = 0x3000"

definition trim :: "str \<Rightarrow> str" where
  "trim s = rev (dropWhile is_space (rev (dropWhile is_space s)))"

definition strip_prefix :: "str \<Rightarrow> str \<Rightarrow> str option" where
  "strip_prefix p s = (if take (length p) s = p then Some (drop (length p) s) else None)"

text \<open>An insertion-ordered set.\<close>

definition iset_insert :: "'a \<Rightarrow> 'a list \<Rightarrow> 'a list" where
  "iset_insert x xs = (if x \<in> set xs then xs else xs @ [x])"

abbreviation iset_remove :: "'a \<Rightarrow> 'a list \<Rightarrow> 'a list" where
  "iset_remove \<equiv> removeAll"

end
