(* ===== verification/Codec.thy ===== *)
theory Codec
  imports Prelude "HOL-Library.Monad_Syntax"
begin

text \<open>
  The frame codec of the log-structured store, \<open>crates/minidb/src/codec.rs\<close> and
  \<open>crc32.rs\<close>: the binary frame format of the write-ahead log and of snapshots, the batch
  payload format, the incremental \<open>FrameParser\<close> and the buffer parser with its two
  corruption modes. The CRC implementation is the external crate \<open>crc32fast\<close>; it is the
  parameter \<open>H\<close> of every definition that computes a checksum.
\<close>

section \<open>Checksums\<close>

text \<open>The three operations of \<open>crc32fast::Hasher\<close> the code calls.\<close>

record 'h hasher =
  new_with_initial :: "u32 \<Rightarrow> 'h"
  hash_update :: "'h \<Rightarrow> bytes \<Rightarrow> 'h"
  hash_finalize :: "'h \<Rightarrow> u32"

definition crc32 :: "'h hasher \<Rightarrow> bytes \<Rightarrow> u32 \<Rightarrow> u32" where
  "crc32 H bs previous = hash_finalize H (hash_update H (new_with_initial H previous) bs)"

section \<open>Constants and data\<close>

definition MAGIC :: bytes where "MAGIC = [0x4d, 0x44]"
definition TYPE_SET :: byte where "TYPE_SET = 1"
definition TYPE_DEL :: byte where "TYPE_DEL = 2"
definition TYPE_BATCH :: byte where "TYPE_BATCH = 3"
definition HEADER_SIZE :: nat where "HEADER_SIZE = 22"
definition CRC_SIZE :: nat where "CRC_SIZE = 4"
definition MAX_KEY_LEN :: nat where "MAX_KEY_LEN = 65535"
definition SUB_HEADER_SIZE :: nat where "SUB_HEADER_SIZE = 1 + 2 + 4 + 4 + 8"

lemmas codec_consts = MAGIC_def TYPE_SET_def TYPE_DEL_def TYPE_BATCH_def HEADER_SIZE_def
  CRC_SIZE_def MAX_KEY_LEN_def SUB_HEADER_SIZE_def

record frame =
  frame_type :: byte
  frame_key :: bytes
  frame_value :: bytes
  frame_meta :: "bytes option"
  frame_expire_at :: i64

record batch_op =
  op_type :: byte
  op_key :: bytes
  op_value :: "bytes option"
  op_meta :: "bytes option"
  op_expire_at :: i64

datatype corruption_mode = Resync | Strict

record parse_result =
  pr_frames :: "frame list"
  pr_corrupt_ranges :: "(nat \<times> nat) list"
  pr_eof_offset :: nat

datatype corrupt_message =
    MagicNotFound
  | FrameLengthOverflow
  | CrcMismatch nat
  | TornTail nat

datatype codec_error =
    KeyTooLarge
  | TooManyBatchOperations
  | BatchHeaderTruncated
  | BatchPayloadTruncated
  | CorruptFrame corrupt_message nat
  | CodecIo

fun corrupt_offset :: "codec_error \<Rightarrow> nat option" where
  "corrupt_offset (CorruptFrame _ offset) = Some offset"
| "corrupt_offset _ = None"

abbreviation unwrap_or_default :: "'a list option \<Rightarrow> 'a list" where
  "unwrap_or_default x \<equiv> (case x of None \<Rightarrow> [] | Some v \<Rightarrow> v)"

section \<open>Encoding\<close>

text \<open>The bytes covered by the checksum: everything between the magic and the CRC.\<close>

definition frame_body :: "frame \<Rightarrow> bytes" where
  "frame_body f =
     (let meta = unwrap_or_default (frame_meta f) in
      [frame_type f, 0]
      @ le_bytes 2 (length (frame_key f))
      @ le_bytes 4 (length (frame_value f))
      @ le_bytes 4 (length meta)
      @ i64_bytes (frame_expire_at f)
      @ frame_key f @ frame_value f @ meta)"

definition frame_image :: "'h hasher \<Rightarrow> frame \<Rightarrow> bytes" where
  "frame_image H f = MAGIC @ frame_body f @ le_bytes 4 (unat (crc32 H (frame_body f) 0))"

definition encode_frame :: "'h hasher \<Rightarrow> frame \<Rightarrow> codec_error + bytes" where
  "encode_frame H f =
     (if length (frame_key f) > MAX_KEY_LEN then Inl KeyTooLarge else Inr (frame_image H f))"

definition encode_batch_op :: "batch_op \<Rightarrow> bytes" where
  "encode_batch_op operation =
     (let val = unwrap_or_default (op_value operation);
          meta = unwrap_or_default (op_meta operation) in
      [op_type operation]
      @ le_bytes 2 (length (op_key operation))
      @ le_bytes 4 (length val)
      @ le_bytes 4 (length meta)
      @ i64_bytes (op_expire_at operation)
      @ op_key operation @ val @ meta)"

definition encode_batch_ops :: "batch_op list \<Rightarrow> codec_error + bytes" where
  "encode_batch_ops operations =
     (if length operations > 65535 then Inl TooManyBatchOperations
      else if (\<exists>operation \<in> set operations. length (op_key operation) > MAX_KEY_LEN)
        then Inl KeyTooLarge
      else Inr (le_bytes 2 (length operations) @ concat (map encode_batch_op operations)))"

section \<open>Decoding\<close>

text \<open>\<open>HEADER_SIZE + key_len + value_len + meta_len + CRC_SIZE\<close> with checked additions.\<close>

definition checked_frame_len :: "nat \<Rightarrow> nat \<Rightarrow> nat \<Rightarrow> nat option" where
  "checked_frame_len key_len value_len meta_len = do {
     a \<leftarrow> checked_add HEADER_SIZE key_len;
     b \<leftarrow> checked_add a value_len;
     c \<leftarrow> checked_add b meta_len;
     checked_add c CRC_SIZE }"

definition read_frame_at :: "'h hasher \<Rightarrow> bytes \<Rightarrow> nat \<Rightarrow> (frame \<times> nat) option" where
  "read_frame_at H bs position = do {
     header \<leftarrow> get_range bs position (position + HEADER_SIZE);
     if take 2 header \<noteq> MAGIC then None else do {
       let key_len = le_nat (slice 4 6 header);
       let value_len = le_nat (slice 6 10 header);
       let meta_len = le_nat (slice 10 14 header);
       frame_len \<leftarrow> checked_frame_len key_len value_len meta_len;
       frame_bytes \<leftarrow> get_range bs position (position + frame_len);
       let stored = le_nat (drop (frame_len - CRC_SIZE) frame_bytes);
       if stored \<noteq> unat (crc32 H (slice 2 (frame_len - CRC_SIZE) frame_bytes) 0) then None
       else do {
         let payload = slice HEADER_SIZE (frame_len - CRC_SIZE) frame_bytes;
         let value_start = key_len;
         let meta_start = value_start + value_len;
         Some (\<lparr> frame_type = header ! 2,
                 frame_key = take key_len payload,
                 frame_value = slice value_start meta_start payload,
                 frame_meta = (if meta_len > 0 then Some (drop meta_start payload) else None),
                 frame_expire_at = i64_of_bytes (slice 14 22 header) \<rparr>, frame_len) } } }"

text \<open>\<open>windows(2).position(|window| window == MAGIC)\<close>.\<close>

fun magic_position :: "bytes \<Rightarrow> nat option" where
  "magic_position (a # b # rest) =
     (if [a, b] = MAGIC then Some 0 else map_option Suc (magic_position (b # rest)))"
| "magic_position _ = None"

text \<open>The loop of \<open>decode_batch_ops\<close> over the \<open>count\<close> operations still to read.\<close>

fun decode_batch_loop :: "bytes \<Rightarrow> nat \<Rightarrow> nat \<Rightarrow> codec_error + batch_op list" where
  "decode_batch_loop body offset 0 = Inr []"
| "decode_batch_loop body offset (Suc n) =
     (case get_range body offset (offset + SUB_HEADER_SIZE) of
        None \<Rightarrow> Inl BatchHeaderTruncated
      | Some header \<Rightarrow>
          let key_len = le_nat (slice 1 3 header);
              value_len = le_nat (slice 3 7 header);
              meta_len = le_nat (slice 7 11 header);
              expire = i64_of_bytes (slice 11 19 header);
              start = offset + SUB_HEADER_SIZE in
          (case do { a \<leftarrow> checked_add start key_len;
                     b \<leftarrow> checked_add a value_len;
                     c \<leftarrow> checked_add b meta_len;
                     if c \<le> length body then Some c else None } of
             None \<Rightarrow> Inl BatchPayloadTruncated
           | Some end_offset \<Rightarrow>
               let key = slice start (start + key_len) body;
                   val = slice (start + key_len) (start + key_len + value_len) body;
                   meta = (if meta_len > 0
                           then Some (slice (start + key_len + value_len)
                                        (start + key_len + value_len + meta_len) body)
                           else None);
                   operation = \<lparr> op_type = header ! 0, op_key = key, op_value = Some val,
                                  op_meta = meta, op_expire_at = expire \<rparr> in
               (case decode_batch_loop body end_offset n of
                  Inl e \<Rightarrow> Inl e
                | Inr operations \<Rightarrow> Inr (operation # operations))))"

definition decode_batch_ops :: "bytes \<Rightarrow> codec_error + batch_op list" where
  "decode_batch_ops body =
     (if length body < 2 then Inr [] else decode_batch_loop body 2 (le_nat (take 2 body)))"

section \<open>The incremental parser\<close>

record frame_parser =
  fp_pending :: bytes
  fp_offset :: nat

definition frame_parser_new :: frame_parser where
  "frame_parser_new = \<lparr> fp_pending = [], fp_offset = 0 \<rparr>"

lemma magic_position_bound: "magic_position bs = Some i \<Longrightarrow> i + 2 \<le> length bs"
  by (induction bs arbitrary: i rule: magic_position.induct) (auto split: if_splits)

lemma checked_frame_len_eq:
  "checked_frame_len k v m = Some n \<Longrightarrow> n = HEADER_SIZE + k + v + m + CRC_SIZE"
  by (auto simp: checked_frame_len_def checked_add_def split: if_splits bind_splits)

text \<open>
  The loop of \<open>feed\<close>: \<open>position\<close> is the cursor in the pending buffer, \<open>offset\<close> the
  parser's running offset. An error leaves the loop with the offset reached so far and
  the pending buffer undrained, as the \<open>?\<close> operator does.
\<close>

function feed_loop ::
  "'h hasher \<Rightarrow> bytes \<Rightarrow> nat \<Rightarrow> nat \<Rightarrow> frame list \<Rightarrow> (codec_error + frame list \<times> nat) \<times> nat"
where
  "feed_loop H pending position offset frames =
     (if length pending - position < HEADER_SIZE then (Inr (frames, position), offset)
      else if slice position (position + 2) pending \<noteq> MAGIC then
        (case magic_position (drop (position + 1) pending) of
           None \<Rightarrow> (Inl (CorruptFrame MagicNotFound (offset + position)), offset)
         | Some relative \<Rightarrow> feed_loop H pending (position + 1 + relative) offset frames)
      else
        (case checked_frame_len
                (le_nat (slice (position + 4) (position + 6) pending))
                (le_nat (slice (position + 6) (position + 10) pending))
                (le_nat (slice (position + 10) (position + 14) pending)) of
           None \<Rightarrow> (Inl (CorruptFrame FrameLengthOverflow (offset + position)), offset)
         | Some frame_len \<Rightarrow>
             if length pending - position < frame_len then (Inr (frames, position), offset)
             else (case read_frame_at H pending position of
                     None \<Rightarrow> (Inl (CorruptFrame (CrcMismatch (offset + position))
                                (offset + position)), offset)
                   | Some (f, _) \<Rightarrow>
                       feed_loop H pending (position + frame_len) (offset + frame_len)
                         (frames @ [f]))))"
  by pat_completeness auto
termination
  by (relation "measure (\<lambda>(H, pending, position, offset, frames). length pending - position)")
     (auto simp: codec_consts dest!: checked_frame_len_eq magic_position_bound)

declare feed_loop.simps [simp del]

definition feed ::
  "'h hasher \<Rightarrow> frame_parser \<Rightarrow> bytes \<Rightarrow> (codec_error + frame list) \<times> frame_parser" where
  "feed H parser chunk =
     (let pending = fp_pending parser @ chunk in
      case feed_loop H pending 0 (fp_offset parser) [] of
        (Inl e, offset) \<Rightarrow> (Inl e, \<lparr> fp_pending = pending, fp_offset = offset \<rparr>)
      | (Inr (frames, position), offset) \<Rightarrow>
          (Inr frames, \<lparr> fp_pending = drop position pending, fp_offset = offset \<rparr>))"

definition finish :: "frame_parser \<Rightarrow> (codec_error + nat) \<times> frame_parser" where
  "finish parser =
     (if fp_pending parser = [] then (Inr (fp_offset parser), parser)
      else (Inl (CorruptFrame (TornTail (length (fp_pending parser))) (fp_offset parser)),
            parser\<lparr> fp_pending := [] \<rparr>))"

section \<open>The buffer parser\<close>

text \<open>The inner loop: the next position at or after \<open>scan\<close> where a whole frame reads.\<close>

function resync_scan :: "'h hasher \<Rightarrow> bytes \<Rightarrow> nat \<Rightarrow> nat option" where
  "resync_scan H bs scan =
     (if scan + 1 < length bs then
        (case magic_position (drop scan bs) of
           None \<Rightarrow> None
         | Some relative \<Rightarrow>
             if read_frame_at H bs (scan + relative) \<noteq> None then Some (scan + relative)
             else resync_scan H bs (scan + relative + 1))
      else None)"
  by pat_completeness auto
termination
  by (relation "measure (\<lambda>(H, bs, scan). length bs - scan)")
     (auto dest!: magic_position_bound)

declare resync_scan.simps [simp del]

lemma resync_scan_ge: "resync_scan H bs scan = Some r \<Longrightarrow> scan \<le> r \<and> r < length bs"
proof (induction H bs scan rule: resync_scan.induct)
  case (1 H bs scan)
  then show ?case
    by (auto simp: resync_scan.simps [of H bs scan] split: if_splits option.splits
             dest: magic_position_bound)
qed

lemma read_frame_at_len:
  assumes "read_frame_at H bs p = Some (f, n)"
  shows "HEADER_SIZE + CRC_SIZE \<le> n \<and> p + n \<le> length bs"
  using assms
  by (auto simp: read_frame_at_def get_range_def Let_def split: bind_splits if_splits
           dest!: checked_frame_len_eq)

function parse_loop ::
  "'h hasher \<Rightarrow> bytes \<Rightarrow> corruption_mode \<Rightarrow> nat \<Rightarrow> frame list \<Rightarrow> (nat \<times> nat) list \<Rightarrow> parse_result"
where
  "parse_loop H bs mode position frames corrupt_ranges =
     (if position < length bs then
        (case read_frame_at H bs position of
           Some (f, frame_len) \<Rightarrow>
             parse_loop H bs mode (position + frame_len) (frames @ [f]) corrupt_ranges
         | None \<Rightarrow>
             if mode = Strict then
               \<lparr> pr_frames = frames,
                 pr_corrupt_ranges = corrupt_ranges @ [(position, length bs)],
                 pr_eof_offset = position \<rparr>
             else
               (case resync_scan H bs (position + 1) of
                  None \<Rightarrow>
                    \<lparr> pr_frames = frames,
                      pr_corrupt_ranges = corrupt_ranges @ [(position, length bs)],
                      pr_eof_offset = position \<rparr>
                | Some resume \<Rightarrow>
                    parse_loop H bs mode resume frames (corrupt_ranges @ [(position, resume)])))
      else \<lparr> pr_frames = frames, pr_corrupt_ranges = corrupt_ranges, pr_eof_offset = position \<rparr>)"
  by pat_completeness auto
termination
  by (relation "measure (\<lambda>(H, bs, mode, position, frames, ranges). length bs - position)")
     (auto simp: codec_consts dest!: read_frame_at_len resync_scan_ge)

declare parse_loop.simps [simp del]

definition parse_buffer :: "'h hasher \<Rightarrow> bytes \<Rightarrow> corruption_mode \<Rightarrow> parse_result" where
  "parse_buffer H bs mode = parse_loop H bs mode 0 [] []"


section \<open>What the encoder can represent\<close>

text \<open>
  The encoder rejects long keys, but casts the value and metadata lengths with
  \<open>as u32\<close>; \<open>wf_frame\<close> says what survives the casts, and that empty metadata is absent.
\<close>

definition wf_frame :: "frame \<Rightarrow> bool" where
  "wf_frame f \<longleftrightarrow> length (frame_key f) \<le> MAX_KEY_LEN \<and> length (frame_value f) < 2 ^ 32
     \<and> length (unwrap_or_default (frame_meta f)) < 2 ^ 32 \<and> frame_meta f \<noteq> Some []
     \<and> is_i64 (frame_expire_at f)"

definition frame_size :: "frame \<Rightarrow> nat" where
  "frame_size f = HEADER_SIZE + length (frame_key f) + length (frame_value f)
     + length (unwrap_or_default (frame_meta f)) + CRC_SIZE"

lemma length_frame_body:
  "length (frame_body f) = frame_size f - 6"
  by (simp add: frame_body_def frame_size_def codec_consts Let_def)

lemma length_frame_image [simp]: "length (frame_image H f) = frame_size f"
  by (simp add: frame_image_def length_frame_body frame_size_def codec_consts)

lemma frame_size_pos: "26 \<le> frame_size f"
  by (simp add: frame_size_def codec_consts)

lemma checked_frame_len_small:
  assumes "k < 2 ^ 16" and "v < 2 ^ 32" and "m < 2 ^ 32"
  shows "checked_frame_len k v m = Some (HEADER_SIZE + k + v + m + CRC_SIZE)"
  using assms by (simp add: checked_frame_len_def checked_add_def codec_consts)

text \<open>The header fields of an encoded frame, read back at any position of a buffer.\<close>

lemma header_fields:
  assumes "wf_frame f" and "header = take HEADER_SIZE (frame_image H f)"
  shows "take 2 header = MAGIC" and "header ! 2 = frame_type f"
    and "le_nat (slice 4 6 header) = length (frame_key f)"
    and "le_nat (slice 6 10 header) = length (frame_value f)"
    and "le_nat (slice 10 14 header) = length (unwrap_or_default (frame_meta f))"
    and "i64_of_bytes (slice 14 22 header) = frame_expire_at f"
proof -
  have h: "header = MAGIC @ [frame_type f, 0] @ le_bytes 2 (length (frame_key f))
      @ le_bytes 4 (length (frame_value f))
      @ le_bytes 4 (length (unwrap_or_default (frame_meta f))) @ i64_bytes (frame_expire_at f)"
    using assms(2) by (simp add: frame_image_def frame_body_def Let_def codec_consts)
  show "take 2 header = MAGIC" and "header ! 2 = frame_type f"
    by (simp_all add: h MAGIC_def)
  from assms(1) show "le_nat (slice 4 6 header) = length (frame_key f)"
    and "le_nat (slice 6 10 header) = length (frame_value f)"
    and "le_nat (slice 10 14 header) = length (unwrap_or_default (frame_meta f))"
    and "i64_of_bytes (slice 14 22 header) = frame_expire_at f"
    by (simp_all add: h MAGIC_def slice_def le_nat_le_bytes wf_frame_def MAX_KEY_LEN_def
        i64_roundtrip)
qed

lemma read_frame_atI:
  assumes "get_range bs p (p + HEADER_SIZE) = Some header" and "take 2 header = MAGIC"
    and "le_nat (slice 4 6 header) = k" and "le_nat (slice 6 10 header) = v"
    and "le_nat (slice 10 14 header) = m"
    and "checked_frame_len k v m = Some n" and "get_range bs p (p + n) = Some fb"
    and "le_nat (drop (n - CRC_SIZE) fb) = unat (crc32 H (slice 2 (n - CRC_SIZE) fb) 0)"
    and "slice HEADER_SIZE (n - CRC_SIZE) fb = payload"
  shows "read_frame_at H bs p =
    Some (\<lparr> frame_type = header ! 2, frame_key = take k payload,
            frame_value = slice k (k + v) payload,
            frame_meta = (if m > 0 then Some (drop (k + v) payload) else None),
            frame_expire_at = i64_of_bytes (slice 14 22 header) \<rparr>, n)"
  using assms by (simp add: read_frame_at_def Let_def)

lemma read_frame_at_suffix:
  "read_frame_at H (p @ bs) (length p + n) = read_frame_at H bs n"
proof -
  have "get_range (p @ bs) (length p + n) (length p + n + k) = get_range bs n (n + k)" for k
    using slice_shift [of p n "n + k" bs] by (simp add: get_range_def add.assoc)
  then show ?thesis unfolding read_frame_at_def by (simp only: )
qed

lemma read_frame_image:
  assumes "wf_frame f"
  shows "read_frame_at H (frame_image H f @ s) 0 = Some (f, frame_size f)"
proof -
  define k where "k = length (frame_key f)"
  define v where "v = length (frame_value f)"
  define meta where "meta = unwrap_or_default (frame_meta f)"
  define payload where "payload = frame_key f @ frame_value f @ meta"
  let ?img = "frame_image H f"
  let ?n = "frame_size f"
  have n: "?n = 26 + k + v + length meta"
    by (simp add: frame_size_def k_def v_def meta_def codec_consts)
  have hdr: "get_range (?img @ s) 0 (0 + HEADER_SIZE) = Some (take HEADER_SIZE ?img)"
    by (simp add: get_range_def n codec_consts)
  have frm: "get_range (?img @ s) 0 (0 + ?n) = Some ?img"
    by (simp add: get_range_def)
  have len: "checked_frame_len k v (length meta) = Some ?n"
    using assms
    by (subst checked_frame_len_small)
       (auto simp: wf_frame_def k_def v_def meta_def frame_size_def codec_consts)
  have nc: "?n - CRC_SIZE = length (MAGIC @ frame_body f)"
    by (simp add: n length_frame_body codec_consts)
  have crc: "drop (?n - CRC_SIZE) ?img = le_bytes 4 (unat (crc32 H (frame_body f) 0))"
    unfolding nc by (simp add: frame_image_def)
  have body: "slice 2 (?n - CRC_SIZE) ?img = frame_body f"
    unfolding nc by (simp add: frame_image_def MAGIC_def slice_def)
  have pl: "slice HEADER_SIZE (?n - CRC_SIZE) ?img = payload"
    by (simp add: frame_image_def frame_body_def Let_def n codec_consts slice_def payload_def
        meta_def k_def v_def)
  have stored: "le_nat (le_bytes 4 (unat (crc32 H (frame_body f) 0)))
      = unat (crc32 H (frame_body f) 0)"
    using unsigned_less [of "crc32 H (frame_body f) 0", where ?'a = nat]
    by (simp add: le_nat_le_bytes)
  have meta_eq: "(if 0 < length meta then Some (drop (k + v) payload) else None) = frame_meta f"
    using assms by (auto simp: payload_def meta_def k_def v_def wf_frame_def split: option.splits)
  have "read_frame_at H (?img @ s) 0 =
    Some (\<lparr> frame_type = take HEADER_SIZE ?img ! 2, frame_key = take k payload,
            frame_value = slice k (k + v) payload,
            frame_meta = (if length meta > 0 then Some (drop (k + v) payload) else None),
            frame_expire_at = i64_of_bytes (slice 14 22 (take HEADER_SIZE ?img)) \<rparr>, ?n)"
    by (rule read_frame_atI [OF hdr _ _ _ _ len frm])
       (simp_all only: header_fields [OF assms refl] k_def v_def meta_def crc body pl stored)
  then show ?thesis
    unfolding header_fields [OF assms refl] meta_eq
    by (simp add: payload_def k_def v_def slice_def)
qed


section \<open>Logs of whole and torn frames\<close>

definition log_image :: "'h hasher \<Rightarrow> frame list \<Rightarrow> bytes" where
  "log_image H fs = concat (map (frame_image H) fs)"

abbreviation log_size :: "frame list \<Rightarrow> nat" where
  "log_size fs \<equiv> sum_list (map frame_size fs)"

lemma log_image_simps [simp]:
  "log_image H [] = []"
  "log_image H (f # fs) = frame_image H f @ log_image H fs"
  "log_image H (fs @ gs) = log_image H fs @ log_image H gs"
  by (simp_all add: log_image_def)

lemma length_log_image [simp]: "length (log_image H fs) = log_size fs"
  by (induction fs) auto

text \<open>How many frames of a log lie wholly within its first \<open>n\<close> bytes.\<close>

fun whole :: "frame list \<Rightarrow> nat \<Rightarrow> nat" where
  "whole [] n = 0"
| "whole (f # fs) n = (if frame_size f \<le> n then Suc (whole fs (n - frame_size f)) else 0)"

lemma whole_le: "whole fs n \<le> length fs"
  by (induction fs n rule: whole.induct) auto

lemma whole_size: "log_size (take (whole fs n) fs) \<le> n"
  by (induction fs n rule: whole.induct) auto

lemma whole_next: "whole fs n < length fs \<Longrightarrow> n < log_size (take (Suc (whole fs n)) fs)"
  by (induction fs n rule: whole.induct) auto

lemma whole_drop: "whole (drop (whole fs n) fs) (n - log_size (take (whole fs n) fs)) = 0"
  by (induction fs n rule: whole.induct) auto

lemma whole_all: "log_size fs \<le> n \<Longrightarrow> whole fs n = length fs"
  by (induction fs n rule: whole.induct) auto

lemma whole_eq_0: "whole fs n = 0 \<longleftrightarrow> (case fs of [] \<Rightarrow> True | f # _ \<Rightarrow> n < frame_size f)"
  by (cases fs) auto

text \<open>A proper prefix of the first frame of the rest of a log: what a crash leaves behind.\<close>

definition torn_of :: "'h hasher \<Rightarrow> frame list \<Rightarrow> bytes \<Rightarrow> bool" where
  "torn_of H fs t \<longleftrightarrow> t = take (length t) (log_image H fs) \<and> whole fs (length t) = 0"

lemma log_prefix_split:
  "take n (log_image H fs) =
     log_image H (take (whole fs n) fs)
     @ take (n - log_size (take (whole fs n) fs)) (log_image H (drop (whole fs n) fs))"
  by (induction fs n rule: whole.induct) (auto simp: not_le)

lemma torn_ofE:
  assumes "torn_of H fs t"
  obtains "t = []" | f gs where "fs = f # gs" "t = take (length t) (frame_image H f)"
    "length t < frame_size f"
proof (cases fs)
  case Nil
  with assms show ?thesis by (auto simp: torn_of_def intro: that(1))
next
  case (Cons f gs)
  with assms have "length t < frame_size f" by (simp add: torn_of_def split: if_splits)
  with assms Cons have "t = take (length t) (frame_image H f)"
    by (simp add: torn_of_def)
  with Cons \<open>length t < frame_size f\<close> show ?thesis by (intro that(2))
qed

lemma take_header_torn:
  assumes "t = take (length t) img" and "HEADER_SIZE \<le> length t"
  shows "take HEADER_SIZE t = take HEADER_SIZE img"
  using assms by (metis min.absorb1 take_take)

lemma read_torn:
  assumes "wf_frame f" and "t = take (length t) (frame_image H f)" and "length t < frame_size f"
  shows "read_frame_at H t 0 = None"
proof (cases "HEADER_SIZE \<le> length t")
  case True
  have "get_range t 0 (0 + HEADER_SIZE) = Some (take HEADER_SIZE (frame_image H f))"
    using True take_header_torn [OF assms(2) True] by (simp add: get_range_def)
  moreover have "checked_frame_len (length (frame_key f)) (length (frame_value f))
      (length (unwrap_or_default (frame_meta f))) = Some (frame_size f)"
    using assms(1)
    by (subst checked_frame_len_small) (auto simp: wf_frame_def frame_size_def codec_consts)
  moreover have "get_range t 0 (0 + frame_size f) = None"
    using assms(3) by (simp add: get_range_def)
  ultimately show ?thesis
    by (simp add: read_frame_at_def header_fields [OF assms(1) refl] Let_def)
next
  case False
  then show ?thesis by (simp add: read_frame_at_def get_range_def)
qed

lemma read_torn_log:
  assumes "torn_of H fs t" and "\<forall>f \<in> set fs. wf_frame f"
  shows "read_frame_at H (p @ t) (length p) = None"
proof -
  have "read_frame_at H t 0 = None"
    using assms(1)
  proof (cases rule: torn_ofE)
    case 1
    then show ?thesis by (simp add: read_frame_at_def get_range_def codec_consts)
  next
    case (2 f gs)
    with assms(2) show ?thesis by (auto intro: read_torn)
  qed
  then show ?thesis using read_frame_at_suffix [of H p t 0] by simp
qed

lemma parse_loop_log:
  assumes "\<forall>f \<in> set fs. wf_frame f"
  shows "parse_loop H (p @ log_image H fs @ t) mode (length p) frs rs =
         parse_loop H (p @ log_image H fs @ t) mode (length p + log_size fs) (frs @ fs) rs"
  using assms
proof (induction fs arbitrary: p frs)
  case (Cons f fs)
  let ?bs = "p @ log_image H (f # fs) @ t"
  have "read_frame_at H ?bs (length p) = Some (f, frame_size f)"
    using read_frame_at_suffix [of H p "log_image H (f # fs) @ t" 0] Cons.prems
    by (simp add: read_frame_image)
  moreover have "length p < length ?bs" using frame_size_pos [of f] by simp
  ultimately have "parse_loop H ?bs mode (length p) frs rs =
      parse_loop H ?bs mode (length p + frame_size f) (frs @ [f]) rs"
    by (subst parse_loop.simps) simp
  also have "\<dots> = parse_loop H ?bs mode (length p + log_size (f # fs)) (frs @ f # fs) rs"
    using Cons.IH [of "p @ frame_image H f" "frs @ [f]"] Cons.prems by (simp add: add.assoc)
  finally show ?case .
qed simp

lemma parse_buffer_log_tail:
  assumes "\<forall>f \<in> set fs. wf_frame f"
  shows "parse_buffer H (log_image H fs @ t) mode =
         parse_loop H (log_image H fs @ t) mode (log_size fs) fs []"
  using parse_loop_log [OF assms, of H "[]" t mode "[]" "[]"] by (simp add: parse_buffer_def)

text \<open>
  C34. Round trip of the frame format: a frame the format can represent, written by
  \<open>encode_frame\<close> anywhere in a buffer, is read back by \<open>read_frame_at\<close> at that position,
  unchanged and with its exact length, whatever bytes surround it and for every CRC
  implementation.
\<close>

theorem encode_read_roundtrip:
  assumes "wf_frame f" and "encode_frame H f = Inr bs"
  shows "read_frame_at H (before @ bs @ after) (length before) = Some (f, length bs)"
proof -
  from assms have "bs = frame_image H f"
    by (auto simp: encode_frame_def split: if_splits)
  with assms(1) show ?thesis
    using read_frame_at_suffix [of H before "bs @ after" 0] by (simp add: read_frame_image)
qed


lemma parse_loop_end:
  "parse_loop H bs mode (length bs) frs rs =
     \<lparr> pr_frames = frs, pr_corrupt_ranges = rs, pr_eof_offset = length bs \<rparr>"
  by (simp add: parse_loop.simps)

text \<open>
  A log of encoded frames parses back to exactly those frames, in order, with no
  corrupt range and the end of file at the end of the log, in both corruption modes.
\<close>

lemma parse_buffer_log:
  assumes "\<forall>f \<in> set fs. wf_frame f"
  shows "parse_buffer H (log_image H fs) mode =
    \<lparr> pr_frames = fs, pr_corrupt_ranges = [], pr_eof_offset = log_size fs \<rparr>"
  using parse_buffer_log_tail [OF assms, of H "[]" mode]
    parse_loop_end [of H "log_image H fs" mode fs "[]"] by simp

lemma parse_buffer_strict_torn:
  assumes "\<forall>f \<in> set fs. wf_frame f" and "\<forall>f \<in> set gs. wf_frame f" and "torn_of H gs t"
  shows "parse_buffer H (log_image H fs @ t) Strict =
    \<lparr> pr_frames = fs,
      pr_corrupt_ranges = (if t = [] then [] else [(log_size fs, log_size fs + length t)]),
      pr_eof_offset = log_size fs \<rparr>"
proof -
  have "read_frame_at H (log_image H fs @ t) (log_size fs) = None"
    using read_torn_log [OF assms(3,2), of "log_image H fs"] by simp
  then show ?thesis
    unfolding parse_buffer_log_tail [OF assms(1)]
    by (subst parse_loop.simps) simp
qed

lemma cut_torn:
  fixes n :: nat and fs :: "frame list" and H :: "'h hasher"
  defines "k \<equiv> whole fs n"
  defines "t \<equiv> take (n - log_size (take k fs)) (log_image H (drop k fs))"
  shows "torn_of H (drop k fs) t"
proof -
  have "t = take (length t) (log_image H (drop k fs))"
    by (metis length_take append_eq_conv_conj append_take_drop_id t_def)
  moreover have "whole (drop k fs) (length t) = 0"
  proof (cases "n - log_size (take k fs) \<le> log_size (drop k fs)")
    case True
    then show ?thesis using whole_drop [of fs n] by (simp add: t_def k_def)
  next
    case False
    then have "whole (drop k fs) (n - log_size (take k fs)) = length (drop k fs)"
      by (intro whole_all) simp
    with whole_drop [of fs n] have "drop k fs = []" by (simp add: k_def)
    then show ?thesis by simp
  qed
  ultimately show ?thesis by (simp add: torn_of_def)
qed

lemma parse_strict_cut:
  fixes n :: nat and fs :: "frame list" and H :: "'h hasher"
  assumes "\<forall>f \<in> set fs. wf_frame f"
  defines "k \<equiv> whole fs n"
  defines "crashed \<equiv> take n (log_image H fs)"
  shows "parse_buffer H crashed Strict =
    \<lparr> pr_frames = take k fs,
      pr_corrupt_ranges = (if log_size (take k fs) = length crashed then []
                           else [(log_size (take k fs), length crashed)]),
      pr_eof_offset = log_size (take k fs) \<rparr>"
proof -
  define t where "t = take (n - log_size (take k fs)) (log_image H (drop k fs))"
  have crashed: "crashed = log_image H (take k fs) @ t"
    using log_prefix_split [of n H fs] by (simp add: crashed_def t_def k_def)
  have "torn_of H (drop k fs) t" unfolding t_def k_def by (rule cut_torn)
  with assms(1) have "parse_buffer H crashed Strict =
    \<lparr> pr_frames = take k fs,
      pr_corrupt_ranges = (if t = [] then [] else
        [(log_size (take k fs), log_size (take k fs) + length t)]),
      pr_eof_offset = log_size (take k fs) \<rparr>"
    unfolding crashed
    by (intro parse_buffer_strict_torn [where gs = "drop k fs"]) (auto dest: in_set_takeD in_set_dropD)
  moreover have "length crashed = log_size (take k fs) + length t" by (simp add: crashed)
  ultimately show ?thesis by auto
qed

text \<open>
  C17. Crash safety of the strict parser: cut the log of \<open>fs\<close> after any number \<open>n\<close> of bytes,
  as a crash during a write does. Strict parsing returns exactly the frames that lie
  wholly before the cut, the end of file is the end of the last of them, and the torn
  remainder, if any, is the one reported corrupt range.
\<close>

theorem parse_buffer_strict_prefix:
  fixes n :: nat and fs :: "frame list" and H :: "'h hasher"
  assumes "\<forall>f \<in> set fs. wf_frame f"
  defines "k \<equiv> whole fs n"
  defines "crashed \<equiv> take n (log_image H fs)"
  shows "parse_buffer H crashed Strict =
    \<lparr> pr_frames = take k fs,
      pr_corrupt_ranges = (if log_size (take k fs) = length crashed then []
                           else [(log_size (take k fs), length crashed)]),
      pr_eof_offset = log_size (take k fs) \<rparr>"
  unfolding k_def crashed_def by (rule parse_strict_cut [OF assms(1)])

section \<open>Every byte is accounted for\<close>

abbreviation lost :: "(nat \<times> nat) list \<Rightarrow> nat" where
  "lost rs \<equiv> sum_list (map (\<lambda>(s, e). e - s) rs)"

lemma read_frame_at_size:
  assumes "read_frame_at H bs p = Some (f, n)"
  shows "n = frame_size f"
proof -
  from assms obtain header fb k v m where
    h: "get_range bs p (p + HEADER_SIZE) = Some header"
    and n: "checked_frame_len k v m = Some n"
    and fb: "get_range bs p (p + n) = Some fb"
    and f: "f = \<lparr> frame_type = header ! 2, frame_key = take k (slice HEADER_SIZE (n - CRC_SIZE) fb),
                frame_value = slice k (k + v) (slice HEADER_SIZE (n - CRC_SIZE) fb),
                frame_meta = (if m > 0 then Some (drop (k + v) (slice HEADER_SIZE (n - CRC_SIZE) fb))
                              else None),
                frame_expire_at = i64_of_bytes (slice 14 22 header) \<rparr>"
    by (auto simp: read_frame_at_def Let_def split: bind_splits if_splits)
  have nn: "n = HEADER_SIZE + k + v + m + CRC_SIZE" using n by (rule checked_frame_len_eq)
  have "length fb = n" using fb by (auto simp: get_range_def slice_def split: if_splits)
  with nn have "length (slice HEADER_SIZE (n - CRC_SIZE) fb) = k + v + m"
    by (simp add: slice_def)
  then show ?thesis
    by (simp add: f frame_size_def nn slice_def)
qed

lemma parse_loop_accounts:
  assumes "log_size frs + lost rs = position" and "position \<le> length bs"
    and "\<forall>f \<in> set frs. \<exists>p. read_frame_at H bs p = Some (f, frame_size f)"
  shows "log_size (pr_frames (parse_loop H bs mode position frs rs))
           + lost (pr_corrupt_ranges (parse_loop H bs mode position frs rs)) = length bs
         \<and> (\<forall>f \<in> set (pr_frames (parse_loop H bs mode position frs rs)).
              \<exists>p. read_frame_at H bs p = Some (f, frame_size f))"
  using assms
proof (induction H bs mode position frs rs rule: parse_loop.induct)
  case (1 H bs mode position frs rs)
  note unfold = parse_loop.simps [of H bs mode position frs rs]
  show ?case
  proof (cases "position < length bs")
    case True
    show ?thesis
    proof (cases "read_frame_at H bs position")
      case (Some fn)
      then obtain f n where fn: "read_frame_at H bs position = Some (f, n)" by (cases fn) auto
      have n: "n = frame_size f" and "position + n \<le> length bs"
        using read_frame_at_size [OF fn] read_frame_at_len [OF fn] by auto
      have step: "parse_loop H bs mode position frs rs =
          parse_loop H bs mode (position + n) (frs @ [f]) rs"
        unfolding unfold using True fn by simp
      have "\<forall>g \<in> set (frs @ [f]). \<exists>p. read_frame_at H bs p = Some (g, frame_size g)"
        using 1(5) fn n by auto
      moreover have "log_size (frs @ [f]) + lost rs = position + n" using 1(3) n by simp
      ultimately show ?thesis
        unfolding step using 1(2) [OF True fn refl] \<open>position + n \<le> length bs\<close> by blast
    next
      case None
      show ?thesis
      proof (cases "mode = Resync \<and> resync_scan H bs (position + 1) \<noteq> None")
        case True': True
        then obtain r where r: "resync_scan H bs (position + 1) = Some r" by auto
        then have "position + 1 \<le> r" "r < length bs" using resync_scan_ge by blast+
        have step: "parse_loop H bs mode position frs rs =
            parse_loop H bs mode r frs (rs @ [(position, r)])"
          unfolding unfold using True None True' r by simp
        have "log_size frs + lost (rs @ [(position, r)]) = r"
          using 1(3) \<open>position + 1 \<le> r\<close> by simp
        then show ?thesis
          unfolding step using 1(1) [OF True None _ r] True' 1(5) \<open>r < length bs\<close>
          by (simp add: less_imp_le)
      next
        case False
        with True None 1(3-5) show ?thesis
          unfolding unfold by (cases mode) (auto split: option.splits)
      qed
    qed
  next
    case False
    with 1(3-5) show ?thesis unfolding unfold by auto
  qed
qed

text \<open>
  Nothing is lost silently and nothing is invented, in either mode and on any input:
  the sizes of the frames returned and the lengths of the reported corrupt ranges add up
  to the length of the buffer, and each returned frame is one \<open>read_frame_at\<close> validates
  (length and checksum included) at some position of that buffer.
\<close>

lemma parse_buffer_accounts:
  "log_size (pr_frames (parse_buffer H bs mode)) + lost (pr_corrupt_ranges (parse_buffer H bs mode))
     = length bs
   \<and> (\<forall>f \<in> set (pr_frames (parse_buffer H bs mode)).
        \<exists>p. read_frame_at H bs p = Some (f, frame_size f))"
  using parse_loop_accounts [of "[]" "[]" 0 bs H mode] by (auto simp: parse_buffer_def)


section \<open>Chunk independence of the incremental parser\<close>

text \<open>Feeding a list of chunks, stopping at the first error.\<close>

fun feed_all ::
  "'h hasher \<Rightarrow> frame_parser \<Rightarrow> bytes list \<Rightarrow> (codec_error + frame list) \<times> frame_parser" where
  "feed_all H parser [] = (Inr [], parser)"
| "feed_all H parser (chunk # chunks) =
     (case feed H parser chunk of
        (Inl e, parser') \<Rightarrow> (Inl e, parser')
      | (Inr fs, parser') \<Rightarrow>
          (case feed_all H parser' chunks of
             (Inl e, parser'') \<Rightarrow> (Inl e, parser'')
           | (Inr gs, parser'') \<Rightarrow> (Inr (fs @ gs), parser'')))"

lemma feed_loop_torn:
  assumes "torn_of H gs t" and "\<forall>f \<in> set gs. wf_frame f"
  shows "feed_loop H (p @ t) (length p) off acc = (Inr (acc, length p), off)"
proof (cases "length t < HEADER_SIZE")
  case True
  then show ?thesis by (subst feed_loop.simps) simp
next
  case False
  from assms(1) obtain f fs where gs: "gs = f # fs"
    and t: "t = take (length t) (frame_image H f)" and short: "length t < frame_size f"
    using False by (cases rule: torn_ofE) (auto simp: codec_consts)
  with assms(2) have wf: "wf_frame f" by simp
  define header where "header = take HEADER_SIZE (frame_image H f)"
  have th: "take HEADER_SIZE t = header"
    unfolding header_def using False by (intro take_header_torn [OF t]) simp
  have sl: "slice (length p + a) (length p + b) (p @ t) = slice a b header" if "b \<le> 22" for a b
    using that False th by (auto simp: slice_shift slice_def codec_consts take_drop min_def)
  have "checked_frame_len (length (frame_key f)) (length (frame_value f))
      (length (unwrap_or_default (frame_meta f))) = Some (frame_size f)"
    using wf by (subst checked_frame_len_small) (auto simp: wf_frame_def frame_size_def codec_consts)
  then show ?thesis
    using False short header_fields [OF wf header_def] sl [of 2 0]
    by (subst feed_loop.simps) (simp add: sl)
qed

lemma feed_loop_log:
  assumes "\<forall>f \<in> set fs. wf_frame f"
  shows "feed_loop H (p @ log_image H fs @ t) (length p) off acc =
         feed_loop H (p @ log_image H fs @ t) (length p + log_size fs) (off + log_size fs) (acc @ fs)"
  using assms
proof (induction fs arbitrary: p off acc)
  case (Cons f fs)
  let ?rest = "log_image H fs @ t"
  let ?bs = "p @ frame_image H f @ ?rest"
  have wf: "wf_frame f" using Cons.prems by simp
  have rd: "read_frame_at H ?bs (length p) = Some (f, frame_size f)"
    using read_frame_at_suffix [of H p "frame_image H f @ ?rest" 0] wf
    by (simp add: read_frame_image)
  define header where "header = take HEADER_SIZE (frame_image H f)"
  have sl: "slice (length p + a) (length p + b) ?bs = slice a b header" if "b \<le> 22" for a b
    using that frame_size_pos [of f]
    by (auto simp: slice_shift slice_def header_def codec_consts take_drop min_def)
  have len: "checked_frame_len (length (frame_key f)) (length (frame_value f))
      (length (unwrap_or_default (frame_meta f))) = Some (frame_size f)"
    using wf by (subst checked_frame_len_small) (auto simp: wf_frame_def frame_size_def codec_consts)
  have "feed_loop H ?bs (length p) off acc =
        feed_loop H ?bs (length p + frame_size f) (off + frame_size f) (acc @ [f])"
    using header_fields [OF wf header_def] sl [of 2 0] frame_size_pos [of f] len rd
    by (subst feed_loop.simps) (simp add: sl codec_consts)
  then show ?case
    using Cons.IH [of "p @ frame_image H f" "off + frame_size f" "acc @ [f]"] Cons.prems
    by (simp add: add.assoc)
qed simp

lemma feed_log:
  assumes "\<forall>f \<in> set fs. wf_frame f" and "\<forall>f \<in> set gs. wf_frame f" and "torn_of H gs t"
    and "fp_pending parser @ chunk = log_image H fs @ t"
  shows "feed H parser chunk =
    (Inr fs, \<lparr> fp_pending = t, fp_offset = fp_offset parser + log_size fs \<rparr>)"
  using feed_loop_log [OF assms(1), of H "[]" t "fp_offset parser" "[]"]
    feed_loop_torn [OF assms(3,2), of "log_image H fs"]
  by (simp add: feed_def assms(4))

lemma feed_all_log:
  assumes "\<forall>f \<in> set fs. wf_frame f" and "fp_pending parser @ concat chunks = log_image H fs"
    and "whole fs (length (fp_pending parser)) = 0"
  shows "feed_all H parser chunks =
    (Inr fs, \<lparr> fp_pending = [], fp_offset = fp_offset parser + log_size fs \<rparr>)"
  using assms
proof (induction chunks arbitrary: parser fs)
  case Nil
  then have "fs = []" by (cases fs) (auto split: if_splits)
  with Nil show ?case by (cases parser) simp
next
  case (Cons chunk chunks)
  define n where "n = length (fp_pending parser @ chunk)"
  define k where "k = whole fs n"
  define t where "t = take (n - log_size (take k fs)) (log_image H (drop k fs))"
  have pre: "fp_pending parser @ chunk = take n (log_image H fs)"
    unfolding n_def Cons.prems(2) [symmetric] by simp
  then have split: "fp_pending parser @ chunk = log_image H (take k fs) @ t"
    using log_prefix_split [of n H fs] by (simp add: t_def k_def)
  then have lt: "length t = n - log_size (take k fs)" by (simp add: n_def)
  have torn: "torn_of H (drop k fs) t"
    unfolding torn_of_def lt using whole_drop [of fs n] by (simp add: t_def k_def)
  have wf: "\<forall>f \<in> set (take k fs). wf_frame f" "\<forall>f \<in> set (drop k fs). wf_frame f"
    using Cons.prems(1) by (auto dest: in_set_takeD in_set_dropD)
  let ?parser = "\<lparr> fp_pending = t, fp_offset = fp_offset parser + log_size (take k fs) \<rparr>"
  have feed: "feed H parser chunk = (Inr (take k fs), ?parser)"
    using feed_log [OF wf torn split] .
  have "log_image H (take k fs) @ t @ concat chunks = log_image H (take k fs) @ log_image H (drop k fs)"
    using Cons.prems(2) split by (simp flip: append_assoc log_image_simps(3))
  then have "feed_all H ?parser chunks =
      (Inr (drop k fs), \<lparr> fp_pending = [], fp_offset = fp_offset ?parser + log_size (drop k fs) \<rparr>)"
    using wf(2) torn by (intro Cons.IH) (simp_all add: torn_of_def)
  moreover have "log_size (take k fs) + log_size (drop k fs) = log_size fs"
    by (metis append_take_drop_id map_append sum_list_append)
  ultimately show ?case by (simp add: feed)
qed

text \<open>
  The incremental parser does not depend on how the stream is cut: feeding a log of
  encoded frames in any chunks at all, down to single bytes, returns exactly those frames,
  leaves nothing pending, and \<open>finish\<close> then reports the length of the log.
\<close>

lemma feed_chunk_independent:
  assumes "\<forall>f \<in> set fs. wf_frame f" and "concat chunks = log_image H fs"
  shows "feed_all H frame_parser_new chunks =
      (Inr fs, \<lparr> fp_pending = [], fp_offset = log_size fs \<rparr>)
    \<and> fst (finish (snd (feed_all H frame_parser_new chunks))) = Inr (log_size fs)"
proof -
  have "whole fs 0 = 0"
    using frame_size_pos by (cases fs) (auto, metis less_le_trans zero_less_numeral not_less0)
  then have "feed_all H frame_parser_new chunks =
      (Inr fs, \<lparr> fp_pending = [], fp_offset = log_size fs \<rparr>)"
    using feed_all_log [of fs frame_parser_new chunks H] assms by (simp add: frame_parser_new_def)
  then show ?thesis by (simp add: finish_def)
qed

section \<open>Batch payloads\<close>

definition wf_batch_op :: "batch_op \<Rightarrow> bool" where
  "wf_batch_op operation \<longleftrightarrow> length (op_key operation) \<le> MAX_KEY_LEN
     \<and> (\<exists>v. op_value operation = Some v \<and> length v < 2 ^ 32)
     \<and> length (unwrap_or_default (op_meta operation)) < 2 ^ 32 \<and> op_meta operation \<noteq> Some []
     \<and> is_i64 (op_expire_at operation)"

lemma decode_batch_loop_Suc:
  assumes "get_range body off (off + SUB_HEADER_SIZE) = Some header"
    and "start = off + SUB_HEADER_SIZE"
    and "le_nat (slice 1 3 header) = k" and "le_nat (slice 3 7 header) = v"
    and "le_nat (slice 7 11 header) = m"
    and "start + k + v + m \<le> length body" and "start + k + v + m < 2 ^ 64"
  shows "decode_batch_loop body off (Suc n) =
    (case decode_batch_loop body (start + k + v + m) n of
       Inl e \<Rightarrow> Inl e
     | Inr operations \<Rightarrow>
         Inr (\<lparr> op_type = header ! 0, op_key = slice start (start + k) body,
                op_value = Some (slice (start + k) (start + k + v) body),
                op_meta = (if m > 0 then Some (slice (start + k + v) (start + k + v + m) body)
                           else None),
                op_expire_at = i64_of_bytes (slice 11 19 header) \<rparr> # operations))"
  using assms(1,3-) unfolding assms(2) by (simp add: Let_def checked_add_def)

lemma decode_batch_step:
  assumes wf: "wf_batch_op operation"
    and small: "length pre + length (encode_batch_op operation) < 2 ^ 64"
  shows "decode_batch_loop (pre @ encode_batch_op operation @ suf) (length pre) (Suc n) =
    (case decode_batch_loop (pre @ encode_batch_op operation @ suf)
            (length pre + length (encode_batch_op operation)) n of
       Inl e \<Rightarrow> Inl e | Inr operations \<Rightarrow> Inr (operation # operations))"
proof -
  obtain v where v: "op_value operation = Some v" "length v < 2 ^ 32"
    using wf by (auto simp: wf_batch_op_def)
  define key where "key = op_key operation"
  define meta where "meta = unwrap_or_default (op_meta operation)"
  define header where "header = [op_type operation] @ le_bytes 2 (length key) @ le_bytes 4 (length v)
    @ le_bytes 4 (length meta) @ i64_bytes (op_expire_at operation)"
  let ?body = "pre @ encode_batch_op operation @ suf"
  have enc: "encode_batch_op operation = header @ key @ v @ meta"
    by (simp add: encode_batch_op_def Let_def v key_def meta_def header_def)
  have lh: "length header = SUB_HEADER_SIZE" by (simp add: header_def SUB_HEADER_SIZE_def)
  have sz: "length (encode_batch_op operation) = SUB_HEADER_SIZE + length key + length v + length meta"
    by (simp add: enc lh)
  have hdr: "get_range ?body (length pre) (length pre + SUB_HEADER_SIZE) = Some header"
    using slice_mid [of pre header "key @ v @ meta @ suf"] by (simp add: get_range_def enc lh)
  have fields: "header ! 0 = op_type operation" "le_nat (slice 1 3 header) = length key"
    "le_nat (slice 3 7 header) = length v" "le_nat (slice 7 11 header) = length meta"
    "i64_of_bytes (slice 11 19 header) = op_expire_at operation"
    using wf v(2)
    by (simp_all add: header_def slice_def le_nat_le_bytes wf_batch_op_def key_def meta_def
        MAX_KEY_LEN_def i64_roundtrip)
  define start where "start = length pre + SUB_HEADER_SIZE"
  have start: "start = length (pre @ header)" by (simp add: start_def lh)
  have sls: "slice start (start + length key) ?body = key"
    "slice (start + length key) (start + length key + length v) ?body = v"
    "slice (start + length key + length v) (start + length key + length v + length meta) ?body = meta"
    using slice_mid [of "pre @ header" key "v @ meta @ suf"]
      slice_mid [of "pre @ header @ key" v "meta @ suf"]
      slice_mid [of "pre @ header @ key @ v" meta suf]
    by (simp_all add: enc start add.assoc)
  have le: "start + length key + length v + length meta \<le> length ?body"
    by (simp add: sz start_def)
  have m: "(if 0 < length meta then Some meta else None) = op_meta operation"
    using wf by (auto simp: wf_batch_op_def meta_def split: option.splits)
  have op: "\<lparr> op_type = op_type operation, op_key = key, op_value = Some v,
      op_meta = op_meta operation, op_expire_at = op_expire_at operation \<rparr> = operation"
    by (simp add: key_def v(1) [symmetric])
  have "start + length key + length v + length meta < 2 ^ 64" using small by (simp add: sz start_def)
  from decode_batch_loop_Suc [OF hdr start_def fields(2-4) le this, of n]
  show ?thesis
    unfolding sls m fields op
    by (simp only: sz start_def add.assoc)
qed


lemma decode_batch_loop_encoded:
  assumes "\<forall>operation \<in> set operations. wf_batch_op operation"
    and "length (pre @ concat (map encode_batch_op operations)) < 2 ^ 64"
  shows "decode_batch_loop (pre @ concat (map encode_batch_op operations)) (length pre)
           (length operations) = Inr operations"
  using assms
proof (induction operations arbitrary: pre)
  case (Cons operation operations)
  have "decode_batch_loop ((pre @ encode_batch_op operation) @ concat (map encode_batch_op operations))
      (length (pre @ encode_batch_op operation)) (length operations) = Inr operations"
    using Cons.prems by (intro Cons.IH) simp_all
  then show ?case
    using decode_batch_step [of operation pre "concat (map encode_batch_op operations)"
        "length operations"] Cons.prems by simp
qed simp

text \<open>
  Round trip of batch payloads: what \<open>encode_batch_ops\<close> accepts is decoded by
  \<open>decode_batch_ops\<close> to the same operations in the same order.
\<close>

lemma batch_roundtrip:
  assumes "\<forall>operation \<in> set operations. wf_batch_op operation"
    and "encode_batch_ops operations = Inr body" and "length body < 2 ^ 64"
  shows "decode_batch_ops body = Inr operations"
proof -
  from assms(2) have body: "body = le_bytes 2 (length operations) @ concat (map encode_batch_op operations)"
    and n: "length operations \<le> 65535"
    by (auto simp: encode_batch_ops_def split: if_splits)
  have "le_nat (take 2 body) = length operations"
    using n by (simp add: body le_nat_le_bytes)
  moreover have "decode_batch_loop body 2 (length operations) = Inr operations"
    using decode_batch_loop_encoded [of operations "le_bytes 2 (length operations)"] assms(1,3)
    by (simp add: body)
  moreover have "2 \<le> length body" by (simp add: body)
  ultimately show ?thesis by (simp add: decode_batch_ops_def)
qed

section \<open>Resynchronisation inside a torn record\<close>

definition set_frame_holding :: "bytes \<Rightarrow> frame" where
  "set_frame_holding val = \<lparr> frame_type = TYPE_SET, frame_key = [], frame_value = val,
     frame_meta = None, frame_expire_at = 0 \<rparr>"

lemma le_bytes_0: "le_bytes k 0 = replicate k 0"
  by (induction k) auto

lemma le_bytes_small: "n < 256 \<Longrightarrow> le_bytes (Suc k) n = word_of_nat n # replicate k 0"
  by (simp add: le_bytes_0)

lemma set_frame_body:
  assumes "length val < 256"
  shows "frame_body (set_frame_holding val) =
    [1, 0, 0, 0, word_of_nat (length val), 0, 0, 0, 0, 0, 0, 0, 0, 0, 0, 0, 0, 0, 0, 0] @ val"
proof -
  have "replicate 8 (0 :: byte) = [0, 0, 0, 0, 0, 0, 0, 0]" and "replicate 2 (0 :: byte) = [0, 0]"
    and "replicate 3 (0 :: byte) = [0, 0, 0]" and "replicate 4 (0 :: byte) = [0, 0, 0, 0]"
    by (simp_all add: numeral_eq_Suc)
  moreover have "le_bytes 4 (length val) = word_of_nat (length val) # replicate 3 0"
    using le_bytes_small [OF assms, of 3] by simp
  ultimately show ?thesis
    by (simp add: frame_body_def set_frame_holding_def TYPE_SET_def le_bytes_0 i64_bytes_def)
qed

lemma resync_scan_short: "length bs \<le> scan + 25 \<Longrightarrow> resync_scan H bs scan = None"
proof (induction H bs scan rule: resync_scan.induct)
  case (1 H bs scan)
  have "read_frame_at H bs (scan + r) = None" for r
  proof (cases "read_frame_at H bs (scan + r)")
    case (Some fn)
    with read_frame_at_len [of H bs "scan + r" "fst fn" "snd fn"] 1(2)
    show ?thesis by (simp add: codec_consts)
  qed simp
  with 1 show ?case by (subst resync_scan.simps) (auto split: option.splits)
qed

text \<open>
  The default corruption mode can replay bytes that were never committed. Let a \<open>SET\<close>
  record whose value happens to hold an encoded frame \<open>g\<close> be torn by a crash just before
  its last byte. Strict parsing discards the torn record; \<open>Resync\<close>, which
  \<open>RecoveryOptions::new\<close> chooses, finds \<open>g\<close> inside the torn record's value and returns it
  as a frame of the log.
\<close>

lemma resync_replays_torn_value:
  fixes g :: frame and H :: "'h hasher"
  assumes "wf_frame g" and "frame_size g < 256"
  defines "f \<equiv> set_frame_holding (frame_image H g)"
  defines "torn \<equiv> take (frame_size f - 1) (frame_image H f)"
  shows "pr_frames (parse_buffer H torn Resync) = [g] \<and> pr_frames (parse_buffer H torn Strict) = []"
proof -
  define header where "header = [0x4d, 0x44, 1, 0, 0, 0, word_of_nat (frame_size g), 0, 0, 0,
    0, 0, 0, 0, 0, 0, 0, 0, 0, 0, 0, 0 :: byte]"
  define crc where "crc = le_bytes 4 (unat (crc32 H (frame_body f) 0))"
  define rest where "rest = take 3 crc"
  have wf: "wf_frame f"
    using assms(2) by (simp add: f_def set_frame_holding_def wf_frame_def is_i64_def)
  have img: "frame_image H f = header @ frame_image H g @ crc"
    unfolding frame_image_def [of H f] crc_def header_def
    using set_frame_body [of "frame_image H g"] assms(2) by (simp add: f_def MAGIC_def)
  have sz: "frame_size f = 26 + frame_size g"
    using arg_cong [OF img, of length] by (simp add: header_def crc_def)
  have lh: "length header = 22" by (simp add: header_def)
  have torn: "torn = header @ frame_image H g @ rest"
    by (simp add: torn_def img sz lh rest_def)
  have lr: "length rest = 3" by (simp add: rest_def crc_def)
  have r0: "read_frame_at H torn 0 = None"
    using wf by (rule read_torn) (simp_all add: torn_def sz)
  have rg: "read_frame_at H torn 22 = Some (g, frame_size g)"
    using read_frame_at_suffix [of H header "frame_image H g @ rest" 0] assms(1)
    by (simp add: torn lh read_frame_image)
  have mp: "magic_position (drop 1 torn) = Some 21"
    by (simp add: torn header_def frame_image_def MAGIC_def)
  have lt: "length torn = 25 + frame_size g" by (simp add: torn lh lr)
  have scan: "resync_scan H torn 1 = Some 22"
    using rg by (subst resync_scan.simps, subst mp) (simp add: lt)
  have rend: "read_frame_at H torn (22 + frame_size g) = None"
    using lr by (auto simp: read_frame_at_def get_range_def torn lh codec_consts)
  have "resync_scan H torn (22 + frame_size g + 1) = None"
    by (rule resync_scan_short) (simp add: torn lh lr)
  then have "pr_frames (parse_loop H torn Resync (22 + frame_size g) [g] [(0, 22)]) = [g]"
    using rend by (subst parse_loop.simps) simp
  moreover have "parse_buffer H torn Resync = parse_loop H torn Resync (22 + frame_size g) [g] [(0, 22)]"
    unfolding parse_buffer_def using r0 scan rg
    by (subst parse_loop.simps, simp add: torn lh lr, subst parse_loop.simps, simp add: torn lh lr)
  moreover have "pr_frames (parse_buffer H torn Strict) = []"
    unfolding parse_buffer_def using r0 by (subst parse_loop.simps) simp
  ultimately show ?thesis by simp
qed


section \<open>A concrete checksum, and witnesses\<close>

text \<open>
  The reflected CRC-32 of IEEE 802.3, which \<open>crc32fast\<close> computes, bit by bit. It
  instantiates the parameter \<open>H\<close> in the witnesses and in the interpretation of the
  checksum interface.
\<close>

unbundle bit_operations_syntax

fun crc_bits :: "nat \<Rightarrow> u32 \<Rightarrow> u32" where
  "crc_bits 0 r = r"
| "crc_bits (Suc n) r =
     crc_bits n (if bit r 0 then drop_bit 1 r XOR 0xEDB88320 else drop_bit 1 r)"

definition crc_byte :: "byte \<Rightarrow> u32 \<Rightarrow> u32" where
  "crc_byte b r = crc_bits 8 (r XOR ucast b)"

definition crc32_ieee :: "u32 hasher" where
  "crc32_ieee = \<lparr> new_with_initial = (\<lambda>previous. previous),
     hash_update = (\<lambda>s bs. NOT (fold crc_byte bs (NOT s))),
     hash_finalize = (\<lambda>s. s) \<rparr>"

definition sample_frame :: frame where
  "sample_frame = \<lparr> frame_type = TYPE_SET, frame_key = [102, 111, 111], frame_value = [98, 97, 114],
     frame_meta = Some [109], frame_expire_at = - 5 \<rparr>"

lemma sample_frame_wf: "wf_frame sample_frame"
  by (simp add: sample_frame_def wf_frame_def MAX_KEY_LEN_def is_i64_def)

lemma sample_frame_size: "frame_size sample_frame = 33"
  by (simp add: sample_frame_def frame_size_def codec_consts)

lemma crc32_ieee_check_value: "crc32 crc32_ieee (map of_char ''123456789'') 0 = 0xcbf43926"
  by code_simp

theorem encode_read_roundtrip_witness:
  "read_frame_at crc32_ieee ([7, 8] @ frame_image crc32_ieee sample_frame @ [9]) 2
     = Some (sample_frame, 33)"
  using encode_read_roundtrip [of sample_frame crc32_ieee "frame_image crc32_ieee sample_frame" "[7, 8]" "[9]"]
    sample_frame_wf sample_frame_size
  by (simp add: encode_frame_def sample_frame_def MAX_KEY_LEN_def numeral_2_eq_2)

theorem parse_buffer_strict_prefix_witness:
  "parse_buffer crc32_ieee (take 40 (log_image crc32_ieee [sample_frame, sample_frame])) Strict =
     \<lparr> pr_frames = [sample_frame], pr_corrupt_ranges = [(33, 40)], pr_eof_offset = 33 \<rparr>"
  using parse_buffer_strict_prefix [of "[sample_frame, sample_frame]" crc32_ieee 40]
    sample_frame_wf sample_frame_size by simp

definition sample_op :: batch_op where
  "sample_op = \<lparr> op_type = TYPE_SET, op_key = [97], op_value = Some [49], op_meta = Some [109],
     op_expire_at = 5 \<rparr>"

end
