(* ===== verification/CodecRefs.thy ===== *)
theory CodecRefs
  imports Codec
begin

text \<open>
  The part of \<open>codec.rs\<close> that scans frames in a file without loading their values:
  \<open>read_frame_ref_at\<close> checks a frame and keeps the offset of its value, with the checksum
  computed in chunks; \<open>find_magic\<close> searches the next magic through a fixed buffer;
  \<open>scan_frame_refs\<close> is the file counterpart of \<open>parse_buffer\<close>, and \<open>scan_batch_op_refs\<close>
  that of \<open>decode_batch_ops\<close>. A file is the byte list behind its descriptor. A positioned
  read past its end is the error of \<open>read_exact\<close>; other I/O errors of the operating system
  are outside the model. How many bytes one \<open>read\<close> call delivers is up to the operating
  system: it is the parameter \<open>rd\<close>.
\<close>

section \<open>Definitions\<close>

definition CRC_CHUNK_SIZE :: nat where "CRC_CHUNK_SIZE = 1048576"
definition MAGIC_SCAN_CHUNK_SIZE :: nat where "MAGIC_SCAN_CHUNK_SIZE = 1048576"

record frame_ref =
  fr_type :: byte
  fr_key :: bytes
  fr_meta :: "bytes option"
  fr_expire_at :: i64
  fr_frame_offset :: nat
  fr_value_offset :: nat
  fr_value_len :: nat
  fr_frame_len :: nat

record scan_result =
  sr_frames :: "frame_ref list"
  sr_corrupt_ranges :: "(nat \<times> nat) list"
  sr_eof_offset :: nat

record batch_op_ref =
  br_type :: byte
  br_key :: bytes
  br_meta :: "bytes option"
  br_expire_at :: i64
  br_value_offset :: nat
  br_value_len :: nat

text \<open>\<open>seek\<close> then \<open>read_exact\<close>: an empty read always succeeds.\<close>

definition read_exact_at :: "bytes \<Rightarrow> nat \<Rightarrow> nat \<Rightarrow> codec_error + bytes" where
  "read_exact_at content position n =
     (if n = 0 then Inr []
      else if position + n \<le> length content then Inr (slice position (position + n) content)
      else Inl CodecIo)"

text \<open>The checksum loop of \<open>read_frame_ref_at\<close>.\<close>

function checksum_loop :: "'h hasher \<Rightarrow> bytes \<Rightarrow> nat \<Rightarrow> nat \<Rightarrow> 'h \<Rightarrow> codec_error + 'h" where
  "checksum_loop H content position remaining state =
     (if remaining > 0 then
        let n = min remaining CRC_CHUNK_SIZE in
        (case read_exact_at content position n of
           Inl e \<Rightarrow> Inl e
         | Inr chunk \<Rightarrow>
             checksum_loop H content (position + n) (remaining - n) (hash_update H state chunk))
      else Inr state)"
  by pat_completeness auto
termination
  by (relation "measure (\<lambda>(H, content, position, remaining, state). remaining)")
     (auto simp: CRC_CHUNK_SIZE_def)

declare checksum_loop.simps [simp del]

definition read_frame_ref_at ::
  "'h hasher \<Rightarrow> bytes \<Rightarrow> nat \<Rightarrow> nat \<Rightarrow> codec_error + frame_ref option" where
  "read_frame_ref_at H content position file_size =
     (if file_size - position < HEADER_SIZE then Inr None else
      case read_exact_at content position HEADER_SIZE of Inl e \<Rightarrow> Inl e | Inr header \<Rightarrow>
      if take 2 header \<noteq> MAGIC then Inr None else
      let key_len = le_nat (slice 4 6 header);
          value_len = le_nat (slice 6 10 header);
          meta_len = le_nat (slice 10 14 header) in
      case checked_frame_len key_len value_len meta_len of None \<Rightarrow> Inr None | Some frame_len \<Rightarrow>
      if file_size - position < frame_len then Inr None else
      case checksum_loop H content (position + 2) (frame_len - CRC_SIZE - 2) (new_with_initial H 0) of
        Inl e \<Rightarrow> Inl e | Inr checksum \<Rightarrow>
      case read_exact_at content (position + frame_len - CRC_SIZE) CRC_SIZE of
        Inl e \<Rightarrow> Inl e | Inr stored \<Rightarrow>
      if le_nat stored \<noteq> unat (hash_finalize H checksum) then Inr None else
      let key_start = position + HEADER_SIZE;
          value_offset = key_start + key_len;
          meta_start = value_offset + value_len in
      case read_exact_at content key_start key_len of Inl e \<Rightarrow> Inl e | Inr key \<Rightarrow>
      case (if meta_len > 0 then map_sum id Some (read_exact_at content meta_start meta_len)
            else Inr None) of Inl e \<Rightarrow> Inl e | Inr meta \<Rightarrow>
      Inr (Some \<lparr> fr_type = header ! 2, fr_key = key, fr_meta = meta,
                  fr_expire_at = i64_of_bytes (slice 14 22 header),
                  fr_frame_offset = position, fr_value_offset = value_offset,
                  fr_value_len = value_len, fr_frame_len = frame_len \<rparr>))"

function find_magic :: "(nat \<Rightarrow> nat \<Rightarrow> nat) \<Rightarrow> bytes \<Rightarrow> nat \<Rightarrow> nat \<Rightarrow> nat option" where
  "find_magic rd content position file_size =
     (if position < file_size then
        let n = min (file_size - position) MAGIC_SCAN_CHUNK_SIZE;
            count = rd position n in
        if count = 0 then None else
        (case magic_position (slice position (position + count) content) of
           Some index \<Rightarrow> Some (position + index)
         | None \<Rightarrow>
             if count < length MAGIC then None
             else find_magic rd content (position + (count - (length MAGIC - 1))) file_size)
      else None)"
  by pat_completeness auto
termination
  by (relation "measure (\<lambda>(rd, content, position, file_size). file_size - position)")
     (auto simp: MAGIC_def)

declare find_magic.simps [simp del]

lemma find_magic_ge: "find_magic rd content position file_size = Some r \<Longrightarrow> position \<le> r"
proof (induction rd content position file_size rule: find_magic.induct)
  case (1 rd content position file_size)
  show ?case
    using 1(2) 1(1) [OF _ refl refl]
    by (subst (asm) find_magic.simps)
       (fastforce simp: Let_def split: if_splits option.splits)
qed

lemma find_magic_ge': "find_magic rd content position file_size = Some r \<Longrightarrow> \<not> r < position"
  using find_magic_ge by fastforce

text \<open>The inner loop of \<open>scan_frame_refs\<close>: the next candidate that holds a whole frame.\<close>

function rescan ::
  "'h hasher \<Rightarrow> (nat \<Rightarrow> nat \<Rightarrow> nat) \<Rightarrow> bytes \<Rightarrow> nat \<Rightarrow> nat \<Rightarrow> codec_error + nat option" where
  "rescan H rd content file_size scan =
     (if scan + 1 < file_size then
        (case find_magic rd content scan file_size of
           None \<Rightarrow> Inr None
         | Some candidate \<Rightarrow>
             (case read_frame_ref_at H content candidate file_size of
                Inl e \<Rightarrow> Inl e
              | Inr (Some _) \<Rightarrow> Inr (Some candidate)
              | Inr None \<Rightarrow> rescan H rd content file_size (candidate + 1)))
      else Inr None)"
  by pat_completeness auto
termination
  by (relation "measure (\<lambda>(H, rd, content, file_size, scan). file_size - scan)")
     (auto dest!: find_magic_ge)

declare rescan.simps [simp del]


lemma rescan_ge: "rescan H rd content file_size scan = Inr (Some r) \<Longrightarrow> scan \<le> r"
proof (induction H rd content file_size scan rule: rescan.induct)
  case (1 H rd content file_size scan)
  note unfold = rescan.simps [of H rd content file_size scan]
  show ?case
  proof (cases "scan + 1 < file_size \<and> find_magic rd content scan file_size \<noteq> None")
    case True
    then obtain c where c: "find_magic rd content scan file_size = Some c" by auto
    have "scan \<le> c" using c by (rule find_magic_ge)
    then show ?thesis
      using 1(2) 1(1) [OF _ c] True c
      by (simp add: unfold split: sum.splits option.splits)
  next
    case False
    then show ?thesis using 1(2) by (auto simp: unfold split: if_splits option.splits)
  qed
qed

lemma read_frame_ref_at_pos:
  assumes "read_frame_ref_at H content position file_size = Inr (Some r)"
  shows "0 < fr_frame_len r \<and> position < file_size"
  using assms
  by (auto simp: read_frame_ref_at_def Let_def codec_consts split: if_splits sum.splits option.splits
           dest!: checked_frame_len_eq)

function scan_loop ::
  "'h hasher \<Rightarrow> (nat \<Rightarrow> nat \<Rightarrow> nat) \<Rightarrow> bytes \<Rightarrow> corruption_mode \<Rightarrow> nat \<Rightarrow> frame_ref list
     \<Rightarrow> (nat \<times> nat) list \<Rightarrow> codec_error + scan_result"
where
  "scan_loop H rd content mode position frames corrupt_ranges =
     (let file_size = length content in
      if position < file_size then
        (case read_frame_ref_at H content position file_size of
           Inl e \<Rightarrow> Inl e
         | Inr (Some r) \<Rightarrow>
             scan_loop H rd content mode (position + fr_frame_len r) (frames @ [r]) corrupt_ranges
         | Inr None \<Rightarrow>
             if mode = Strict then
               Inr \<lparr> sr_frames = frames,
                     sr_corrupt_ranges = corrupt_ranges @ [(position, file_size)],
                     sr_eof_offset = position \<rparr>
             else
               (case rescan H rd content file_size (position + 1) of
                  Inl e \<Rightarrow> Inl e
                | Inr None \<Rightarrow>
                    Inr \<lparr> sr_frames = frames,
                          sr_corrupt_ranges = corrupt_ranges @ [(position, file_size)],
                          sr_eof_offset = position \<rparr>
                | Inr (Some resume) \<Rightarrow>
                    scan_loop H rd content mode resume frames
                      (corrupt_ranges @ [(position, resume)])))
      else Inr \<lparr> sr_frames = frames, sr_corrupt_ranges = corrupt_ranges,
                 sr_eof_offset = position \<rparr>)"
  by pat_completeness auto
termination
  by (relation "measure (\<lambda>(H, rd, content, mode, position, frames, ranges). length content - position)")
     (auto dest!: rescan_ge read_frame_ref_at_pos)

declare scan_loop.simps [simp del]

definition scan_frame_refs ::
  "'h hasher \<Rightarrow> (nat \<Rightarrow> nat \<Rightarrow> nat) \<Rightarrow> bytes \<Rightarrow> corruption_mode \<Rightarrow> nat \<Rightarrow> codec_error + scan_result"
where
  "scan_frame_refs H rd content mode start_offset = scan_loop H rd content mode start_offset [] []"

fun scan_batch_loop :: "bytes \<Rightarrow> nat \<Rightarrow> nat \<Rightarrow> nat \<Rightarrow> codec_error + batch_op_ref list" where
  "scan_batch_loop body body_offset offset 0 = Inr []"
| "scan_batch_loop body body_offset offset (Suc n) =
     (case get_range body offset (offset + SUB_HEADER_SIZE) of
        None \<Rightarrow> Inl BatchHeaderTruncated
      | Some header \<Rightarrow>
          let key_len = le_nat (slice 1 3 header);
              value_len = le_nat (slice 3 7 header);
              meta_len = le_nat (slice 7 11 header);
              expire = i64_of_bytes (slice 11 19 header);
              start = offset + SUB_HEADER_SIZE in
          (case do { a \<leftarrow> checked_add start key_len;
                     b \<leftarrow> checked_add a value_len;
                     c \<leftarrow> checked_add b meta_len;
                     if c \<le> length body then Some c else None } of
             None \<Rightarrow> Inl BatchPayloadTruncated
           | Some end_offset \<Rightarrow>
               let key = slice start (start + key_len) body;
                   value_offset = body_offset + start + key_len;
                   meta = (if meta_len > 0
                           then Some (slice (start + key_len + value_len)
                                        (start + key_len + value_len + meta_len) body)
                           else None);
                   operation = \<lparr> br_type = header ! 0, br_key = key, br_meta = meta,
                                  br_expire_at = expire, br_value_offset = value_offset,
                                  br_value_len = value_len \<rparr> in
               (case scan_batch_loop body body_offset end_offset n of
                  Inl e \<Rightarrow> Inl e
                | Inr operations \<Rightarrow> Inr (operation # operations))))"

definition scan_batch_op_refs :: "bytes \<Rightarrow> nat \<Rightarrow> codec_error + batch_op_ref list" where
  "scan_batch_op_refs body body_offset =
     (if length body < 2 then Inr []
      else scan_batch_loop body body_offset 2 (le_nat (take 2 body)))"

section \<open>The interfaces the scan relies on\<close>

lemma map_option_plus_0: "map_option ((+) (0::nat)) x = x"
  by (cases x) simp_all

lemma magic_position_append:
  "magic_position (xs @ ys) =
     (case magic_position xs of Some i \<Rightarrow> Some i
      | None \<Rightarrow> map_option (\<lambda>i. length xs - 1 + i)
                   (magic_position (drop (length xs - 1) xs @ ys)))"
proof (induction xs rule: magic_position.induct)
  case (1 a b rest)
  have "(\<lambda>x. Suc (length rest + x)) = (+) (Suc (length rest))" by auto
  with 1 show ?case by (auto simp: option.map_comp comp_def split: option.splits)
qed (simp_all add: map_option_plus_0)

text \<open>A hasher may be fed in pieces: the documented behaviour of \<open>Hasher::update\<close>.\<close>

locale crc_hasher =
  fixes H :: "'h hasher"
  assumes update_nil: "hash_update H s [] = s"
    and update_append: "hash_update H s (xs @ ys) = hash_update H (hash_update H s xs) ys"
begin

lemma slice_split: "n \<le> m \<Longrightarrow> slice p (p + m) xs = slice p (p + n) xs @ slice (p + n) (p + m) xs"
proof -
  assume n: "n \<le> m"
  have "take m ys = take n ys @ take (m - n) (drop n ys)" for ys :: "'a list"
    by (metis n le_add_diff_inverse take_add)
  then show ?thesis by (simp add: slice_def add.commute)
qed

lemma checksum_loop_eq:
  "position + remaining \<le> length content \<Longrightarrow>
   checksum_loop H content position remaining state =
     Inr (hash_update H state (slice position (position + remaining) content))"
proof (induction remaining arbitrary: position state rule: less_induct)
  case (less remaining)
  show ?case
  proof (cases "remaining = 0")
    case True
    then show ?thesis by (subst checksum_loop.simps) (simp add: slice_def update_nil)
  next
    case False
    define n where "n = min remaining CRC_CHUNK_SIZE"
    have n: "0 < n" "n \<le> remaining" using False by (auto simp: n_def CRC_CHUNK_SIZE_def)
    have rd: "read_exact_at content position n = Inr (slice position (position + n) content)"
      using n less.prems by (simp add: read_exact_at_def)
    have "checksum_loop H content (position + n) (remaining - n)
        (hash_update H state (slice position (position + n) content)) =
      Inr (hash_update H (hash_update H state (slice position (position + n) content))
            (slice (position + n) (position + n + (remaining - n)) content))"
      using n less.prems by (intro less.IH) auto
    also have "\<dots> = Inr (hash_update H state (slice position (position + remaining) content))"
      using n slice_split [OF n(2), of position content] by (simp add: update_append)
    finally show ?thesis
      using False rd by (subst checksum_loop.simps) (simp add: n_def [symmetric])
  qed
qed

end

text \<open>
  A \<open>read\<close> of a regular file delivers at most what was asked for, and, away from the end
  of the file, at least two bytes when two or more were asked for.
\<close>

locale file_reads =
  fixes rd :: "nat \<Rightarrow> nat \<Rightarrow> nat"
  assumes rd_le: "rd position n \<le> n"
    and rd_ge: "min n 2 \<le> rd position n"
begin

lemma find_magic_eq:
  "find_magic rd content position (length content) =
     map_option (\<lambda>i. position + i) (magic_position (drop position content))"
proof (induction "length content - position" arbitrary: position rule: less_induct)
  case less
  show ?case
  proof (cases "position < length content")
    case True
    define n where "n = min (length content - position) MAGIC_SCAN_CHUNK_SIZE"
    define count where "count = rd position n"
    have n: "0 < n" "position + n \<le> length content" using True by (auto simp: n_def MAGIC_SCAN_CHUNK_SIZE_def)
    have c: "0 < count" "count \<le> n" "min n 2 \<le> count"
      using n rd_le [of position n] rd_ge [of n position] by (auto simp: count_def)
    define buf where "buf = slice position (position + count) content"
    have split: "drop position content = buf @ drop (position + count) content"
      by (simp add: buf_def slice_def) (metis append_take_drop_id drop_drop add.commute)
    have lb: "length buf = count" using c n by (simp add: buf_def slice_def)
    have unf: "find_magic rd content position (length content) =
       (case magic_position buf of Some index \<Rightarrow> Some (position + index)
        | None \<Rightarrow> if count < 2 then None
                  else find_magic rd content (position + (count - 1)) (length content))"
      unfolding find_magic.simps [of rd content position "length content"] Let_def
        n_def [symmetric] count_def [symmetric] buf_def [symmetric]
      using True c by (simp add: MAGIC_def numeral_2_eq_2 split: option.split)
    show ?thesis
    proof (cases "magic_position buf")
      case (Some i)
      then show ?thesis by (simp add: unf split magic_position_append)
    next
      case None
      show ?thesis
      proof (cases "count < 2")
        case True
        with c n have "count = 1" "n = 1" by auto
        then have "drop position content = buf"
          using \<open>position < length content\<close> split lb by (auto simp: n_def MAGIC_SCAN_CHUNK_SIZE_def)
        with None True show ?thesis by (simp add: unf)
      next
        case False
        have dr: "drop (position + (count - 1)) content
            = drop (count - 1) buf @ drop (position + count) content"
          using arg_cong [OF split, of "drop (count - 1)"] lb by (simp add: add.commute)
        have ih: "find_magic rd content (position + (count - 1)) (length content) =
            map_option (\<lambda>i. position + (count - 1) + i)
              (magic_position (drop (position + (count - 1)) content))"
          using False True by (intro less) simp
        have "(\<lambda>x. position + (count - 1 + x)) = (+) (position + (count - 1))"
          by (simp add: fun_eq_iff)
        then show ?thesis
          unfolding unf ih dr split using None False
          by (simp only: magic_position_append [of buf] lb option.case option.map_comp comp_def
              if_False add.assoc)
      qed
    qed
  next
    case False
    then show ?thesis by (subst find_magic.simps) simp
  qed
qed

end


section \<open>The scan agrees with the buffer parser\<close>

text \<open>The reference a scan keeps for a frame, and the frame it stands for.\<close>

definition ref_of :: "nat \<Rightarrow> frame \<Rightarrow> frame_ref" where
  "ref_of p f = \<lparr> fr_type = frame_type f, fr_key = frame_key f, fr_meta = frame_meta f,
     fr_expire_at = frame_expire_at f, fr_frame_offset = p,
     fr_value_offset = p + HEADER_SIZE + length (frame_key f),
     fr_value_len = length (frame_value f), fr_frame_len = frame_size f \<rparr>"

definition materialize_ref :: "bytes \<Rightarrow> frame_ref \<Rightarrow> frame" where
  "materialize_ref content r = \<lparr> frame_type = fr_type r, frame_key = fr_key r,
     frame_value = slice (fr_value_offset r) (fr_value_offset r + fr_value_len r) content,
     frame_meta = fr_meta r, frame_expire_at = fr_expire_at r \<rparr>"

lemma read_exact_at_ok:
  "p + n \<le> length content \<Longrightarrow> read_exact_at content p n = Inr (slice p (p + n) content)"
  by (simp add: read_exact_at_def slice_def)

context crc_hasher
begin

text \<open>Both readers on a frame whose header reads and whose bytes are all in the file.\<close>

lemma read_frame_ref_whole:
  assumes inr: "\<not> length content - p < HEADER_SIZE"
    and hdr: "read_exact_at content p HEADER_SIZE = Inr header"
      "get_range content p (p + HEADER_SIZE) = Some header"
    and magic: "take 2 header = MAGIC"
    and k_def: "k = le_nat (slice 4 6 header)" and v_def: "v = le_nat (slice 6 10 header)"
    and m_def: "m = le_nat (slice 10 14 header)"
    and Some: "checked_frame_len k v m = Some n" and True: "p + n \<le> length content"
  shows "read_frame_ref_at H content p (length content) =
     Inr (map_option (\<lambda>(f, n). ref_of p f) (read_frame_at H content p))"
proof -
  have n: "n = HEADER_SIZE + k + v + m + CRC_SIZE" using Some by (rule checked_frame_len_eq)
  define fb where "fb = slice p (p + n) content"
  have nle: "n \<le> length content - p" using True by simp
  have gr: "get_range content p (p + n) = Some fb" using True by (simp add: get_range_def fb_def)
  have lfb: "length fb = n" using True by (simp add: fb_def slice_def)
  have sub: "slice a b fb = slice (p + a) (p + b) content" if "a \<le> b" "b \<le> n" for a b
    unfolding fb_def using that slice_slice [of p b "p + n" a] by simp
  define payload where "payload = slice HEADER_SIZE (n - CRC_SIZE) fb"
  define crc_ok where "crc_ok \<longleftrightarrow>
    le_nat (drop (n - CRC_SIZE) fb) = unat (crc32 H (slice 2 (n - CRC_SIZE) fb) 0)"
  have pl: "payload = slice (p + HEADER_SIZE) (p + (n - CRC_SIZE)) content"
    unfolding payload_def by (rule sub) (simp_all add: n)
  have stored: "drop (n - CRC_SIZE) fb = slice (p + n - CRC_SIZE) (p + n) content"
    using sub [of "n - CRC_SIZE" n] lfb by (simp add: n slice_def add.assoc)
  have body: "slice 2 (n - CRC_SIZE) fb = slice (p + 2) (p + 2 + (n - CRC_SIZE - 2)) content"
    using sub [of 2 "n - CRC_SIZE"] by (simp add: n codec_consts add.left_commute)
  have len: "length payload = k + v + m" using True by (simp add: pl slice_def n)
  have key: "take k payload = slice (p + HEADER_SIZE) (p + HEADER_SIZE + k) content"
    and meta: "drop (k + v) payload =
      slice (p + HEADER_SIZE + k + v) (p + HEADER_SIZE + k + v + m) content"
    by (simp_all add: pl slice_def n drop_take min_def add.commute add.left_commute)
  have pn: "p + n - CRC_SIZE + CRC_SIZE = p + n" by (simp add: n)
  have reads: "checksum_loop H content (p + 2) (n - CRC_SIZE - 2) (new_with_initial H 0) =
      Inr (hash_update H (new_with_initial H 0) (slice 2 (n - CRC_SIZE) fb))"
    "read_exact_at content (p + n - CRC_SIZE) CRC_SIZE = Inr (drop (n - CRC_SIZE) fb)"
    "read_exact_at content (p + HEADER_SIZE) k = Inr (take k payload)"
    "read_exact_at content (p + HEADER_SIZE + k + v) m = Inr (drop (k + v) payload)"
    unfolding body stored key meta
    using True read_exact_at_ok [of "p + n - CRC_SIZE" CRC_SIZE content, unfolded pn]
      checksum_loop_eq [of "p + 2" "n - CRC_SIZE - 2" content]
    by (simp_all add: read_exact_at_ok n codec_consts)
  have ref: "read_frame_ref_at H content p (length content) = Inr (if crc_ok then
      Some \<lparr> fr_type = header ! 2, fr_key = take k payload,
        fr_meta = (if m > 0 then Some (drop (k + v) payload) else None),
        fr_expire_at = i64_of_bytes (slice 14 22 header), fr_frame_offset = p,
        fr_value_offset = p + HEADER_SIZE + k, fr_value_len = v, fr_frame_len = n \<rparr>
      else None)"
    using inr magic Some nle reads
    by (simp add: read_frame_ref_at_def hdr k_def [symmetric] v_def [symmetric]
        m_def [symmetric] crc_ok_def crc32_def Let_def not_less)
  have rd: "read_frame_at H content p = (if crc_ok then
      Some (\<lparr> frame_type = header ! 2, frame_key = take k payload,
        frame_value = slice k (k + v) payload,
        frame_meta = (if m > 0 then Some (drop (k + v) payload) else None),
        frame_expire_at = i64_of_bytes (slice 14 22 header) \<rparr>, n) else None)"
    using magic Some True
    by (simp add: read_frame_at_def hdr k_def [symmetric] v_def [symmetric] m_def [symmetric]
        gr crc_ok_def payload_def Let_def)
  show ?thesis
    unfolding ref rd using len n by (simp add: ref_of_def frame_size_def slice_def)
qed

lemma read_frame_ref_eq:
  "read_frame_ref_at H content p (length content) =
     Inr (map_option (\<lambda>(f, n). ref_of p f) (read_frame_at H content p))"
proof (cases "length content - p < HEADER_SIZE")
  case True
  then have "\<not> p + HEADER_SIZE \<le> length content" by (auto simp: codec_consts)
  with True show ?thesis by (simp add: read_frame_ref_at_def read_frame_at_def get_range_def)
next
  case inr: False
  then have ph: "p + HEADER_SIZE \<le> length content" by (simp add: codec_consts)
  define header where "header = slice p (p + HEADER_SIZE) content"
  have hdr: "read_exact_at content p HEADER_SIZE = Inr header"
    "get_range content p (p + HEADER_SIZE) = Some header"
    using ph by (simp_all add: read_exact_at_def get_range_def header_def codec_consts)
  show ?thesis
  proof (cases "take 2 header = MAGIC")
    case False
    then show ?thesis using inr by (simp add: read_frame_ref_at_def read_frame_at_def hdr)
  next
    case magic: True
    define k where "k = le_nat (slice 4 6 header)"
    define v where "v = le_nat (slice 6 10 header)"
    define m where "m = le_nat (slice 10 14 header)"
    show ?thesis
    proof (cases "checked_frame_len k v m")
      case None
      then show ?thesis
        using inr magic by (simp add: read_frame_ref_at_def read_frame_at_def hdr k_def v_def m_def)
    next
      case (Some n)
      have n: "n = HEADER_SIZE + k + v + m + CRC_SIZE" using Some by (rule checked_frame_len_eq)
      show ?thesis
      proof (cases "p + n \<le> length content")
        case False
        then have "get_range content p (p + n) = None" and "length content - p < n"
          by (auto simp: get_range_def n codec_consts)
        then show ?thesis
          using inr magic Some
          by (simp add: read_frame_ref_at_def read_frame_at_def hdr k_def [symmetric]
              v_def [symmetric] m_def [symmetric] Let_def)
      next
        case True
        show ?thesis by (rule read_frame_ref_whole [OF inr hdr magic k_def v_def m_def Some True])
      qed
    qed
  qed
qed

end


lemma materialize_ref_of:
  assumes "read_frame_at H content p = Some (f, n)"
  shows "materialize_ref content (ref_of p f) = f"
proof -
  from assms obtain k v m where
    n: "checked_frame_len k v m = Some n" and pn: "p + n \<le> length content"
    and f: "frame_key f = take k (slice HEADER_SIZE (n - CRC_SIZE) (slice p (p + n) content))"
      "frame_value f = slice k (k + v) (slice HEADER_SIZE (n - CRC_SIZE) (slice p (p + n) content))"
    by (auto simp: read_frame_at_def get_range_def Let_def split: bind_splits if_splits)
  have nn: "n = HEADER_SIZE + k + v + m + CRC_SIZE" using n by (rule checked_frame_len_eq)
  have pl: "slice HEADER_SIZE (n - CRC_SIZE) (slice p (p + n) content)
      = slice (p + HEADER_SIZE) (p + (n - CRC_SIZE)) content"
    by (rule slice_slice) (simp_all add: nn)
  have "length (frame_key f) = k" "length (frame_value f) = v"
    using pn by (simp_all add: f pl slice_def nn)
  moreover have "slice (p + HEADER_SIZE + k) (p + HEADER_SIZE + k + v) content = frame_value f"
    unfolding f pl using slice_slice [of "p + HEADER_SIZE" "k + v" "p + (n - CRC_SIZE)" k content]
    by (simp add: nn add.assoc)
  ultimately show ?thesis by (simp add: materialize_ref_def ref_of_def)
qed

definition agrees :: "bytes \<Rightarrow> codec_error + scan_result \<Rightarrow> parse_result \<Rightarrow> bool" where
  "agrees content scanned parsed \<longleftrightarrow>
     (\<exists>r. scanned = Inr r \<and> map (materialize_ref content) (sr_frames r) = pr_frames parsed
        \<and> sr_corrupt_ranges r = pr_corrupt_ranges parsed
        \<and> sr_eof_offset r = pr_eof_offset parsed)"

locale frame_scanner = crc_hasher H + file_reads rd
  for H :: "'h hasher" and rd :: "nat \<Rightarrow> nat \<Rightarrow> nat"
begin

lemma rescan_eq:
  "rescan H rd content (length content) scan = Inr (resync_scan H content scan)"
proof (induction "length content - scan" arbitrary: scan rule: less_induct)
  case less
  show ?case
  proof (cases "scan + 1 < length content \<and> magic_position (drop scan content) \<noteq> None")
    case True
    then obtain i where i: "magic_position (drop scan content) = Some i" by auto
    have "rescan H rd content (length content) (scan + i + 1)
        = Inr (resync_scan H content (scan + i + 1))"
      using True by (intro less) auto
    then show ?thesis
      using True i
      by (simp add: rescan.simps [of H rd content "length content" scan]
          resync_scan.simps [of H content scan] find_magic_eq read_frame_ref_eq split: option.split)
  next
    case False
    then show ?thesis
      by (auto simp: rescan.simps [of H rd content "length content" scan]
          resync_scan.simps [of H content scan] find_magic_eq)
  qed
qed

lemma scan_loop_agrees:
  "map (materialize_ref content) refs = frs \<Longrightarrow>
   agrees content (scan_loop H rd content mode position refs rs)
     (parse_loop H content mode position frs rs)"
proof (induction "length content - position" arbitrary: position refs frs rs rule: less_induct)
  case less
  note unfolds = scan_loop.simps [of H rd content mode position refs rs]
    parse_loop.simps [of H content mode position frs rs]
  show ?case
  proof (cases "position < length content")
    case False
    with less.prems show ?thesis by (simp add: unfolds agrees_def)
  next
    case True
    show ?thesis
    proof (cases "read_frame_at H content position")
      case (Some fn)
      then obtain f n where fn: "read_frame_at H content position = Some (f, n)" by (cases fn) auto
      have n: "n = frame_size f" using fn by (rule read_frame_at_size)
      have "agrees content (scan_loop H rd content mode (position + n) (refs @ [ref_of position f]) rs)
          (parse_loop H content mode (position + n) (frs @ [f]) rs)"
        using less.prems True frame_size_pos [of f] n materialize_ref_of [OF fn]
        by (intro less.hyps) auto
      then show ?thesis
        using True fn n by (simp add: unfolds read_frame_ref_eq) (simp add: ref_of_def)
    next
      case None
      show ?thesis
      proof (cases "mode = Strict \<or> resync_scan H content (position + 1) = None")
        case True': True
        with True None less.prems show ?thesis
          by (auto simp: unfolds read_frame_ref_eq rescan_eq agrees_def)
      next
        case False
        then obtain r where r: "resync_scan H content (position + 1) = Some r" by auto
        then have "position < r" "r < length content" using resync_scan_ge by fastforce+
        then have "agrees content (scan_loop H rd content mode r refs (rs @ [(position, r)]))
            (parse_loop H content mode r frs (rs @ [(position, r)]))"
          using less.prems by (intro less.hyps) auto
        with True None False r show ?thesis
          by (simp add: unfolds read_frame_ref_eq rescan_eq)
      qed
    qed
  qed
qed

end

text \<open>The reads of a file system that always delivers what is asked for.\<close>

definition full_read :: "nat \<Rightarrow> nat \<Rightarrow> nat" where
  "full_read position n = n"

interpretation ieee: crc_hasher crc32_ieee
  by unfold_locales (simp_all add: crc32_ieee_def)

interpretation full: file_reads full_read
  by unfold_locales (simp_all add: full_read_def)

interpretation ieee_scan: frame_scanner crc32_ieee full_read ..




section \<open>Batch references agree with decoded batches\<close>

text \<open>A reference and an operation describe the same record of the payload \<open>body\<close>.\<close>

definition op_ref_matches :: "bytes \<Rightarrow> nat \<Rightarrow> batch_op_ref \<Rightarrow> batch_op \<Rightarrow> bool" where
  "op_ref_matches body body_offset r operation \<longleftrightarrow>
     br_type r = op_type operation \<and> br_key r = op_key operation \<and> br_meta r = op_meta operation
     \<and> br_expire_at r = op_expire_at operation
     \<and> body_offset \<le> br_value_offset r
     \<and> br_value_offset r - body_offset + br_value_len r \<le> length body
     \<and> op_value operation = Some (slice (br_value_offset r - body_offset)
           (br_value_offset r - body_offset + br_value_len r) body)"

definition same_outcome :: "('a \<Rightarrow> 'b \<Rightarrow> bool) \<Rightarrow> 'e + 'a list \<Rightarrow> 'e + 'b list \<Rightarrow> bool" where
  "same_outcome R x y = rel_sum (=) (list_all2 R) x y"

lemma scan_batch_loop_Suc:
  assumes "get_range body off (off + SUB_HEADER_SIZE) = Some header"
    and "start = off + SUB_HEADER_SIZE"
    and "le_nat (slice 1 3 header) = k" and "le_nat (slice 3 7 header) = v"
    and "le_nat (slice 7 11 header) = m"
    and "start + k + v + m \<le> length body" and "start + k + v + m < 2 ^ 64"
  shows "scan_batch_loop body base off (Suc n) =
    (case scan_batch_loop body base (start + k + v + m) n of
       Inl e \<Rightarrow> Inl e
     | Inr operations \<Rightarrow>
         Inr (\<lparr> br_type = header ! 0, br_key = slice start (start + k) body,
                br_meta = (if m > 0 then Some (slice (start + k + v) (start + k + v + m) body)
                           else None),
                br_expire_at = i64_of_bytes (slice 11 19 header),
                br_value_offset = base + start + k, br_value_len = v \<rparr> # operations))"
  using assms(1,3-) unfolding assms(2) by (simp add: Let_def checked_add_def)

lemma scan_batch_loop_matches:
  "same_outcome (op_ref_matches body body_offset)
     (scan_batch_loop body body_offset offset n) (decode_batch_loop body offset n)"
proof (induction n arbitrary: offset)
  case 0
  then show ?case by (simp add: same_outcome_def)
next
  case (Suc n)
  show ?case
  proof (cases "get_range body offset (offset + SUB_HEADER_SIZE)")
    case None
    then show ?thesis by (simp add: same_outcome_def)
  next
    case (Some header)
    define k where "k = le_nat (slice 1 3 header)"
    define v where "v = le_nat (slice 3 7 header)"
    define m where "m = le_nat (slice 7 11 header)"
    define start where "start = offset + SUB_HEADER_SIZE"
    show ?thesis
    proof (cases "do { a \<leftarrow> checked_add start k; b \<leftarrow> checked_add a v; c \<leftarrow> checked_add b m;
                      if c \<le> length body then Some c else None }")
      case None
      then show ?thesis
        using Some by (simp add: same_outcome_def k_def v_def m_def start_def)
    next
      case end_offset: (Some e)
      then have e: "e = start + k + v + m" "start + k + v + m \<le> length body"
        "start + k + v + m < 2 ^ 64"
        by (auto simp: checked_add_def split: bind_splits if_splits)
      note steps = scan_batch_loop_Suc [OF Some start_def _ _ _ e(2,3)]
        decode_batch_loop_Suc [OF Some start_def _ _ _ e(2,3)]
      show ?thesis
        using Suc [of e] e(2)
        unfolding steps [OF k_def [symmetric] v_def [symmetric] m_def [symmetric]] e(1)
        by (auto simp: same_outcome_def op_ref_matches_def add.assoc elim!: rel_sum.cases)
    qed
  qed
qed

text \<open>
  \<open>scan_batch_op_refs\<close> and \<open>decode_batch_ops\<close> agree on every payload: they fail with the
  same error, or succeed with the same operations, each reference locating inside the
  payload exactly the value bytes the decoder copies.
\<close>

lemma scan_batch_op_refs_agrees:
  "same_outcome (op_ref_matches body body_offset)
     (scan_batch_op_refs body body_offset) (decode_batch_ops body)"
  using scan_batch_loop_matches [of body body_offset 2]
  by (simp add: scan_batch_op_refs_def decode_batch_ops_def same_outcome_def)

end
