(* ===== verification/Query.thy ===== *)
theory Query
  imports Prelude "HOL-Library.Monad_Syntax"
begin

text \<open>
  Document paths and filters of \<open>query.rs\<close>. A JSON value keeps its numbers abstract: the type
  \<open>'n\<close> with the record \<open>numbers\<close> stands for \<open>serde_json::Number\<close> and \<open>f64\<close> (conversion,
  equality, partial order). Objects keep insertion order and compare as maps. The \<open>regex\<close> crate
  is the parameter \<open>rx\<close>: whether a pattern with its three flags compiles and matches a string.
\<close>

section \<open>JSON values\<close>

datatype 'n json =
    JNull
  | JBool bool
  | JNumber 'n
  | JString str
  | JArray "'n json list"
  | JObject "(str \<times> 'n json) list"

record ('n, 'f) numbers =
  num_as_f64 :: "'n \<Rightarrow> 'f option"
  f64_eq :: "'f \<Rightarrow> 'f \<Rightarrow> bool"
  f64_cmp :: "'f \<Rightarrow> 'f \<Rightarrow> ordering option"
  f64_finite :: "'f \<Rightarrow> bool"

fun as_f64 :: "('n, 'f) numbers \<Rightarrow> 'n json \<Rightarrow> 'f option" where
  "as_f64 N (JNumber n) = num_as_f64 N n"
| "as_f64 N _ = None"

fun as_str :: "'n json \<Rightarrow> str option" where
  "as_str (JString s) = Some s"
| "as_str _ = None"

fun as_bool :: "'n json \<Rightarrow> bool option" where
  "as_bool (JBool b) = Some b"
| "as_bool _ = None"

fun as_array :: "'n json \<Rightarrow> 'n json list option" where
  "as_array (JArray xs) = Some xs"
| "as_array _ = None"

fun as_object :: "'n json \<Rightarrow> (str \<times> 'n json) list option" where
  "as_object (JObject m) = Some m"
| "as_object _ = None"

fun is_container :: "'n json \<Rightarrow> bool" where
  "is_container (JArray _) = True"
| "is_container (JObject _) = True"
| "is_container _ = False"

text \<open>Equality of values: objects compare as maps, whatever the order of their keys.\<close>

lemma json_size_array [termination_simp]: "x \<in> set xs \<Longrightarrow> size x < size (JArray xs)"
  by (induction xs) auto

lemma json_size_object [termination_simp]: "(k, x) \<in> set m \<Longrightarrow> size x < size (JObject m)"
  by (induction m) auto

function json_eq :: "'n json \<Rightarrow> 'n json \<Rightarrow> bool" where
  "json_eq (JArray xs) (JArray ys) =
     (length xs = length ys \<and> list_all (\<lambda>(x, y). json_eq x y) (zip xs ys))"
| "json_eq (JObject m) (JObject m') =
     (length m = length m' \<and> list_all (\<lambda>(k, x). case imap_get m' k of
         None \<Rightarrow> False | Some y \<Rightarrow> json_eq x y) m)"
| "json_eq (JArray xs) JNull = False" | "json_eq (JArray xs) (JBool b) = False"
| "json_eq (JArray xs) (JNumber n) = False" | "json_eq (JArray xs) (JString s) = False"
| "json_eq (JArray xs) (JObject m) = False"
| "json_eq (JObject m) JNull = False" | "json_eq (JObject m) (JBool b) = False"
| "json_eq (JObject m) (JNumber n) = False" | "json_eq (JObject m) (JString s) = False"
| "json_eq (JObject m) (JArray xs) = False"
| "json_eq JNull v = (v = JNull)" | "json_eq (JBool b) v = (v = JBool b)"
| "json_eq (JNumber n) v = (v = JNumber n)" | "json_eq (JString s) v = (v = JString s)"
  by pat_completeness auto
termination
  by (relation "measure (\<lambda>(x, y). size x)")
     (auto dest!: set_zip_leftD json_size_array json_size_object)

section \<open>Paths\<close>

datatype path_token = Key str | Index nat

text \<open>\<open>split\<close> at a character, \<open>find\<close> a character, \<open>parse::<usize>\<close>.\<close>

fun split_char :: "nat \<Rightarrow> str \<Rightarrow> str list" where
  "split_char c [] = [[]]"
| "split_char c (x # xs) =
     (if x = c then [] # split_char c xs
      else (case split_char c xs of [] \<Rightarrow> [[x]] | p # ps \<Rightarrow> (x # p) # ps))"

fun find_char :: "nat \<Rightarrow> str \<Rightarrow> nat option" where
  "find_char c [] = None"
| "find_char c (x # xs) = (if x = c then Some 0 else map_option Suc (find_char c xs))"

fun parse_digits :: "nat \<Rightarrow> str \<Rightarrow> nat option" where
  "parse_digits acc [] = Some acc"
| "parse_digits acc (c # cs) =
     (if 48 \<le> c \<and> c \<le> 57 \<and> acc * 10 + (c - 48) < 2 ^ 64
      then parse_digits (acc * 10 + (c - 48)) cs else None)"

definition parse_usize :: "str \<Rightarrow> nat option" where
  "parse_usize s =
     (case s of
        [] \<Rightarrow> None
      | c # cs \<Rightarrow> if c = 43 then (if cs = [] then None else parse_digits 0 cs)
                  else parse_digits 0 (c # cs))"

text \<open>The loop over one segment between dots. 91 and 93 are the brackets.\<close>

lemma find_char_bound: "find_char c xs = Some i \<Longrightarrow> i < length xs"
  by (induction xs arbitrary: i) (auto split: if_splits)

function tokenize_segment :: "str \<Rightarrow> path_token list" where
  "tokenize_segment remaining =
     (if remaining = [] then []
      else (case find_char 91 remaining of
              None \<Rightarrow> [Key remaining]
            | Some op \<Rightarrow>
                (case find_char 93 (drop (op + 1) remaining) of
                   None \<Rightarrow> [Key remaining]
                 | Some relative_close \<Rightarrow>
                     let close = op + 1 + relative_close in
                     (if op > 0 then [Key (take op remaining)] else []) @
                     (case parse_usize (slice (op + 1) close remaining) of
                        None \<Rightarrow> [Key remaining]
                      | Some index \<Rightarrow> Index index # tokenize_segment (drop (close + 1) remaining)))))"
  by pat_completeness auto
termination
  by (relation "measure length") (auto dest: find_char_bound)

declare tokenize_segment.simps [simp del]

definition tokenize_path :: "str \<Rightarrow> path_token list" where
  "tokenize_path path = concat (map tokenize_segment (split_char 46 path))"

fun get_tokens :: "'n json \<Rightarrow> path_token list \<Rightarrow> 'n json option" where
  "get_tokens current [] = Some current"
| "get_tokens current (Key key # ts) = do {
     m \<leftarrow> as_object current; child \<leftarrow> imap_get m key; get_tokens child ts }"
| "get_tokens current (Index index # ts) = do {
     xs \<leftarrow> as_array current;
     child \<leftarrow> (if index < length xs then Some (xs ! index) else None);
     get_tokens child ts }"

definition get_path :: "'n json \<Rightarrow> str \<Rightarrow> 'n json option" where
  "get_path document path = get_tokens document (tokenize_path path)"

definition object_of :: "'n json \<Rightarrow> (str \<times> 'n json) list" where
  "object_of v = (case as_object v of Some m \<Rightarrow> m | None \<Rightarrow> [])"

definition array_of :: "'n json \<Rightarrow> 'n json list" where
  "array_of v = (case as_array v of Some xs \<Rightarrow> xs | None \<Rightarrow> [])"

text \<open>\<open>Vec::resize(n, Null)\<close> extends with nulls and cuts what is longer.\<close>

definition resize :: "nat \<Rightarrow> 'n json list \<Rightarrow> 'n json list" where
  "resize n xs = take n xs @ replicate (n - length xs) JNull"

fun empty_for :: "path_token \<Rightarrow> 'n json" where
  "empty_for (Index _) = JArray []"
| "empty_for (Key _) = JObject []"

definition container_for :: "path_token \<Rightarrow> 'n json \<Rightarrow> 'n json" where
  "container_for t v = (if is_container v then v else empty_for t)"

fun set_tokens :: "'n json \<Rightarrow> path_token list \<Rightarrow> 'n json \<Rightarrow> 'n json" where
  "set_tokens current [] v = current"
| "set_tokens current [Key key] v = JObject (imap_insert key v (object_of current))"
| "set_tokens current [Index index] v = JArray ((resize (index + 1) (array_of current))[index := v])"
| "set_tokens current (Key key # t # ts) v =
     (let m = object_of current;
          child = (case imap_get m key of None \<Rightarrow> empty_for t | Some c \<Rightarrow> container_for t c)
      in JObject (imap_insert key (set_tokens child (t # ts) v) m))"
| "set_tokens current (Index index # t # ts) v =
     (let xs = resize (index + 1) (array_of current)
      in JArray (xs[index := set_tokens (container_for t (xs ! index)) (t # ts) v]))"

definition set_path :: "'n json \<Rightarrow> str \<Rightarrow> 'n json \<Rightarrow> 'n json" where
  "set_path document path v =
     (let tokens = tokenize_path path in
      if tokens = [] then document else set_tokens document tokens v)"

fun project_loop :: "'n json \<Rightarrow> str list \<Rightarrow> 'n json \<Rightarrow> 'n json" where
  "project_loop document [] output = output"
| "project_loop document (path # paths) output =
     project_loop document paths
       (case get_path document path of None \<Rightarrow> output | Some v \<Rightarrow> set_path output path v)"

definition project :: "'n json \<Rightarrow> str list \<Rightarrow> 'n json" where
  "project document paths = (if paths = [] then document else project_loop document paths (JObject []))"

section \<open>Filters\<close>

definition values_equal :: "('n, 'f) numbers \<Rightarrow> 'n json option \<Rightarrow> 'n json \<Rightarrow> bool" where
  "values_equal N left right =
     (case left of
        None \<Rightarrow> False
      | Some l \<Rightarrow> (case (as_f64 N l, as_f64 N right) of
                     (Some a, Some b) \<Rightarrow> f64_eq N a b
                   | _ \<Rightarrow> json_eq l right))"

definition compare_values :: "('n, 'f) numbers \<Rightarrow> 'n json option \<Rightarrow> 'n json \<Rightarrow> ordering option" where
  "compare_values N left right =
     (case left of
        None \<Rightarrow> None
      | Some l \<Rightarrow> (case (as_f64 N l, as_f64 N right) of
                     (Some a, Some b) \<Rightarrow> f64_cmp N a b
                   | _ \<Rightarrow> (case (as_str l, as_str right) of
                            (Some a, Some b) \<Rightarrow> Some (cmp a b)
                          | _ \<Rightarrow> None)))"

definition first_str :: "'n json list \<Rightarrow> nat \<Rightarrow> str" where
  "first_str parts i = (if i < length parts
     then (case as_str (parts ! i) of Some s \<Rightarrow> s | None \<Rightarrow> []) else [])"

definition regex_matches ::
  "(str \<Rightarrow> bool \<Rightarrow> bool \<Rightarrow> bool \<Rightarrow> str \<Rightarrow> bool) \<Rightarrow> 'n json option \<Rightarrow> 'n json \<Rightarrow> bool" where
  "regex_matches rx val argument =
     (case Option.bind val as_str of
        None \<Rightarrow> False
      | Some s \<Rightarrow>
          (case argument of
             JArray parts \<Rightarrow>
               (let flags = first_str parts 1 in
                rx (first_str parts 0) (105 \<in> set flags) (109 \<in> set flags) (115 \<in> set flags) s)
           | JString pat \<Rightarrow> rx pat False False False s
           | _ \<Rightarrow> False))"

definition type_matches :: "'n json option \<Rightarrow> str \<Rightarrow> bool" where
  "type_matches val expected =
     (if expected = lit ''undefined'' then val = None
      else (case val of
              None \<Rightarrow> False
            | Some v \<Rightarrow>
                if expected = lit ''object'' then is_container v \<or> v = JNull
                else if expected = lit ''string'' then as_str v \<noteq> None
                else if expected = lit ''number'' then (case v of JNumber _ \<Rightarrow> True | _ \<Rightarrow> False)
                else if expected = lit ''boolean'' then as_bool v \<noteq> None
                else False))"

definition holds_for :: "('a \<Rightarrow> bool) \<Rightarrow> 'a option \<Rightarrow> bool" where
  "holds_for f m = (case m of None \<Rightarrow> False | Some a \<Rightarrow> f a)"

definition matches_operator ::
  "('n, 'f) numbers \<Rightarrow> (str \<Rightarrow> bool \<Rightarrow> bool \<Rightarrow> bool \<Rightarrow> str \<Rightarrow> bool) \<Rightarrow> 'n json option \<Rightarrow> str \<Rightarrow> 'n json \<Rightarrow> bool" where
  "matches_operator N rx val operator argument =
     (if operator = lit ''$eq'' then values_equal N val argument
      else if operator = lit ''$ne'' then \<not> values_equal N val argument
      else if operator = lit ''$gt'' then holds_for is_gt (compare_values N val argument)
      else if operator = lit ''$gte'' then holds_for is_ge (compare_values N val argument)
      else if operator = lit ''$lt'' then holds_for is_lt (compare_values N val argument)
      else if operator = lit ''$lte'' then holds_for is_le (compare_values N val argument)
      else if operator = lit ''$in'' then
        holds_for (list_ex (\<lambda>item. values_equal N val item)) (as_array argument)
      else if operator = lit ''$nin'' then
        holds_for (list_all (\<lambda>item. \<not> values_equal N val item)) (as_array argument)
      else if operator = lit ''$regex'' then regex_matches rx val argument
      else if operator = lit ''$exists'' then
        (val \<noteq> None) = (case as_bool argument of Some b \<Rightarrow> b | None \<Rightarrow> False)
      else if operator = lit ''$contains'' then
        holds_for (list_ex (\<lambda>item. values_equal N (Some item) argument)) (Option.bind val as_array)
      else if operator = lit ''$type'' then holds_for (type_matches val) (as_str argument)
      else False)"

definition matches_condition ::
  "('n, 'f) numbers \<Rightarrow> (str \<Rightarrow> bool \<Rightarrow> bool \<Rightarrow> bool \<Rightarrow> str \<Rightarrow> bool) \<Rightarrow> 'n json option \<Rightarrow> 'n json \<Rightarrow> bool" where
  "matches_condition N rx val condition =
     (case as_object condition of
        None \<Rightarrow> values_equal N val condition
      | Some operators \<Rightarrow> list_all (\<lambda>(operator, argument). matches_operator N rx val operator argument) operators)"

text \<open>
  \<open>matches_value document f\<close> is \<open>matches_filter(document, f.as_object())\<close>: a filter that is not an
  object matches everything.
\<close>

function matches_value ::
  "('n, 'f) numbers \<Rightarrow> (str \<Rightarrow> bool \<Rightarrow> bool \<Rightarrow> bool \<Rightarrow> str \<Rightarrow> bool) \<Rightarrow> 'n json \<Rightarrow> 'n json \<Rightarrow> bool" where
  "matches_value N rx document (JObject filters) =
     list_all (\<lambda>(key, condition).
       if key = lit ''$and'' then
         (case condition of JArray fs \<Rightarrow> list_all (matches_value N rx document) fs | _ \<Rightarrow> False)
       else if key = lit ''$or'' then
         (case condition of JArray fs \<Rightarrow> list_ex (matches_value N rx document) fs | _ \<Rightarrow> False)
       else if key = lit ''$nor'' then
         (case condition of JArray fs \<Rightarrow> list_all (\<lambda>f. \<not> matches_value N rx document f) fs | _ \<Rightarrow> False)
       else if key = lit ''$not'' then \<not> matches_value N rx document condition
       else matches_condition N rx (get_path document key) condition) filters"
| "matches_value N rx document JNull = True"
| "matches_value N rx document (JBool b) = True"
| "matches_value N rx document (JNumber n) = True"
| "matches_value N rx document (JString s) = True"
| "matches_value N rx document (JArray xs) = True"
  by pat_completeness auto
termination
proof (relation "measure (\<lambda>(N, rx, document, f). size f)", goal_cases)
  case 1 show ?case by simp
qed (auto dest!: json_size_array json_size_object)

definition matches_filter ::
  "('n, 'f) numbers \<Rightarrow> (str \<Rightarrow> bool \<Rightarrow> bool \<Rightarrow> bool \<Rightarrow> str \<Rightarrow> bool) \<Rightarrow> 'n json \<Rightarrow> (str \<times> 'n json) list option \<Rightarrow> bool" where
  "matches_filter N rx document filters =
     (case filters of None \<Rightarrow> True | Some m \<Rightarrow> matches_value N rx document (JObject m))"

section \<open>Reading back a path\<close>

lemma length_resize [simp]: "length (resize n xs) = n"
  by (simp add: resize_def min_def)

lemma resize_nth: "i < n \<Longrightarrow> i < length xs \<Longrightarrow> resize n xs ! i = xs ! i"
  by (simp add: resize_def nth_append)

lemma object_of_simps [simp]: "object_of (JObject m) = m" "array_of (JArray xs) = xs"
  by (simp_all add: object_of_def array_of_def)

lemma set_tokens_get: "ts \<noteq> [] \<Longrightarrow> get_tokens (set_tokens d ts v) ts = Some v"
  by (induction d ts v rule: set_tokens.induct) (auto simp: imap_simps Let_def)



text \<open>Two paths that part at different keys, or where the path read stays below the index written.\<close>

fun apart :: "path_token list \<Rightarrow> path_token list \<Rightarrow> bool" where
  "apart (Key a # ts) (Key b # us) \<longleftrightarrow> a \<noteq> b \<or> apart ts us"
| "apart (Index i # ts) (Index j # us) \<longleftrightarrow> j < i \<or> i = j \<and> apart ts us"
| "apart _ _ \<longleftrightarrow> False"

lemma apart_nonempty: "apart ts us \<Longrightarrow> ts \<noteq> [] \<and> us \<noteq> []"
  by (cases "(ts, us)" rule: apart.cases) auto

lemma get_container: "us \<noteq> [] \<Longrightarrow> get_tokens c us = Some w \<Longrightarrow> is_container c"
  by (cases us; cases "hd us"; cases c) auto

lemma as_object_Some: "as_object d = Some m \<longleftrightarrow> d = JObject m"
  by (cases d) auto

lemma as_array_Some: "as_array d = Some xs \<longleftrightarrow> d = JArray xs"
  by (cases d) auto

lemma set_tokens_apart:
  "apart ts us \<Longrightarrow> get_tokens d us = Some w \<Longrightarrow> get_tokens (set_tokens d ts v) us = Some w"
proof (induction ts us arbitrary: d rule: apart.induct)
  case (1 a ts b us)
  from "1.prems"(2) obtain m c where d: "d = JObject m" "imap_get m b = Some c" "get_tokens c us = Some w"
    by (auto simp: as_object_Some split: bind_splits)
  show ?case
  proof (cases "a = b")
    case False
    then show ?thesis using d by (cases ts) (auto simp: imap_simps Let_def)
  next
    case True
    with "1.prems"(1) have ap: "apart ts us" by simp
    then obtain t ts' where ts: "ts = t # ts'" and us: "us \<noteq> []" using apart_nonempty by (cases ts) auto
    have "container_for t c = c" using get_container [OF us d(3)] by (simp add: container_for_def)
    then show ?thesis using "1.IH" [OF ap d(3)] True d ts by (simp add: imap_simps Let_def)
  qed
next
  case (2 i ts j us)
  from "2.prems"(2) obtain xs where d: "d = JArray xs" "j < length xs" "get_tokens (xs ! j) us = Some w"
    by (auto simp: as_array_Some split: bind_splits if_splits)
  show ?case
  proof (cases "j < i")
    case True
    then show ?thesis using d resize_nth [of j "Suc i" xs] by (cases ts) (auto simp: Let_def)
  next
    case False
    with "2.prems"(1) have ij: "i = j" and ap: "apart ts us" by auto
    then obtain t ts' where ts: "ts = t # ts'" and us: "us \<noteq> []" using apart_nonempty by (cases ts) auto
    have "container_for t (xs ! j) = xs ! j" using get_container [OF us d(3)] by (simp add: container_for_def)
    then show ?thesis using "2.IH" [OF ap d(3)] ij d ts resize_nth [of j "Suc j" xs] by (simp add: Let_def)
  qed
qed auto

text \<open>
  \<open>set_path\<close> leaves the rest of the document alone: a value at a path that parts from the written
  one at a different key, or lies at a smaller index of the same array, reads as before.
\<close>

lemma set_path_keeps_others:
  assumes "apart (tokenize_path path) (tokenize_path other)" and "get_path document other = Some w"
  shows "get_path (set_path document path v) other = Some w"
  using set_tokens_apart [OF assms(1)] apart_nonempty [OF assms(1)] assms(2)
  by (simp add: get_path_def set_path_def Let_def)

text \<open>
  Writing below an index cuts the array there: every element after the written index is gone,
  because \<open>Vec::resize(index + 1)\<close> also shortens.
\<close>

lemma set_tokens_truncates:
  assumes "i < j"
  shows "get_tokens (set_tokens document (Index i # ts) v) (Index j # us) = None"
  using assms by (cases ts) (auto simp: Let_def)

section \<open>Printing and reading path expressions\<close>

fun digits :: "nat \<Rightarrow> str" where
  "digits n = (if n < 10 then [48 + n] else digits (n div 10) @ [48 + n mod 10])"

declare digits.simps [simp del]

fun render_tail :: "path_token list \<Rightarrow> str" where
  "render_tail [] = []"
| "render_tail (Key k # ts) = 46 # k @ render_tail ts"
| "render_tail (Index i # ts) = 91 # digits i @ 93 # render_tail ts"

fun render_path :: "path_token list \<Rightarrow> str" where
  "render_path (Key k # ts) = k @ render_tail ts"
| "render_path ts = render_tail ts"

fun wf_token :: "path_token \<Rightarrow> bool" where
  "wf_token (Key k) \<longleftrightarrow> k \<noteq> [] \<and> 46 \<notin> set k \<and> 91 \<notin> set k"
| "wf_token (Index i) \<longleftrightarrow> i < 2 ^ 64"

lemma digits_range: "c \<in> set (digits n) \<Longrightarrow> 48 \<le> c \<and> c \<le> 57"
proof (induction n rule: digits.induct)
  case (1 n)
  then show ?case by (auto simp: digits.simps [of n] split: if_splits)
qed

lemma digits_nonempty: "digits n \<noteq> []"
  by (simp add: digits.simps [of n])

lemma parse_digits_append:
  "parse_digits a (xs @ ys) = Option.bind (parse_digits a xs) (\<lambda>b. parse_digits b ys)"
  by (induction xs arbitrary: a) auto

lemma parse_digits_digits: "n < 2 ^ 64 \<Longrightarrow> parse_digits 0 (digits n) = Some n"
proof (induction n rule: digits.induct)
  case (1 n)
  show ?case
  proof (cases "n < 10")
    case True
    then show ?thesis by (simp add: digits.simps [of n])
  next
    case False
    have "n div 10 < 2 ^ 64" using "1.prems" by (rule le_less_trans [OF div_le_dividend])
    then have "parse_digits 0 (digits (n div 10)) = Some (n div 10)" using "1.IH" False by simp
    then show ?thesis using False "1.prems" by (simp add: digits.simps [of n] parse_digits_append)
  qed
qed

lemma parse_usize_digits:
  assumes "n < 2 ^ 64"
  shows "parse_usize (digits n) = Some n"
proof -
  obtain c cs where c: "digits n = c # cs" using digits_nonempty by (cases "digits n") auto
  then have "c \<noteq> 43" using digits_range [of c n] by auto
  then show ?thesis using parse_digits_digits [OF assms] unfolding parse_usize_def c by simp
qed

lemma find_char_skip: "c \<notin> set xs \<Longrightarrow> find_char c (xs @ c # ys) = Some (length xs)"
  by (induction xs) auto

lemma find_char_none: "c \<notin> set xs \<Longrightarrow> find_char c xs = None"
  by (induction xs) auto

definition idx_str :: "nat list \<Rightarrow> str" where
  "idx_str is = concat (map (\<lambda>i. 91 # digits i @ [93]) is)"

lemma tokenize_index:
  assumes "i < 2 ^ 64"
  shows "tokenize_segment (91 # digits i @ 93 # rest) = Index i # tokenize_segment rest"
proof -
  have "find_char 93 (digits i @ 93 # rest) = Some (length (digits i))"
    using digits_range by (intro find_char_skip) force
  then show ?thesis
    using parse_usize_digits [OF assms] by (simp add: tokenize_segment.simps [of "91 # _"] slice_def)
qed

lemma tokenize_key_index:
  assumes "i < 2 ^ 64" and "wf_token (Key k)"
  shows "tokenize_segment (k @ 91 # digits i @ 93 # rest) = Key k # Index i # tokenize_segment rest"
proof -
  have "find_char 93 (digits i @ 93 # rest) = Some (length (digits i))"
    using digits_range by (intro find_char_skip) force
  moreover have "find_char 91 (k @ 91 # digits i @ 93 # rest) = Some (length k)"
    using assms(2) by (intro find_char_skip) simp
  ultimately show ?thesis
    using parse_usize_digits [OF assms(1)] assms(2)
    by (simp add: tokenize_segment.simps [of "k @ _"] slice_def)
qed

lemma tokenize_indices: "\<forall>i\<in>set is. i < 2 ^ 64 \<Longrightarrow> tokenize_segment (idx_str is) = map Index is"
proof (induction "is")
  case Nil
  show ?case by (simp add: idx_str_def tokenize_segment.simps)
next
  case (Cons i "is")
  then show ?case using tokenize_index [of i "idx_str is"] by (simp add: idx_str_def)
qed

lemma tokenize_key:
  assumes "wf_token (Key k)" and "\<forall>i\<in>set is. i < 2 ^ 64"
  shows "tokenize_segment (k @ idx_str is) = Key k # map Index is"
proof (cases "is")
  case Nil
  then show ?thesis
    using assms(1) find_char_none [of 91 k] by (simp add: idx_str_def tokenize_segment.simps [of k])
next
  case (Cons i js)
  then show ?thesis
    using tokenize_key_index [of i k "idx_str js"] tokenize_indices [of js] assms by (simp add: idx_str_def)
qed

fun lead :: "path_token list \<Rightarrow> nat list" where
  "lead (Index i # ts) = i # lead ts"
| "lead _ = []"

fun after_lead :: "path_token list \<Rightarrow> path_token list" where
  "after_lead (Index i # ts) = after_lead ts"
| "after_lead ts = ts"

lemma lead_after: "map Index (lead ts) @ after_lead ts = ts"
  by (induction ts rule: lead.induct) auto

lemma lead_wf: "\<forall>t\<in>set ts. wf_token t \<Longrightarrow> \<forall>i\<in>set (lead ts). i < 2 ^ 64"
  by (induction ts rule: lead.induct) auto

lemma split_char_skip: "c \<notin> set s \<Longrightarrow> split_char c (s @ c # t) = s # split_char c t"
  by (induction s) auto

lemma split_char_none: "c \<notin> set s \<Longrightarrow> split_char c s = [s]"
  by (induction s) auto

lemma tokenize_rendered:
  "46 \<notin> set s \<Longrightarrow> \<forall>t\<in>set ts. wf_token t \<Longrightarrow>
   tokenize_path (s @ render_tail ts) = tokenize_segment (s @ idx_str (lead ts)) @ after_lead ts"
proof (induction ts arbitrary: s rule: render_tail.induct)
  case 1
  then show ?case by (simp add: tokenize_path_def split_char_none idx_str_def)
next
  case (2 k ts)
  have k: "wf_token (Key k)" "46 \<notin> set k" using "2.prems" by auto
  have "tokenize_path (k @ render_tail ts) = (Key k # map Index (lead ts)) @ after_lead ts"
    using "2.IH" [of k] tokenize_key [OF k(1) lead_wf] k(2) "2.prems"(2) by simp
  then show ?case
    using "2.prems"(1) lead_after [of ts] by (simp add: tokenize_path_def split_char_skip idx_str_def)
next
  case (3 i ts)
  have "46 \<notin> set (s @ 91 # digits i @ [93])" using "3.prems"(1) digits_range [of 46 i] by auto
  from "3.IH" [OF this] "3.prems"(2) show ?case by (simp add: idx_str_def)
qed

text \<open>
  Parsing inverts printing for path expressions: a list of tokens whose keys are non-empty and
  free of dots and opening brackets, written as \<open>a.b[3].c\<close>, is tokenized back to itself.
\<close>

lemma tokenize_render:
  assumes "\<forall>t\<in>set ts. wf_token t"
  shows "tokenize_path (render_path ts) = ts"
proof (cases "\<exists>k ts'. ts = Key k # ts'")
  case True
  then obtain k ts' where ts: "ts = Key k # ts'" by blast
  then have "tokenize_path (k @ render_tail ts') = tokenize_segment (k @ idx_str (lead ts')) @ after_lead ts'"
    using assms by (intro tokenize_rendered) auto
  also have "\<dots> = (Key k # map Index (lead ts')) @ after_lead ts'"
    using assms ts by (subst tokenize_key [OF _ lead_wf]) auto
  finally show ?thesis using lead_after [of ts'] ts by simp
next
  case False
  then have "render_path ts = [] @ render_tail ts" by (cases ts rule: render_path.cases) auto
  then show ?thesis
    using tokenize_rendered [of "[]" ts] tokenize_indices [OF lead_wf [OF assms]] lead_after [of ts] assms by simp
qed

section \<open>Filter laws\<close>

lemma matches_value_set:
  "set m = set m' \<Longrightarrow> matches_value N rx d (JObject m) = matches_value N rx d (JObject m')"
  by (simp add: list_all_iff)

lemma logic_names:
  "lit ''$not'' = lit ''$and'' \<longleftrightarrow> False" "lit ''$not'' = lit ''$or'' \<longleftrightarrow> False"
  "lit ''$not'' = lit ''$nor'' \<longleftrightarrow> False" "lit ''$nor'' = lit ''$and'' \<longleftrightarrow> False"
  "lit ''$nor'' = lit ''$or'' \<longleftrightarrow> False" "lit ''$or'' = lit ''$and'' \<longleftrightarrow> False"
  by (simp_all add: lit_def)

text \<open>
  A filter is the conjunction of its entries: their order and repetition do not matter, and two
  filters joined match what both match. \<open>$not\<close> negates a filter, and \<open>$nor\<close> over a list of filters is
  the negation of \<open>$or\<close>.
\<close>

lemma filter_laws:
  assumes "set m = set m'"
  shows "matches_filter N rx d (Some m) = matches_filter N rx d (Some m')
    \<and> matches_filter N rx d (Some (m @ k)) = (matches_filter N rx d (Some m) \<and> matches_filter N rx d (Some k))
    \<and> matches_filter N rx d (Some [(lit ''$not'', JObject m)]) = (\<not> matches_filter N rx d (Some m))
    \<and> matches_filter N rx d (Some [(lit ''$nor'', JArray fs)]) = (\<not> matches_filter N rx d (Some [(lit ''$or'', JArray fs)]))"
proof (intro conjI)
  show "matches_filter N rx d (Some m) = matches_filter N rx d (Some m')"
    unfolding matches_filter_def option.case using assms by (rule matches_value_set)
  show "matches_filter N rx d (Some (m @ k)) = (matches_filter N rx d (Some m) \<and> matches_filter N rx d (Some k))"
    unfolding matches_filter_def option.case matches_value.simps(1) by (rule list_all_append)
  show "matches_filter N rx d (Some [(lit ''$not'', JObject m)]) = (\<not> matches_filter N rx d (Some m))"
    unfolding matches_filter_def option.case matches_value.simps(1) [of N rx d "[_]"]
    by (simp only: list.pred_inject prod.case logic_names if_False if_True simp_thms)
  show "matches_filter N rx d (Some [(lit ''$nor'', JArray fs)]) = (\<not> matches_filter N rx d (Some [(lit ''$or'', JArray fs)]))"
    unfolding matches_filter_def option.case matches_value.simps(1) [of N rx d "[_]"]
    by (simp only: list.pred_inject prod.case logic_names if_False if_True simp_thms json.case)
       (simp add: list_all_iff list_ex_iff)
qed

end
