(* ===== verification/SkipList.thy ===== *)
theory SkipList
  imports Prelude "HOL-Library.Monad_Syntax"
begin

text \<open>
  The skip list of \<open>skiplist.rs\<close>: nodes in an arena addressed by index, node 0 the header,
  every level with a forward index and the distance (\<open>span\<close>) it covers. The operations are
  in the option monad: \<open>None\<close> is a panic (an index out of range, a missing key of a data
  node, an underflow) or a loop that does not end, so that a result \<open>Some\<close> is a proof that
  the operation returns.
\<close>

section \<open>Definitions\<close>

definition MAX_LEVEL :: nat where "MAX_LEVEL = 32"

type_synonym 'a comparator = "'a \<Rightarrow> 'a \<Rightarrow> ordering"

record ('k, 'v) range_entry =
  re_key :: 'k
  re_value :: 'v

record 'k range_options =
  opt_gte :: "'k option"
  opt_gt :: "'k option"
  opt_lte :: "'k option"
  opt_lt :: "'k option"
  opt_offset :: nat
  opt_count :: "nat option"
  opt_reverse :: bool

definition range_options_default :: "'k range_options" where
  "range_options_default =
     \<lparr> opt_gte = None, opt_gt = None, opt_lte = None, opt_lt = None,
       opt_offset = 0, opt_count = None, opt_reverse = False \<rparr>"

record level =
  forward :: "nat option"
  span :: nat

record ('k, 'v) node =
  node_key :: "'k option"
  node_value :: "'v option"
  backward :: "nat option"
  levels :: "level list"

definition node_header :: "('k, 'v) node" where
  "node_header = \<lparr> node_key = None, node_value = None, backward = None,
     levels = replicate MAX_LEVEL \<lparr> forward = None, span = 0 \<rparr> \<rparr>"

definition node_new :: "'k \<Rightarrow> 'v \<Rightarrow> nat \<Rightarrow> ('k, 'v) node" where
  "node_new key val n = \<lparr> node_key = Some key, node_value = Some val, backward = None,
     levels = replicate n \<lparr> forward = None, span = 0 \<rparr> \<rparr>"

record ('k, 'v) skiplist =
  compare_key :: "'k comparator"
  compare_value :: "'v comparator"
  nodes :: "('k, 'v) node list"
  tail :: "nat option"
  len :: nat
  level :: nat
  random_state :: u64

definition with_comparators :: "'k comparator \<Rightarrow> 'v comparator \<Rightarrow> ('k, 'v) skiplist" where
  "with_comparators ck cv = \<lparr> compare_key = ck, compare_value = cv, nodes = [node_header],
     tail = None, len = 0, level = 1, random_state = 0x6a09e667f3bcc909 \<rparr>"

definition is_empty :: "('k, 'v) skiplist \<Rightarrow> bool" where
  "is_empty s \<longleftrightarrow> len s = 0"

text \<open>One round of the generator, and the loop with \<open>n\<close> levels left below the maximum.\<close>

definition xorshift :: "u64 \<Rightarrow> u64" where
  "xorshift x = (let a = xor x (push_bit 13 x); b = xor a (drop_bit 7 a)
                 in xor b (push_bit 17 b))"

fun random_level_loop :: "nat \<Rightarrow> u64 \<Rightarrow> nat \<times> u64" where
  "random_level_loop 0 st = (MAX_LEVEL, xorshift st)"
| "random_level_loop (Suc n) st =
     (let st' = xorshift st in
      if and st' 3 \<noteq> 0 then (MAX_LEVEL - Suc n, st') else random_level_loop n st')"

definition random_level :: "('k, 'v) skiplist \<Rightarrow> nat \<times> ('k, 'v) skiplist" where
  "random_level s =
     (let (n, st) = random_level_loop (MAX_LEVEL - 1) (random_state s)
      in (n, s\<lparr> random_state := st \<rparr>))"

text \<open>
  Access to the arena. Indexing panics out of range; \<open>expect\<close> panics on a node without a
  key; subtraction on \<open>usize\<close> panics below zero.
\<close>

definition nth_opt :: "'a list \<Rightarrow> nat \<Rightarrow> 'a option" where
  "nth_opt xs i = (if i < length xs then Some (xs ! i) else None)"

definition checked_sub :: "nat \<Rightarrow> nat \<Rightarrow> nat option" where
  "checked_sub a b = (if b \<le> a then Some (a - b) else None)"

definition level_at :: "('k, 'v) skiplist \<Rightarrow> nat \<Rightarrow> nat \<Rightarrow> level option" where
  "level_at s x i = do { n \<leftarrow> nth_opt (nodes s) x; nth_opt (levels n) i }"

definition key_at :: "('k, 'v) skiplist \<Rightarrow> nat \<Rightarrow> 'k option" where
  "key_at s x = do { n \<leftarrow> nth_opt (nodes s) x; node_key n }"

definition value_at :: "('k, 'v) skiplist \<Rightarrow> nat \<Rightarrow> 'v option" where
  "value_at s x = do { n \<leftarrow> nth_opt (nodes s) x; node_value n }"

definition backward_at :: "('k, 'v) skiplist \<Rightarrow> nat \<Rightarrow> nat option option" where
  "backward_at s x = do { n \<leftarrow> nth_opt (nodes s) x; Some (backward n) }"

definition set_level :: "('k, 'v) skiplist \<Rightarrow> nat \<Rightarrow> nat \<Rightarrow> level \<Rightarrow> ('k, 'v) skiplist option" where
  "set_level s x i l =
     (if level_at s x i = None then None
      else Some (s\<lparr> nodes := (nodes s)[x := (nodes s ! x)
                     \<lparr> levels := (levels (nodes s ! x))[i := l] \<rparr>] \<rparr>))"

definition set_backward :: "('k, 'v) skiplist \<Rightarrow> nat \<Rightarrow> nat option \<Rightarrow> ('k, 'v) skiplist option" where
  "set_backward s x b =
     (if x < length (nodes s)
      then Some (s\<lparr> nodes := (nodes s)[x := (nodes s ! x)\<lparr> backward := b \<rparr>] \<rparr>)
      else None)"

text \<open>A \<open>for\<close> loop over indices, in the option monad.\<close>

fun for_each :: "(nat \<Rightarrow> 's \<Rightarrow> 's option) \<Rightarrow> nat list \<Rightarrow> 's \<Rightarrow> 's option" where
  "for_each body [] s = Some s"
| "for_each body (i # is) s = do { s' \<leftarrow> body i s; for_each body is s' }"

definition node_less :: "('k, 'v) skiplist \<Rightarrow> nat \<Rightarrow> 'k \<Rightarrow> 'v \<Rightarrow> bool option" where
  "node_less s x key val = do {
     k \<leftarrow> key_at s x;
     case compare_key s k key of
       Less \<Rightarrow> Some True
     | Equal \<Rightarrow> do { v \<leftarrow> value_at s x; Some (compare_value s v val = Less) }
     | Greater \<Rightarrow> Some False }"

definition node_same :: "('k, 'v) skiplist \<Rightarrow> nat \<Rightarrow> 'k \<Rightarrow> 'v \<Rightarrow> bool option" where
  "node_same s x key val = do {
     k \<leftarrow> key_at s x;
     if compare_key s k key = Equal
     then do { v \<leftarrow> value_at s x; Some (compare_value s v val = Equal) }
     else Some False }"

text \<open>
  The inner loop of every search: at level \<open>index\<close>, follow the forward indices while
  \<open>continue\<close> holds, adding up the spans. The loops of \<open>delete\<close> and \<open>lower_bound_index\<close> have
  no running distance; there the second component is not used.
\<close>

partial_function (option) walk ::
  "('k, 'v) skiplist \<Rightarrow> nat \<Rightarrow> (nat \<Rightarrow> nat \<Rightarrow> nat \<Rightarrow> bool option) \<Rightarrow> nat \<Rightarrow> nat \<Rightarrow> (nat \<times> nat) option"
where
  "walk s index continue current traversed = do {
     l \<leftarrow> level_at s current index;
     case forward l of
       None \<Rightarrow> Some (current, traversed)
     | Some next_node \<Rightarrow> do {
         b \<leftarrow> continue next_node traversed (span l);
         if b then walk s index continue next_node (traversed + span l)
         else Some (current, traversed) } }"

subsection \<open>Insertion\<close>

text \<open>The descent of \<open>insert\<close> through the levels below \<open>index\<close>.\<close>

fun insert_search ::
  "('k, 'v) skiplist \<Rightarrow> 'k \<Rightarrow> 'v \<Rightarrow> nat \<Rightarrow> nat \<Rightarrow> nat list \<Rightarrow> nat list \<Rightarrow> (nat list \<times> nat list) option"
where
  "insert_search s key val 0 current update rank = Some (update, rank)"
| "insert_search s key val (Suc index) current update rank = do {
     r \<leftarrow> (if index = level s - 1 then Some 0 else nth_opt rank (index + 1));
     (c, r') \<leftarrow> walk s index (\<lambda>x _ _. node_less s x key val) current r;
     insert_search s key val index c (update[index := c]) (rank[index := r']) }"

text \<open>The levels the new node adds to the list: all of the header up to \<open>node_level\<close>.\<close>

definition raise_level ::
  "('k, 'v) skiplist \<Rightarrow> nat \<Rightarrow> nat list \<Rightarrow> nat list \<Rightarrow> (('k, 'v) skiplist \<times> nat list \<times> nat list) option"
where
  "raise_level s node_level update rank =
     (if node_level > level s then do {
        (s', update', rank') \<leftarrow> for_each (\<lambda>index (s, update, rank). do {
            l \<leftarrow> level_at s 0 index;
            s' \<leftarrow> set_level s 0 index (l\<lparr> span := len s \<rparr>);
            Some (s', update[index := 0], rank[index := 0]) })
          [level s..<node_level] (s, update, rank);
        Some (s'\<lparr> level := node_level \<rparr>, update', rank') }
      else Some (s, update, rank))"

definition link_level ::
  "nat \<Rightarrow> nat list \<Rightarrow> nat list \<Rightarrow> nat \<Rightarrow> ('k, 'v) skiplist \<Rightarrow> ('k, 'v) skiplist option"
where
  "link_level node_index update rank index s = do {
     previous \<leftarrow> nth_opt update index;
     previous_level \<leftarrow> level_at s previous index;
     r0 \<leftarrow> nth_opt rank 0;
     r \<leftarrow> nth_opt rank index;
     d \<leftarrow> checked_sub r0 r;
     s \<leftarrow> set_level s node_index index
            \<lparr> forward = forward previous_level, span = span previous_level - d \<rparr>;
     set_level s previous index \<lparr> forward = Some node_index, span = d + 1 \<rparr> }"

definition bump_level :: "nat list \<Rightarrow> nat \<Rightarrow> ('k, 'v) skiplist \<Rightarrow> ('k, 'v) skiplist option" where
  "bump_level update index s = do {
     previous \<leftarrow> nth_opt update index;
     l \<leftarrow> level_at s previous index;
     set_level s previous index \<lparr> forward = forward l, span = span l + 1 \<rparr> }"

text \<open>The last steps of \<open>insert\<close>: the backward indices, the tail and the length.\<close>

definition close_insert :: "nat \<Rightarrow> nat \<Rightarrow> ('k, 'v) skiplist \<Rightarrow> ('k, 'v) skiplist option" where
  "close_insert previous node_index s = do {
     s \<leftarrow> set_backward s node_index (if previous \<noteq> 0 then Some previous else None);
     l \<leftarrow> level_at s node_index 0;
     s \<leftarrow> (case forward l of
             Some next_node \<Rightarrow> set_backward s next_node (Some node_index)
           | None \<Rightarrow> Some (s\<lparr> tail := Some node_index \<rparr>));
     Some (s\<lparr> len := len s + 1 \<rparr>) }"

definition skiplist_insert :: "('k, 'v) skiplist \<Rightarrow> 'k \<Rightarrow> 'v \<Rightarrow> ('k, 'v) skiplist option" where
  "skiplist_insert s key val = do {
     (update, rank) \<leftarrow> insert_search s key val (level s) 0
                         (replicate MAX_LEVEL 0) (replicate MAX_LEVEL 0);
     let (node_level, s) = random_level s;
     (s, update, rank) \<leftarrow> raise_level s node_level update rank;
     let node_index = length (nodes s);
     let s = s\<lparr> nodes := nodes s @ [node_new key val node_level] \<rparr>;
     s \<leftarrow> for_each (link_level node_index update rank) [0..<node_level] s;
     s \<leftarrow> for_each (bump_level update) [node_level..<level s] s;
     previous \<leftarrow> nth_opt update 0;
     close_insert previous node_index s }"

subsection \<open>Deletion\<close>

fun delete_search ::
  "('k, 'v) skiplist \<Rightarrow> 'k \<Rightarrow> 'v \<Rightarrow> nat \<Rightarrow> nat \<Rightarrow> nat list \<Rightarrow> (nat \<times> nat list) option"
where
  "delete_search s key val 0 current update = Some (current, update)"
| "delete_search s key val (Suc index) current update = do {
     (c, _) \<leftarrow> walk s index (\<lambda>x _ _. node_less s x key val) current 0;
     delete_search s key val index c (update[index := c]) }"

definition unlink_level ::
  "nat \<Rightarrow> nat list \<Rightarrow> nat \<Rightarrow> ('k, 'v) skiplist \<Rightarrow> ('k, 'v) skiplist option"
where
  "unlink_level target update index s = do {
     previous \<leftarrow> nth_opt update index;
     l \<leftarrow> level_at s previous index;
     if forward l = Some target then do {
       n \<leftarrow> nth_opt (nodes s) target;
       let target_span = (case nth_opt (levels n) index of None \<Rightarrow> 0 | Some t \<Rightarrow> span t);
       let target_forward = (case nth_opt (levels n) index of None \<Rightarrow> None | Some t \<Rightarrow> forward t);
       set_level s previous index
         \<lparr> forward = target_forward, span = span l + target_span - 1 \<rparr> }
     else set_level s previous index \<lparr> forward = forward l, span = span l - 1 \<rparr> }"

text \<open>The loop that drops the empty levels at the top; \<open>n\<close> is the current level.\<close>

fun lower_level :: "('k, 'v) skiplist \<Rightarrow> nat \<Rightarrow> nat option" where
  "lower_level s (Suc (Suc n)) = do {
     l \<leftarrow> level_at s 0 (Suc n);
     if forward l = None then lower_level s (Suc n) else Some (Suc (Suc n)) }"
| "lower_level s n = Some n"

text \<open>The steps of \<open>delete\<close> after the level loop.\<close>

definition close_delete :: "nat \<Rightarrow> ('k, 'v) skiplist \<Rightarrow> ('k, 'v) skiplist option" where
  "close_delete target s = do {
     t \<leftarrow> level_at s target 0;
     b \<leftarrow> backward_at s target;
     s \<leftarrow> (case forward t of
             Some next_node \<Rightarrow> set_backward s next_node b
           | None \<Rightarrow> Some (s\<lparr> tail := b \<rparr>));
     n \<leftarrow> lower_level s (level s);
     l \<leftarrow> checked_sub (len s) 1;
     Some (s\<lparr> level := n, len := l \<rparr>) }"

definition skiplist_delete ::
  "('k, 'v) skiplist \<Rightarrow> 'k \<Rightarrow> 'v \<Rightarrow> (bool \<times> ('k, 'v) skiplist) option"
where
  "skiplist_delete s key val = do {
     (current, update) \<leftarrow> delete_search s key val (level s) 0 (replicate MAX_LEVEL 0);
     l \<leftarrow> level_at s current 0;
     case forward l of
       None \<Rightarrow> Some (False, s)
     | Some target \<Rightarrow> do {
         same \<leftarrow> node_same s target key val;
         if \<not> same then Some (False, s)
         else do {
           s \<leftarrow> for_each (unlink_level target update) [0..<level s] s;
           s \<leftarrow> close_delete target s;
           Some (True, s) } } }"

subsection \<open>Queries\<close>

definition past_bound :: "('k, 'v) skiplist \<Rightarrow> 'k \<Rightarrow> bool \<Rightarrow> nat \<Rightarrow> bool option" where
  "past_bound s bound strict x = do {
     k \<leftarrow> key_at s x;
     Some (if strict then is_le (compare_key s k bound) else is_lt (compare_key s k bound)) }"

fun lower_bound_loop :: "('k, 'v) skiplist \<Rightarrow> 'k \<Rightarrow> bool \<Rightarrow> nat \<Rightarrow> nat \<Rightarrow> nat option" where
  "lower_bound_loop s bound strict 0 current = Some current"
| "lower_bound_loop s bound strict (Suc index) current = do {
     (c, _) \<leftarrow> walk s index (\<lambda>x _ _. past_bound s bound strict x) current 0;
     lower_bound_loop s bound strict index c }"

definition lower_bound_index :: "('k, 'v) skiplist \<Rightarrow> 'k \<Rightarrow> bool \<Rightarrow> nat option option" where
  "lower_bound_index s bound strict = do {
     current \<leftarrow> lower_bound_loop s bound strict (level s) 0;
     l \<leftarrow> level_at s current 0;
     Some (forward l) }"

definition entry :: "('k, 'v) skiplist \<Rightarrow> nat \<Rightarrow> ('k, 'v) range_entry option" where
  "entry s x = do { k \<leftarrow> key_at s x; v \<leftarrow> value_at s x; Some \<lparr> re_key = k, re_value = v \<rparr> }"

definition lower_bound ::
  "('k, 'v) skiplist \<Rightarrow> 'k \<Rightarrow> bool \<Rightarrow> ('k, 'v) range_entry option option"
where
  "lower_bound s bound strict = do {
     i \<leftarrow> lower_bound_index s bound strict;
     case i of None \<Rightarrow> Some None | Some x \<Rightarrow> map_option Some (entry s x) }"

definition less_or_same :: "('k, 'v) skiplist \<Rightarrow> 'k \<Rightarrow> 'v \<Rightarrow> nat \<Rightarrow> bool option" where
  "less_or_same s key val x = do {
     same \<leftarrow> node_same s x key val;
     less \<leftarrow> node_less s x key val;
     Some (less \<or> same) }"

fun rank_loop :: "('k, 'v) skiplist \<Rightarrow> 'k \<Rightarrow> 'v \<Rightarrow> nat \<Rightarrow> nat \<Rightarrow> nat \<Rightarrow> (nat \<times> nat) option" where
  "rank_loop s key val 0 current rank = Some (current, rank)"
| "rank_loop s key val (Suc index) current rank = do {
     (c, r) \<leftarrow> walk s index (\<lambda>x _ _. less_or_same s key val x) current rank;
     rank_loop s key val index c r }"

definition skiplist_rank :: "('k, 'v) skiplist \<Rightarrow> 'k \<Rightarrow> 'v \<Rightarrow> nat option option" where
  "skiplist_rank s key val = do {
     (current, rank) \<leftarrow> rank_loop s key val (level s) 0 0;
     if current = 0 then Some None
     else do {
       same \<leftarrow> node_same s current key val;
       if same then map_option Some (checked_sub rank 1) else Some None } }"

fun get_by_rank_loop ::
  "('k, 'v) skiplist \<Rightarrow> nat \<Rightarrow> nat \<Rightarrow> nat \<Rightarrow> nat \<Rightarrow> ('k, 'v) range_entry option option"
where
  "get_by_rank_loop s target 0 current traversed = Some None"
| "get_by_rank_loop s target (Suc index) current traversed = do {
     (c, t) \<leftarrow> walk s index (\<lambda>_ t d. Some (\<not> t + d > target)) current traversed;
     if t = target then map_option Some (entry s c)
     else get_by_rank_loop s target index c t }"

definition get_by_rank :: "('k, 'v) skiplist \<Rightarrow> nat \<Rightarrow> ('k, 'v) range_entry option option" where
  "get_by_rank s rank =
     (if rank \<ge> len s then Some None else get_by_rank_loop s (rank + 1) (level s) 0 0)"

definition reverse_start :: "('k, 'v) skiplist \<Rightarrow> 'k \<Rightarrow> bool \<Rightarrow> nat option option" where
  "reverse_start s bound strict = do {
     i \<leftarrow> lower_bound_index s bound strict;
     b \<leftarrow> (case i of None \<Rightarrow> Some None | Some x \<Rightarrow> backward_at s x);
     case b of
       Some y \<Rightarrow> Some (Some y)
     | None \<Rightarrow> do {
         j \<leftarrow> lower_bound_index s bound strict;
         Some (if j = None then tail s else None) } }"

definition range_start :: "('k, 'v) skiplist \<Rightarrow> 'k range_options \<Rightarrow> nat option option" where
  "range_start s options =
     (if opt_reverse options then
        (case opt_lte options of
           Some bound \<Rightarrow> reverse_start s bound True
         | None \<Rightarrow> (case opt_lt options of
                      Some bound \<Rightarrow> reverse_start s bound False
                    | None \<Rightarrow> Some (tail s)))
      else
        (case opt_gte options of
           Some bound \<Rightarrow> lower_bound_index s bound False
         | None \<Rightarrow> (case opt_gt options of
                      Some bound \<Rightarrow> lower_bound_index s bound True
                    | None \<Rightarrow> map_option forward (level_at s 0 0))))"

definition is_none_or :: "('a \<Rightarrow> bool) \<Rightarrow> 'a option \<Rightarrow> bool" where
  "is_none_or f m = (case m of None \<Rightarrow> True | Some a \<Rightarrow> f a)"

definition in_bounds :: "'k comparator \<Rightarrow> 'k range_options \<Rightarrow> 'k \<Rightarrow> bool" where
  "in_bounds c options key =
     (if opt_reverse options
      then is_none_or (\<lambda>bound. is_ge (c key bound)) (opt_gte options)
         \<and> is_none_or (\<lambda>bound. is_gt (c key bound)) (opt_gt options)
      else is_none_or (\<lambda>bound. is_le (c key bound)) (opt_lte options)
         \<and> is_none_or (\<lambda>bound. is_lt (c key bound)) (opt_lt options))"

definition range_next :: "('k, 'v) skiplist \<Rightarrow> 'k range_options \<Rightarrow> nat \<Rightarrow> nat option option" where
  "range_next s options x =
     (if opt_reverse options then backward_at s x else map_option forward (level_at s x 0))"

text \<open>
  The loop of \<open>range\<close>. An absent count is \<open>usize::MAX\<close> in the source, which no list reaches;
  here it stays absent.
\<close>

partial_function (option) range_loop ::
  "('k, 'v) skiplist \<Rightarrow> 'k range_options \<Rightarrow> nat option \<Rightarrow> nat \<Rightarrow> nat option
   \<Rightarrow> ('k, 'v) range_entry list \<Rightarrow> ('k, 'v) range_entry list option"
where
  "range_loop s options current offset remaining output =
     (case current of
        None \<Rightarrow> Some output
      | Some x \<Rightarrow> do {
          k \<leftarrow> key_at s x;
          if \<not> in_bounds (compare_key s) options k then Some output
          else if offset > 0 then do {
            current' \<leftarrow> range_next s options x;
            range_loop s options current' (offset - 1) remaining output }
          else if remaining \<noteq> Some 0 then do {
            e \<leftarrow> entry s x;
            current' \<leftarrow> range_next s options x;
            range_loop s options current' 0 (map_option (\<lambda>r. r - 1) remaining) (output @ [e]) }
          else Some output })"

definition skiplist_range ::
  "('k, 'v) skiplist \<Rightarrow> 'k range_options \<Rightarrow> ('k, 'v) range_entry list option"
where
  "skiplist_range s options = do {
     current \<leftarrow> range_start s options;
     range_loop s options current (opt_offset options) (opt_count options) [] }"

definition to_vec :: "('k, 'v) skiplist \<Rightarrow> ('k, 'v) range_entry list option" where
  "to_vec s = skiplist_range s range_options_default"

end
