(* ===== verification/SkipListInv.thy ===== *)
theory SkipListInv
  imports SkipList
begin

text \<open>
  The structural invariant of the skip list and its searches. \<open>shape s chain\<close> says that the
  list nodes, in order, are \<open>chain\<close>, that every level entry holds the next node of that level
  and its exact distance, and that backward indices, tail and length agree. The walk along one
  level, and from it the descents of all operations, are shown to return and to stop at the
  last node of each level that the search may reach.
\<close>


section \<open>Observations of the arena\<close>

definition tall :: "('k, 'v) skiplist \<Rightarrow> nat \<Rightarrow> nat" where
  "tall s x = (case nth_opt (nodes s) x of None \<Rightarrow> 0 | Some n \<Rightarrow> length (levels n))"

text \<open>What a change of one level entry or one backward index leaves alone.\<close>

definition same_data :: "('k, 'v) skiplist \<Rightarrow> ('k, 'v) skiplist \<Rightarrow> bool" where
  "same_data s s' \<longleftrightarrow> compare_key s' = compare_key s \<and> compare_value s' = compare_value s
     \<and> length (nodes s') = length (nodes s) \<and> key_at s' = key_at s \<and> value_at s' = value_at s
     \<and> tall s' = tall s \<and> len s' = len s \<and> level s' = level s"

definition same_backs :: "('k, 'v) skiplist \<Rightarrow> ('k, 'v) skiplist \<Rightarrow> bool" where
  "same_backs s s' \<longleftrightarrow> backward_at s' = backward_at s \<and> tail s' = tail s"

lemma same_data_refl [simp]: "same_data s s"
  by (simp add: same_data_def)

lemma same_data_trans: "same_data s t \<Longrightarrow> same_data t u \<Longrightarrow> same_data s u"
  by (simp add: same_data_def)

lemma same_backs_refl [simp]: "same_backs s s"
  by (simp add: same_backs_def)

lemma same_backs_trans: "same_backs s t \<Longrightarrow> same_backs t u \<Longrightarrow> same_backs s u"
  by (simp add: same_backs_def)

lemma nth_opt_Some [simp]: "i < length xs \<Longrightarrow> nth_opt xs i = Some (xs ! i)"
  by (simp add: nth_opt_def)

lemma nth_opt_eq_Some: "nth_opt xs i = Some x \<longleftrightarrow> i < length xs \<and> xs ! i = x"
  by (auto simp: nth_opt_def)

lemma level_at_iff: "level_at s x i \<noteq> None \<longleftrightarrow> i < tall s x"
  by (auto simp: level_at_def tall_def nth_opt_def)

lemma set_level_obtain:
  assumes "i < tall s x"
  obtains s' where "set_level s x i l = Some s'"
    and "\<forall>y j. level_at s' y j = (if y = x \<and> j = i then Some l else level_at s y j)"
    and "same_data s s'" and "same_backs s s'"
proof -
  let ?s' = "s\<lparr> nodes := (nodes s)[x := (nodes s ! x)\<lparr> levels := (levels (nodes s ! x))[i := l] \<rparr>] \<rparr>"
  have x: "x < length (nodes s)" and i: "i < length (levels (nodes s ! x))"
    using assms by (auto simp: tall_def nth_opt_def split: if_splits)
  show thesis
  proof
    show "set_level s x i l = Some ?s'"
      using assms level_at_iff [of s x i] by (simp add: set_level_def)
    show "\<forall>y j. level_at ?s' y j = (if y = x \<and> j = i then Some l else level_at s y j)"
      using x i by (auto simp: level_at_def nth_opt_def nth_list_update)
    show "same_data s ?s'"
      using x i by (auto simp: same_data_def key_at_def value_at_def tall_def nth_opt_def fun_eq_iff
          nth_list_update)
    show "same_backs s ?s'"
      using x by (auto simp: same_backs_def backward_at_def nth_opt_def fun_eq_iff nth_list_update)
  qed
qed

lemma set_backward_obtain:
  assumes "x < length (nodes s)"
  obtains s' where "set_backward s x b = Some s'" and "level_at s' = level_at s"
    and "same_data s s'" and "tail s' = tail s"
    and "\<forall>y. backward_at s' y = (if y = x then Some b else backward_at s y)"
proof
  let ?s' = "s\<lparr> nodes := (nodes s)[x := (nodes s ! x)\<lparr> backward := b \<rparr>] \<rparr>"
  show "set_backward s x b = Some ?s'"
    using assms by (simp add: set_backward_def)
  show "level_at ?s' = level_at s"
    using assms by (auto simp: level_at_def nth_opt_def fun_eq_iff nth_list_update)
  show "same_data s ?s'"
    using assms by (auto simp: same_data_def key_at_def value_at_def tall_def nth_opt_def
        fun_eq_iff nth_list_update)
  show "\<forall>y. backward_at ?s' y = (if y = x then Some b else backward_at s y)"
    using assms by (auto simp: backward_at_def nth_opt_def nth_list_update)
qed simp_all

section \<open>The shape of a list\<close>

text \<open>
  \<open>seek P ys\<close> is the level entry of a node followed by \<open>ys\<close>: the first node satisfying \<open>P\<close>
  and its distance; without one, the distance to the end of the list.
\<close>

fun seek :: "(nat \<Rightarrow> bool) \<Rightarrow> nat list \<Rightarrow> level" where
  "seek P [] = \<lparr> forward = None, span = 0 \<rparr>"
| "seek P (y # ys) =
     (if P y then \<lparr> forward = Some y, span = 1 \<rparr>
      else \<lparr> forward = forward (seek P ys), span = Suc (span (seek P ys)) \<rparr>)"

definition ht :: "('k, 'v) skiplist \<Rightarrow> nat \<Rightarrow> nat" where
  "ht s x = (if x = 0 then level s else tall s x)"

definition linked :: "('k, 'v) skiplist \<Rightarrow> nat list \<Rightarrow> bool" where
  "linked s C \<longleftrightarrow> (\<forall>pre x suf i. C = pre @ x # suf \<longrightarrow> i < ht s x \<longrightarrow>
     level_at s x i = Some (seek (\<lambda>y. i < ht s y) suf))"

definition backs :: "('k, 'v) skiplist \<Rightarrow> nat list \<Rightarrow> bool" where
  "backs s chain \<longleftrightarrow> (\<forall>pre x suf. chain = pre @ x # suf \<longrightarrow>
     backward_at s x = Some (if pre = [] then None else Some (last pre)))
   \<and> tail s = (if chain = [] then None else Some (last chain))"

definition shape :: "('k, 'v) skiplist \<Rightarrow> nat list \<Rightarrow> bool" where
  "shape s chain \<longleftrightarrow> distinct (0 # chain) \<and> (\<forall>x\<in>set chain. 0 < tall s x \<and> tall s x \<le> level s)
     \<and> 0 < level s \<and> level s \<le> MAX_LEVEL \<and> tall s 0 = MAX_LEVEL
     \<and> (\<forall>i. level s \<le> i \<longrightarrow> i < MAX_LEVEL \<longrightarrow> (\<exists>d. level_at s 0 i = Some \<lparr> forward = None, span = d \<rparr>))
     \<and> linked s (0 # chain) \<and> backs s chain \<and> len s = length chain"

lemma seek_none: "\<forall>y\<in>set ys. \<not> P y \<Longrightarrow> seek P ys = \<lparr> forward = None, span = length ys \<rparr>"
  by (induction ys) auto

lemma seek_append:
  "\<forall>y\<in>set xs. \<not> P y \<Longrightarrow> seek P (xs @ ys) =
     \<lparr> forward = forward (seek P ys), span = length xs + span (seek P ys) \<rparr>"
  by (induction xs) auto

lemma seek_early: "\<exists>y\<in>set xs. P y \<Longrightarrow> seek P (xs @ ys) = seek P xs"
  by (induction xs) (simp_all, metis)

lemma seek_hit: "\<forall>y\<in>set xs. \<not> P y \<Longrightarrow> P y \<Longrightarrow> seek P (xs @ y # ys) =
     \<lparr> forward = Some y, span = Suc (length xs) \<rparr>"
  by (simp add: seek_append)

lemma seek_cong: "(\<And>y. y \<in> set ys \<Longrightarrow> P y = Q y) \<Longrightarrow> seek P ys = seek Q ys"
  by (induction ys) auto

lemma seek_forward: "forward (seek P ys) = Some y \<Longrightarrow> P y"
  by (induction ys) (auto split: if_splits)

lemma seek_cases:
  obtains (miss) "\<forall>y\<in>set ys. \<not> P y" and "seek P ys = \<lparr> forward = None, span = length ys \<rparr>"
  | (hit) xs y zs where "ys = xs @ y # zs" and "\<forall>y\<in>set xs. \<not> P y" and "P y"
      and "seek P ys = \<lparr> forward = Some y, span = Suc (length xs) \<rparr>"
proof (cases "\<exists>y\<in>set ys. P y")
  case True
  then obtain xs y zs where "ys = xs @ y # zs" "P y" "\<forall>y\<in>set xs. \<not> P y"
    using split_list_first_propE [OF True] by metis
  then show ?thesis using hit seek_hit [of xs P y zs] by simp
next
  case False
  then show ?thesis using miss seek_none by blast
qed

lemma linkedD:
  "linked s C \<Longrightarrow> C = pre @ x # suf \<Longrightarrow> i < ht s x \<Longrightarrow>
     level_at s x i = Some (seek (\<lambda>y. i < ht s y) suf)"
  by (simp add: linked_def)

lemma backsD:
  "backs s chain \<Longrightarrow> chain = pre @ x # suf \<Longrightarrow>
     backward_at s x = Some (if pre = [] then None else Some (last pre))"
  by (simp add: backs_def)

section \<open>Searching\<close>

text \<open>
  A search continues up to position \<open>m\<close> of the chain (the header is position 0); \<open>b\<close> is the
  difference between positions and the distances the walk counts.
\<close>

definition search_upto :: "nat list \<Rightarrow> nat \<Rightarrow> nat \<Rightarrow> (nat \<Rightarrow> nat \<Rightarrow> nat \<Rightarrow> bool option) \<Rightarrow> bool" where
  "search_upto C m b continue \<longleftrightarrow> (\<forall>pre y suf t d. C = pre @ y # suf \<longrightarrow> pre \<noteq> [] \<longrightarrow>
     b + t + d = length pre \<longrightarrow> continue y t d = Some (length pre \<le> m))"

text \<open>\<open>u\<close>, at position \<open>r\<close>, is the last node up to position \<open>m\<close> that has level \<open>i\<close>.\<close>

definition last_at :: "(nat \<Rightarrow> nat) \<Rightarrow> nat list \<Rightarrow> nat \<Rightarrow> nat \<Rightarrow> nat \<Rightarrow> nat \<Rightarrow> bool" where
  "last_at h C m i u r \<longleftrightarrow> (\<exists>pre a b. C = pre @ u # a @ b \<and> r = length pre
     \<and> m = length pre + length a \<and> i < h u \<and> (\<forall>y\<in>set a. h y \<le> i))"

lemma last_atI:
  "C = pre @ u # a @ b \<Longrightarrow> r = length pre \<Longrightarrow> m = length pre + length a \<Longrightarrow> i < h u
   \<Longrightarrow> \<forall>y\<in>set a. h y \<le> i \<Longrightarrow> last_at h C m i u r"
  unfolding last_at_def by blast

lemma last_atE:
  assumes "last_at h C m i u r"
  obtains pre a b where "C = pre @ u # a @ b" and "r = length pre" and "m = length pre + length a"
    and "i < h u" and "\<forall>y\<in>set a. h y \<le> i"
  using assms unfolding last_at_def by blast

lemma walk_finds:
  assumes "linked s C" and "search_upto C m b continue" and "C = pre @ x # suf"
    and "i < ht s x" and "length pre \<le> m" and "m < length C" and "b + t = length pre"
  shows "\<exists>u r. walk s i continue x t = Some (u, r - b) \<and> last_at (ht s) C m i u r \<and> length pre \<le> r"
  using assms(3-)
proof (induction suf arbitrary: pre x t rule: length_induct)
  case (1 suf)
  note lev = linkedD [OF assms(1) "1.prems"(1,2)]
  show ?case
  proof (cases rule: seek_cases [of suf "\<lambda>y. i < ht s y"])
    case miss
    have "last_at (ht s) C m i x (length pre)"
      by (rule last_atI [of _ pre _ "take (m - length pre) suf" "drop (m - length pre) suf"])
         (use "1.prems" miss in \<open>auto dest!: in_set_takeD simp: min_def\<close>)
    then show ?thesis
      using "1.prems"(5) miss(2) lev
      by (intro exI [of _ x] exI [of _ "length pre"]) (auto simp: walk.simps [of s i continue x t])
  next
    case (hit xs y zs)
    have C: "C = (pre @ x # xs) @ y # zs" using "1.prems"(1) hit(1) by simp
    have cont: "continue y t (Suc (length xs)) = Some (length pre + Suc (length xs) \<le> m)"
      using assms(2) C "1.prems"(5) unfolding search_upto_def by (metis add.assoc append_is_Nil_conv
          length_Cons length_append list.distinct(1))
    show ?thesis
    proof (cases "length pre + Suc (length xs) \<le> m")
      case True
      have "\<exists>u r. walk s i continue y (t + Suc (length xs)) = Some (u, r - b)
          \<and> last_at (ht s) C m i u r \<and> length (pre @ x # xs) \<le> r"
        using "1.IH" [rule_format, of zs "pre @ x # xs" y "t + Suc (length xs)"] "1.prems" hit C True
        by simp
      then obtain u r where w: "walk s i continue y (t + Suc (length xs)) = Some (u, r - b)"
        and "last_at (ht s) C m i u r" and "length (pre @ x # xs) \<le> r" by blast
      moreover from w have "walk s i continue x t = Some (u, r - b)"
        using lev hit(4) cont True by (simp add: walk.simps [of s i continue x t])
      ultimately show ?thesis by fastforce
    next
      case False
      have "last_at (ht s) C m i x (length pre)"
        by (rule last_atI [of _ pre _ "take (m - length pre) xs" "drop (m - length pre) xs @ y # zs"])
           (use "1.prems" hit False in \<open>auto dest!: in_set_takeD simp: min_def not_less\<close>)
      then show ?thesis
        using lev hit(4) cont False "1.prems"(5)
        by (intro exI [of _ x] exI [of _ "length pre"]) (auto simp: walk.simps [of s i continue x t])
    qed
  qed
qed

text \<open>A search that has reached \<open>x\<close>, at position \<open>p\<close>, and goes on at the levels below \<open>i\<close>.\<close>

definition ready :: "(nat \<Rightarrow> nat) \<Rightarrow> nat list \<Rightarrow> nat \<Rightarrow> nat \<Rightarrow> nat \<Rightarrow> nat \<Rightarrow> bool" where
  "ready h C m i x p \<longleftrightarrow> (\<exists>pre suf. C = pre @ x # suf \<and> p = length pre \<and> p \<le> m \<and> i \<le> h x)"

lemma last_at_ready: "last_at h C m i u r \<Longrightarrow> ready h C m i u r"
  unfolding last_at_def ready_def by (metis le_add1 less_imp_le)

lemma walk_descends:
  assumes "linked s C" and "search_upto C m b continue" and "ready (ht s) C m (Suc i) x p"
    and "m < length C" and "b + t = p"
  obtains u r where "walk s i continue x t = Some (u, r - b)" and "last_at (ht s) C m i u r"
    and "b \<le> r"
proof -
  obtain pre suf where "C = pre @ x # suf" "p = length pre" "p \<le> m" "Suc i \<le> ht s x"
    using assms(3) unfolding ready_def by blast
  then show thesis
    using walk_finds [OF assms(1,2), of pre x suf i t] assms(4,5) that by force
qed

lemma last_at_0:
  assumes "last_at h (0 # chain) m 0 u r" and "\<forall>x\<in>set chain. 0 < h x"
  shows "r = m" and "u = (0 # chain) ! m"
proof -
  obtain pre a b where C: "0 # chain = pre @ u # a @ b" "r = length pre" "m = length pre + length a"
    and a: "\<forall>y\<in>set a. h y \<le> 0"
    using assms(1) unfolding last_at_def by blast
  have "set a \<subseteq> set chain" using C(1) by (cases pre) auto
  with a assms(2) have "a = []" by (cases a) auto
  with C show "r = m" and "u = (0 # chain) ! m" by simp_all
qed

lemma search_upto_takeWhile:
  assumes "\<And>y t d. y \<in> set chain \<Longrightarrow> continue y t d = Some (P y)"
    and "sorted_wrt (\<lambda>x y. P y \<longrightarrow> P x) chain"
  shows "search_upto (0 # chain) (length (takeWhile P chain)) b continue"
  unfolding search_upto_def
proof (intro allI impI)
  fix pre y suf t d
  assume "0 # chain = pre @ y # suf" and "pre \<noteq> []"
  then obtain pre' where pre: "pre = 0 # pre'" and ch: "chain = pre' @ y # suf" by (cases pre) auto
  have "P y \<longleftrightarrow> length pre \<le> length (takeWhile P chain)"
  proof (cases "P y")
    case True
    then have "\<forall>x\<in>set pre'. P x" using assms(2) by (auto simp: ch sorted_wrt_append)
    with True show ?thesis by (simp add: ch pre takeWhile_append2)
  next
    case False
    then have "length (takeWhile P chain) \<le> length pre'"
      by (cases "\<forall>x\<in>set pre'. P x") (auto simp: ch takeWhile_append length_takeWhile_le)
    with False show ?thesis by (simp add: pre)
  qed
  then show "continue y t d = Some (length pre \<le> length (takeWhile P chain))"
    using assms(1) by (simp add: ch)
qed

lemma insert_search_finds:
  assumes "linked s C" and "search_upto C m 0 (\<lambda>x _ _. node_less s x key val)" and "m < length C"
    and "level s \<le> MAX_LEVEL"
  shows "ready (ht s) C m idx x p \<Longrightarrow> idx \<le> level s \<Longrightarrow>
    (if idx = level s then p = 0 else rank ! idx = p) \<Longrightarrow>
    length update = MAX_LEVEL \<Longrightarrow> length rank = MAX_LEVEL \<Longrightarrow>
    \<exists>update' rank'. insert_search s key val idx x update rank = Some (update', rank')
      \<and> length update' = MAX_LEVEL \<and> length rank' = MAX_LEVEL
      \<and> (\<forall>i<idx. last_at (ht s) C m i (update' ! i) (rank' ! i))
      \<and> (\<forall>i\<ge>idx. update' ! i = update ! i \<and> rank' ! i = rank ! i)"
proof (induction idx arbitrary: x p update rank)
  case (Suc idx)
  obtain u r where w: "walk s idx (\<lambda>x _ _. node_less s x key val) x p = Some (u, r)"
    and l: "last_at (ht s) C m idx u r"
    using walk_descends [OF assms(1,2) Suc.prems(1) assms(3)] by auto
  have start: "(if idx = level s - 1 then Some 0 else nth_opt rank (idx + 1)) = Some p"
    using Suc.prems assms(4) by (auto split: if_splits)
  have "\<exists>update' rank'. insert_search s key val idx u (update[idx := u]) (rank[idx := r]) = Some (update', rank')
      \<and> length update' = MAX_LEVEL \<and> length rank' = MAX_LEVEL
      \<and> (\<forall>i<idx. last_at (ht s) C m i (update' ! i) (rank' ! i))
      \<and> (\<forall>i\<ge>idx. update' ! i = update[idx := u] ! i \<and> rank' ! i = rank[idx := r] ! i)"
    using Suc.prems assms(4) by (intro Suc.IH [OF last_at_ready [OF l]]) auto
  then obtain update' rank' where
    res: "insert_search s key val idx u (update[idx := u]) (rank[idx := r]) = Some (update', rank')"
      "length update' = MAX_LEVEL" "length rank' = MAX_LEVEL"
      "\<forall>i<idx. last_at (ht s) C m i (update' ! i) (rank' ! i)"
      "\<forall>i\<ge>idx. update' ! i = update[idx := u] ! i \<and> rank' ! i = rank[idx := r] ! i" by blast
  have "update' ! idx = u" "rank' ! idx = r" using res(5) Suc.prems assms(4) by auto
  with res l have "\<forall>i<Suc idx. last_at (ht s) C m i (update' ! i) (rank' ! i)"
    using less_Suc_eq by auto
  with res start w show ?case by auto
qed simp

lemma delete_search_finds:
  assumes "linked s C" and "\<And>b. search_upto C m b (\<lambda>x _ _. node_less s x key val)" and "m < length C"
  shows "ready (ht s) C m idx x p \<Longrightarrow> idx \<le> length update \<Longrightarrow>
    \<exists>current update'. delete_search s key val idx x update = Some (current, update')
      \<and> length update' = length update \<and> (if idx = 0 then current = x else current = update' ! 0)
      \<and> (\<forall>i<idx. \<exists>r. last_at (ht s) C m i (update' ! i) r) \<and> (\<forall>i\<ge>idx. update' ! i = update ! i)"
proof (induction idx arbitrary: x p update)
  case (Suc idx)
  obtain u r where w: "walk s idx (\<lambda>x _ _. node_less s x key val) x 0 = Some (u, r - p)"
    and l: "last_at (ht s) C m idx u r"
    by (rule walk_descends [OF assms(1,2) Suc.prems(1) assms(3), of p 0]) (auto intro: that)
  have "\<exists>current update'. delete_search s key val idx u (update[idx := u]) = Some (current, update')
      \<and> length update' = length (update[idx := u]) \<and> (if idx = 0 then current = u else current = update' ! 0)
      \<and> (\<forall>i<idx. \<exists>r. last_at (ht s) C m i (update' ! i) r)
      \<and> (\<forall>i\<ge>idx. update' ! i = update[idx := u] ! i)"
    using Suc.prems by (intro Suc.IH [OF last_at_ready [OF l]]) auto
  then obtain current update' where
    res: "delete_search s key val idx u (update[idx := u]) = Some (current, update')"
      "length update' = length update" "if idx = 0 then current = u else current = update' ! 0"
      "\<forall>i<idx. \<exists>r. last_at (ht s) C m i (update' ! i) r"
      "\<forall>i\<ge>idx. update' ! i = update[idx := u] ! i" by auto
  have u: "update' ! idx = u" using res(5) Suc.prems by auto
  with res(3) have "current = update' ! 0" by (auto split: if_splits)
  moreover from res(4) l u have "\<forall>i<Suc idx. \<exists>r. last_at (ht s) C m i (update' ! i) r"
    using less_Suc_eq by auto
  ultimately show ?case using res w by auto
qed simp

lemma lower_bound_loop_finds:
  assumes "linked s C" and "\<And>b. search_upto C m b (\<lambda>x _ _. past_bound s bound strict x)" and "m < length C"
  shows "ready (ht s) C m idx x p \<Longrightarrow> 0 < idx \<Longrightarrow>
    \<exists>u r. lower_bound_loop s bound strict idx x = Some u \<and> last_at (ht s) C m 0 u r"
proof (induction idx arbitrary: x p)
  case (Suc idx)
  obtain u r where "walk s idx (\<lambda>x _ _. past_bound s bound strict x) x 0 = Some (u, r - p)"
    and "last_at (ht s) C m idx u r"
    by (rule walk_descends [OF assms(1,2) Suc.prems(1) assms(3), of p 0]) (auto intro: that)
  then show ?case using Suc.IH [OF last_at_ready] by (cases idx) auto
qed simp

lemma rank_loop_finds:
  assumes "linked s C" and "search_upto C m 0 (\<lambda>x _ _. less_or_same s key val x)" and "m < length C"
  shows "ready (ht s) C m idx x p \<Longrightarrow> 0 < idx \<Longrightarrow>
    \<exists>u r. rank_loop s key val idx x p = Some (u, r) \<and> last_at (ht s) C m 0 u r"
proof (induction idx arbitrary: x p)
  case (Suc idx)
  obtain u r where "walk s idx (\<lambda>x _ _. less_or_same s key val x) x p = Some (u, r)"
    and "last_at (ht s) C m idx u r"
    using walk_descends [OF assms(1,2) Suc.prems(1) assms(3), of p] by auto
  then show ?case using Suc.IH [OF last_at_ready] by (cases idx) auto
qed simp

lemma get_by_rank_loop_finds:
  assumes "linked s (0 # chain)" and "m \<le> length chain" and "\<forall>x\<in>set chain. 0 < ht s x"
  shows "ready (ht s) (0 # chain) m idx x p \<Longrightarrow> 0 < idx \<Longrightarrow>
    get_by_rank_loop s m idx x p = map_option Some (entry s ((0 # chain) ! m))"
proof (induction idx arbitrary: x p)
  case (Suc idx)
  have "search_upto (0 # chain) m 0 (\<lambda>_ t d. Some (\<not> t + d > m))"
    by (auto simp: search_upto_def)
  then obtain u r where w: "walk s idx (\<lambda>_ t d. Some (\<not> t + d > m)) x p = Some (u, r)"
    and l: "last_at (ht s) (0 # chain) m idx u r"
    using walk_descends [OF assms(1) _ Suc.prems(1), of 0 _ p] assms(2) by auto
  have u: "r = m \<Longrightarrow> u = (0 # chain) ! m"
    using l unfolding last_at_def by auto
  show ?case
  proof (cases "r = m")
    case True
    then show ?thesis using w u by simp
  next
    case False
    with l assms(3) have "0 < idx" using last_at_0(1) by (cases idx) auto
    with False w show ?thesis using Suc.IH [OF last_at_ready [OF l]] by simp
  qed
qed simp

end
