(* ===== verification/SkipListInsert.thy ===== *)
theory SkipListInsert
  imports SkipListInv
begin

text \<open>
  \<open>insert\<close> keeps the shape: raising the header, linking the new node into the levels it has,
  lengthening the spans of the levels above it, and closing the backward links put the new
  node right after the position the search found.
\<close>

section \<open>Insertion\<close>

lemma obs_updates [simp]:
  "level_at (s\<lparr> random_state := r \<rparr>) = level_at s" "level_at (s\<lparr> tail := t \<rparr>) = level_at s"
  "level_at (s\<lparr> len := l \<rparr>) = level_at s" "level_at (s\<lparr> level := l \<rparr>) = level_at s"
  "key_at (s\<lparr> random_state := r \<rparr>) = key_at s" "key_at (s\<lparr> tail := t \<rparr>) = key_at s"
  "key_at (s\<lparr> len := l \<rparr>) = key_at s" "key_at (s\<lparr> level := l \<rparr>) = key_at s"
  "value_at (s\<lparr> random_state := r \<rparr>) = value_at s" "value_at (s\<lparr> tail := t \<rparr>) = value_at s"
  "value_at (s\<lparr> len := l \<rparr>) = value_at s" "value_at (s\<lparr> level := l \<rparr>) = value_at s"
  "backward_at (s\<lparr> random_state := r \<rparr>) = backward_at s" "backward_at (s\<lparr> tail := t \<rparr>) = backward_at s"
  "backward_at (s\<lparr> len := l \<rparr>) = backward_at s" "backward_at (s\<lparr> level := l \<rparr>) = backward_at s"
  "tall (s\<lparr> random_state := r \<rparr>) = tall s" "tall (s\<lparr> tail := t \<rparr>) = tall s"
  "tall (s\<lparr> len := l \<rparr>) = tall s" "tall (s\<lparr> level := l \<rparr>) = tall s"
  by (auto simp: level_at_def key_at_def value_at_def backward_at_def tall_def fun_eq_iff)

lemma shape_cong:
  assumes "level_at s' = level_at s" and "tall s' = tall s" and "level s' = level s"
    and "backward_at s' = backward_at s" and "tail s' = tail s" and "len s' = len s"
  shows "shape s' = shape s"
  by (simp add: shape_def linked_def backs_def ht_def assms fun_eq_iff)

lemma shapeD:
  assumes "shape s chain"
  shows "distinct (0 # chain)" and "linked s (0 # chain)" and "backs s chain"
    and "\<forall>x\<in>set chain. 0 < ht s x" and "\<forall>x\<in>set chain. ht s x \<le> level s"
    and "0 < level s" and "level s \<le> MAX_LEVEL" and "tall s 0 = MAX_LEVEL" and "len s = length chain"
  using assms unfolding shape_def ht_def by auto

lemma random_level_loop_bounds:
  "n < MAX_LEVEL \<Longrightarrow> 1 \<le> fst (random_level_loop n st) \<and> fst (random_level_loop n st) \<le> MAX_LEVEL"
proof (induction n arbitrary: st)
  case (Suc n)
  then have "1 \<le> fst (random_level_loop n (xorshift st)) \<and> fst (random_level_loop n (xorshift st)) \<le> MAX_LEVEL"
    by simp
  with Suc.prems show ?case by (auto simp: Let_def)
qed (simp add: MAX_LEVEL_def)

lemma random_level_obtain:
  obtains n st where "random_level s = (n, s\<lparr> random_state := st \<rparr>)" and "1 \<le> n" and "n \<le> MAX_LEVEL"
  using random_level_loop_bounds [of "MAX_LEVEL - 1" "random_state s"]
  by (cases "random_level_loop (MAX_LEVEL - 1) (random_state s)")
     (auto simp: random_level_def MAX_LEVEL_def)

lemma for_each_append:
  "for_each body (xs @ ys) s = Option.bind (for_each body xs s) (for_each body ys)"
  by (induction xs arbitrary: s) (auto split: bind_splits)

lemma raise_loop:
  assumes "l \<le> k" and "k \<le> tall s 0" and "k \<le> length update" and "k \<le> length rank"
    and "\<forall>i. l \<le> i \<longrightarrow> i < k \<longrightarrow> (\<exists>d. level_at s 0 i = Some \<lparr> forward = None, span = d \<rparr>)"
  shows "\<exists>s' update' rank'. for_each (\<lambda>index (s, update, rank). do {
            l \<leftarrow> level_at s 0 index;
            s' \<leftarrow> set_level s 0 index (l\<lparr> span := len s \<rparr>);
            Some (s', update[index := 0], rank[index := 0]) }) [l..<k] (s, update, rank)
        = Some (s', update', rank') \<and> same_data s s' \<and> same_backs s s'
      \<and> length update' = length update \<and> length rank' = length rank
      \<and> (\<forall>y j. level_at s' y j = (if y = 0 \<and> l \<le> j \<and> j < k
            then Some \<lparr> forward = None, span = len s \<rparr> else level_at s y j))
      \<and> (\<forall>j. j < length update \<longrightarrow> update' ! j = (if l \<le> j \<and> j < k then 0 else update ! j))
      \<and> (\<forall>j. j < length rank \<longrightarrow> rank' ! j = (if l \<le> j \<and> j < k then 0 else rank ! j))"
  using assms
proof (induction k rule: dec_induct)
  case base
  then show ?case by auto
next
  case (step k)
  then obtain s' update' rank' where IH: "for_each (\<lambda>index (s, update, rank). do {
            l \<leftarrow> level_at s 0 index;
            s' \<leftarrow> set_level s 0 index (l\<lparr> span := len s \<rparr>);
            Some (s', update[index := 0], rank[index := 0]) }) [l..<k] (s, update, rank)
        = Some (s', update', rank')" "same_data s s'" "same_backs s s'"
      "length update' = length update" "length rank' = length rank"
      "\<forall>y j. level_at s' y j = (if y = 0 \<and> l \<le> j \<and> j < k
            then Some \<lparr> forward = None, span = len s \<rparr> else level_at s y j)"
      "\<forall>j. j < length update \<longrightarrow> update' ! j = (if l \<le> j \<and> j < k then 0 else update ! j)"
      "\<forall>j. j < length rank \<longrightarrow> rank' ! j = (if l \<le> j \<and> j < k then 0 else rank ! j)"
    by (auto simp: less_Suc_eq)
  obtain d where d: "level_at s' 0 k = Some \<lparr> forward = None, span = d \<rparr>"
    using IH(6) step.prems(4) step.hyps by auto
  have "k < tall s' 0" using IH(2) step.prems(1) by (simp add: same_data_def)
  then obtain s'' where s'': "set_level s' 0 k \<lparr> forward = None, span = len s \<rparr> = Some s''"
      "\<forall>y j. level_at s'' y j = (if y = 0 \<and> j = k then Some \<lparr> forward = None, span = len s \<rparr>
          else level_at s' y j)" "same_data s' s''" "same_backs s' s''"
    using set_level_obtain [of k s' 0 "\<lparr> forward = None, span = len s \<rparr>"] by blast
  have "len s' = len s" using IH(2) by (simp add: same_data_def)
  then show ?case
    using IH s''(1,2) d step.hyps step.prems(2,3) same_data_trans [OF IH(2) s''(3)]
      same_backs_trans [OF IH(3) s''(4)]
    by (auto simp: for_each_append nth_list_update less_Suc_eq)
qed

lemma raise_level_ok:
  assumes sh: "shape s chain" and n: "n \<le> MAX_LEVEL" and m: "m \<le> length chain"
    and len: "length update = MAX_LEVEL" "length rank = MAX_LEVEL"
    and last: "\<forall>i<level s. last_at (ht s) (0 # chain) m i (update ! i) (rank ! i)"
  shows "\<exists>s' update' rank'. raise_level s n update rank = Some (s', update', rank')
      \<and> shape s' chain \<and> level s' = max (level s) n \<and> length update' = MAX_LEVEL \<and> length rank' = MAX_LEVEL
      \<and> same_data (s\<lparr> level := level s' \<rparr>) s'
      \<and> (\<forall>i<level s'. last_at (ht s') (0 # chain) m i (update' ! i) (rank' ! i))"
proof (cases "n > level s")
  case False
  then show ?thesis using assms by (auto simp: raise_level_def max_def)
next
  case True
  note D = shapeD [OF sh]
  have free: "\<forall>i. level s \<le> i \<longrightarrow> i < n \<longrightarrow> (\<exists>d. level_at s 0 i = Some \<lparr> forward = None, span = d \<rparr>)"
    using sh n unfolding shape_def by auto
  obtain s1 u r where loop: "for_each (\<lambda>index (s, update, rank). do {
            l \<leftarrow> level_at s 0 index;
            s' \<leftarrow> set_level s 0 index (l\<lparr> span := len s \<rparr>);
            Some (s', update[index := 0], rank[index := 0]) }) [level s..<n] (s, update, rank)
        = Some (s1, u, r)" and sd: "same_data s s1" and sb: "same_backs s s1"
      and lens: "length u = MAX_LEVEL" "length r = MAX_LEVEL"
      and lev: "\<forall>y j. level_at s1 y j = (if y = 0 \<and> level s \<le> j \<and> j < n
            then Some \<lparr> forward = None, span = len s \<rparr> else level_at s y j)"
      and u: "\<forall>j. j < MAX_LEVEL \<longrightarrow> u ! j = (if level s \<le> j \<and> j < n then 0 else update ! j)"
      and r: "\<forall>j. j < MAX_LEVEL \<longrightarrow> r ! j = (if level s \<le> j \<and> j < n then 0 else rank ! j)"
    using raise_loop [of "level s" n s update rank] True D n len free by auto
  let ?s = "s1\<lparr> level := n \<rparr>"
  have ht: "ht ?s x = (if x = 0 then n else ht s x)" for x
    using sd by (simp add: ht_def same_data_def)
  have no0: "0 \<notin> set chain" using D(1) by simp
  have cut: "(\<lambda>y. i < ht ?s y) y = (i < ht s y)" if "y \<in> set chain" for y i
    using that no0 ht by (metis)
  have "linked ?s (0 # chain)"
    unfolding linked_def
  proof (intro allI impI)
    fix pre x suf i
    assume sp: "0 # chain = pre @ x # suf" and i: "i < ht ?s x"
    have suf: "set suf \<subseteq> set chain" using sp by (cases pre) auto
    then have eq: "seek (\<lambda>y. i < ht ?s y) suf = seek (\<lambda>y. i < ht s y) suf"
      using cut by (intro seek_cong) auto
    show "level_at ?s x i = Some (seek (\<lambda>y. i < ht ?s y) suf)"
    proof (cases "i < ht s x")
      case t: True
      then have "level_at s x i = Some (seek (\<lambda>y. i < ht s y) suf)" by (rule linkedD [OF D(2) sp])
      then show ?thesis using lev t eq by (auto simp: ht_def)
    next
      case False
      with i ht have x: "x = 0" and li: "level s \<le> i" "i < n" by (auto simp: ht_def split: if_splits)
      have "suf = chain" using sp no0 x by (cases pre) auto
      moreover have "seek (\<lambda>y. i < ht s y) chain = \<lparr> forward = None, span = length chain \<rparr>"
        using D(5) li by (intro seek_none) fastforce
      ultimately show ?thesis using lev x li eq D(9) by simp
    qed
  qed
  moreover have "backs ?s chain"
    using D(3) sb by (simp add: backs_def same_backs_def)
  moreover have "\<forall>x\<in>set chain. 0 < tall ?s x \<and> tall ?s x \<le> n"
    using sh sd True unfolding shape_def same_data_def by auto
  ultimately have "shape ?s chain"
    using sh sd True n lev unfolding shape_def same_data_def by auto
  moreover have "last_at (ht ?s) (0 # chain) m i (u ! i) (r ! i)" if i: "i < n" for i
  proof (cases "i < level s")
    case t: True
    with last u r n i obtain pre a b where C: "0 # chain = pre @ (u ! i) # a @ b" "r ! i = length pre"
        "m = length pre + length a" "i < ht s (u ! i)" "\<forall>y\<in>set a. ht s y \<le> i"
      unfolding last_at_def by auto
    moreover have "0 \<notin> set a" using C(1) no0 by (cases pre) auto
    ultimately show ?thesis
      using i by (intro last_atI [of _ pre _ a b]) (auto simp: ht intro!: gr0I)
  next
    case False
    then have "u ! i = 0" "r ! i = 0" using u r i n by auto
    then show ?thesis
      using False D(5) i m no0
      by (intro last_atI [of _ "[]" _ "take m chain" "drop m chain"])
         (auto simp: ht dest!: in_set_takeD intro!: gr0I)
  qed
  ultimately show ?thesis
    using loop lens True sd by (auto simp: raise_level_def max_def same_data_def)
qed

text \<open>Appending the new node to the arena.\<close>

lemma push_node:
  assumes "s' = s\<lparr> nodes := nodes s @ [node_new key val n] \<rparr>" and "N = length (nodes s)"
  shows "\<forall>y j. level_at s' y j = (if y = N then (if j < n then Some \<lparr> forward = None, span = 0 \<rparr> else None)
            else level_at s y j)"
    and "\<forall>y. key_at s' y = (if y = N then Some key else key_at s y)"
    and "\<forall>y. value_at s' y = (if y = N then Some val else value_at s y)"
    and "\<forall>y. tall s' y = (if y = N then n else tall s y)"
    and "\<forall>y. backward_at s' y = (if y = N then Some None else backward_at s y)"
  unfolding assms level_at_def key_at_def value_at_def tall_def backward_at_def
  by (auto simp: nth_opt_def nth_append node_new_def)

text \<open>The two loops over the levels: what each leaves in every level entry.\<close>

lemma link_loop:
  assumes "k \<le> tall s N" and "k \<le> length update" and "k \<le> length rank" and "0 < length rank"
    and "\<forall>i<k. level_at s (update ! i) i = Some (pl i) \<and> update ! i \<noteq> N \<and> rank ! i \<le> rank ! 0"
  shows "\<exists>s'. for_each (link_level N update rank) [0..<k] s = Some s' \<and> same_data s s' \<and> same_backs s s'
      \<and> (\<forall>y j. level_at s' y j =
           (if j < k \<and> y = N then Some \<lparr> forward = forward (pl j), span = span (pl j) - (rank ! 0 - rank ! j) \<rparr>
            else if j < k \<and> y = update ! j then Some \<lparr> forward = Some N, span = rank ! 0 - rank ! j + 1 \<rparr>
            else level_at s y j))"
  using assms
proof (induction k)
  case (Suc k)
  then obtain s1 where IH: "for_each (link_level N update rank) [0..<k] s = Some s1" "same_data s s1" "same_backs s s1"
      "\<forall>y j. level_at s1 y j =
           (if j < k \<and> y = N then Some \<lparr> forward = forward (pl j), span = span (pl j) - (rank ! 0 - rank ! j) \<rparr>
            else if j < k \<and> y = update ! j then Some \<lparr> forward = Some N, span = rank ! 0 - rank ! j + 1 \<rparr>
            else level_at s y j)"
    by auto
  have pl: "level_at s1 (update ! k) k = Some (pl k)" and neq: "update ! k \<noteq> N"
    and rk: "rank ! k \<le> rank ! 0"
    using IH(4) Suc.prems(5) by auto
  let ?l = "\<lparr> forward = forward (pl k), span = span (pl k) - (rank ! 0 - rank ! k) \<rparr>"
  let ?l' = "\<lparr> forward = Some N, span = rank ! 0 - rank ! k + 1 \<rparr>"
  have "k < tall s1 N" using IH(2) Suc.prems(1) by (simp add: same_data_def)
  then obtain s2 where s2: "set_level s1 N k ?l = Some s2"
      "\<forall>y j. level_at s2 y j = (if y = N \<and> j = k then Some ?l else level_at s1 y j)"
      "same_data s1 s2" "same_backs s1 s2"
    by (rule set_level_obtain)
  have "k < tall s2 (update ! k)"
    using pl s2(3) level_at_iff [of s1 "update ! k" k] by (simp add: same_data_def)
  then obtain s3 where s3: "set_level s2 (update ! k) k ?l' = Some s3"
      "\<forall>y j. level_at s3 y j = (if y = update ! k \<and> j = k then Some ?l' else level_at s2 y j)"
      "same_data s2 s3" "same_backs s2 s3"
    by (rule set_level_obtain)
  have "link_level N update rank k s1 = Some s3"
    using pl rk Suc.prems s2(1) s3(1) by (simp add: link_level_def checked_sub_def)
  then have "for_each (link_level N update rank) [0..<Suc k] s = Some s3"
    using IH(1) by (simp add: for_each_append)
  moreover have "\<forall>y j. level_at s3 y j =
           (if j < Suc k \<and> y = N then Some \<lparr> forward = forward (pl j), span = span (pl j) - (rank ! 0 - rank ! j) \<rparr>
            else if j < Suc k \<and> y = update ! j then Some \<lparr> forward = Some N, span = rank ! 0 - rank ! j + 1 \<rparr>
            else level_at s y j)"
    using IH(4) s2(2) s3(2) neq by (simp add: less_Suc_eq)
  ultimately show ?case
    using IH(2,3) s2(3,4) s3(3,4) by (meson same_data_trans same_backs_trans)
qed simp

lemma bump_loop:
  assumes "n \<le> k" and "k \<le> length update"
    and "\<forall>i. n \<le> i \<longrightarrow> i < k \<longrightarrow> level_at s (update ! i) i = Some (pl i)"
  shows "\<exists>s'. for_each (bump_level update) [n..<k] s = Some s' \<and> same_data s s' \<and> same_backs s s'
      \<and> (\<forall>y j. level_at s' y j =
           (if n \<le> j \<and> j < k \<and> y = update ! j then Some \<lparr> forward = forward (pl j), span = span (pl j) + 1 \<rparr>
            else level_at s y j))"
  using assms
proof (induction k rule: dec_induct)
  case (step k)
  then obtain s1 where IH: "for_each (bump_level update) [n..<k] s = Some s1" "same_data s s1" "same_backs s s1"
      "\<forall>y j. level_at s1 y j =
           (if n \<le> j \<and> j < k \<and> y = update ! j then Some \<lparr> forward = forward (pl j), span = span (pl j) + 1 \<rparr>
            else level_at s y j)"
    by auto
  have pl: "level_at s1 (update ! k) k = Some (pl k)" using IH(4) step by auto
  let ?l = "\<lparr> forward = forward (pl k), span = span (pl k) + 1 \<rparr>"
  have "k < tall s1 (update ! k)" using pl level_at_iff [of s1 "update ! k" k] by simp
  then obtain s2 where s2: "set_level s1 (update ! k) k ?l = Some s2"
      "\<forall>y j. level_at s2 y j = (if y = update ! k \<and> j = k then Some ?l else level_at s1 y j)"
      "same_data s1 s2" "same_backs s1 s2"
    by (rule set_level_obtain)
  have "bump_level update k s1 = Some s2"
    using pl step.prems s2(1) by (simp add: bump_level_def)
  then have "for_each (bump_level update) [n..<Suc k] s = Some s2"
    using IH(1) step.hyps by (simp add: for_each_append)
  moreover have "\<forall>y j. level_at s2 y j =
           (if n \<le> j \<and> j < Suc k \<and> y = update ! j then Some \<lparr> forward = forward (pl j), span = span (pl j) + 1 \<rparr>
            else level_at s y j)"
    using IH(4) s2(2) step.hyps by (simp add: less_Suc_eq)
  ultimately show ?case
    using IH(2,3) s2(3,4) by (meson same_data_trans same_backs_trans)
qed auto

lemma split_around:
  assumes "xs @ n # ys = pre @ x # suf"
  obtains (left) a where "xs = pre @ x # a" and "suf = a @ n # ys"
  | (here) "pre = xs" and "x = n" and "suf = ys"
  | (right) b where "ys = b @ x # suf" and "pre = xs @ n # b"
  using assms by (auto simp: append_eq_append_conv2 Cons_eq_append_conv append_eq_Cons_conv)

lemma distinct_split:
  assumes "distinct xs" and "xs = p @ x # a" and "xs = q @ x # b"
  shows "p = q" and "a = b"
proof -
  have "x \<notin> set p" "x \<notin> set a" using assms(1,2) by auto
  then show "p = q" and "a = b" using assms(2,3) append_Cons_eq_iff [of x p a q b] by auto
qed

text \<open>
  Cut at position \<open>m\<close>, the chain is \<open>A @ B\<close>: the last node of \<open>A\<close> with level \<open>i\<close> is followed
  in \<open>A\<close> by lower nodes only, and precedes no other node of \<open>A\<close> with that level.
\<close>

lemma last_at_split:
  assumes "last_at h (A @ B) m i u r" and "length A = Suc m"
  obtains p a where "A = p @ u # a" and "\<forall>y\<in>set a. h y \<le> i" and "i < h u" and "m - r = length a"
proof -
  obtain p a b where P: "A @ B = p @ u # a @ b" "r = length p" "m = length p + length a" "i < h u"
      "\<forall>y\<in>set a. h y \<le> i"
    using assms(1) by (blast elim: last_atE)
  have "take (Suc m) (A @ B) = p @ u # a" using P(1,3) by simp
  then have "A = p @ u # a" using assms(2) by simp
  with P show thesis by (intro that) auto
qed

lemma last_is_later:
  assumes "distinct A" and "A = pre @ x # a" and "A = p @ u # a'" and "\<forall>y\<in>set a'. h y \<le> i"
    and "(i::nat) < h x" and "x \<noteq> u"
  shows "u \<in> set a"
proof (rule ccontr)
  assume "u \<notin> set a"
  with assms(2,3,6) have "u \<in> set pre" by (metis Un_iff in_set_conv_decomp set_ConsD set_append)
  then obtain p1 p2 where "pre = p1 @ u # p2" by (meson split_list)
  with assms(2) have "A = p1 @ u # p2 @ x # a" by simp
  then have "a' = p2 @ x # a" by (rule distinct_split(2) [OF assms(1,3)])
  with assms(4,5) show False by simp
qed

lemma last_at_entry:
  assumes "linked s (A @ B)" and "last_at (ht s) (A @ B) m i u r" and "length A = Suc m"
    and "level_at s u i = Some l"
  obtains p a where "A = p @ u # a" and "\<forall>y\<in>set a. ht s y \<le> i" and "m - r = length a" and "i < ht s u"
    and "l = \<lparr> forward = forward (seek (\<lambda>y. i < ht s y) B), span = length a + span (seek (\<lambda>y. i < ht s y) B) \<rparr>"
proof -
  obtain p a where A: "A = p @ u # a" "\<forall>y\<in>set a. ht s y \<le> i" "i < ht s u" "m - r = length a"
    using assms(2,3) by (rule last_at_split)
  have "level_at s u i = Some (seek (\<lambda>y. i < ht s y) (a @ B))"
    by (rule linkedD [OF assms(1) _ A(3)]) (simp add: A(1))
  then show thesis using A assms(4) seek_append [of a "\<lambda>y. i < ht s y" B]
    by (intro that [of p a]) (auto simp: not_less)
qed

lemma linked_left:
  assumes "linked s (A @ B)" and "A = pre @ x # a" and "i < ht s x"
  shows "level_at s x i = Some (seek (\<lambda>y. i < ht s y) (a @ B))"
  by (rule linkedD [OF assms(1) _ assms(3)]) (simp add: assms(2))

lemma linked_right:
  assumes "linked s (A @ B)" and "B = b @ x # suf" and "i < ht s x"
  shows "level_at s x i = Some (seek (\<lambda>y. i < ht s y) suf)"
  by (rule linkedD [OF assms(1) _ assms(3), of "A @ b"]) (simp add: assms(2))

text \<open>The level entries after both loops link the new node between \<open>A\<close> and \<open>B\<close>.\<close>

lemma insert_linked:
  assumes link: "linked s (A @ B)" and dist: "distinct (A @ B)" and lenA: "length A = Suc m"
    and last: "\<forall>i<level s. last_at (ht s) (A @ B) m i (update ! i) (rank ! i)"
    and r0: "rank ! 0 = m" and pos: "\<forall>x\<in>set (A @ B). ht s x \<le> level s"
    and N: "N \<notin> set (A @ B)" and n: "n \<le> level s"
    and h': "\<forall>x. ht s' x = (if x = N then n else ht s x)"
    and pl: "\<forall>i<level s. level_at s (update ! i) i = Some (pl i)"
    and lev: "\<forall>j<n. level_at s' N j =
                Some \<lparr> forward = forward (pl j), span = span (pl j) - (rank ! 0 - rank ! j) \<rparr>"
      "\<forall>y j. y \<noteq> N \<longrightarrow> level_at s' y j =
           (if j < n \<and> y = update ! j then Some \<lparr> forward = Some N, span = rank ! 0 - rank ! j + 1 \<rparr>
            else if n \<le> j \<and> j < level s \<and> y = update ! j
              then Some \<lparr> forward = forward (pl j), span = span (pl j) + 1 \<rparr>
            else level_at s y j)"
  shows "linked s' (A @ N # B)"
  unfolding linked_def
proof (intro allI impI)
  fix pre x suf i
  assume sp: "A @ N # B = pre @ x # suf" and i: "i < ht s' x"
  have NA: "N \<notin> set A" "N \<notin> set B" using N by auto
  have cut: "seek (\<lambda>y. j < ht s' y) ys = seek (\<lambda>y. j < ht s y) ys" if "N \<notin> set ys" for ys j
    using that h' by (intro seek_cong) auto
  from sp show "level_at s' x i = Some (seek (\<lambda>y. i < ht s' y) suf)"
  proof (cases rule: split_around)
    case (left a)
    have Na: "N \<notin> set a" and xN: "x \<noteq> N" using NA(1) left(1) by auto
    have i': "i < ht s x" using i h' xN by simp
    then have iL: "i < level s" using pos left(1) by fastforce
    obtain p a' where near: "A = p @ (update ! i) # a'" "\<forall>y\<in>set a'. ht s y \<le> i"
        "m - rank ! i = length a'" "i < ht s (update ! i)"
        "pl i = \<lparr> forward = forward (seek (\<lambda>y. i < ht s y) B), span = length a' + span (seek (\<lambda>y. i < ht s y) B) \<rparr>"
      by (rule last_at_entry [OF link last [rule_format, OF iL] lenA pl [rule_format, OF iL]])
    have dA: "distinct A" using dist by simp
    show ?thesis
    proof (cases "x = update ! i")
      case True
      have "a = a'"
        using near(1) unfolding True [symmetric] by (rule distinct_split(2) [OF dA left(1)])
      then have "\<forall>y\<in>set a. \<not> i < ht s' y" using near(2) h' Na by auto
      then have "seek (\<lambda>y. i < ht s' y) suf = \<lparr> forward = forward (seek (\<lambda>y. i < ht s' y) (N # B)),
          span = length a + span (seek (\<lambda>y. i < ht s' y) (N # B)) \<rparr>"
        unfolding left(2) by (rule seek_append)
      then show ?thesis
        using True xN near(3,5) lev(2) iL r0 h' cut [OF NA(2)] \<open>a = a'\<close> by auto
    next
      case False
      have u: "update ! i \<in> set a" by (rule last_is_later [OF dA left(1) near(1,2) i' False])
      then have "seek (\<lambda>y. i < ht s' y) suf = seek (\<lambda>y. i < ht s y) (a @ B)"
        unfolding left(2) using Na near(4) h' cut [OF Na] by (metis seek_early)
      then show ?thesis using lev(2) xN False linked_left [OF link left(1) i'] by simp
    qed
  next
    case here
    have iL: "i < level s" "i < n" using here i h' n by auto
    obtain p a' where "A = p @ (update ! i) # a'" "\<forall>y\<in>set a'. ht s y \<le> i"
        "m - rank ! i = length a'" "i < ht s (update ! i)"
        "pl i = \<lparr> forward = forward (seek (\<lambda>y. i < ht s y) B), span = length a' + span (seek (\<lambda>y. i < ht s y) B) \<rparr>"
      by (rule last_at_entry [OF link last [rule_format, OF iL(1)] lenA pl [rule_format, OF iL(1)]])
    then show ?thesis using here lev(1) iL r0 cut [OF NA(2)] by simp
  next
    case (right b)
    have x: "x \<noteq> N" "N \<notin> set suf" using NA(2) right(1) by auto
    moreover have "x \<noteq> update ! i" if iL: "i < level s"
    proof -
      obtain p a where "A = p @ (update ! i) # a"
        using last_at_split [OF last [rule_format, OF iL] lenA] by blast
      then show ?thesis using right(1) dist by auto
    qed
    moreover have "level_at s x i = Some (seek (\<lambda>y. i < ht s y) suf)"
      using linked_right [OF link right(1)] x i h' by simp
    ultimately show ?thesis
      using lev(2) cut n by auto
  qed
qed

lemma insert_backs:
  assumes "backs s chain" and "distinct (chain)" and "N \<notin> set chain" and "chain = A @ B"
    and "\<forall>y. backward_at s' y = (if B \<noteq> [] \<and> y = hd B then Some (Some N)
            else if y = N then Some (if A = [] then None else Some (last A)) else backward_at s y)"
    and "tail s' = (if B = [] then Some N else tail s)"
  shows "backs s' (A @ N # B)"
  unfolding backs_def
proof (intro conjI allI impI)
  have old: "backward_at s x = Some (if pre = [] then None else Some (last pre))"
    if "chain = pre @ x # suf" for pre x suf
    by (rule backsD [OF assms(1) that])
  show "tail s' = (if A @ N # B = [] then None else Some (last (A @ N # B)))"
    using assms(1,4,6) by (auto simp: backs_def)
  fix pre x suf
  assume "A @ N # B = pre @ x # suf"
  then show "backward_at s' x = Some (if pre = [] then None else Some (last pre))"
  proof (cases rule: split_around)
    case (left a)
    then have "x \<noteq> N" "x \<notin> set B" using assms(2-4) by auto
    moreover have "B \<noteq> [] \<Longrightarrow> hd B \<in> set B" by simp
    ultimately show ?thesis using assms(5) old [of pre x "a @ B"] left(1) assms(4) by auto
  next
    case here
    moreover have "B \<noteq> [] \<Longrightarrow> hd B \<noteq> N" using assms(3,4) by (cases B) auto
    ultimately show ?thesis using assms(5) by auto
  next
    case (right b)
    show ?thesis
    proof (cases b)
      case Nil
      then show ?thesis using right assms(5) by simp
    next
      case (Cons c cs)
      then have "x \<noteq> hd B" "x \<noteq> N" using right(1) assms(2-4) by auto
      then show ?thesis using old [of "A @ b" x suf] right assms(4,5) Cons by auto
    qed
  qed
qed

lemma chain_index: "shape s chain \<Longrightarrow> x \<in> set chain \<Longrightarrow> x < length (nodes s)"
  by (fastforce simp: shape_def tall_def nth_opt_def split: if_splits)

lemma shape_nonempty: "shape s chain \<Longrightarrow> 0 < length (nodes s)"
  by (auto simp: shape_def tall_def nth_opt_def MAX_LEVEL_def split: if_splits)

lemma ready_start: "shape s chain \<Longrightarrow> ready (ht s) (0 # chain) m (level s) 0 0"
  unfolding ready_def by (intro exI [of _ "[]"] exI [of _ chain]) (simp add: ht_def)

lemma update_levels:
  assumes sh: "shape s chain" and last: "\<forall>i<level s. last_at (ht s) (0 # chain) m i (u ! i) (r ! i)"
    and N: "N = length (nodes s)" and i: "i < level s"
  shows "level_at s (u ! i) i = Some (the (level_at s (u ! i) i))" and "u ! i \<noteq> N" and "r ! i \<le> r ! 0"
proof -
  note D = shapeD [OF sh]
  obtain p a b where P: "0 # chain = p @ (u ! i) # a @ b" "r ! i = length p" "m = length p + length a"
      "i < ht s (u ! i)" using last i by (blast elim: last_atE)
  show "level_at s (u ! i) i = Some (the (level_at s (u ! i) i))"
    using linkedD [OF D(2) P(1,4)] by simp
  have "u ! i \<in> set (0 # chain)" using P(1) by (metis in_set_conv_decomp)
  then show "u ! i \<noteq> N" using shape_nonempty [OF sh] N by (auto dest: chain_index [OF sh])
  have "r ! 0 = m" using last_at_0(1) [of "ht s" chain m "u ! 0" "r ! 0"] last D(4,6) by simp
  with P show "r ! i \<le> r ! 0" by simp
qed

text \<open>The two level loops of \<open>insert\<close> on the arena with the new node.\<close>

lemma splice_levels:
  assumes sh: "shape s chain" and m: "m \<le> length chain" and N: "N = length (nodes s)"
    and n: "1 \<le> n" "n \<le> level s" and len: "length u = MAX_LEVEL" "length r = MAX_LEVEL"
    and last: "\<forall>i<level s. last_at (ht s) (0 # chain) m i (u ! i) (r ! i)"
    and s2: "s2 = s\<lparr> nodes := nodes s @ [node_new key val n] \<rparr>"
  shows "\<exists>s3 s4. for_each (link_level N u r) [0..<n] s2 = Some s3
      \<and> for_each (bump_level u) [n..<level s3] s3 = Some s4 \<and> same_data s2 s4 \<and> same_backs s2 s4
      \<and> linked s4 (0 # take m chain @ N # drop m chain) \<and> (\<forall>j\<ge>level s. level_at s4 0 j = level_at s 0 j)"
proof -
  note D = shapeD [OF sh] and push = push_node [OF s2 N]
  define pl where "pl i = the (level_at s (u ! i) i)" for i
  have pl: "level_at s (u ! i) i = Some (pl i)" "u ! i \<noteq> N" "r ! i \<le> r ! 0" if "i < level s" for i
    using update_levels [OF sh last N that] by (auto simp: pl_def)
  have NC: "N \<notin> set (0 # chain)"
    using chain_index [OF sh] shape_nonempty [OF sh] N by fastforce
  have z: "r ! 0 = m" using last_at_0 [of "ht s" chain m "u ! 0" "r ! 0"] last D(4,6) by auto
  have "\<exists>s3. for_each (link_level N u r) [0..<n] s2 = Some s3 \<and> same_data s2 s3 \<and> same_backs s2 s3
      \<and> (\<forall>y j. level_at s3 y j =
           (if j < n \<and> y = N then Some \<lparr> forward = forward (pl j), span = span (pl j) - (r ! 0 - r ! j) \<rparr>
            else if j < n \<and> y = u ! j then Some \<lparr> forward = Some N, span = r ! 0 - r ! j + 1 \<rparr>
            else level_at s2 y j))"
    using push(1,4) len n D(7) pl by (intro link_loop) auto
  then obtain s3 where s3: "for_each (link_level N u r) [0..<n] s2 = Some s3" "same_data s2 s3" "same_backs s2 s3"
      "\<forall>y j. level_at s3 y j =
           (if j < n \<and> y = N then Some \<lparr> forward = forward (pl j), span = span (pl j) - (r ! 0 - r ! j) \<rparr>
            else if j < n \<and> y = u ! j then Some \<lparr> forward = Some N, span = r ! 0 - r ! j + 1 \<rparr>
            else level_at s2 y j)" by blast
  have L3: "level s3 = level s" using s3(2) s2 by (simp add: same_data_def)
  have "\<exists>s4. for_each (bump_level u) [n..<level s3] s3 = Some s4 \<and> same_data s3 s4 \<and> same_backs s3 s4
      \<and> (\<forall>y j. level_at s4 y j =
           (if n \<le> j \<and> j < level s3 \<and> y = u ! j then Some \<lparr> forward = forward (pl j), span = span (pl j) + 1 \<rparr>
            else level_at s3 y j))"
    using s3(4) push(1) pl n D(7) len L3 by (intro bump_loop) auto
  then obtain s4 where s4: "for_each (bump_level u) [n..<level s3] s3 = Some s4" "same_data s3 s4" "same_backs s3 s4"
      "\<forall>y j. level_at s4 y j =
           (if n \<le> j \<and> j < level s3 \<and> y = u ! j then Some \<lparr> forward = forward (pl j), span = span (pl j) + 1 \<rparr>
            else level_at s3 y j)" by blast
  have sd4: "same_data s2 s4" and sb4: "same_backs s2 s4"
    using s3 s4 same_data_trans same_backs_trans by blast+
  have ht4: "\<forall>x. ht s4 x = (if x = N then n else ht s x)"
    using sd4 push(4) s2 NC by (auto simp: ht_def same_data_def)
  have C: "0 # chain = (0 # take m chain) @ drop m chain" by simp
  have "\<forall>x\<in>set (0 # chain). ht s x \<le> level s" using D(5) by (simp add: ht_def)
  then have "linked s4 ((0 # take m chain) @ N # drop m chain)"
    using D(1,2) last NC unfolding C
    by (intro insert_linked [where s = s and rank = r and update = u and pl = pl, OF _ _ _ _ z _ _ n(2) ht4])
       (use m pl s3(4) s4(4) push(1) L3 in auto)
  then have "linked s4 (0 # take m chain @ N # drop m chain)" by simp
  moreover have "\<forall>j\<ge>level s. level_at s4 0 j = level_at s 0 j"
    using s3(4) s4(4) push(1) L3 n NC by auto
  ultimately show ?thesis using s3(1) s4(1) sd4 sb4 by blast
qed

lemma close_insert_ok:
  assumes link: "linked s (0 # A @ N # B)" and dist: "distinct (0 # A @ N # B)"
    and pos: "\<forall>x\<in>set (A @ N # B). 0 < ht s x" and N: "N < length (nodes s)" and B: "\<forall>x\<in>set B. x < length (nodes s)"
    and old: "backs s' (A @ B)" and sb: "\<forall>y. y \<noteq> N \<longrightarrow> backward_at s y = backward_at s' y" "tail s = tail s'"
    and prev: "previous = last (0 # A)"
  shows "\<exists>t. close_insert previous N s = Some t \<and> level_at t = level_at s \<and> same_data (s\<lparr> len := len s + 1 \<rparr>) t
     \<and> backs t (A @ N # B)"
proof -
  have nz: "0 \<notin> set A" "N \<noteq> 0" using dist by auto
  have p: "(if previous \<noteq> 0 then Some previous else None) = (if A = [] then None else Some (last A))"
    using nz prev by (cases A rule: rev_cases) auto
  obtain s1 where s1: "set_backward s N (if previous \<noteq> 0 then Some previous else None) = Some s1"
      "level_at s1 = level_at s" "same_data s s1" "tail s1 = tail s"
      "\<forall>y. backward_at s1 y = (if y = N then Some (if previous \<noteq> 0 then Some previous else None) else backward_at s y)"
    by (rule set_backward_obtain [OF N])
  have lev: "level_at s1 N 0 = Some (seek (\<lambda>y. 0 < ht s y) B)"
    using linkedD [OF link, of "0 # A" N B 0] pos s1(2) by simp
  show ?thesis
  proof (cases B)
    case Nil
    let ?t = "s1\<lparr> tail := Some N, len := len s + 1 \<rparr>"
    have "close_insert previous N s = Some ?t"
      using s1(1,3) lev Nil by (simp add: close_insert_def same_data_def)
    moreover have "backs ?t (A @ N # B)"
      by (rule insert_backs [OF old]) (use dist Nil s1(5) [unfolded p] sb in auto)
    ultimately show ?thesis using s1(2,3) by (auto simp: same_data_def)
  next
    case (Cons b bs)
    then have "b < length (nodes s1)" using B s1(3) by (simp add: same_data_def)
    then obtain s2 where s2: "set_backward s1 b (Some N) = Some s2" "level_at s2 = level_at s1"
        "same_data s1 s2" "tail s2 = tail s1"
        "\<forall>y. backward_at s2 y = (if y = b then Some (Some N) else backward_at s1 y)"
      by (rule set_backward_obtain)
    let ?t = "s2\<lparr> len := len s + 1 \<rparr>"
    have "close_insert previous N s = Some ?t"
      using s1(1,3) s2(1,3) lev Cons pos by (simp add: close_insert_def same_data_def)
    moreover have "backs ?t (A @ N # B)"
      by (rule insert_backs [OF old]) (use dist Cons s1(4) s1(5) [unfolded p] s2(4,5) sb in auto)
    ultimately show ?thesis using s1(2,3) s2(2,3) by (auto simp: same_data_def)
  qed
qed

lemma skiplist_insert_shape:
  assumes sh: "shape s chain" and m: "m \<le> length chain"
    and up: "search_upto (0 # chain) m 0 (\<lambda>x _ _. node_less s x key val)" and N: "N = length (nodes s)"
  shows "\<exists>s'. skiplist_insert s key val = Some s' \<and> shape s' (take m chain @ N # drop m chain)
     \<and> (\<forall>y. key_at s' y = (if y = N then Some key else key_at s y))
     \<and> (\<forall>y. value_at s' y = (if y = N then Some val else value_at s y))
     \<and> compare_key s' = compare_key s \<and> compare_value s' = compare_value s"
proof -
  note D = shapeD [OF sh]
  obtain u r where search: "insert_search s key val (level s) 0 (replicate MAX_LEVEL 0) (replicate MAX_LEVEL 0)
      = Some (u, r)" "length u = MAX_LEVEL" "length r = MAX_LEVEL"
      "\<forall>i<level s. last_at (ht s) (0 # chain) m i (u ! i) (r ! i)"
    using insert_search_finds [OF D(2) up _ D(7) ready_start [OF sh], of "replicate MAX_LEVEL 0" "replicate MAX_LEVEL 0"] m by auto
  obtain n st where rl: "random_level s = (n, s\<lparr> random_state := st \<rparr>)" "1 \<le> n" "n \<le> MAX_LEVEL"
    by (rule random_level_obtain)
  define s0 where "s0 = s\<lparr> random_state := st \<rparr>"
  have s0: "shape s0 chain" "ht s0 = ht s" "level s0 = level s" "nodes s0 = nodes s"
      "key_at s0 = key_at s" "value_at s0 = value_at s" "compare_key s0 = compare_key s"
      "compare_value s0 = compare_value s"
    using sh shape_cong [of s0 s] by (auto simp: s0_def ht_def fun_eq_iff)
  obtain s1 u1 r1 where r1: "raise_level s0 n u r = Some (s1, u1, r1)" "shape s1 chain"
      "level s1 = max (level s0) n" "length u1 = MAX_LEVEL" "length r1 = MAX_LEVEL"
      "same_data (s0\<lparr> level := level s1 \<rparr>) s1"
      "\<forall>i<level s1. last_at (ht s1) (0 # chain) m i (u1 ! i) (r1 ! i)"
    using raise_level_ok [OF s0(1) rl(3) m search(2,3)] search(4) s0 by auto
  note E = shapeD [OF r1(2)]
  have sd1: "N = length (nodes s1)" "key_at s1 = key_at s" "value_at s1 = value_at s"
      "compare_key s1 = compare_key s" "compare_value s1 = compare_value s"
    using r1(6) s0 N by (simp_all add: same_data_def)
  have NC: "N \<notin> set (0 # chain)"
    using chain_index [OF r1(2)] shape_nonempty [OF r1(2)] sd1(1) by fastforce
  define s2 where "s2 = s1\<lparr> nodes := nodes s1 @ [node_new key val n] \<rparr>"
  note push = push_node [OF s2_def sd1(1)]
  obtain s3 s4 where s4: "for_each (link_level N u1 r1) [0..<n] s2 = Some s3"
      "for_each (bump_level u1) [n..<level s3] s3 = Some s4" "same_data s2 s4" "same_backs s2 s4"
      "linked s4 (0 # take m chain @ N # drop m chain)" "\<forall>j\<ge>level s1. level_at s4 0 j = level_at s1 0 j"
    using splice_levels [OF r1(2) m sd1(1) rl(2) _ r1(4,5,7) s2_def] r1(3) by auto
  have "u1 ! 0 = (0 # chain) ! m"
    using last_at_0(2) [of "ht s1" chain m "u1 ! 0" "r1 ! 0"] r1(7) E(4,6) by simp
  then have prev: "u1 ! 0 = last (0 # take m chain)"
    using m by (cases m) (simp_all add: take_Suc_conv_app_nth)
  define A where "A = take m chain"
  define B where "B = drop m chain"
  have ch: "chain = A @ B" by (simp add: A_def B_def)
  have len2: "length (nodes s4) = Suc N" and tall4: "tall s4 y = (if y = N then n else tall s1 y)" for y
    using s4(3) sd1(1) push(4) by (auto simp: same_data_def s2_def)
  have L4: "level s4 = level s1" "len s4 = len s1" "compare_key s4 = compare_key s" "compare_value s4 = compare_value s"
    using s4(3) sd1 by (auto simp: same_data_def s2_def)
  have pos: "\<forall>x\<in>set (A @ N # B). 0 < tall s4 x \<and> tall s4 x \<le> level s4"
    using r1(2,3) rl(2) tall4 NC L4 unfolding shape_def by (auto simp: ch)
  have dist: "distinct (0 # A @ N # B)" using E(1) NC by (auto simp: ch)
  have z: "0 \<notin> set (A @ N # B)" using dist by simp
  have "\<exists>t. close_insert (u1 ! 0) N s4 = Some t \<and> level_at t = level_at s4 \<and> same_data (s4\<lparr> len := len s4 + 1 \<rparr>) t
     \<and> backs t (A @ N # B)"
  proof (rule close_insert_ok [OF _ dist, where s' = s1])
    show "\<forall>x\<in>set (A @ N # B). 0 < ht s4 x" using pos z by (auto simp: ht_def)
    show "\<forall>x\<in>set B. x < length (nodes s4)"
      using chain_index [OF r1(2)] sd1(1) by (auto simp: ch len2 intro!: less_SucI)
    show "\<forall>y. y \<noteq> N \<longrightarrow> backward_at s4 y = backward_at s1 y" and "tail s4 = tail s1"
      using s4(4) push(5) by (auto simp: same_backs_def s2_def)
    show "backs s1 (A @ B)" using E(3) ch by simp
    show "linked s4 (0 # A @ N # B)" using s4(5) by (simp add: A_def B_def)
    show "u1 ! 0 = last (0 # A)" using prev by (simp add: A_def)
  qed (simp add: len2)
  then obtain t where t: "close_insert (u1 ! 0) N s4 = Some t" "level_at t = level_at s4"
      "same_data (s4\<lparr> len := len s4 + 1 \<rparr>) t" "backs t (A @ N # B)" by blast
  have "skiplist_insert s key val = Some t"
    using search(1) rl(1) r1(1,4) s4(1,2) t(1) sd1(1)
    by (simp add: skiplist_insert_def s0_def s2_def MAX_LEVEL_def)
  moreover have "shape t (A @ N # B)"
  proof -
    have "ht t = ht s4" using t(3) by (auto simp: same_data_def ht_def fun_eq_iff)
    then have "linked t (0 # A @ N # B)" using s4(5) t(2) by (simp add: linked_def A_def B_def)
    moreover have "level_at t 0 i = level_at s1 0 i" if "level s1 \<le> i" for i
      using s4(6) t(2) that by simp
    moreover have "tall t 0 = MAX_LEVEL" using E(8) t(3) tall4 z by (simp add: same_data_def)
    ultimately show ?thesis
      using dist pos E(6,7,9) r1(2) t(3,4) L4 unfolding shape_def same_data_def by (auto simp: ch)
  qed
  moreover have "\<forall>y. key_at t y = (if y = N then Some key else key_at s y)"
      "\<forall>y. value_at t y = (if y = N then Some val else value_at s y)"
    using t(3) s4(3) push(2,3) sd1 by (simp_all add: same_data_def)
  ultimately show ?thesis
    using t(3) L4 by (auto simp: same_data_def A_def B_def)
qed

end
