(* ===== verification/SkipListDelete.thy ===== *)
theory SkipListDelete
  imports SkipListInsert
begin

text \<open>
  \<open>delete\<close> keeps the shape: unlinking the target at every level, closing the backward links
  and dropping the empty levels at the top leave the chain without the target.
\<close>

section \<open>Deletion\<close>

lemma unlink_loop:
  assumes "k \<le> length update" and "t < length (nodes s)"
    and "\<forall>i<k. level_at s (update ! i) i = Some (pl i) \<and> update ! i \<noteq> t"
    and "\<forall>i<k. forward (pl i) = Some t \<longrightarrow> level_at s t i = Some (tgt i)"
  shows "\<exists>s'. for_each (unlink_level t update) [0..<k] s = Some s' \<and> same_data s s' \<and> same_backs s s'
      \<and> (\<forall>y j. level_at s' y j =
           (if j < k \<and> y = update ! j
            then Some (if forward (pl j) = Some t
                       then \<lparr> forward = forward (tgt j), span = span (pl j) + span (tgt j) - 1 \<rparr>
                       else \<lparr> forward = forward (pl j), span = span (pl j) - 1 \<rparr>)
            else level_at s y j))"
  using assms
proof (induction k)
  case (Suc k)
  then obtain s1 where IH: "for_each (unlink_level t update) [0..<k] s = Some s1" "same_data s s1" "same_backs s s1"
      "\<forall>y j. level_at s1 y j =
           (if j < k \<and> y = update ! j
            then Some (if forward (pl j) = Some t
                       then \<lparr> forward = forward (tgt j), span = span (pl j) + span (tgt j) - 1 \<rparr>
                       else \<lparr> forward = forward (pl j), span = span (pl j) - 1 \<rparr>)
            else level_at s y j)"
    by auto
  have pl: "level_at s1 (update ! k) k = Some (pl k)" and neq: "update ! k \<noteq> t"
    and tgt: "forward (pl k) = Some t \<Longrightarrow> level_at s1 t k = Some (tgt k)"
    using IH(4) Suc.prems(3,4) by auto
  have t: "t < length (nodes s1)" using IH(2) Suc.prems(2) by (simp add: same_data_def)
  let ?l = "if forward (pl k) = Some t
            then \<lparr> forward = forward (tgt k), span = span (pl k) + span (tgt k) - 1 \<rparr>
            else \<lparr> forward = forward (pl k), span = span (pl k) - 1 \<rparr>"
  have "k < tall s1 (update ! k)" using pl level_at_iff [of s1 "update ! k" k] by simp
  then obtain s2 where s2: "set_level s1 (update ! k) k ?l = Some s2"
      "\<forall>y j. level_at s2 y j = (if y = update ! k \<and> j = k then Some ?l else level_at s1 y j)"
      "same_data s1 s2" "same_backs s1 s2"
    by (rule set_level_obtain)
  have "unlink_level t update k s1 = Some s2"
    using pl tgt t s2(1) Suc.prems(1) by (auto simp: unlink_level_def level_at_def [of s1 t])
  then have "for_each (unlink_level t update) [0..<Suc k] s = Some s2"
    using IH(1) by (simp add: for_each_append)
  moreover have "\<forall>y j. level_at s2 y j =
           (if j < Suc k \<and> y = update ! j
            then Some (if forward (pl j) = Some t
                       then \<lparr> forward = forward (tgt j), span = span (pl j) + span (tgt j) - 1 \<rparr>
                       else \<lparr> forward = forward (pl j), span = span (pl j) - 1 \<rparr>)
            else level_at s y j)"
    using IH(4) s2(2) by (simp add: less_Suc_eq)
  ultimately show ?case
    using IH(2,3) s2(3,4) by (meson same_data_trans same_backs_trans)
qed simp

lemma delete_linked:
  assumes link: "linked s (A @ t # B)" and dist: "distinct (A @ t # B)" and lenA: "length A = Suc m"
    and last: "\<forall>i<level s. \<exists>r. last_at (ht s) (A @ t # B) m i (update ! i) r"
    and pos: "\<forall>x\<in>set (A @ t # B). ht s x \<le> level s" and h': "ht s' = ht s"
    and pl: "\<forall>i<level s. level_at s (update ! i) i = Some (pl i)"
    and tgt: "\<forall>i<ht s t. level_at s t i = Some (tgt i)"
    and lev: "\<forall>y j. level_at s' y j =
           (if j < level s \<and> y = update ! j
            then Some (if forward (pl j) = Some t
                       then \<lparr> forward = forward (tgt j), span = span (pl j) + span (tgt j) - 1 \<rparr>
                       else \<lparr> forward = forward (pl j), span = span (pl j) - 1 \<rparr>)
            else level_at s y j)"
  shows "linked s' (A @ B)"
  unfolding linked_def h'
proof (intro allI impI)
  fix pre x suf i
  assume sp: "A @ B = pre @ x # suf" and i: "i < ht s x"
  consider (left) a where "A = pre @ x # a" "suf = a @ B" | (right) b where "B = b @ x # suf"
    using sp by (auto simp: append_eq_append_conv2 Cons_eq_append_conv append_eq_Cons_conv)
  then show "level_at s' x i = Some (seek (\<lambda>y. i < ht s y) suf)"
  proof cases
    case (left a)
    have iL: "i < level s" using i pos left(1) by fastforce
    then obtain r where lat: "last_at (ht s) (A @ t # B) m i (update ! i) r" using last by blast
    obtain p a' where near: "A = p @ (update ! i) # a'" "\<forall>y\<in>set a'. ht s y \<le> i"
        "m - r = length a'" "i < ht s (update ! i)"
        "pl i = \<lparr> forward = forward (seek (\<lambda>y. i < ht s y) (t # B)),
           span = length a' + span (seek (\<lambda>y. i < ht s y) (t # B)) \<rparr>"
      by (rule last_at_entry [OF link lat lenA pl [rule_format, OF iL]])
    have dA: "distinct A" using dist by simp
    show ?thesis
    proof (cases "x = update ! i")
      case True
      have "a = a'"
        using near(1) unfolding True [symmetric] by (rule distinct_split(2) [OF dA left(1)])
      then have "\<forall>y\<in>set a. \<not> i < ht s y" using near(2) by auto
      then have suf: "seek (\<lambda>y. i < ht s y) suf = \<lparr> forward = forward (seek (\<lambda>y. i < ht s y) B),
          span = length a + span (seek (\<lambda>y. i < ht s y) B) \<rparr>"
        unfolding left(2) by (rule seek_append)
      show ?thesis
      proof (cases "i < ht s t")
        case t: True
        then have "tgt i = seek (\<lambda>y. i < ht s y) B"
          using linkedD [OF link refl t] tgt by simp
        then show ?thesis using lev True iL near(5) t suf \<open>a = a'\<close> by simp
      next
        case False
        have "forward (seek (\<lambda>y. i < ht s y) B) \<noteq> Some t"
          using dist by (cases rule: seek_cases [of B "\<lambda>y. i < ht s y"]) auto
        then show ?thesis using lev True iL near(5) False suf \<open>a = a'\<close> by simp
      qed
    next
      case False
      have u: "update ! i \<in> set a" by (rule last_is_later [OF dA left(1) near(1,2) i False])
      then have "seek (\<lambda>y. i < ht s y) suf = seek (\<lambda>y. i < ht s y) (a @ t # B)"
        unfolding left(2) using near(4) by (metis seek_early)
      then show ?thesis using lev False linked_left [OF link left(1) i] by simp
    qed
  next
    case (right b)
    moreover have "x \<noteq> update ! i" if iL: "i < level s"
    proof -
      obtain r where "last_at (ht s) (A @ t # B) m i (update ! i) r" using last iL by blast
      then obtain p a where "A = p @ (update ! i) # a"
        using last_at_split [OF _ lenA] by blast
      then show ?thesis using right dist by auto
    qed
    moreover have "level_at s x i = Some (seek (\<lambda>y. i < ht s y) suf)"
      using linked_right [OF link, of "t # b" x suf i] right i by simp
    ultimately show ?thesis using lev by auto
  qed
qed

lemma delete_backs:
  assumes "backs s (A @ t # B)" and "distinct (A @ t # B)"
    and "\<forall>y. backward_at s' y = (if B \<noteq> [] \<and> y = hd B then backward_at s t else backward_at s y)"
    and "tail s' = (if B = [] then the (backward_at s t) else tail s)"
  shows "backs s' (A @ B)"
  unfolding backs_def
proof (intro conjI allI impI)
  have old: "backward_at s x = Some (if pre = [] then None else Some (last pre))"
    if "A @ t # B = pre @ x # suf" for pre x suf
    by (rule backsD [OF assms(1) that])
  have "tail s = Some (last (A @ t # B))" using assms(1) by (simp add: backs_def)
  then show "tail s' = (if A @ B = [] then None else Some (last (A @ B)))"
    using assms(4) old [OF refl] by auto
  fix pre x suf
  assume sp: "A @ B = pre @ x # suf"
  consider (left) a where "A = pre @ x # a" "suf = a @ B" | (right) b where "B = b @ x # suf" "pre = A @ b"
    using sp by (auto simp: append_eq_append_conv2 Cons_eq_append_conv append_eq_Cons_conv)
  then show "backward_at s' x = Some (if pre = [] then None else Some (last pre))"
  proof cases
    case (left a)
    then have "x \<notin> set B" using assms(2) by auto
    moreover have "B \<noteq> [] \<Longrightarrow> hd B \<in> set B" by simp
    ultimately show ?thesis using assms(3) old [of pre x "a @ t # B"] left by auto
  next
    case (right b)
    show ?thesis
    proof (cases b)
      case Nil
      then show ?thesis using right assms(3) old [OF refl] by simp
    next
      case (Cons c cs)
      then have "x \<noteq> hd B" using right(1) assms(2) by auto
      then show ?thesis using old [of "A @ t # b" x suf] right assms(3) Cons by auto
    qed
  qed
qed

lemma lower_level_ok:
  assumes "\<forall>i<n. level_at s 0 i \<noteq> None" and "0 < n"
  shows "\<exists>k. lower_level s n = Some k \<and> 0 < k \<and> k \<le> n
     \<and> (\<forall>i. k \<le> i \<longrightarrow> i < n \<longrightarrow> (\<exists>d. level_at s 0 i = Some \<lparr> forward = None, span = d \<rparr>))"
  using assms
proof (induction n)
  case (Suc n)
  show ?case
  proof (cases n)
    case 0
    then show ?thesis by auto
  next
    case n: (Suc n')
    obtain l where l: "level_at s 0 n = Some l" using Suc.prems(1) by blast
    show ?thesis
    proof (cases "forward l = None")
      case True
      have "\<exists>k. lower_level s n = Some k \<and> 0 < k \<and> k \<le> n
          \<and> (\<forall>i. k \<le> i \<longrightarrow> i < n \<longrightarrow> (\<exists>d. level_at s 0 i = Some \<lparr> forward = None, span = d \<rparr>))"
        using Suc.prems n by (intro Suc.IH) auto
      then obtain k where k: "lower_level s n = Some k" "0 < k" "k \<le> n"
          "\<forall>i. k \<le> i \<longrightarrow> i < n \<longrightarrow> (\<exists>d. level_at s 0 i = Some \<lparr> forward = None, span = d \<rparr>)" by blast
      with l True n show ?thesis by (cases l) (auto simp: less_Suc_eq)
    next
      case False
      with l n show ?thesis by auto
    qed
  qed
qed simp

lemma unlink_levels:
  assumes sh: "shape s (A @ t # B)" and len: "length update = MAX_LEVEL"
    and last: "\<forall>i<level s. \<exists>r. last_at (ht s) (0 # A @ t # B) (length A) i (update ! i) r"
  shows "\<exists>s'. for_each (unlink_level t update) [0..<level s] s = Some s' \<and> same_data s s' \<and> same_backs s s'
      \<and> linked s' (0 # A @ B) \<and> level_at s' t = level_at s t \<and> (\<forall>j\<ge>level s. level_at s' 0 j = level_at s 0 j)"
proof -
  note D = shapeD [OF sh]
  define pl where "pl i = the (level_at s (update ! i) i)" for i
  define tgt where "tgt i = the (level_at s t i)" for i
  have C: "0 # A @ t # B = (0 # A) @ t # B" by simp
  have upd: "level_at s (update ! i) i = Some (pl i) \<and> update ! i \<in> set (0 # A)
      \<and> (forward (pl i) = Some t \<longrightarrow> i < ht s t)" if i: "i < level s" for i
  proof -
    obtain r where "last_at (ht s) ((0 # A) @ t # B) (length A) i (update ! i) r" using last i C by metis
    then obtain p a where A: "0 # A = p @ (update ! i) # a" and h: "i < ht s (update ! i)"
      by (rule last_at_split) auto
    have "level_at s (update ! i) i = Some (seek (\<lambda>y. i < ht s y) (a @ t # B))"
      using linked_left [OF D(2) [unfolded C] A h] .
    moreover have "update ! i \<in> set (0 # A)" unfolding A by simp
    ultimately show ?thesis
      using seek_forward [of "\<lambda>y. i < ht s y" "a @ t # B" t] by (auto simp: pl_def)
  qed
  have tN: "t \<noteq> 0" "t \<notin> set (0 # A)" using D(1) by auto
  have tgt: "\<forall>i<ht s t. level_at s t i = Some (tgt i)"
    using linkedD [OF D(2)] C by (metis option.sel tgt_def)
  have "\<exists>s'. for_each (unlink_level t update) [0..<level s] s = Some s' \<and> same_data s s' \<and> same_backs s s'
      \<and> (\<forall>y j. level_at s' y j =
           (if j < level s \<and> y = update ! j
            then Some (if forward (pl j) = Some t
                       then \<lparr> forward = forward (tgt j), span = span (pl j) + span (tgt j) - 1 \<rparr>
                       else \<lparr> forward = forward (pl j), span = span (pl j) - 1 \<rparr>)
            else level_at s y j))"
  proof (rule unlink_loop)
    show "\<forall>i<level s. forward (pl i) = Some t \<longrightarrow> level_at s t i = Some (tgt i)"
      using upd tgt by blast
    show "\<forall>i<level s. level_at s (update ! i) i = Some (pl i) \<and> update ! i \<noteq> t"
      using upd tN by metis
  qed (use upd tN len D(7) chain_index [OF sh] in auto)
  then obtain s' where s': "for_each (unlink_level t update) [0..<level s] s = Some s'" "same_data s s'" "same_backs s s'"
     "\<forall>y j. level_at s' y j =
           (if j < level s \<and> y = update ! j
            then Some (if forward (pl j) = Some t
                       then \<lparr> forward = forward (tgt j), span = span (pl j) + span (tgt j) - 1 \<rparr>
                       else \<lparr> forward = forward (pl j), span = span (pl j) - 1 \<rparr>)
            else level_at s y j)" by blast
  have "linked s' ((0 # A) @ B)"
  proof (rule delete_linked [OF D(2) [unfolded C] D(1) [unfolded C] _ last [unfolded C] _ _ _ tgt s'(4)])
    have "ht s 0 \<le> level s" by (simp add: ht_def)
    then show "\<forall>x\<in>set ((0 # A) @ t # B). ht s x \<le> level s" using D(5) by simp
    show "ht s' = ht s" using s'(2) by (auto simp: ht_def same_data_def fun_eq_iff)
  qed (use upd in auto)
  moreover have ne: "update ! i \<noteq> t" if "i < level s" for i using upd [OF that] tN by metis
  then have "level_at s' t = level_at s t" using s'(4) by (auto simp: fun_eq_iff)
  moreover have "\<forall>j\<ge>level s. level_at s' 0 j = level_at s 0 j" using s'(4) by simp
  ultimately show ?thesis using s'(1-3) by auto
qed

lemma lower_shape:
  assumes link: "linked s (0 # chain)" and dist: "distinct (0 # chain)"
    and pos: "\<forall>x\<in>set chain. 0 < tall s x \<and> tall s x \<le> level s"
    and lvl: "0 < level s" "level s \<le> MAX_LEVEL" "tall s 0 = MAX_LEVEL"
    and free: "\<forall>i. level s \<le> i \<longrightarrow> i < MAX_LEVEL \<longrightarrow> (\<exists>d. level_at s 0 i = Some \<lparr> forward = None, span = d \<rparr>)"
    and bk: "backs s chain" and l: "l = length chain"
  shows "\<exists>k. lower_level s (level s) = Some k \<and> shape (s\<lparr> level := k, len := l \<rparr>) chain"
proof -
  have header: "level_at s 0 i = Some (seek (\<lambda>y. i < ht s y) chain)" if "i < level s" for i
    using linkedD [OF link, of "[]" 0 chain i] that by (simp add: ht_def)
  then obtain k where k: "lower_level s (level s) = Some k" "0 < k" "k \<le> level s"
      "\<forall>i. k \<le> i \<longrightarrow> i < level s \<longrightarrow> (\<exists>d. level_at s 0 i = Some \<lparr> forward = None, span = d \<rparr>)"
    using lower_level_ok [of "level s" s] lvl(1) by auto
  have small: "tall s x \<le> k" if x: "x \<in> set chain" for x
  proof (cases "k < level s")
    case True
    then have "forward (seek (\<lambda>y. k < ht s y) chain) = None" using header k(4) by fastforce
    then have "\<not> k < ht s x" using x by (cases rule: seek_cases [of chain "\<lambda>y. k < ht s y"]) auto
    moreover have "x \<noteq> 0" using x dist by (metis distinct.simps(2))
    ultimately show ?thesis by (simp add: ht_def)
  qed (use pos x k(3) in auto)
  let ?t = "s\<lparr> level := k, len := l \<rparr>"
  have hx: "ht ?t x = (if x = 0 then k else ht s x)" for x by (simp add: ht_def)
  have "linked ?t (0 # chain)"
    unfolding linked_def
  proof (intro allI impI)
    fix pre x suf i
    assume sp: "0 # chain = pre @ x # suf" and i: "i < ht ?t x"
    have "0 \<notin> set suf" using sp dist by (cases pre) auto
    then have "seek (\<lambda>y. i < ht ?t y) suf = seek (\<lambda>y. i < ht s y) suf"
      by (intro seek_cong) (metis hx)
    moreover have "i < ht s x" using i k(3) by (auto simp: ht_def split: if_splits)
    ultimately show "level_at ?t x i = Some (seek (\<lambda>y. i < ht ?t y) suf)"
      using linkedD [OF link sp] by simp
  qed
  moreover have "backs ?t chain" using bk by (simp add: backs_def)
  moreover have "\<exists>d. level_at s 0 i = Some \<lparr> forward = None, span = d \<rparr>" if "k \<le> i" "i < MAX_LEVEL" for i
    using k(4) free that by (cases "i < level s") auto
  ultimately have "shape ?t chain"
    using dist pos small lvl k(2,3) l unfolding shape_def by auto
  with k(1) show ?thesis by blast
qed

lemma close_delete_ok:
  assumes sh: "shape s (A @ t # B)" and link: "linked s1 (0 # A @ B)" and sd: "same_data s s1"
    and sb: "same_backs s s1" and tg: "level_at s1 t = level_at s t"
    and free: "\<forall>j\<ge>level s. level_at s1 0 j = level_at s 0 j"
  shows "\<exists>s'. close_delete t s1 = Some s' \<and> shape s' (A @ B) \<and> key_at s' = key_at s \<and> value_at s' = value_at s
     \<and> compare_key s' = compare_key s \<and> compare_value s' = compare_value s"
proof -
  note D = shapeD [OF sh]
  have pos: "0 < ht s t" using D(4) by simp
  have lev: "level_at s1 t 0 = Some (seek (\<lambda>y. 0 < ht s y) B)"
    using linkedD [OF D(2), of "0 # A" t B 0] pos tg by simp
  obtain b where b: "backward_at s t = Some b" using D(3) unfolding backs_def by blast
  then have b1: "backward_at s1 t = Some b" using sb by (simp add: same_backs_def)
  have "\<exists>s2. (case forward (seek (\<lambda>y. 0 < ht s y) B) of
             Some next_node \<Rightarrow> set_backward s1 next_node b | None \<Rightarrow> Some (s1\<lparr> tail := b \<rparr>)) = Some s2
      \<and> level_at s2 = level_at s1 \<and> same_data s1 s2 \<and> backs s2 (A @ B)"
  proof (cases B)
    case Nil
    have "backs (s1\<lparr> tail := b \<rparr>) (A @ B)"
      by (rule delete_backs [OF D(3)]) (use D(1) sb b Nil in \<open>auto simp: same_backs_def\<close>)
    then show ?thesis using Nil by (auto simp: same_data_def)
  next
    case (Cons n B')
    have "n < length (nodes s1)" using chain_index [OF sh] sd Cons by (auto simp: same_data_def)
    then obtain s2 where s2: "set_backward s1 n b = Some s2" "level_at s2 = level_at s1" "same_data s1 s2"
        "tail s2 = tail s1" "\<forall>y. backward_at s2 y = (if y = n then Some b else backward_at s1 y)"
      by (rule set_backward_obtain)
    have "backs s2 (A @ B)"
      by (rule delete_backs [OF D(3)]) (use D(1) sb b Cons s2(4,5) in \<open>auto simp: same_backs_def\<close>)
    moreover have "0 < ht s n" using D(4) Cons by simp
    ultimately show ?thesis using s2 Cons by auto
  qed
  then obtain s2 where s2: "(case forward (seek (\<lambda>y. 0 < ht s y) B) of
             Some next_node \<Rightarrow> set_backward s1 next_node b | None \<Rightarrow> Some (s1\<lparr> tail := b \<rparr>)) = Some s2"
      "level_at s2 = level_at s1" "same_data s1 s2" "backs s2 (A @ B)" by blast
  have sd2: "same_data s s2" by (rule same_data_trans [OF sd s2(3)])
  have "ht s2 = ht s1" using s2(3) by (auto simp: same_data_def ht_def fun_eq_iff)
  with link s2(2) have "linked s2 (0 # A @ B)" by (simp add: linked_def)
  then have "\<exists>k. lower_level s2 (level s2) = Some k \<and> shape (s2\<lparr> level := k, len := length (A @ B) \<rparr>) (A @ B)"
    by (rule lower_shape)
       (use sh sd2 s2(2,4) free in \<open>auto simp: shape_def same_data_def\<close>)
  then obtain k where k: "lower_level s2 (level s2) = Some k" "shape (s2\<lparr> level := k, len := length (A @ B) \<rparr>) (A @ B)"
    by blast
  have "checked_sub (len s2) 1 = Some (length (A @ B))"
    using sd2 D(9) by (simp add: same_data_def checked_sub_def)
  then have "close_delete t s1 = Some (s2\<lparr> level := k, len := length (A @ B) \<rparr>)"
    using lev b1 s2(1) k(1) by (simp add: close_delete_def)
  with k(2) sd2 show ?thesis by (auto simp: same_data_def)
qed

text \<open>\<open>delete\<close> at position \<open>length A\<close>: the entry after \<open>A\<close> goes when it is the one asked for.\<close>

lemma skiplist_delete_shape:
  assumes sh: "shape s (A @ R)"
    and up: "\<And>b. search_upto (0 # A @ R) (length A) b (\<lambda>x _ _. node_less s x key val)"
    and same: "R \<noteq> [] \<Longrightarrow> node_same s (hd R) key val = Some hit"
  shows "\<exists>s'. skiplist_delete s key val = Some (R \<noteq> [] \<and> hit, s')
     \<and> (if R \<noteq> [] \<and> hit then shape s' (A @ List.tl R) else s' = s) \<and> key_at s' = key_at s \<and> value_at s' = value_at s
     \<and> compare_key s' = compare_key s \<and> compare_value s' = compare_value s"
proof -
  note D = shapeD [OF sh]
  obtain current update where search: "delete_search s key val (level s) 0 (replicate MAX_LEVEL 0) = Some (current, update)"
      "length update = MAX_LEVEL" "current = update ! 0"
      "\<forall>i<level s. \<exists>r. last_at (ht s) (0 # A @ R) (length A) i (update ! i) r"
    using delete_search_finds [OF D(2) up _ ready_start [OF sh], of "replicate MAX_LEVEL 0"] D(6,7) by auto
  have cur: "current = last (0 # A)"
    using search(3,4) D(4,6) last_at_0(2) [of "ht s" "A @ R" "length A" current]
    by (cases A rule: rev_cases) (auto simp: nth_append)
  obtain pre where pre: "0 # A = pre @ [current]" using cur by (metis append_butlast_last_id list.distinct(1))
  have "0 < ht s current" using D(4,6) cur by (cases A rule: rev_cases) (auto simp: ht_def)
  then have lev: "level_at s current 0 = Some (seek (\<lambda>y. 0 < ht s y) R)"
    using linked_left [of s "0 # A" R, OF _ pre] D(2) by simp
  show ?thesis
  proof (cases R)
    case Nil
    then show ?thesis using search(1) lev by (simp add: skiplist_delete_def)
  next
    case (Cons t B)
    have ht: "0 < ht s t" using D(4) Cons by simp
    show ?thesis
    proof (cases hit)
      case False
      then show ?thesis using search(1) lev Cons ht same by (simp add: skiplist_delete_def)
    next
      case True
      obtain s1 where "for_each (unlink_level t update) [0..<level s] s = Some s1" "same_data s s1" "same_backs s s1"
          "linked s1 (0 # A @ B)" "level_at s1 t = level_at s t" "\<forall>j\<ge>level s. level_at s1 0 j = level_at s 0 j"
        using unlink_levels [OF sh [unfolded Cons] search(2)] search(4) Cons by auto
      moreover from close_delete_ok [OF sh [unfolded Cons] this(4,2,3,5,6)]
      obtain s' where "close_delete t s1 = Some s'" "shape s' (A @ B)" "key_at s' = key_at s"
          "value_at s' = value_at s" "compare_key s' = compare_key s" "compare_value s' = compare_value s" by blast
      ultimately show ?thesis
        using search(1) lev Cons ht same True by (simp add: skiplist_delete_def)
    qed
  qed
qed

end
