(* ===== verification/SkipListSpec.thy ===== *)
theory SkipListSpec
  imports SkipListDelete
begin

text \<open>
  The skip list as a sorted list of entries. \<open>represents s es\<close> relates a list to its entries in
  order; every operation is shown to return and to act on the entries as its reference does:
  sorted insertion and deletion, the first entry past a bound, position and rank, and ranges
  as a filter with offset and count.
\<close>

section \<open>Comparators\<close>

lemma is_gt_not_le: "is_gt r \<longleftrightarrow> \<not> is_le r"
  by (cases r) auto

lemma is_lt_iff: "is_lt r \<longleftrightarrow> r = Less"
  by (cases r) auto

text \<open>
  What the list needs of its comparators: a total preorder. \<open>Equal\<close> need not be equality.
\<close>

locale total_comparator =
  fixes c :: "'a \<Rightarrow> 'a \<Rightarrow> ordering"
  assumes refl: "c a a = Equal"
    and flip: "c a b = Less \<longleftrightarrow> c b a = Greater"
    and trans: "is_le (c a b) \<Longrightarrow> is_le (c b d) \<Longrightarrow> is_le (c a d)"
begin

lemma le_flip: "is_le (c a b) \<longleftrightarrow> is_ge (c b a)"
  using flip [of a b] flip [of b a] by (cases "c a b"; cases "c b a") auto

lemma lt_flip: "is_lt (c a b) \<longleftrightarrow> is_gt (c b a)"
  using flip [of a b] by (cases "c a b"; cases "c b a") auto

lemma lt_le_trans:
  assumes "is_lt (c b d)" and "is_le (c a b)"
  shows "is_lt (c a d)"
proof -
  have le: "is_le (c a d)" by (rule trans [OF assms(2)]) (use assms(1) in \<open>cases "c b d"; simp\<close>)
  have "\<not> is_le (c d b)" using assms(1) lt_flip [of b d] by (cases "c d b") auto
  then have "\<not> is_le (c d a)" using trans [OF _ assms(2), of d] by blast
  then have "c a d \<noteq> Equal" using le_flip [of d a] by auto
  then show ?thesis using le by (cases "c a d") auto
qed

lemma equal_sym: "c a b = Equal \<longleftrightarrow> c b a = Equal"
  using flip [of a b] flip [of b a] by (cases "c a b"; cases "c b a") auto

lemma le_antisym: "is_le (c a b) \<Longrightarrow> is_le (c b a) \<Longrightarrow> c a b = Equal"
  using flip [of a b] by (cases "c a b") auto

lemma lt_iff: "is_lt (c a b) \<longleftrightarrow> \<not> is_le (c b a)"
  using flip [of a b] flip [of b a] by (cases "c a b"; cases "c b a") auto

end

interpretation linorder_cmp: total_comparator "cmp :: 'a::linorder \<Rightarrow> 'a \<Rightarrow> ordering"
  by unfold_locales auto

definition entry_cmp ::
  "'k comparator \<Rightarrow> 'v comparator \<Rightarrow> ('k, 'v) range_entry \<Rightarrow> ('k, 'v) range_entry \<Rightarrow> ordering"
where
  "entry_cmp ck cv a b =
     (case ck (re_key a) (re_key b) of
        Equal \<Rightarrow> cv (re_value a) (re_value b) | r \<Rightarrow> r)"

lemma total_comparator_entry:
  assumes "total_comparator ck" and "total_comparator cv"
  shows "total_comparator (entry_cmp ck cv)"
proof
  note K = total_comparator.refl [OF assms(1)] total_comparator.flip [OF assms(1)]
    total_comparator.equal_sym [OF assms(1)]
  note V = total_comparator.refl [OF assms(2)] total_comparator.flip [OF assms(2)]
  fix a b d :: "('a, 'b) range_entry"
  show "entry_cmp ck cv a a = Equal" by (simp add: entry_cmp_def K V)
  show "entry_cmp ck cv a b = Less \<longleftrightarrow> entry_cmp ck cv b a = Greater"
    using K(2) [of "re_key a" "re_key b"] K(2) [of "re_key b" "re_key a"] K(3) [of "re_key a" "re_key b"] V(2)
    by (auto simp: entry_cmp_def split: ordering.splits)
  assume ab: "is_le (entry_cmp ck cv a b)" and bd: "is_le (entry_cmp ck cv b d)"
  have kab: "is_le (ck (re_key a) (re_key b))" and kbd: "is_le (ck (re_key b) (re_key d))"
    using ab bd by (auto simp: entry_cmp_def split: ordering.splits)
  then have kad: "is_le (ck (re_key a) (re_key d))" by (rule total_comparator.trans [OF assms(1)])
  show "is_le (entry_cmp ck cv a d)"
  proof (cases "ck (re_key a) (re_key d) = Equal")
    case True
    then have da: "is_le (ck (re_key d) (re_key a))" using K(3) [of "re_key a"] by simp
    note tr = total_comparator.trans [OF assms(1)] and anti = total_comparator.le_antisym [OF assms(1)]
    have "ck (re_key a) (re_key b) = Equal" by (rule anti [OF kab tr [OF kbd da]])
    moreover have "ck (re_key b) (re_key d) = Equal" by (rule anti [OF kbd tr [OF da kab]])
    ultimately show ?thesis using ab bd True total_comparator.trans [OF assms(2), of "re_value a" "re_value b"]
      by (auto simp: entry_cmp_def)
  next
    case False
    then show ?thesis using kad by (auto simp: entry_cmp_def split: ordering.splits)
  qed
qed

section \<open>The represented entries\<close>

definition represents :: "('k, 'v) skiplist \<Rightarrow> ('k, 'v) range_entry list \<Rightarrow> bool" where
  "represents s es \<longleftrightarrow> (\<exists>chain. shape s chain \<and> map (entry s) chain = map Some es)
     \<and> total_comparator (compare_key s) \<and> total_comparator (compare_value s)
     \<and> sorted_wrt (\<lambda>a b. is_le (entry_cmp (compare_key s) (compare_value s) a b)) es"

text \<open>The reference operations on the sorted list of entries.\<close>

definition insert_sorted :: "('e \<Rightarrow> 'e \<Rightarrow> ordering) \<Rightarrow> 'e \<Rightarrow> 'e list \<Rightarrow> 'e list" where
  "insert_sorted c e es = takeWhile (\<lambda>x. is_lt (c x e)) es @ e # dropWhile (\<lambda>x. is_lt (c x e)) es"

definition find_sorted :: "('e \<Rightarrow> 'e \<Rightarrow> ordering) \<Rightarrow> 'e \<Rightarrow> 'e list \<Rightarrow> bool" where
  "find_sorted c e es \<longleftrightarrow> (case dropWhile (\<lambda>x. is_lt (c x e)) es of [] \<Rightarrow> False | x # _ \<Rightarrow> c x e = Equal)"

definition delete_sorted :: "('e \<Rightarrow> 'e \<Rightarrow> ordering) \<Rightarrow> 'e \<Rightarrow> 'e list \<Rightarrow> 'e list" where
  "delete_sorted c e es = (if find_sorted c e es
     then takeWhile (\<lambda>x. is_lt (c x e)) es @ tl (dropWhile (\<lambda>x. is_lt (c x e)) es) else es)"

definition sl_cmp :: "('k, 'v) skiplist \<Rightarrow> ('k, 'v) range_entry comparator" where
  "sl_cmp s = entry_cmp (compare_key s) (compare_value s)"

text \<open>A search predicate that holds on a prefix of the sorted entries.\<close>

definition down_closed :: "('e \<Rightarrow> 'e \<Rightarrow> ordering) \<Rightarrow> ('e \<Rightarrow> bool) \<Rightarrow> bool" where
  "down_closed c P \<longleftrightarrow> (\<forall>a b. is_le (c a b) \<longrightarrow> P b \<longrightarrow> P a)"

lemma down_closed_lt: "total_comparator c \<Longrightarrow> down_closed c (\<lambda>x. is_lt (c x e))"
  unfolding down_closed_def by (intro allI impI, erule (2) total_comparator.lt_le_trans)

lemma down_closed_le: "total_comparator c \<Longrightarrow> down_closed c (\<lambda>x. is_le (c x e))"
  unfolding down_closed_def by (intro allI impI, erule (2) total_comparator.trans)

lemma down_closed_sorted:
  "down_closed c P \<Longrightarrow> sorted_wrt (\<lambda>a b. is_le (c a b)) es \<Longrightarrow> sorted_wrt (\<lambda>a b. P b \<longrightarrow> P a) es"
  by (erule sorted_wrt_mono_rel [rotated]) (auto simp: down_closed_def)

lemma down_closed_dropWhile:
  "down_closed c P \<Longrightarrow> sorted_wrt (\<lambda>a b. is_le (c a b)) es \<Longrightarrow> x \<in> set (dropWhile P es) \<Longrightarrow> \<not> P x"
  by (induction es) (auto simp: down_closed_def split: if_splits)

lemma takeWhile_filter: "sorted_wrt (\<lambda>a b. Q b \<longrightarrow> Q a) xs \<Longrightarrow> takeWhile Q xs = filter Q xs"
  by (induction xs) (auto simp: filter_empty_conv)

lemma dropWhile_filter: "sorted_wrt (\<lambda>a b. Q b \<longrightarrow> Q a) xs \<Longrightarrow> dropWhile Q xs = filter (\<lambda>x. \<not> Q x) xs"
  by (induction xs) (auto simp: filter_id_conv)

lemma insert_sorted_sorted:
  assumes "total_comparator c" and "sorted_wrt (\<lambda>a b. is_le (c a b)) es"
  shows "sorted_wrt (\<lambda>a b. is_le (c a b)) (insert_sorted c e es)"
proof -
  let ?P = "\<lambda>x. is_lt (c x e)"
  have dw: "is_le (c e x)" if "x \<in> set (dropWhile ?P es)" for x
    using down_closed_dropWhile [OF down_closed_lt [OF assms(1)] assms(2) that]
      total_comparator.lt_iff [OF assms(1)] by blast
  have tw: "is_le (c x e)" if "x \<in> set (takeWhile ?P es)" for x
    using set_takeWhileD [OF that] by (cases "c x e") auto
  have "sorted_wrt (\<lambda>a b. is_le (c a b)) (takeWhile ?P es @ dropWhile ?P es)" using assms(2) by simp
  then show ?thesis
    unfolding insert_sorted_def sorted_wrt_append using dw tw by simp
qed

lemma delete_sorted_sorted:
  assumes "sorted_wrt (\<lambda>a b. is_le (c a b)) es"
  shows "sorted_wrt (\<lambda>a b. is_le (c a b)) (delete_sorted c e es)"
proof -
  let ?P = "\<lambda>x. is_lt (c x e)"
  have *: "sorted_wrt (\<lambda>a b. is_le (c a b)) (takeWhile ?P es @ dropWhile ?P es)" using assms by simp
  show ?thesis
  proof (cases "dropWhile ?P es")
    case Nil
    then have "\<not> find_sorted c e es" unfolding find_sorted_def Nil by simp
    then show ?thesis using assms by (simp add: delete_sorted_def)
  next
    case (Cons y ys)
    with * assms show ?thesis by (simp add: delete_sorted_def sorted_wrt_append)
  qed
qed

section \<open>Operations on the represented entries\<close>

lemma entry_SomeD: "entry s x = Some e \<Longrightarrow> key_at s x = Some (re_key e) \<and> value_at s x = Some (re_value e)"
  by (auto simp: entry_def split: bind_splits)

lemma node_less_entry:
  "entry s x = Some e \<Longrightarrow>
   node_less s x k v = Some (is_lt (sl_cmp s e \<lparr> re_key = k, re_value = v \<rparr>))"
  by (drule entry_SomeD)
     (auto simp: node_less_def sl_cmp_def entry_cmp_def is_lt_iff split: ordering.splits)

lemma node_same_entry:
  "entry s x = Some e \<Longrightarrow>
   node_same s x k v = Some (sl_cmp s e \<lparr> re_key = k, re_value = v \<rparr> = Equal)"
  by (drule entry_SomeD) (auto simp: node_same_def sl_cmp_def entry_cmp_def split: ordering.splits)

lemma less_or_same_entry:
  "entry s x = Some e \<Longrightarrow>
   less_or_same s k v x = Some (is_le (sl_cmp s e \<lparr> re_key = k, re_value = v \<rparr>))"
  by (cases "sl_cmp s e \<lparr> re_key = k, re_value = v \<rparr>")
     (auto simp: less_or_same_def node_less_entry node_same_entry)

lemma past_bound_entry:
  "entry s x = Some e \<Longrightarrow> past_bound s b strict x =
     Some (if strict then is_le (compare_key s (re_key e) b) else is_lt (compare_key s (re_key e) b))"
  by (drule entry_SomeD) (simp add: past_bound_def)

text \<open>A representation with its chain.\<close>

definition chain_of :: "('k, 'v) skiplist \<Rightarrow> nat list \<Rightarrow> ('k, 'v) range_entry list \<Rightarrow> bool" where
  "chain_of s chain es \<longleftrightarrow> shape s chain \<and> map (entry s) chain = map Some es
     \<and> total_comparator (compare_key s) \<and> total_comparator (compare_value s)
     \<and> sorted_wrt (\<lambda>a b. is_le (sl_cmp s a b)) es"

lemma represents_chain: "represents s es \<longleftrightarrow> (\<exists>chain. chain_of s chain es)"
  by (auto simp: represents_def chain_of_def sl_cmp_def)

lemma chain_takeWhile:
  assumes "map (entry s) chain = map Some es"
  shows "takeWhile (\<lambda>x. P (the (entry s x))) chain = take (length (takeWhile P es)) chain"
    and "dropWhile (\<lambda>x. P (the (entry s x))) chain = drop (length (takeWhile P es)) chain"
    and "length (takeWhile (\<lambda>x. P (the (entry s x))) chain) = length (takeWhile P es)"
proof -
  have "es = map (\<lambda>x. the (entry s x)) chain" using arg_cong [OF assms, of "map the"] by (simp add: comp_def)
  then have "takeWhile P es = map (\<lambda>x. the (entry s x)) (takeWhile (\<lambda>x. P (the (entry s x))) chain)"
    by (simp add: takeWhile_map comp_def)
  then show l: "length (takeWhile (\<lambda>x. P (the (entry s x))) chain) = length (takeWhile P es)" by simp
  show "takeWhile (\<lambda>x. P (the (entry s x))) chain = take (length (takeWhile P es)) chain"
    unfolding l [symmetric] by (rule takeWhile_eq_take)
  show "dropWhile (\<lambda>x. P (the (entry s x))) chain = drop (length (takeWhile P es)) chain"
    unfolding l [symmetric] by (rule dropWhile_eq_drop)
qed

lemma chain_entries:
  "map (entry s) chain = map Some es \<Longrightarrow> x \<in> set chain \<Longrightarrow> \<exists>e\<in>set es. entry s x = Some e"
  by (metis imageE image_eqI list.set_map)

lemma chain_search:
  assumes ch: "chain_of s chain es" and P: "down_closed (sl_cmp s) P"
    and cont: "\<And>x e t d. entry s x = Some e \<Longrightarrow> continue x t d = Some (P e)"
  shows "search_upto (0 # chain) (length (takeWhile P es)) b continue"
proof -
  have m: "map (entry s) chain = map Some es" and so: "sorted_wrt (\<lambda>a b. is_le (sl_cmp s a b)) es"
    using ch by (auto simp: chain_of_def)
  have es: "es = map (\<lambda>x. the (entry s x)) chain" using arg_cong [OF m, of "map the"] by (simp add: comp_def)
  have "sorted_wrt (\<lambda>x y. P (the (entry s y)) \<longrightarrow> P (the (entry s x))) chain"
    using down_closed_sorted [OF P so] unfolding es by (simp add: sorted_wrt_map)
  moreover have "continue x t d = Some (P (the (entry s x)))" if "x \<in> set chain" for x t d
    using chain_entries [OF m that] cont by auto
  ultimately show ?thesis
    using search_upto_takeWhile [of chain continue "\<lambda>x. P (the (entry s x))" b] chain_takeWhile(3) [OF m, of P] by simp
qed

lemma represents_new:
  assumes "total_comparator ck" and "total_comparator cv"
  shows "represents (with_comparators ck cv) []"
proof -
  have "shape (with_comparators ck cv) []"
    unfolding shape_def linked_def backs_def
    by (auto simp: with_comparators_def node_header_def tall_def level_at_def nth_opt_def ht_def
        MAX_LEVEL_def Cons_eq_append_conv)
  then show ?thesis using assms by (auto simp: represents_def with_comparators_def)
qed

lemma represents_insert:
  assumes "represents s es"
  shows "\<exists>s'. skiplist_insert s k v = Some s'
     \<and> represents s' (insert_sorted (sl_cmp s) \<lparr> re_key = k, re_value = v \<rparr> es) \<and> sl_cmp s' = sl_cmp s
     \<and> compare_key s' = compare_key s \<and> compare_value s' = compare_value s"
proof -
  obtain chain where ch: "chain_of s chain es" using assms represents_chain by blast
  then have sh: "shape s chain" and m: "map (entry s) chain = map Some es"
    and so: "sorted_wrt (\<lambda>a b. is_le (sl_cmp s a b)) es"
    and tc: "total_comparator (compare_key s)" "total_comparator (compare_value s)"
    by (auto simp: chain_of_def)
  let ?e = "\<lparr> re_key = k, re_value = v \<rparr>" and ?N = "length (nodes s)"
  let ?P = "\<lambda>x. is_lt (sl_cmp s x ?e)"
  let ?m = "length (takeWhile ?P es)"
  have tce: "total_comparator (sl_cmp s)" unfolding sl_cmp_def using tc by (rule total_comparator_entry)
  have up: "search_upto (0 # chain) ?m 0 (\<lambda>x _ _. node_less s x k v)"
    by (rule chain_search [OF ch down_closed_lt [OF tce]]) (rule node_less_entry)
  have len: "length chain = length es" using m map_eq_imp_length_eq by blast
  have "?m \<le> length chain" using len length_takeWhile_le by metis
  then obtain s' where s': "skiplist_insert s k v = Some s'" "shape s' (take ?m chain @ ?N # drop ?m chain)"
      "\<forall>y. key_at s' y = (if y = ?N then Some k else key_at s y)"
      "\<forall>y. value_at s' y = (if y = ?N then Some v else value_at s y)"
      "compare_key s' = compare_key s" "compare_value s' = compare_value s"
    using skiplist_insert_shape [OF sh _ up refl] by blast
  have "entry s' x = (if x = ?N then Some ?e else entry s x)" for x
    using s'(3,4) by (simp add: entry_def)
  moreover have "?N \<notin> set chain" using chain_index [OF sh] by blast
  then have "?N \<notin> set (take ?m chain)" "?N \<notin> set (drop ?m chain)" by (meson in_set_takeD in_set_dropD)+
  ultimately have "map (entry s') (take ?m chain @ ?N # drop ?m chain)
      = take ?m (map (entry s) chain) @ Some ?e # drop ?m (map (entry s) chain)"
    by (auto simp: take_map drop_map)
  also have "\<dots> = map Some (insert_sorted (sl_cmp s) ?e es)"
    unfolding m insert_sorted_def
    by (simp add: take_map drop_map takeWhile_eq_take [symmetric] dropWhile_eq_drop [symmetric])
  finally have "chain_of s' (take ?m chain @ ?N # drop ?m chain) (insert_sorted (sl_cmp s) ?e es)"
    using s'(2,5,6) tc insert_sorted_sorted [OF tce so] by (simp add: chain_of_def sl_cmp_def)
  then show ?thesis using s'(1,5,6) represents_chain by (auto simp: sl_cmp_def)
qed

lemma represents_delete:
  assumes "represents s es" and e: "e = \<lparr> re_key = k, re_value = v \<rparr>"
  shows "\<exists>s'. skiplist_delete s k v = Some (find_sorted (sl_cmp s) e es, s')
     \<and> represents s' (delete_sorted (sl_cmp s) e es) \<and> sl_cmp s' = sl_cmp s
     \<and> compare_key s' = compare_key s \<and> compare_value s' = compare_value s"
proof -
  obtain chain where ch: "chain_of s chain es" using assms represents_chain by blast
  then have sh: "shape s chain" and m: "map (entry s) chain = map Some es"
    and so: "sorted_wrt (\<lambda>a b. is_le (sl_cmp s a b)) es"
    and tc: "total_comparator (compare_key s)" "total_comparator (compare_value s)"
    by (auto simp: chain_of_def)
  let ?P = "\<lambda>x. is_lt (sl_cmp s x e)"
  define n where "n = length (takeWhile ?P es)"
  define A where "A = take n chain"
  define R where "R = drop n chain"
  have tce: "total_comparator (sl_cmp s)" unfolding sl_cmp_def using tc by (rule total_comparator_entry)
  have len: "length chain = length es" using m map_eq_imp_length_eq by blast
  have n: "n \<le> length es" unfolding n_def by (rule length_takeWhile_le)
  then have AR: "chain = A @ R" "length A = n" by (simp_all add: A_def R_def len)
  have up: "search_upto (0 # A @ R) (length A) b (\<lambda>x _ _. node_less s x k v)" for b
  proof -
    have "search_upto (0 # chain) (length (takeWhile ?P es)) b (\<lambda>x _ _. node_less s x k v)"
      by (rule chain_search [OF ch down_closed_lt [OF tce]]) (simp add: e node_less_entry)
    then show ?thesis using AR by (simp add: n_def [symmetric])
  qed
  have mA: "map (entry s) A = map Some (takeWhile ?P es)" and mR: "map (entry s) R = map Some (dropWhile ?P es)"
    using arg_cong [OF m, of "take n"] arg_cong [OF m, of "drop n"]
    by (simp_all add: A_def R_def take_map drop_map n_def takeWhile_eq_take [symmetric] dropWhile_eq_drop [symmetric])
  define hit where "hit = (R \<noteq> [] \<and> sl_cmp s (hd (dropWhile ?P es)) e = Equal)"
  have found: "find_sorted (sl_cmp s) e es \<longleftrightarrow> R \<noteq> [] \<and> hit"
  proof -
    define Q where "Q = dropWhile ?P es"
    have "find_sorted (sl_cmp s) e es = (case Q of [] \<Rightarrow> False | x # _ \<Rightarrow> sl_cmp s x e = Equal)"
      by (simp add: find_sorted_def Q_def)
    then show ?thesis using mR unfolding hit_def Q_def [symmetric] by (cases Q) auto
  qed
  have "node_same s (hd R) k v = Some hit" if "R \<noteq> []"
    using mR that node_same_entry [of s "hd R" "hd (dropWhile ?P es)" k v]
    by (cases R; cases "dropWhile ?P es") (auto simp: hit_def e)
  then obtain s' where s': "skiplist_delete s k v = Some (R \<noteq> [] \<and> hit, s')"
      "if R \<noteq> [] \<and> hit then shape s' (A @ tl R) else s' = s" "key_at s' = key_at s" "value_at s' = value_at s"
      "compare_key s' = compare_key s" "compare_value s' = compare_value s"
    using skiplist_delete_shape [OF sh [unfolded AR(1)] up] by blast
  have ent: "entry s' = entry s" using s'(3,4) by (simp add: entry_def fun_eq_iff)
  have cmp: "sl_cmp s' = sl_cmp s" using s'(5,6) by (simp add: sl_cmp_def)
  have "represents s' (delete_sorted (sl_cmp s) e es)"
  proof (cases "R \<noteq> [] \<and> hit")
    case True
    have "map (entry s') (A @ tl R) = map Some (delete_sorted (sl_cmp s) e es)"
      using True found mA mR by (simp add: ent delete_sorted_def map_tl)
    then have "chain_of s' (A @ tl R) (delete_sorted (sl_cmp s) e es)"
      using True s'(2,5,6) tc delete_sorted_sorted [OF so] by (simp add: chain_of_def cmp)
    then show ?thesis using represents_chain by blast
  next
    case False
    then have "s' = s" using s'(2) by simp
    moreover have "delete_sorted (sl_cmp s) e es = es" using False found by (auto simp: delete_sorted_def)
    ultimately show ?thesis using assms(1) by simp
  qed
  then show ?thesis using s'(1,5,6) cmp found by auto
qed

definition hd_opt :: "'a list \<Rightarrow> 'a option" where
  "hd_opt xs = (case xs of [] \<Rightarrow> None | x # _ \<Rightarrow> Some x)"

lemma hd_opt_simps [simp]: "hd_opt [] = None" "hd_opt (x # xs) = Some x"
  by (simp_all add: hd_opt_def)

lemma forward_0:
  assumes "shape s chain" and "0 # chain = pre @ x # suf"
  shows "level_at s x 0 = Some (seek (\<lambda>y. 0 < ht s y) suf)"
    and "map_option forward (level_at s x 0) = Some (hd_opt suf)"
proof -
  note D = shapeD [OF assms(1)]
  have "x \<in> set (0 # chain)" unfolding assms(2) by simp
  then have "0 < ht s x" using D(4,6) by (auto simp: ht_def)
  then show *: "level_at s x 0 = Some (seek (\<lambda>y. 0 < ht s y) suf)" by (rule linkedD [OF D(2) assms(2)])
  have "set suf \<subseteq> set chain" using assms(2) by (cases pre) auto
  then show "map_option forward (level_at s x 0) = Some (hd_opt suf)"
    using * D(4) by (cases suf) auto
qed

lemma lower_bound_index_chain:
  assumes ch: "chain_of s chain es" and P: "P = (\<lambda>e. if strict then is_le (compare_key s (re_key e) b)
      else is_lt (compare_key s (re_key e) b))"
  shows "lower_bound_index s b strict = Some (hd_opt (drop (length (takeWhile P es)) chain))"
proof -
  have sh: "shape s chain" and m: "map (entry s) chain = map Some es"
    and tc: "total_comparator (compare_key s)"
    using ch by (auto simp: chain_of_def)
  note D = shapeD [OF sh]
  let ?m = "length (takeWhile P es)"
  have le: "is_le (compare_key s (re_key a) (re_key c))" if "is_le (sl_cmp s a c)" for a c
    using that by (auto simp: sl_cmp_def entry_cmp_def split: ordering.splits)
  have "down_closed (sl_cmp s) P"
    unfolding down_closed_def
  proof (intro allI impI)
    fix a c
    assume "is_le (sl_cmp s a c)" and "P c"
    then show "P a"
      using total_comparator.trans [OF tc le] total_comparator.lt_le_trans [OF tc _ le]
      by (auto simp: P split: if_splits)
  qed
  then have up: "search_upto (0 # chain) ?m c (\<lambda>x _ _. past_bound s b strict x)" for c
    by (rule chain_search [OF ch]) (simp add: P past_bound_entry)
  have len: "length chain = length es" using m map_eq_imp_length_eq by blast
  have mlen: "?m \<le> length chain" using len length_takeWhile_le by metis
  obtain u r where u: "lower_bound_loop s b strict (level s) 0 = Some u" "last_at (ht s) (0 # chain) ?m 0 u r"
    using lower_bound_loop_finds [OF D(2) up _ ready_start [OF sh] D(6)] mlen by auto
  have "u = (0 # chain) ! ?m" by (rule last_at_0(2) [OF u(2) D(4)])
  then have "0 # chain = take ?m (0 # chain) @ u # drop ?m chain"
    using id_take_nth_drop [of ?m "0 # chain"] mlen by simp
  from forward_0(2) [OF sh this] show ?thesis
    using u(1) by (auto simp: lower_bound_index_def)
qed

lemma represents_lower_bound:
  assumes "represents s es"
  shows "lower_bound s b strict = Some (find (\<lambda>e. if strict then is_gt (compare_key s (re_key e) b)
      else is_ge (compare_key s (re_key e) b)) es)"
proof -
  obtain chain where ch: "chain_of s chain es" using assms represents_chain by blast
  define P where "P = (\<lambda>e :: ('a, 'b) range_entry. if strict then is_le (compare_key s (re_key e) b)
      else is_lt (compare_key s (re_key e) b))"
  have m: "map (entry s) chain = map Some es" using ch by (simp add: chain_of_def)
  have idx: "lower_bound_index s b strict = Some (hd_opt (drop (length (takeWhile P es)) chain))"
    by (rule lower_bound_index_chain [OF ch P_def])
  have mR: "map (entry s) (drop (length (takeWhile P es)) chain) = map Some (dropWhile P es)"
    using arg_cong [OF m, of "drop (length (takeWhile P es))"] by (simp add: drop_map dropWhile_eq_drop [symmetric])
  have f: "find (\<lambda>e. \<not> P e) xs = hd_opt (dropWhile P xs)" for xs
    by (induction xs) auto
  have "(\<lambda>e. if strict then is_gt (compare_key s (re_key e) b) else is_ge (compare_key s (re_key e) b)) = (\<lambda>e. \<not> P e)"
    by (auto simp: P_def is_le_not_gt is_ge_not_lt)
  moreover have "lower_bound s b strict = Some (hd_opt (dropWhile P es))"
  proof -
    define R where "R = drop (length (takeWhile P es)) chain"
    define Q where "Q = dropWhile P es"
    show ?thesis
      using mR unfolding lower_bound_def idx R_def [symmetric] Q_def [symmetric] by (cases R; cases Q) auto
  qed
  ultimately show ?thesis using f [of es] by simp
qed

lemma represents_rank:
  assumes "represents s es" and e: "e = \<lparr> re_key = k, re_value = v \<rparr>"
  defines "n \<equiv> length (takeWhile (\<lambda>x. is_le (sl_cmp s x e)) es)"
  shows "skiplist_rank s k v = Some (if 0 < n \<and> sl_cmp s (es ! (n - 1)) e = Equal then Some (n - 1) else None)"
proof -
  obtain chain where ch: "chain_of s chain es" using assms represents_chain by blast
  then have sh: "shape s chain" and m: "map (entry s) chain = map Some es"
    and tc: "total_comparator (compare_key s)" "total_comparator (compare_value s)"
    by (auto simp: chain_of_def)
  note D = shapeD [OF sh]
  have tce: "total_comparator (sl_cmp s)" unfolding sl_cmp_def using tc by (rule total_comparator_entry)
  have len: "length chain = length es" using m map_eq_imp_length_eq by blast
  have n: "n \<le> length es" unfolding n_def by (rule length_takeWhile_le)
  have up: "search_upto (0 # chain) n 0 (\<lambda>x _ _. less_or_same s k v x)"
    unfolding n_def by (rule chain_search [OF ch down_closed_le [OF tce]]) (simp add: e less_or_same_entry)
  obtain u r where u: "rank_loop s k v (level s) 0 0 = Some (u, r)" "last_at (ht s) (0 # chain) n 0 u r"
    using rank_loop_finds [OF D(2) up _ ready_start [OF sh] D(6)] n len by auto
  note u' = last_at_0 [OF u(2) D(4)]
  show ?thesis
  proof (cases n)
    case 0
    then show ?thesis using u u' by (simp add: skiplist_rank_def)
  next
    case (Suc n')
    then have n': "n' < length chain" using n len by simp
    then have "u = chain ! n'" and "u \<noteq> 0" using u' Suc D(1) by (auto simp: in_set_conv_nth)
    moreover have "entry s (chain ! n') = Some (es ! n')" using m n' len by (metis nth_map)
    ultimately show ?thesis using u u' Suc
      by (simp add: skiplist_rank_def node_same_entry e checked_sub_def)
  qed
qed

lemma represents_get_by_rank:
  assumes "represents s es"
  shows "get_by_rank s r = Some (if r < length es then Some (es ! r) else None)"
proof -
  obtain chain where ch: "chain_of s chain es" using assms represents_chain by blast
  then have sh: "shape s chain" and m: "map (entry s) chain = map Some es"
    by (auto simp: chain_of_def)
  note D = shapeD [OF sh]
  have len: "length chain = length es" using m map_eq_imp_length_eq by blast
  show ?thesis
  proof (cases "r < length es")
    case True
    then have "get_by_rank_loop s (Suc r) (level s) 0 0 = map_option Some (entry s ((0 # chain) ! Suc r))"
      using len by (intro get_by_rank_loop_finds [OF D(2) _ D(4) ready_start [OF sh] D(6)]) simp
    moreover have "entry s (chain ! r) = Some (es ! r)" using m True len by (metis nth_map)
    ultimately show ?thesis using True len D(9) by (simp add: get_by_rank_def)
  qed (simp add: get_by_rank_def D(9) len)
qed

subsection \<open>Ranges\<close>

definition limit :: "nat option \<Rightarrow> 'a list \<Rightarrow> 'a list" where
  "limit n xs = (case n of None \<Rightarrow> xs | Some k \<Rightarrow> take k xs)"

lemma range_loop_list:
  assumes "\<And>a x b. ys = a @ x # b \<Longrightarrow> range_next s opts x = Some (hd_opt b)"
    and "map (entry s) ys = map Some es"
  shows "range_loop s opts (hd_opt ys) off rem out =
    Some (out @ limit rem (drop off (takeWhile (\<lambda>e. in_bounds (compare_key s) opts (re_key e)) es)))"
  using assms
proof (induction ys arbitrary: es off rem out)
  case Nil
  then show ?case by (simp add: range_loop.simps [of s opts None] limit_def split: option.split)
next
  case (Cons y ys)
  obtain e es' where es: "es = e # es'" and ent: "entry s y = Some e" and m: "map (entry s) ys = map Some es'"
    using Cons.prems(2) by (cases es) auto
  have nx: "range_next s opts y = Some (hd_opt ys)" using Cons.prems(1) [of "[]" y ys] by simp
  have IH: "range_loop s opts (hd_opt ys) off rem out =
    Some (out @ limit rem (drop off (takeWhile (\<lambda>e. in_bounds (compare_key s) opts (re_key e)) es')))" for off rem out
    by (rule Cons.IH [OF _ m]) (use Cons.prems(1) [of "y # _"] in simp)
  show ?case
    using entry_SomeD [OF ent]
    by (cases rem; cases "the rem"; cases off)
       (auto simp: range_loop.simps [of s opts "Some y"] es ent nx IH limit_def gr0_conv_Suc)
qed

lemma chain_next:
  assumes "shape s chain" and "chain = p @ ys" and "\<not> opt_reverse opts" and "ys = a @ x # b"
  shows "range_next s opts x = Some (hd_opt b)"
  using forward_0(2) [OF assms(1), of "0 # p @ a" x b] assms by (simp add: range_next_def)

lemma chain_back:
  assumes "shape s chain" and "chain = p @ q" and "opt_reverse opts" and "rev p = a @ x # b"
  shows "range_next s opts x = Some (hd_opt b)"
proof -
  have "p = rev b @ x # rev a" using arg_cong [OF assms(4), of rev] by simp
  then have "backward_at s x = Some (if rev b = [] then None else Some (last (rev b)))"
    by (intro backsD [OF shapeD(3) [OF assms(1)], of _ _ "rev a @ q"]) (simp add: assms(2))
  then show ?thesis using assms(3) by (cases b) (auto simp: range_next_def)
qed

text \<open>
  What \<open>range\<close> selects. Forward, \<open>gt\<close> is only read when \<open>gte\<close> is absent; backward, \<open>lt\<close>
  is only read when \<open>lte\<close> is absent.
\<close>

definition in_range :: "'k comparator \<Rightarrow> 'k range_options \<Rightarrow> 'k \<Rightarrow> bool" where
  "in_range c opts k \<longleftrightarrow> in_bounds c opts k \<and>
     (if opt_reverse opts
      then (case opt_lte opts of Some b \<Rightarrow> is_le (c k b)
            | None \<Rightarrow> is_none_or (\<lambda>b. is_lt (c k b)) (opt_lt opts))
      else (case opt_gte opts of Some b \<Rightarrow> is_ge (c k b)
            | None \<Rightarrow> is_none_or (\<lambda>b. is_gt (c k b)) (opt_gt opts)))"

definition range_spec :: "'k comparator \<Rightarrow> 'k range_options \<Rightarrow> ('k, 'v) range_entry list \<Rightarrow> ('k, 'v) range_entry list" where
  "range_spec c opts es =
     (let sel = filter (\<lambda>e. in_range c opts (re_key e)) es
      in limit (opt_count opts) (drop (opt_offset opts) (if opt_reverse opts then rev sel else sel)))"

text \<open>The key bound at which a traversal starts, as a predicate on the keys before it.\<close>

definition start_before :: "'k comparator \<Rightarrow> 'k range_options \<Rightarrow> 'k \<Rightarrow> bool" where
  "start_before c opts k =
     (if opt_reverse opts
      then (case opt_lte opts of Some b \<Rightarrow> is_le (c k b)
            | None \<Rightarrow> is_none_or (\<lambda>b. is_lt (c k b)) (opt_lt opts))
      else (case opt_gte opts of Some b \<Rightarrow> is_lt (c k b)
            | None \<Rightarrow> (case opt_gt opts of Some b \<Rightarrow> is_le (c k b) | None \<Rightarrow> False)))"

lemma in_range_split:
  "in_range c opts k \<longleftrightarrow> in_bounds c opts k \<and> (if opt_reverse opts then start_before c opts k else \<not> start_before c opts k)"
  by (auto simp: in_range_def start_before_def is_none_or_def is_ge_not_lt is_le_not_gt split: option.split)

lemma key_le: "is_le (sl_cmp s a c) \<Longrightarrow> is_le (compare_key s (re_key a) (re_key c))"
  by (auto simp: sl_cmp_def entry_cmp_def split: ordering.splits)

lemma key_down_closed:
  assumes "down_closed (compare_key s) Q"
  shows "down_closed (sl_cmp s) (\<lambda>e. Q (re_key e))"
  using assms key_le unfolding down_closed_def by blast

lemma start_before_down: "total_comparator c \<Longrightarrow> down_closed c (start_before c opts)"
  using down_closed_le [of c] down_closed_lt [of c]
  unfolding down_closed_def start_before_def is_none_or_def by (auto split: option.split)

lemma in_bounds_down: "total_comparator c \<Longrightarrow> \<not> opt_reverse opts \<Longrightarrow> down_closed c (in_bounds c opts)"
  using down_closed_le [of c] down_closed_lt [of c]
  unfolding down_closed_def in_bounds_def is_none_or_def by (auto split: option.split)

lemma in_bounds_up:
  assumes "total_comparator c" and "opt_reverse opts" and "is_le (c a b)" and "in_bounds c opts a"
  shows "in_bounds c opts b"
  using assms(2,4) down_closed_le [OF assms(1)] down_closed_lt [OF assms(1)] assms(3)
  unfolding down_closed_def in_bounds_def is_none_or_def
  by (auto simp: is_ge_not_lt is_gt_not_le split: option.split_asm option.split)

lemma takeWhile_const: "takeWhile (\<lambda>_. True) xs = xs" "takeWhile (\<lambda>_. False) xs = []"
  by (induction xs) auto

lemma range_start_chain:
  assumes ch: "chain_of s chain es"
    and n_def: "n = length (takeWhile (\<lambda>e. start_before (compare_key s) opts (re_key e)) es)"
  shows "range_start s opts = Some (hd_opt (if opt_reverse opts then rev (take n chain) else drop n chain))"
proof -
  have sh: "shape s chain" and m: "map (entry s) chain = map Some es" using ch by (auto simp: chain_of_def)
  note D = shapeD [OF sh]
  have len: "length chain = length es" using m map_eq_imp_length_eq by blast
  have start: "map_option forward (level_at s 0 0) = Some (hd_opt chain)" by (rule forward_0(2) [OF sh, of "[]"]) simp
  have rs: "reverse_start s b strict = Some (hd_opt (rev (take k chain)))"
    if "k = length (takeWhile (\<lambda>e. if strict then is_le (compare_key s (re_key e) b) else is_lt (compare_key s (re_key e) b)) es)"
    for b strict k
  proof -
    have i: "lower_bound_index s b strict = Some (hd_opt (drop k chain))"
      unfolding that by (rule lower_bound_index_chain [OF ch refl])
    have tl: "tail s = hd_opt (rev chain)" using D(3) by (cases chain rule: rev_cases) (auto simp: backs_def)
    show ?thesis
    proof (cases "drop k chain")
      case Nil
      then show ?thesis using i tl by (simp add: reverse_start_def)
    next
      case (Cons x xs)
      have "backward_at s x = Some (hd_opt (rev (take k chain)))"
        using backsD [OF D(3), of "take k chain" x xs] Cons append_take_drop_id [of k chain]
        by (cases "take k chain" rule: rev_cases) auto
      then show ?thesis using i Cons by (cases "hd_opt (rev (take k chain))") (auto simp: reverse_start_def)
    qed
  qed
  have tl: "tail s = hd_opt (rev chain)" using D(3) by (cases chain rule: rev_cases) (auto simp: backs_def)
  show ?thesis
    unfolding range_start_def n_def start_before_def is_none_or_def
    by (auto simp: rs lower_bound_index_chain [OF ch refl] start tl len takeWhile_const split: option.split)
qed

lemma represents_range:
  assumes "represents s es"
  shows "skiplist_range s opts = Some (range_spec (compare_key s) opts es)"
proof -
  obtain chain where ch: "chain_of s chain es" using assms represents_chain by blast
  then have sh: "shape s chain" and m: "map (entry s) chain = map Some es"
    and so: "sorted_wrt (\<lambda>a b. is_le (sl_cmp s a b)) es" and tc: "total_comparator (compare_key s)"
    by (auto simp: chain_of_def)
  let ?P = "\<lambda>e. start_before (compare_key s) opts (re_key e)"
  let ?n = "length (takeWhile ?P es)"
  let ?I = "\<lambda>e. in_bounds (compare_key s) opts (re_key e)"
  have P: "down_closed (sl_cmp s) ?P" by (rule key_down_closed [OF start_before_down [OF tc]])
  have n: "?n \<le> length chain" using m map_eq_imp_length_eq length_takeWhile_le by metis
  note seg = takeWhile_filter [OF down_closed_sorted [OF P so]] dropWhile_filter [OF down_closed_sorted [OF P so]]
  show ?thesis
  proof (cases "opt_reverse opts")
    case False
    have ent: "map (entry s) (drop ?n chain) = map Some (filter (\<lambda>e. \<not> ?P e) es)"
      using arg_cong [OF m, of "drop ?n"] by (simp add: drop_map dropWhile_eq_drop [symmetric] seg(2))
    have I: "down_closed (sl_cmp s) ?I"
      by (rule key_down_closed) (rule in_bounds_down [OF tc False])
    have "range_loop s opts (hd_opt (drop ?n chain)) (opt_offset opts) (opt_count opts) [] =
        Some ([] @ limit (opt_count opts) (drop (opt_offset opts) (takeWhile ?I (filter (\<lambda>e. \<not> ?P e) es))))"
      by (rule range_loop_list [OF _ ent]) (rule chain_next [OF sh append_take_drop_id [symmetric] False])
    moreover have "takeWhile ?I (filter (\<lambda>e. \<not> ?P e) es) = filter (\<lambda>e. in_range (compare_key s) opts (re_key e)) es"
      using False by (simp add: takeWhile_filter [OF sorted_wrt_filter [OF down_closed_sorted [OF I so]]] in_range_split conj_commute)
    ultimately show ?thesis
      using range_start_chain [OF ch refl, of opts] False by (simp add: skiplist_range_def range_spec_def)
  next
    case True
    have ent: "map (entry s) (rev (take ?n chain)) = map Some (rev (filter ?P es))"
    proof -
      have "take ?n es = filter ?P es" using takeWhile_eq_take [of ?P es] seg(1) by metis
      then show ?thesis using arg_cong [OF m, of "take ?n"] by (simp add: take_map rev_map [symmetric])
    qed
    have "sorted_wrt (\<lambda>a b. ?I a \<longrightarrow> ?I b) es"
      by (rule sorted_wrt_mono_rel [OF _ so]) (intro impI, rule in_bounds_up [OF tc True key_le])
    then have sI: "sorted_wrt (\<lambda>a b. ?I b \<longrightarrow> ?I a) (rev (filter ?P es))"
      by (simp add: sorted_wrt_rev sorted_wrt_filter)
    have "range_loop s opts (hd_opt (rev (take ?n chain))) (opt_offset opts) (opt_count opts) [] =
        Some ([] @ limit (opt_count opts) (drop (opt_offset opts) (takeWhile ?I (rev (filter ?P es)))))"
      by (rule range_loop_list [OF _ ent]) (rule chain_back [OF sh append_take_drop_id [symmetric] True])
    moreover have "takeWhile ?I (rev (filter ?P es)) = rev (filter (\<lambda>e. in_range (compare_key s) opts (re_key e)) es)"
      unfolding takeWhile_filter [OF sI] using True by (simp add: rev_filter in_range_split conj_commute)
    ultimately show ?thesis
      using range_start_chain [OF ch refl, of opts] True by (simp add: skiplist_range_def range_spec_def)
  qed
qed

section \<open>Sequences of operations\<close>

datatype ('k, 'v) sl_op = Ins 'k 'v | Del 'k 'v

fun run_op :: "('k, 'v) skiplist \<Rightarrow> ('k, 'v) sl_op \<Rightarrow> ('k, 'v) skiplist option" where
  "run_op s (Ins k v) = skiplist_insert s k v"
| "run_op s (Del k v) = map_option snd (skiplist_delete s k v)"

fun run_ops :: "('k, 'v) skiplist \<Rightarrow> ('k, 'v) sl_op list \<Rightarrow> ('k, 'v) skiplist option" where
  "run_ops s [] = Some s"
| "run_ops s (a # as) = do { s' \<leftarrow> run_op s a; run_ops s' as }"

fun spec_op :: "('k, 'v) range_entry comparator \<Rightarrow> ('k, 'v) range_entry list \<Rightarrow> ('k, 'v) sl_op \<Rightarrow> ('k, 'v) range_entry list" where
  "spec_op c es (Ins k v) = insert_sorted c \<lparr> re_key = k, re_value = v \<rparr> es"
| "spec_op c es (Del k v) = delete_sorted c \<lparr> re_key = k, re_value = v \<rparr> es"

lemma represents_op:
  assumes "represents s es"
  shows "\<exists>s'. run_op s a = Some s' \<and> represents s' (spec_op (sl_cmp s) es a) \<and> sl_cmp s' = sl_cmp s
     \<and> compare_key s' = compare_key s"
proof (cases a)
  case (Ins k v)
  with represents_insert [OF assms, of k v] show ?thesis by auto
next
  case (Del k v)
  with represents_delete [OF assms refl, of k v] show ?thesis by auto
qed

lemma represents_ops:
  "represents s es \<Longrightarrow> \<exists>s'. run_ops s as = Some s' \<and> represents s' (foldl (spec_op (sl_cmp s)) es as)
     \<and> compare_key s' = compare_key s \<and> sl_cmp s' = sl_cmp s"
proof (induction as arbitrary: s es)
  case (Cons a as)
  from represents_op [OF Cons.prems, of a] obtain s' where s': "run_op s a = Some s'"
      "represents s' (spec_op (sl_cmp s) es a)" "sl_cmp s' = sl_cmp s" "compare_key s' = compare_key s" by blast
  with Cons.IH [OF s'(2)] show ?case by auto
qed simp

lemma range_default: "range_spec c range_options_default es = es"
  by (simp add: range_spec_def range_options_default_def limit_def in_range_def in_bounds_def is_none_or_def)

text \<open>
  C3. The skip list refines sorted insertion and deletion: from an empty list, any sequence of
  \<open>insert\<close> and \<open>delete\<close> calls returns (no index out of range, no missing key, no underflow,
  no endless loop) and \<open>to_vec\<close> then lists exactly the entries of the same sequence run on a
  sorted list, whatever levels the generator draws.
\<close>

theorem skiplist_refines:
  assumes "total_comparator ck" and "total_comparator cv"
  shows "\<exists>s. run_ops (with_comparators ck cv) ops = Some s
     \<and> to_vec s = Some (foldl (spec_op (entry_cmp ck cv)) [] ops)"
proof -
  have cmp: "sl_cmp (with_comparators ck cv) = entry_cmp ck cv"
    by (simp add: sl_cmp_def with_comparators_def)
  from represents_ops [OF represents_new [OF assms], of ops] obtain s where
    "run_ops (with_comparators ck cv) ops = Some s" "represents s (foldl (spec_op (entry_cmp ck cv)) [] ops)"
    unfolding cmp by blast
  then show ?thesis using represents_range [of s _ range_options_default]
    by (auto simp: to_vec_def range_default)
qed

theorem skiplist_refines_witness:
  "total_comparator (cmp :: nat comparator) \<and> (\<exists>s. run_ops (with_comparators cmp cmp) [Ins 2 0, Ins 1 0, Del 2 (0::nat)] = Some s
     \<and> to_vec s = Some [\<lparr> re_key = 1 :: nat, re_value = 0 \<rparr>])"
  using skiplist_refines [OF linorder_cmp.total_comparator_axioms linorder_cmp.total_comparator_axioms,
      of "[Ins 2 0, Ins 1 0, Del (2::nat) (0::nat)]"] linorder_cmp.total_comparator_axioms
  by (simp add: insert_sorted_def delete_sorted_def find_sorted_def entry_cmp_def cmp_def)

text \<open>A list built by a sequence of operations, and the entries it stands for.\<close>

definition built :: "'k comparator \<Rightarrow> 'v comparator \<Rightarrow> ('k, 'v) sl_op list \<Rightarrow> ('k, 'v) skiplist \<Rightarrow> bool" where
  "built ck cv ops s \<longleftrightarrow> total_comparator ck \<and> total_comparator cv \<and> run_ops (with_comparators ck cv) ops = Some s"

abbreviation built_entries where
  "built_entries ck cv ops \<equiv> foldl (spec_op (entry_cmp ck cv)) [] ops"

lemma built_represents:
  assumes "built ck cv ops s"
  shows "represents s (built_entries ck cv ops)" and "compare_key s = ck" and "sl_cmp s = entry_cmp ck cv"
proof -
  have cmp: "sl_cmp (with_comparators ck cv) = entry_cmp ck cv" "compare_key (with_comparators ck cv) = ck"
    by (simp_all add: sl_cmp_def with_comparators_def)
  have new: "represents (with_comparators ck cv) []"
    using assms by (intro represents_new) (simp_all add: built_def)
  from represents_ops [OF new, of ops] assms
  show "represents s (built_entries ck cv ops)" and "compare_key s = ck" and "sl_cmp s = entry_cmp ck cv"
    by (simp_all add: built_def cmp)
qed

lemma built_exists:
  assumes "total_comparator ck" and "total_comparator cv"
  shows "\<exists>s. built ck cv ops s"
  using represents_ops [OF represents_new [OF assms], of ops] assms by (auto simp: built_def)

text \<open>
  \<open>range\<close> returns the entries whose keys the options select, in key order or reversed, after
  skipping \<open>offset\<close> and up to \<open>count\<close> of them: the traversal from a bound over forward or
  backward indices agrees with filtering all entries.
\<close>

lemma skiplist_range_ok:
  assumes "built ck cv ops s"
  shows "skiplist_range s opts = Some (range_spec ck opts (built_entries ck cv ops))"
  using represents_range [OF built_represents(1) [OF assms], of opts] built_represents(2) [OF assms] by simp

definition is_rank :: "('e \<Rightarrow> 'e \<Rightarrow> ordering) \<Rightarrow> 'e \<Rightarrow> 'e list \<Rightarrow> nat option \<Rightarrow> bool" where
  "is_rank c e es r = (case r of
     Some i \<Rightarrow> i < length es \<and> c (es ! i) e = Equal \<and> (\<forall>j<length es. i < j \<longrightarrow> c (es ! j) e = Greater)
   | None \<Rightarrow> (\<forall>x\<in>set es. c x e \<noteq> Equal))"

lemma is_rank_takeWhile:
  assumes tc: "total_comparator c" and so: "sorted_wrt (\<lambda>a b. is_le (c a b)) es"
    and n_def: "n = length (takeWhile (\<lambda>x. is_le (c x e)) es)"
  shows "is_rank c e es (if 0 < n \<and> c (es ! (n - 1)) e = Equal then Some (n - 1) else None)"
proof -
  have n: "n \<le> length es" unfolding n_def by (rule length_takeWhile_le)
  have after: "c (es ! j) e = Greater" if "n \<le> j" "j < length es" for j
  proof -
    have "es ! j = drop n es ! (j - n)" "j - n < length (drop n es)" using that by simp_all
    then have "es ! j \<in> set (dropWhile (\<lambda>x. is_le (c x e)) es)"
      unfolding n_def dropWhile_eq_drop by (metis nth_mem)
    then have "\<not> is_le (c (es ! j) e)" by (rule down_closed_dropWhile [OF down_closed_le [OF tc] so])
    then show ?thesis by (cases "c (es ! j) e") auto
  qed
  have before: "is_lt (c (es ! j) e)" if "j < n" "c (es ! (n - 1)) e \<noteq> Equal" for j
  proof -
    have "takeWhile (\<lambda>x. is_le (c x e)) es ! (n - 1) \<in> set (takeWhile (\<lambda>x. is_le (c x e)) es)"
      using that(1) by (intro nth_mem) (simp add: n_def)
    moreover have "es ! (n - 1) = takeWhile (\<lambda>x. is_le (c x e)) es ! (n - 1)"
      using that(1) by (simp add: n_def takeWhile_nth)
    ultimately have "is_le (c (es ! (n - 1)) e)" by (auto dest: set_takeWhileD)
    then have "is_lt (c (es ! (n - 1)) e)" using that(2) by (cases "c (es ! (n - 1)) e") auto
    moreover have "is_le (c (es ! j) (es ! (n - 1)))"
      using so that(1) n total_comparator.refl [OF tc]
      by (cases "j = n - 1") (auto simp: sorted_wrt_iff_nth_less)
    ultimately show ?thesis by (rule total_comparator.lt_le_trans [OF tc])
  qed
  show ?thesis
  proof (cases "0 < n \<and> c (es ! (n - 1)) e = Equal")
    case True
    then show ?thesis using n after by (auto simp: is_rank_def)
  next
    case False
    have "c (es ! j) e \<noteq> Equal" if "j < length es" for j
      using after [OF _ that] before [of j] False by (cases "j < n") (auto simp: is_lt_iff)
    then show ?thesis using False by (auto simp: is_rank_def in_set_conv_nth)
  qed
qed

text \<open>
  Ranks count: \<open>get_by_rank\<close> returns the entry at that position and nothing past the end, and
  \<open>rank\<close> of an entry, when it answers, is a position where an equal entry stands, the last one;
  it answers whenever an equal entry exists.
\<close>

lemma skiplist_rank_ok:
  assumes "built ck cv ops s"
  shows "(\<forall>r. get_by_rank s r = Some (if r < length (built_entries ck cv ops) then Some (built_entries ck cv ops ! r) else None))
    \<and> (\<exists>r. skiplist_rank s k v = Some r
          \<and> is_rank (entry_cmp ck cv) \<lparr> re_key = k, re_value = v \<rparr> (built_entries ck cv ops) r)"
proof -
  note R = built_represents [OF assms]
  have so: "sorted_wrt (\<lambda>a b. is_le (entry_cmp ck cv a b)) (built_entries ck cv ops)"
    using R(1,3) by (simp add: represents_def sl_cmp_def [symmetric])
  have tc: "total_comparator (entry_cmp ck cv)"
    using assms by (intro total_comparator_entry) (simp_all add: built_def)
  show ?thesis
    using represents_get_by_rank [OF R(1)] represents_rank [OF R(1) refl, of k v, unfolded R(3)]
      is_rank_takeWhile [OF tc so refl]
    by blast
qed

text \<open>
  \<open>delete\<close> removes one entry equal to its arguments and says so; when there is none it returns
  false and changes nothing. \<open>lower_bound\<close> finds the first entry at or after the bound.
\<close>

lemma skiplist_delete_ok:
  assumes "built ck cv ops s"
  shows "(\<exists>s'. skiplist_delete s k v = Some (find_sorted (entry_cmp ck cv) \<lparr> re_key = k, re_value = v \<rparr> (built_entries ck cv ops), s')
        \<and> to_vec s' = Some (delete_sorted (entry_cmp ck cv) \<lparr> re_key = k, re_value = v \<rparr> (built_entries ck cv ops)))
    \<and> lower_bound s k strict = Some (find (\<lambda>e. if strict then is_gt (ck (re_key e) k) else is_ge (ck (re_key e) k)) (built_entries ck cv ops))"
  using represents_delete [OF built_represents(1) [OF assms] refl, of k v]
    represents_lower_bound [OF built_represents(1) [OF assms], of k strict] represents_range [of _ _ range_options_default]
  by (auto simp: built_represents(2,3) [OF assms] to_vec_def range_default)

end
