(* ===== verification/OrderedEntries.thy ===== *)
theory OrderedEntries
  imports SkipListSpec
begin

text \<open>
  What the store and the secondary indexes rely on: a collection of (key, value) entries
  without duplicates, kept in order. The locale \<open>ordered_entries\<close> states the contract over
  the set of entries; the skip list with linear comparators is interpreted as an instance.
  The client lemmas (an entry moved from one place to another, a series of insertions) are
  proved once from the contract.
\<close>

section \<open>Linear comparators\<close>

locale linear_comparator = total_comparator c for c :: "'a \<Rightarrow> 'a \<Rightarrow> ordering" +
  assumes eqD: "c a b = Equal \<Longrightarrow> a = b"

interpretation linear_cmp: linear_comparator "cmp :: 'a::linorder \<Rightarrow> 'a \<Rightarrow> ordering"
  by unfold_locales auto

lemma linear_total: "linear_comparator c \<Longrightarrow> total_comparator c"
  by (rule linear_comparator.axioms(1))

lemma linear_comparator_entry:
  assumes "linear_comparator ck" and "linear_comparator cv"
  shows "linear_comparator (entry_cmp ck cv)"
proof -
  have "total_comparator (entry_cmp ck cv)"
    using assms by (intro total_comparator_entry linear_total)
  moreover have "a = b" if "entry_cmp ck cv a b = Equal" for a b
    using that linear_comparator.eqD [OF assms(1)] linear_comparator.eqD [OF assms(2)]
    by (auto simp: entry_cmp_def split: ordering.splits intro!: range_entry.equality)
  ultimately show ?thesis
    by (simp add: linear_comparator_def linear_comparator_axioms_def)
qed

section \<open>The contract\<close>

locale ordered_entries =
  fixes holds :: "'s \<Rightarrow> ('k, 'v) range_entry set \<Rightarrow> bool"
    and new :: "'s"
    and ins :: "'s \<Rightarrow> 'k \<Rightarrow> 'v \<Rightarrow> 's option"
    and del :: "'s \<Rightarrow> 'k \<Rightarrow> 'v \<Rightarrow> (bool \<times> 's) option"
    and rng :: "'s \<Rightarrow> 'k range_options \<Rightarrow> ('k, 'v) range_entry list option"
    and ck :: "'k comparator" and cv :: "'v comparator"
  assumes new: "holds new {}"
    and ins: "holds s E \<Longrightarrow> \<lparr> re_key = k, re_value = v \<rparr> \<notin> E \<Longrightarrow>
       \<exists>s'. ins s k v = Some s' \<and> holds s' (Set.insert \<lparr> re_key = k, re_value = v \<rparr> E)"
    and del: "holds s E \<Longrightarrow>
       \<exists>s'. del s k v = Some (\<lparr> re_key = k, re_value = v \<rparr> \<in> E, s') \<and> holds s' (E - {\<lparr> re_key = k, re_value = v \<rparr>})"
    and rng: "holds s E \<Longrightarrow> \<exists>es. set es = E \<and> distinct es
       \<and> sorted_wrt (\<lambda>a b. is_le (entry_cmp ck cv a b)) es \<and> (\<forall>opts. rng s opts = Some (range_spec ck opts es))"
begin

text \<open>An entry moved: deleted at its old place, inserted at its new one.\<close>

lemma moved:
  assumes "holds s E" and "\<lparr> re_key = k', re_value = v' \<rparr> \<notin> E - {\<lparr> re_key = k, re_value = v \<rparr>}"
  shows "\<exists>s1 s2. del s k v = Some (\<lparr> re_key = k, re_value = v \<rparr> \<in> E, s1) \<and> ins s1 k' v' = Some s2
     \<and> holds s2 (Set.insert \<lparr> re_key = k', re_value = v' \<rparr> (E - {\<lparr> re_key = k, re_value = v \<rparr>}))"
  using del [OF assms(1)] ins [OF _ assms(2)] by blast

text \<open>A full range has exactly the entries, in order.\<close>

lemma full_range:
  assumes "holds s E"
  shows "\<exists>es. rng s range_options_default = Some es \<and> set es = E \<and> distinct es
     \<and> sorted_wrt (\<lambda>a b. is_le (entry_cmp ck cv a b)) es"
  using rng [OF assms] range_default by metis

lemma range_mem:
  assumes "holds s E" and "opt_offset opts = 0" and "opt_count opts = None"
  shows "\<exists>es. rng s opts = Some es \<and> set es = {e \<in> E. in_range ck opts (re_key e)} \<and> distinct es"
proof -
  obtain es where "set es = E" "distinct es" "\<forall>opts. rng s opts = Some (range_spec ck opts es)"
    using rng [OF assms(1)] by blast
  then show ?thesis using assms(2,3) by (auto simp: range_spec_def limit_def Let_def)
qed

end

section \<open>The skip list provides it\<close>

definition holds ::
  "'k comparator \<Rightarrow> 'v comparator \<Rightarrow> ('k, 'v) skiplist \<Rightarrow> ('k, 'v) range_entry set \<Rightarrow> bool"
where
  "holds ck cv s E \<longleftrightarrow> compare_key s = ck \<and> compare_value s = cv
     \<and> (\<exists>es. represents s es \<and> distinct es \<and> set es = E)"

lemma insert_sorted_mem:
  "set (insert_sorted c e es) = Set.insert e (set es)" "distinct es \<Longrightarrow> e \<notin> set es \<Longrightarrow> distinct (insert_sorted c e es)"
proof -
  define A where "A = takeWhile (\<lambda>x. is_lt (c x e)) es"
  define Q where "Q = dropWhile (\<lambda>x. is_lt (c x e)) es"
  have es: "es = A @ Q" and i: "insert_sorted c e es = A @ e # Q"
    by (simp_all add: A_def Q_def insert_sorted_def)
  show "set (insert_sorted c e es) = Set.insert e (set es)" unfolding i by (simp add: es)
  show "distinct (insert_sorted c e es)" if "distinct es" "e \<notin> set es"
    unfolding i using that by (auto simp: es)
qed

lemma delete_sorted_mem:
  assumes "linear_comparator c" and so: "sorted_wrt (\<lambda>a b. is_le (c a b)) es" and "distinct es"
  shows "find_sorted c e es \<longleftrightarrow> e \<in> set es" and "set (delete_sorted c e es) = set es - {e}"
    and "distinct (delete_sorted c e es)"
proof -
  let ?P = "\<lambda>x. is_lt (c x e)"
  define A where "A = takeWhile ?P es"
  define Q where "Q = dropWhile ?P es"
  have es: "es = A @ Q" by (simp add: A_def Q_def)
  note tc = linear_total [OF assms(1)]
  have eA: "e \<notin> set A" using total_comparator.refl [OF tc, of e] by (auto simp: A_def dest!: set_takeWhileD)
  have found: "find_sorted c e es = (case Q of [] \<Rightarrow> False | x # _ \<Rightarrow> c x e = Equal)"
    by (simp add: find_sorted_def Q_def)
  have nlt: "\<not> is_lt (c x e)" if "x \<in> set Q" for x
    using that unfolding Q_def by (rule down_closed_dropWhile [OF down_closed_lt [OF tc] so])
  have hdQ: "x = e" if Q: "Q = x # xs" and "e \<in> set xs" for x xs
  proof -
    have "is_le (c x e)" using so that by (simp add: es sorted_wrt_append)
    then have "c x e = Equal" using nlt [of x] Q by (cases "c x e") auto
    then show ?thesis by (rule linear_comparator.eqD [OF assms(1)])
  qed
  have mem: "e \<in> set es \<longleftrightarrow> e \<in> set A \<or> e \<in> set Q" by (simp add: es)
  show f: "find_sorted c e es \<longleftrightarrow> e \<in> set es"
    using eA hdQ linear_comparator.eqD [OF assms(1)] total_comparator.refl [OF tc]
    unfolding found mem by (cases Q) auto
  have d: "delete_sorted c e es = (if e \<in> set es then A @ tl Q else es)"
    by (simp add: delete_sorted_def f A_def Q_def)
  have "Q = e # tl Q" if "e \<in> set es"
  proof -
    have "find_sorted c e es" using f that by simp
    then show ?thesis unfolding found by (cases Q) (auto dest: linear_comparator.eqD [OF assms(1)])
  qed
  note Qe = this
  show "set (delete_sorted c e es) = set es - {e}"
  proof (cases "e \<in> set es")
    case True
    have "e \<notin> set (tl Q)" using assms(3) Qe [OF True] by (metis distinct.simps(2) distinct_append es)
    moreover have "set es = set A \<union> Set.insert e (set (tl Q))" using Qe [OF True] by (metis es list.simps(15) set_append)
    ultimately show ?thesis using True eA by (auto simp: d)
  qed (simp add: d)
  have "distinct (A @ tl Q)" using assms(3) by (cases Q) (auto simp: es)
  then show "distinct (delete_sorted c e es)" using assms(3) by (simp add: d)
qed

lemma holds_new: "linear_comparator ck \<Longrightarrow> linear_comparator cv \<Longrightarrow> holds ck cv (with_comparators ck cv) {}"
  using represents_new [OF linear_total linear_total] unfolding holds_def by (force simp: with_comparators_def)

lemma holds_insert:
  assumes "holds ck cv s E" and "\<lparr> re_key = k, re_value = v \<rparr> \<notin> E"
  shows "\<exists>s'. skiplist_insert s k v = Some s' \<and> holds ck cv s' (Set.insert \<lparr> re_key = k, re_value = v \<rparr> E)"
proof -
  obtain es where es: "compare_key s = ck" "compare_value s = cv" "represents s es" "distinct es" "set es = E"
    using assms(1) by (auto simp: holds_def)
  from represents_insert [OF es(3), of k v] obtain s' where s': "skiplist_insert s k v = Some s'"
      "represents s' (insert_sorted (sl_cmp s) \<lparr> re_key = k, re_value = v \<rparr> es)"
      "compare_key s' = ck" "compare_value s' = cv"
    using es(1,2) by blast
  then show ?thesis
    using es(4,5) assms(2) by (auto simp: holds_def insert_sorted_mem intro!: exI [of _ "insert_sorted (sl_cmp s) _ es"])
qed

lemma holds_delete:
  assumes "linear_comparator ck" and "linear_comparator cv" and "holds ck cv s E"
  shows "\<exists>s'. skiplist_delete s k v = Some (\<lparr> re_key = k, re_value = v \<rparr> \<in> E, s')
     \<and> holds ck cv s' (E - {\<lparr> re_key = k, re_value = v \<rparr>})"
proof -
  obtain es where es: "compare_key s = ck" "compare_value s = cv" "represents s es" "distinct es" "set es = E"
    using assms(3) by (auto simp: holds_def)
  have lin: "linear_comparator (sl_cmp s)"
    unfolding sl_cmp_def es(1,2) using assms(1,2) by (rule linear_comparator_entry)
  have so: "sorted_wrt (\<lambda>a b. is_le (sl_cmp s a b)) es" using es(3) by (simp add: represents_def sl_cmp_def)
  from represents_delete [OF es(3) refl, of k v] obtain s' where
    s': "skiplist_delete s k v = Some (find_sorted (sl_cmp s) \<lparr> re_key = k, re_value = v \<rparr> es, s')"
      "represents s' (delete_sorted (sl_cmp s) \<lparr> re_key = k, re_value = v \<rparr> es)"
      "compare_key s' = ck" "compare_value s' = cv"
    using es(1,2) by blast
  then show ?thesis
    using es(5) by (auto simp: holds_def delete_sorted_mem [OF lin so es(4)]
      intro!: exI [of _ "delete_sorted (sl_cmp s) _ es"])
qed

lemma holds_range:
  assumes "holds ck cv s E"
  shows "\<exists>es. set es = E \<and> distinct es \<and> sorted_wrt (\<lambda>a b. is_le (entry_cmp ck cv a b)) es
     \<and> (\<forall>opts. skiplist_range s opts = Some (range_spec ck opts es))"
  using assms represents_range unfolding holds_def represents_def by metis

interpretation sl: ordered_entries "holds cmp cmp" "with_comparators cmp cmp" skiplist_insert skiplist_delete
  skiplist_range "cmp :: 'k::linorder comparator" "cmp :: 'v::linorder comparator"
  by unfold_locales
     (auto intro: holds_new holds_insert holds_delete holds_range linear_cmp.linear_comparator_axioms)

lemma holds_empty: "holds ck cv s E \<Longrightarrow> is_empty s \<longleftrightarrow> E = {}"
proof -
  assume "holds ck cv s E"
  then obtain es chain where "shape s chain" "map (entry s) chain = map Some es" "set es = E"
    by (auto simp: holds_def represents_def)
  moreover from this have "len s = length chain" "length chain = length es"
    using shapeD(9) map_eq_imp_length_eq by blast+
  ultimately show ?thesis by (auto simp: is_empty_def)
qed

end
