(* ===== verification/Store.thy ===== *)
theory Store
  imports OrderedEntries "HOL-Library.Product_Lexorder" "HOL-Library.Sublist"
begin

text \<open>
  The in-memory store of \<open>store.rs\<close>: records by key, the ordered key list, the expiration heap,
  and the running totals. Association lists stand for \<open>HashMap\<close>, whose iteration order is not
  specified; nothing below depends on it. The heap of \<open>Reverse\<close> tuples is the sorted list of its
  elements. The clock is a parameter: \<open>now\<close> for one reading, \<open>clock i\<close> for the reading before
  the \<open>i\<close>-th key of a loop. The length of the serialized metadata is the parameter \<open>json_len\<close>
  (the \<open>serde_json\<close> crate). Operations that touch the key list are in the option monad of
  \<open>SkipList\<close>: \<open>None\<close> is a panic there.
\<close>

section \<open>Definitions\<close>

definition DISK_REF_BYTES :: nat where "DISK_REF_BYTES = 64"

datatype value_file = Snapshot | Wal

record value_loc =
  loc_file :: value_file
  loc_offset :: nat
  loc_len :: nat

datatype value_ref = Memory bytes | Disk value_loc

type_synonym datetimes = "(str, i64) imap"

record store_record =
  sr_value_ref :: value_ref
  sr_expire_at :: i64
  sr_sequence :: u64
  sr_datetimes :: "datetimes option"

record store_entry =
  se_key :: bytes
  se_value :: bytes
  se_expire_at :: i64
  se_datetimes :: "datetimes option"

datatype store_error = MissingValueReader | ReadError str

record store =
  st_records :: "(bytes, store_record) imap"
  st_order :: "(bytes, bytes) skiplist"
  st_expirations :: "(i64 \<times> u64 \<times> bytes) list"
  st_expired :: "(bytes \<times> store_record) list"
  st_sequence :: u64
  st_bytes :: nat
  st_expiring :: nat
  st_read_value :: "(value_loc \<Rightarrow> store_error + bytes) option"

definition store_new :: "(value_loc \<Rightarrow> store_error + bytes) option \<Rightarrow> store" where
  "store_new reader = \<lparr> st_records = [], st_order = with_comparators cmp cmp, st_expirations = [],
     st_expired = [], st_sequence = 0, st_bytes = 0, st_expiring = 0, st_read_value = reader \<rparr>"

definition is_live :: "i64 \<Rightarrow> store_record \<Rightarrow> bool" where
  "is_live now r \<longleftrightarrow> sr_expire_at r = 0 \<or> sr_expire_at r > now"

definition store_len :: "store \<Rightarrow> i64 \<Rightarrow> nat" where
  "store_len st now =
     (if st_expiring st = 0 then length (st_records st)
      else length (filter (\<lambda>(_, r). is_live now r) (st_records st)))"

definition store_is_empty :: "store \<Rightarrow> i64 \<Rightarrow> bool" where
  "store_is_empty st now \<longleftrightarrow> store_len st now = 0"

definition metadata_bytes :: "(datetimes \<Rightarrow> nat) \<Rightarrow> datetimes option \<Rightarrow> nat" where
  "metadata_bytes json_len dts = (case dts of None \<Rightarrow> 0 | Some d \<Rightarrow> json_len d)"

fun value_ref_bytes :: "value_ref \<Rightarrow> nat" where
  "value_ref_bytes (Memory v) = length v"
| "value_ref_bytes (Disk _) = DISK_REF_BYTES"

definition record_size :: "(datetimes \<Rightarrow> nat) \<Rightarrow> bytes \<Rightarrow> store_record \<Rightarrow> nat" where
  "record_size json_len key r =
     length key + value_ref_bytes (sr_value_ref r) + metadata_bytes json_len (sr_datetimes r)"

definition record_bytes :: "(datetimes \<Rightarrow> nat) \<Rightarrow> store \<Rightarrow> bytes \<Rightarrow> nat" where
  "record_bytes json_len st key =
     (case imap_get (st_records st) key of None \<Rightarrow> 0 | Some r \<Rightarrow> record_size json_len key r)"

definition estimate_set_bytes ::
  "(datetimes \<Rightarrow> nat) \<Rightarrow> bytes \<Rightarrow> bytes \<Rightarrow> datetimes option \<Rightarrow> bool \<Rightarrow> nat" where
  "estimate_set_bytes json_len key val dts count_value =
     length key + (if count_value then length val else DISK_REF_BYTES) + metadata_bytes json_len dts"

definition rebuild_expirations :: "store \<Rightarrow> store" where
  "rebuild_expirations st = st\<lparr> st_expirations :=
     foldr (\<lambda>(k, r) heap. if sr_expire_at r \<noteq> 0
              then insort (sr_expire_at r, sr_sequence r, k) heap else heap)
       (st_records st) [] \<rparr>"

definition set_ref ::
  "(datetimes \<Rightarrow> nat) \<Rightarrow> store \<Rightarrow> bytes \<Rightarrow> value_ref \<Rightarrow> i64 \<Rightarrow> datetimes option \<Rightarrow> store option" where
  "set_ref json_len st key vref expire dts = do {
     let previous = imap_get (st_records st) key;
     let st = st\<lparr> st_records := imap_remove key (st_records st) \<rparr>;
     let st = (case previous of
                 None \<Rightarrow> st
               | Some p \<Rightarrow> st\<lparr> st_bytes := st_bytes st - record_size json_len key p,
                               st_expiring := (if sr_expire_at p \<noteq> 0 then st_expiring st - 1
                                               else st_expiring st) \<rparr>);
     let st = st\<lparr> st_sequence := st_sequence st + 1 \<rparr>;
     let r = \<lparr> sr_value_ref = vref, sr_expire_at = expire, sr_sequence = st_sequence st,
               sr_datetimes = dts \<rparr>;
     let st = st\<lparr> st_bytes := st_bytes st + record_size json_len key r \<rparr>;
     order \<leftarrow> (if previous = None then skiplist_insert (st_order st) key key else Some (st_order st));
     let st = st\<lparr> st_order := order \<rparr>;
     let st = (if expire \<noteq> 0 then
                 (let st = st\<lparr> st_expiring := st_expiring st + 1,
                              st_expirations := insort (expire, st_sequence st, key) (st_expirations st) \<rparr>
                  in if length (st_expirations st) > length (st_records st) * 2 + 64
                     then rebuild_expirations st else st)
               else st);
     Some (st\<lparr> st_records := imap_insert key r (st_records st) \<rparr>) }"

definition store_set ::
  "(datetimes \<Rightarrow> nat) \<Rightarrow> store \<Rightarrow> bytes \<Rightarrow> bytes \<Rightarrow> i64 \<Rightarrow> datetimes option \<Rightarrow> store option" where
  "store_set json_len st key val expire dts = set_ref json_len st key (Memory val) expire dts"

definition store_remove ::
  "(datetimes \<Rightarrow> nat) \<Rightarrow> store \<Rightarrow> bytes \<Rightarrow> bool \<Rightarrow> (store_record option \<times> store) option" where
  "store_remove json_len st key expired =
     (case imap_get (st_records st) key of
        None \<Rightarrow> Some (None, st)
      | Some r \<Rightarrow> do {
          let st = st\<lparr> st_records := imap_remove key (st_records st),
                      st_bytes := st_bytes st - record_size json_len key r,
                      st_expiring := (if sr_expire_at r \<noteq> 0 then st_expiring st - 1
                                      else st_expiring st) \<rparr>;
          (_, order) \<leftarrow> skiplist_delete (st_order st) key key;
          let st = st\<lparr> st_order := order \<rparr>;
          let st = (if expired then st\<lparr> st_expired := st_expired st @ [(key, r)] \<rparr> else st);
          Some (Some r, st) })"

definition is_due :: "i64 \<Rightarrow> store_record \<Rightarrow> bool" where
  "is_due now r \<longleftrightarrow> sr_expire_at r \<noteq> 0 \<and> sr_expire_at r \<le> now"

definition expire_if_needed ::
  "(datetimes \<Rightarrow> nat) \<Rightarrow> store \<Rightarrow> bytes \<Rightarrow> i64 \<Rightarrow> (bool \<times> store) option" where
  "expire_if_needed json_len st key now =
     (case imap_get (st_records st) key of
        Some r \<Rightarrow> if is_due now r
                  then do { (_, st) \<leftarrow> store_remove json_len st key True; Some (True, st) }
                  else Some (False, st)
      | None \<Rightarrow> Some (False, st))"

definition materialize :: "store \<Rightarrow> value_ref \<Rightarrow> store_error + bytes" where
  "materialize st vref =
     (case vref of
        Memory v \<Rightarrow> Inr v
      | Disk loc \<Rightarrow> (case st_read_value st of
                       None \<Rightarrow> Inl MissingValueReader
                     | Some reader \<Rightarrow> reader loc))"

definition store_get ::
  "(datetimes \<Rightarrow> nat) \<Rightarrow> store \<Rightarrow> bytes \<Rightarrow> i64 \<Rightarrow> ((store_error + bytes option) \<times> store) option" where
  "store_get json_len st key now = do {
     (gone, st) \<leftarrow> expire_if_needed json_len st key now;
     if gone then Some (Inr None, st)
     else Some (case imap_get (st_records st) key of
                  None \<Rightarrow> Inr None
                | Some r \<Rightarrow> (case materialize st (sr_value_ref r) of
                               Inl e \<Rightarrow> Inl e | Inr v \<Rightarrow> Inr (Some v)), st) }"

definition get_record ::
  "(datetimes \<Rightarrow> nat) \<Rightarrow> store \<Rightarrow> bytes \<Rightarrow> i64 \<Rightarrow> (store_record option \<times> store) option" where
  "get_record json_len st key now = do {
     (gone, st) \<leftarrow> expire_if_needed json_len st key now;
     Some (if gone then None else imap_get (st_records st) key, st) }"

definition store_del :: "(datetimes \<Rightarrow> nat) \<Rightarrow> store \<Rightarrow> bytes \<Rightarrow> (bool \<times> store) option" where
  "store_del json_len st key = do {
     (r, st) \<leftarrow> store_remove json_len st key False;
     Some (r \<noteq> None, st) }"

definition store_has :: "(datetimes \<Rightarrow> nat) \<Rightarrow> store \<Rightarrow> bytes \<Rightarrow> i64 \<Rightarrow> (bool \<times> store) option" where
  "store_has json_len st key now = do {
     (gone, st) \<leftarrow> expire_if_needed json_len st key now;
     Some (\<not> gone \<and> imap_get (st_records st) key \<noteq> None, st) }"

definition entry_of :: "bytes \<Rightarrow> store_record \<Rightarrow> bytes \<Rightarrow> store_entry" where
  "entry_of key r val = \<lparr> se_key = key, se_value = val, se_expire_at = sr_expire_at r,
     se_datetimes = sr_datetimes r \<rparr>"

fun collect_entries :: "store \<Rightarrow> (bytes \<times> store_record) list \<Rightarrow> store_error + store_entry list" where
  "collect_entries st [] = Inr []"
| "collect_entries st ((k, r) # rest) =
     (case materialize st (sr_value_ref r) of
        Inl e \<Rightarrow> Inl e
      | Inr v \<Rightarrow> (case collect_entries st rest of
                    Inl e \<Rightarrow> Inl e | Inr es \<Rightarrow> Inr (entry_of k r v # es)))"

definition store_entries :: "store \<Rightarrow> i64 \<Rightarrow> store_error + store_entry list" where
  "store_entries st now = collect_entries st (filter (\<lambda>(_, r). is_live now r) (st_records st))"

fun scan_loop ::
  "(datetimes \<Rightarrow> nat) \<Rightarrow> (nat \<Rightarrow> i64) \<Rightarrow> nat \<Rightarrow> store \<Rightarrow> bytes list \<Rightarrow> store_entry list
   \<Rightarrow> ((store_error + store_entry list) \<times> store) option" where
  "scan_loop json_len clock i st [] output = Some (Inr output, st)"
| "scan_loop json_len clock i st (key # keys) output = do {
     (gone, st) \<leftarrow> expire_if_needed json_len st key (clock i);
     if gone then scan_loop json_len clock (i + 1) st keys output
     else (case imap_get (st_records st) key of
             None \<Rightarrow> scan_loop json_len clock (i + 1) st keys output
           | Some r \<Rightarrow> (case materialize st (sr_value_ref r) of
                          Inl e \<Rightarrow> Some (Inl e, st)
                        | Inr v \<Rightarrow> scan_loop json_len clock (i + 1) st keys
                                     (output @ [entry_of key r v]))) }"

definition store_scan ::
  "(datetimes \<Rightarrow> nat) \<Rightarrow> (nat \<Rightarrow> i64) \<Rightarrow> store \<Rightarrow> bytes range_options
   \<Rightarrow> ((store_error + store_entry list) \<times> store) option" where
  "store_scan json_len clock st options = do {
     entries \<leftarrow> skiplist_range (st_order st) options;
     scan_loop json_len clock 0 st (map re_key entries) [] }"

text \<open>The three bytes of U+FFFF in UTF-8.\<close>

definition upper_mark :: bytes where "upper_mark = [0xEF, 0xBF, 0xBF]"

definition store_prefix ::
  "(datetimes \<Rightarrow> nat) \<Rightarrow> (nat \<Rightarrow> i64) \<Rightarrow> store \<Rightarrow> bytes \<Rightarrow> nat
   \<Rightarrow> ((store_error + store_entry list) \<times> store) option" where
  "store_prefix json_len clock st pre max_entries =
     store_scan json_len clock st (range_options_default\<lparr> opt_gte := Some pre,
       opt_lt := Some (pre @ upper_mark), opt_count := Some max_entries \<rparr>)"

fun raw_keys_loop ::
  "(datetimes \<Rightarrow> nat) \<Rightarrow> (nat \<Rightarrow> i64) \<Rightarrow> nat \<Rightarrow> store \<Rightarrow> bytes list \<Rightarrow> (bytes list \<times> store) option" where
  "raw_keys_loop json_len clock i st [] = Some ([], st)"
| "raw_keys_loop json_len clock i st (key # keys) = do {
     (gone, st) \<leftarrow> expire_if_needed json_len st key (clock i);
     (rest, st) \<leftarrow> raw_keys_loop json_len clock (i + 1) st keys;
     Some (if gone then rest else key # rest, st) }"

definition raw_keys ::
  "(datetimes \<Rightarrow> nat) \<Rightarrow> (nat \<Rightarrow> i64) \<Rightarrow> store \<Rightarrow> bytes range_options \<Rightarrow> (bytes list \<times> store) option" where
  "raw_keys json_len clock st options = do {
     entries \<leftarrow> skiplist_range (st_order st) options;
     raw_keys_loop json_len clock 0 st (map re_key entries) }"

definition remap_locations ::
  "(bytes \<Rightarrow> value_loc \<Rightarrow> store_record \<Rightarrow> value_loc option) \<Rightarrow> store \<Rightarrow> store" where
  "remap_locations remap st = st\<lparr> st_records := map (\<lambda>(k, r).
     (k, case sr_value_ref r of
           Memory _ \<Rightarrow> r
         | Disk loc \<Rightarrow> (case remap k loc r of
                          None \<Rightarrow> r | Some loc' \<Rightarrow> r\<lparr> sr_value_ref := Disk loc' \<rparr>)))
     (st_records st) \<rparr>"

text \<open>The loop of \<open>reap_expired\<close>; every round that goes on takes the head of the heap.\<close>

function reap_loop ::
  "(datetimes \<Rightarrow> nat) \<Rightarrow> nat option \<Rightarrow> i64 \<Rightarrow> store \<Rightarrow> (i64 \<times> u64 \<times> bytes) list \<Rightarrow> nat \<Rightarrow> (nat \<times> store) option" where
  "reap_loop json_len max_n now st heap reaped =
     (if is_none_or (\<lambda>m. reaped < m) max_n then
        (case heap of
           [] \<Rightarrow> Some (reaped, st\<lparr> st_expirations := heap \<rparr>)
         | (expires, seqn, key) # rest \<Rightarrow>
             if expires > now then Some (reaped, st\<lparr> st_expirations := heap \<rparr>)
             else
               (let current = (case imap_get (st_records st) key of
                                 None \<Rightarrow> False
                               | Some r \<Rightarrow> sr_sequence r = seqn \<and> is_due now r) in
                if current then do {
                  (r, st) \<leftarrow> store_remove json_len st key True;
                  reap_loop json_len max_n now st rest (if r \<noteq> None then reaped + 1 else reaped) }
                else reap_loop json_len max_n now st rest reaped))
      else Some (reaped, st\<lparr> st_expirations := heap \<rparr>))"
  by pat_completeness auto
termination
  by (relation "measure (\<lambda>(json_len, max_n, now, st, heap, reaped). length heap)") auto

declare reap_loop.simps [simp del]

definition reap_expired ::
  "(datetimes \<Rightarrow> nat) \<Rightarrow> store \<Rightarrow> nat option \<Rightarrow> i64 \<Rightarrow> (nat \<times> store) option" where
  "reap_expired json_len st max_n now = reap_loop json_len max_n now st (st_expirations st) 0"

definition take_expired :: "store \<Rightarrow> (bytes \<times> store_record) list \<times> store" where
  "take_expired st = (st_expired st, st\<lparr> st_expired := [] \<rparr>)"

section \<open>The invariant\<close>

definition imap_sum :: "('k \<Rightarrow> 'v \<Rightarrow> nat) \<Rightarrow> ('k, 'v) imap \<Rightarrow> nat" where
  "imap_sum f m = sum_list (map (\<lambda>(k, v). f k v) m)"

lemma imap_sum_remove:
  "imap_wf m \<Longrightarrow> imap_get m k = Some v \<Longrightarrow> imap_sum f m = f k v + imap_sum f (imap_remove k m)"
proof (induction m)
  case (Cons a m)
  then show ?case
    by (cases a) (auto simp: imap_sum_def delete_id split: if_splits)
qed simp

lemma imap_sum_one: "imap_sum (\<lambda>_ _. Suc 0) m = length m"
  by (induction m) (auto simp: imap_sum_def)

lemma imap_sum_insert:
  "k \<notin> fst ` set m \<Longrightarrow> imap_sum f (imap_insert k v m) = imap_sum f m + f k v"
  by (simp add: imap_insert_new imap_sum_def)

definition expiring_count :: "bytes \<Rightarrow> store_record \<Rightarrow> nat" where
  "expiring_count k r = (if sr_expire_at r \<noteq> 0 then 1 else 0)"

abbreviation same_entry :: "bytes \<Rightarrow> (bytes, bytes) range_entry" where
  "same_entry k \<equiv> \<lparr> re_key = k, re_value = k \<rparr>"

definition store_inv :: "(datetimes \<Rightarrow> nat) \<Rightarrow> store \<Rightarrow> bool" where
  "store_inv json_len st \<longleftrightarrow> imap_wf (st_records st)
     \<and> holds cmp cmp (st_order st) (same_entry ` fst ` set (st_records st))
     \<and> st_bytes st = imap_sum (record_size json_len) (st_records st)
     \<and> st_expiring st = imap_sum expiring_count (st_records st)
     \<and> sorted (st_expirations st)"

lemma store_inv_new: "store_inv json_len (store_new reader)"
  using sl.new by (simp add: store_inv_def store_new_def imap_sum_def)

lemma sorted_rebuild: "sorted (st_expirations (rebuild_expirations st))"
proof -
  have "sorted (foldr (\<lambda>(k, r) heap. if sr_expire_at r \<noteq> 0
              then insort (sr_expire_at r, sr_sequence r, k) heap else heap) m [])" for m
    by (induction m) (auto simp: sorted_insort split: prod.split)
  then show ?thesis by (simp add: rebuild_expirations_def)
qed

lemma rebuild_simps [simp]:
  "st_records (rebuild_expirations st) = st_records st" "st_order (rebuild_expirations st) = st_order st"
  "st_bytes (rebuild_expirations st) = st_bytes st" "st_expiring (rebuild_expirations st) = st_expiring st"
  "st_expired (rebuild_expirations st) = st_expired st" "st_sequence (rebuild_expirations st) = st_sequence st"
  "st_read_value (rebuild_expirations st) = st_read_value st"
  by (simp_all add: rebuild_expirations_def)

lemma imap_get_keys: "imap_get m k = Some v \<Longrightarrow> k \<in> fst ` set m"
  by (force dest: map_of_SomeD)

lemma set_ref_ok:
  assumes inv: "store_inv json_len st"
  shows "\<exists>st'. set_ref json_len st key vref expire dts = Some st' \<and> store_inv json_len st'
     \<and> imap_get (st_records st') = (imap_get (st_records st))(key \<mapsto>
           \<lparr> sr_value_ref = vref, sr_expire_at = expire, sr_sequence = st_sequence st + 1, sr_datetimes = dts \<rparr>)
     \<and> st_expired st' = st_expired st \<and> st_read_value st' = st_read_value st
     \<and> st_sequence st' = st_sequence st + 1"
proof -
  have wf: "imap_wf (st_records st)" and ord: "holds cmp cmp (st_order st) (same_entry ` fst ` set (st_records st))"
    and so: "sorted (st_expirations st)"
    using inv by (auto simp: store_inv_def)
  let ?m = "imap_remove key (st_records st)"
  let ?r = "\<lparr> sr_value_ref = vref, sr_expire_at = expire, sr_sequence = st_sequence st + 1, sr_datetimes = dts \<rparr>"
  have new: "key \<notin> fst ` set ?m" by (simp add: imap_simps)
  have keys: "same_entry ` fst ` set (imap_insert key ?r ?m) = Set.insert (same_entry key) (same_entry ` fst ` set (st_records st))"
    by (auto simp: imap_simps)
  have get: "imap_get (imap_insert key ?r ?m) = (imap_get (st_records st))(key \<mapsto> ?r)"
    by (simp add: imap_simps)
  have wf': "imap_wf (imap_insert key ?r ?m)" using wf by (simp add: imap_simps)
  note sums = imap_sum_insert [OF new, of "record_size json_len" ?r] imap_sum_insert [OF new, of expiring_count ?r]
  show ?thesis
  proof (cases "imap_get (st_records st) key")
    case None
    then have nk: "key \<notin> fst ` set (st_records st)" by (simp add: map_of_eq_None_iff)
    then have "same_entry key \<notin> same_entry ` fst ` set (st_records st)" by auto
    then obtain ord' where o': "skiplist_insert (st_order st) key key = Some ord'"
        "holds cmp cmp ord' (Set.insert (same_entry key) (same_entry ` fst ` set (st_records st)))"
      using sl.ins [OF ord] by blast
    have "?m = st_records st" using nk by (simp add: delete_id)
    then show ?thesis
      using None o' inv wf' get keys sums so
      by (auto simp: set_ref_def Let_def store_inv_def expiring_count_def sorted_insort sorted_rebuild)
  next
    case (Some p)
    then have "key \<in> fst ` set (st_records st)" by (rule imap_get_keys)
    then have "Set.insert (same_entry key) (same_entry ` fst ` set (st_records st)) = same_entry ` fst ` set (st_records st)"
      by auto
    then show ?thesis
      using Some ord inv wf' get keys sums so imap_sum_remove [OF wf Some, of "record_size json_len"]
        imap_sum_remove [OF wf Some, of expiring_count]
      by (auto simp: set_ref_def Let_def store_inv_def expiring_count_def sorted_insort sorted_rebuild)
  qed
qed

lemma store_remove_ok:
  assumes inv: "store_inv json_len st" and r: "imap_get (st_records st) key = Some r"
  shows "\<exists>st'. store_remove json_len st key flag = Some (Some r, st') \<and> store_inv json_len st'
     \<and> st_records st' = imap_remove key (st_records st) \<and> st_read_value st' = st_read_value st
     \<and> st_expirations st' = st_expirations st
     \<and> st_expired st' = (if flag then st_expired st @ [(key, r)] else st_expired st)"
proof -
  have wf: "imap_wf (st_records st)" and ord: "holds cmp cmp (st_order st) (same_entry ` fst ` set (st_records st))"
    using inv by (auto simp: store_inv_def)
  obtain b ord' where o': "skiplist_delete (st_order st) key key = Some (b, ord')"
      "holds cmp cmp ord' (same_entry ` fst ` set (st_records st) - {same_entry key})"
    using sl.del [OF ord] by blast
  have "same_entry ` fst ` set (st_records st) - {same_entry key} = same_entry ` fst ` set (imap_remove key (st_records st))"
    by (auto simp: imap_simps)
  with o' show ?thesis
    using inv r imap_sum_remove [OF wf r, of "record_size json_len"] imap_sum_remove [OF wf r, of expiring_count]
    by (auto simp: store_remove_def Let_def store_inv_def expiring_count_def imap_simps)
qed

lemma expire_if_needed_ok:
  assumes inv: "store_inv json_len st"
    and gone_def: "gone = (\<exists>r. imap_get (st_records st) key = Some r \<and> is_due now r)"
  shows "\<exists>st'. expire_if_needed json_len st key now = Some (gone, st') \<and> store_inv json_len st'
     \<and> st_records st' = (if gone then imap_remove key (st_records st) else st_records st)
     \<and> st_read_value st' = st_read_value st"
proof (cases gone)
  case True
  then obtain r where r: "imap_get (st_records st) key = Some r" "is_due now r" by (auto simp: gone_def)
  from store_remove_ok [OF inv r(1), of True] r True show ?thesis
    by (auto simp: expire_if_needed_def)
next
  case False
  then show ?thesis
    using inv by (cases "imap_get (st_records st) key") (auto simp: gone_def expire_if_needed_def)
qed

lemma is_live_due: "is_live now r \<longleftrightarrow> \<not> is_due now r"
  by (auto simp: is_live_def is_due_def)

text \<open>What a client sees at time \<open>now\<close>.\<close>

definition live :: "store \<Rightarrow> i64 \<Rightarrow> bytes \<Rightarrow> store_record option" where
  "live st now key = (case imap_get (st_records st) key of
     Some r \<Rightarrow> if is_live now r then Some r else None | None \<Rightarrow> None)"

lemma live_expire:
  assumes "expire_if_needed json_len st key now = Some (gone, st')" and "store_inv json_len st"
  shows "store_inv json_len st'" and "live st' now = live st now" and "st_read_value st' = st_read_value st"
    and "gone \<longleftrightarrow> live st now key = None \<and> imap_get (st_records st) key \<noteq> None"
    and "\<not> gone \<Longrightarrow> imap_get (st_records st') key = live st now key"
  using assms expire_if_needed_ok [OF assms(2) refl, of key now]
  by (auto simp: live_def is_live_due imap_simps fun_eq_iff split: option.splits if_splits)

section \<open>Reachable states\<close>

inductive store_reachable :: "(datetimes \<Rightarrow> nat) \<Rightarrow> store \<Rightarrow> bool" for json_len where
  new: "store_reachable json_len (store_new reader)"
| set: "store_reachable json_len st \<Longrightarrow> set_ref json_len st key vref expire dts = Some st' \<Longrightarrow>
    store_reachable json_len st'"
| del: "store_reachable json_len st \<Longrightarrow> store_del json_len st key = Some (b, st') \<Longrightarrow>
    store_reachable json_len st'"
| get: "store_reachable json_len st \<Longrightarrow> store_get json_len st key now = Some (res, st') \<Longrightarrow>
    store_reachable json_len st'"
| get_rec: "store_reachable json_len st \<Longrightarrow> get_record json_len st key now = Some (r, st') \<Longrightarrow>
    store_reachable json_len st'"
| has: "store_reachable json_len st \<Longrightarrow> store_has json_len st key now = Some (b, st') \<Longrightarrow>
    store_reachable json_len st'"
| scan: "store_reachable json_len st \<Longrightarrow> store_scan json_len clock st opts = Some (out, st') \<Longrightarrow>
    store_reachable json_len st'"
| keys: "store_reachable json_len st \<Longrightarrow> raw_keys json_len clock st opts = Some (ks, st') \<Longrightarrow>
    store_reachable json_len st'"
| reap: "store_reachable json_len st \<Longrightarrow> reap_expired json_len st max_n now = Some (n, st') \<Longrightarrow>
    store_reachable json_len st'"
| remap: "store_reachable json_len st \<Longrightarrow> store_reachable json_len (remap_locations f st)"
| take: "store_reachable json_len st \<Longrightarrow> take_expired st = (ex, st') \<Longrightarrow> store_reachable json_len st'"

lemma remap_inv: "store_inv json_len st \<Longrightarrow> store_inv json_len (remap_locations f st)"
proof -
  assume inv: "store_inv json_len st"
  let ?g = "\<lambda>(k, r). (k, case sr_value_ref r of Memory _ \<Rightarrow> r
         | Disk loc \<Rightarrow> (case f k loc r of None \<Rightarrow> r | Some loc' \<Rightarrow> r\<lparr> sr_value_ref := Disk loc' \<rparr>))"
  have wf: "map fst (map ?g m) = map fst m" for m by (induction m) auto
  moreover have "fst ` set (map ?g m) = fst ` set m" for m by (metis list.set_map wf)
  moreover have "imap_sum (record_size json_len) (map ?g m) = imap_sum (record_size json_len) m" for m
    by (induction m) (auto simp: imap_sum_def record_size_def split: value_ref.split option.split)
  moreover have "imap_sum expiring_count (map ?g m) = imap_sum expiring_count m" for m
    by (induction m) (auto simp: imap_sum_def expiring_count_def split: value_ref.split option.split)
  ultimately show ?thesis
    using inv unfolding store_inv_def remap_locations_def by (simp del: map_map list.set_map)
qed

lemma take_inv: "store_inv json_len st \<Longrightarrow> store_inv json_len (st\<lparr> st_expired := [] \<rparr>)"
  by (simp add: store_inv_def)

lemma scan_loop_inv:
  "store_inv json_len st \<Longrightarrow> \<exists>out st'. scan_loop json_len clock i st keys es = Some (out, st') \<and> store_inv json_len st'"
proof (induction keys arbitrary: i st es)
  case (Cons key keys)
  from expire_if_needed_ok [OF Cons.prems refl, of key "clock i"] obtain gone st1 where
    "expire_if_needed json_len st key (clock i) = Some (gone, st1)" "store_inv json_len st1" by blast
  then show ?case using Cons.IH by (auto split: option.split sum.split)
qed simp

lemma raw_keys_loop_inv:
  "store_inv json_len st \<Longrightarrow> \<exists>ks st'. raw_keys_loop json_len clock i st keys = Some (ks, st') \<and> store_inv json_len st'"
proof (induction keys arbitrary: i st)
  case (Cons key keys)
  from expire_if_needed_ok [OF Cons.prems refl, of key "clock i"] obtain gone st1 where
    e: "expire_if_needed json_len st key (clock i) = Some (gone, st1)" "store_inv json_len st1" by blast
  with Cons.IH [OF e(2), of "i + 1"] show ?case by auto
qed simp

lemma reap_loop_inv:
  "store_inv json_len st \<Longrightarrow> sorted heap \<Longrightarrow>
   \<exists>n st'. reap_loop json_len max_n now st heap reaped = Some (n, st') \<and> store_inv json_len st'"
proof (induction heap arbitrary: st reaped)
  case Nil
  then show ?case by (simp add: reap_loop.simps [of _ _ _ _ "[]"] store_inv_def)
next
  case (Cons h heap)
  obtain e q k where h: "h = (e, q, k)" by (cases h)
  show ?case
  proof (cases "imap_get (st_records st) k")
    case None
    then show ?thesis using Cons by (auto simp: reap_loop.simps [of _ _ _ _ "(e, q, k) # heap"] h store_inv_def Let_def)
  next
    case (Some r)
    from store_remove_ok [OF Cons.prems(1) Some, of True] obtain st1 where
      s1: "store_remove json_len st k True = Some (Some r, st1)" "store_inv json_len st1" by blast
    have "store_inv json_len (st\<lparr> st_expirations := h # heap \<rparr>)" using Cons.prems by (simp add: store_inv_def)
    then show ?thesis
      using Cons.IH [OF s1(2)] Cons.IH [OF Cons.prems(1)] Cons.prems(2) Some s1(1)
      by (auto simp: reap_loop.simps [of _ _ _ _ "(e, q, k) # heap"] h Let_def)
  qed
qed

lemma order_range: "store_inv json_len st \<Longrightarrow> \<exists>es. skiplist_range (st_order st) opts = Some es"
  using sl.rng by (fastforce simp: store_inv_def)

lemma store_reachable_inv: "store_reachable json_len st \<Longrightarrow> store_inv json_len st"
proof (induction rule: store_reachable.induct)
  case (set st key vref expire dts st')
  with set_ref_ok [OF set.IH, of key vref expire dts] show ?case by auto
next
  case (del st key b st')
  then show ?case
    using store_remove_ok [OF del.IH, of key _ False]
    by (cases "imap_get (st_records st) key") (auto simp: store_del_def store_remove_def [of _ _ _ False] split: bind_splits)
next
  case (get st key now res st')
  with expire_if_needed_ok [OF get.IH refl, of key now] show ?case
    by (auto simp: store_get_def split: if_splits)
next
  case (get_rec st key now r st')
  with expire_if_needed_ok [OF get_rec.IH refl, of key now] show ?case by (auto simp: get_record_def)
next
  case (has st key now b st')
  with expire_if_needed_ok [OF has.IH refl, of key now] show ?case by (auto simp: store_has_def)
next
  case (scan st clock opts out st')
  then obtain ks where "scan_loop json_len clock 0 st ks [] = Some (out, st')"
    by (auto simp: store_scan_def split: bind_splits)
  with scan_loop_inv [OF scan.IH, of clock 0 ks "[]"] show ?case by auto
next
  case (keys st clock opts ks st')
  then obtain xs where "raw_keys_loop json_len clock 0 st xs = Some (ks, st')"
    by (auto simp: raw_keys_def split: bind_splits)
  with raw_keys_loop_inv [OF keys.IH, of clock 0 xs] show ?case by auto
next
  case (reap st max_n now n st')
  have "sorted (st_expirations st)" using reap.IH by (simp add: store_inv_def)
  with reap_loop_inv [OF reap.IH this, of max_n now 0] reap show ?case by (auto simp: reap_expired_def)
qed (auto simp: store_inv_new remap_inv take_inv take_expired_def)

lemma store_del_ok:
  assumes "store_inv json_len st"
  shows "\<exists>st'. store_del json_len st key = Some (imap_get (st_records st) key \<noteq> None, st') \<and> store_inv json_len st'
     \<and> imap_get (st_records st') = (imap_get (st_records st))(key := None)"
proof (cases "imap_get (st_records st) key")
  case None
  then show ?thesis using assms by (auto simp: store_del_def store_remove_def fun_upd_idem)
next
  case (Some r)
  with store_remove_ok [OF assms Some, of False] show ?thesis by (auto simp: store_del_def imap_simps)
qed

lemma scan_returns: "store_inv json_len st \<Longrightarrow> \<exists>out st'. store_scan json_len clock st opts = Some (out, st')"
  using order_range [of json_len st opts] scan_loop_inv [of json_len st clock 0] by (fastforce simp: store_scan_def)

lemma raw_keys_returns: "store_inv json_len st \<Longrightarrow> \<exists>ks st'. raw_keys json_len clock st opts = Some (ks, st')"
  using order_range [of json_len st opts] raw_keys_loop_inv [of json_len st clock 0] by (fastforce simp: raw_keys_def)

lemma reap_returns:
  "store_inv json_len st \<Longrightarrow> \<exists>n st'. reap_expired json_len st max_n now = Some (n, st')"
  using reap_loop_inv [of json_len st "st_expirations st"] by (fastforce simp: reap_expired_def store_inv_def)

text \<open>
  C12. In every state a store can reach, the key list holds exactly the keys of the records, the byte
  total is the sum of the record sizes and the expiring count the number of records with an
  expiration; and no operation panics there.
\<close>

theorem store_reachable_safe:
  assumes "store_reachable json_len st"
  shows "store_inv json_len st \<and> set_ref json_len st key vref expire dts \<noteq> None
     \<and> store_del json_len st key \<noteq> None \<and> store_get json_len st key now \<noteq> None
     \<and> store_scan json_len clock st opts \<noteq> None \<and> raw_keys json_len clock st opts \<noteq> None
     \<and> reap_expired json_len st max_n now \<noteq> None"
proof -
  note inv = store_reachable_inv [OF assms]
  have "set_ref json_len st key vref expire dts \<noteq> None" using set_ref_ok [OF inv] by blast
  moreover have "store_del json_len st key \<noteq> None" using store_del_ok [OF inv] by blast
  moreover have "store_get json_len st key now \<noteq> None"
    using expire_if_needed_ok [OF inv refl, of key now] by (auto simp: store_get_def)
  moreover have "store_scan json_len clock st opts \<noteq> None" using scan_returns [OF inv] by blast
  moreover have "raw_keys json_len clock st opts \<noteq> None" using raw_keys_returns [OF inv] by blast
  moreover have "reap_expired json_len st max_n now \<noteq> None" using reap_returns [OF inv] by blast
  ultimately show ?thesis using inv by blast
qed

theorem store_reachable_safe_witness:
  "\<exists>st. set_ref length (store_new None) [1] (Memory [2, 3]) 7 None = Some st
     \<and> store_inv length st \<and> st_bytes st = 3 \<and> st_expiring st = 1 \<and> store_scan length (\<lambda>_. 9) st range_options_default \<noteq> None"
proof -
  obtain st where st: "set_ref length (store_new None) [1] (Memory [2, 3]) 7 None = Some st"
      "imap_get (st_records st) = [[1] \<mapsto> \<lparr> sr_value_ref = Memory [2, 3], sr_expire_at = 7, sr_sequence = 1, sr_datetimes = None \<rparr>]"
    using set_ref_ok [OF store_inv_new [of length None], of "[1]" "Memory [2, 3]" 7 None] by (auto simp: store_new_def)
  have "store_reachable length st" using store_reachable.set [OF store_reachable.new st(1)] .
  note safe = store_reachable_safe [OF this]
  have "st_bytes st = 3" and "st_expiring st = 1"
    using st(1) by (auto simp: set_ref_def store_new_def Let_def record_size_def metadata_bytes_def split: bind_splits)
  then show ?thesis using st(1) safe by blast
qed

text \<open>
  C4. The store behaves as a map with expiration. At any time \<open>now\<close>: \<open>set_ref\<close> makes the record
  visible unless it is already due, \<open>del\<close> makes the key invisible and reports whether it was stored,
  \<open>get\<close> returns the value of the visible record and changes nothing a client can see, and
  \<open>has\<close> tells whether the key is visible; every other key keeps its record.
\<close>

theorem store_is_map:
  assumes inv: "store_inv json_len st"
  defines "r \<equiv> \<lambda>vref expire dts. \<lparr> sr_value_ref = vref, sr_expire_at = expire,
                                 sr_sequence = st_sequence st + 1, sr_datetimes = dts \<rparr>"
  shows "(\<exists>st'. set_ref json_len st key vref expire dts = Some st'
            \<and> live st' now = (live st now)(key := if is_live now (r vref expire dts) then Some (r vref expire dts) else None))
     \<and> (\<exists>st'. store_del json_len st key = Some (imap_get (st_records st) key \<noteq> None, st')
            \<and> live st' now = (live st now)(key := None))
     \<and> (\<exists>st'. store_get json_len st key now = Some (case live st now key of None \<Rightarrow> Inr None
              | Some q \<Rightarrow> (case materialize st (sr_value_ref q) of Inl e \<Rightarrow> Inl e | Inr v \<Rightarrow> Inr (Some v)), st')
            \<and> live st' now = live st now)
     \<and> (\<exists>st'. store_has json_len st key now = Some (live st now key \<noteq> None, st') \<and> live st' now = live st now)"
proof (intro conjI)
  show "\<exists>st'. set_ref json_len st key vref expire dts = Some st'
            \<and> live st' now = (live st now)(key := if is_live now (r vref expire dts) then Some (r vref expire dts) else None)"
    using set_ref_ok [OF inv, of key vref expire dts] by (auto simp: live_def r_def fun_eq_iff)
  show "\<exists>st'. store_del json_len st key = Some (imap_get (st_records st) key \<noteq> None, st')
            \<and> live st' now = (live st now)(key := None)"
    using store_del_ok [OF inv, of key] by (auto simp: live_def fun_eq_iff)
  obtain gone st' where e: "expire_if_needed json_len st key now = Some (gone, st')"
    using expire_if_needed_ok [OF inv refl] by blast
  note L = live_expire [OF e inv]
  have m: "materialize st' = materialize st" using L(3) by (auto simp: materialize_def fun_eq_iff split: value_ref.split)
  show "\<exists>st'. store_get json_len st key now = Some (case live st now key of None \<Rightarrow> Inr None
              | Some q \<Rightarrow> (case materialize st (sr_value_ref q) of Inl e \<Rightarrow> Inl e | Inr v \<Rightarrow> Inr (Some v)), st')
            \<and> live st' now = live st now"
    using e L(2,4,5) m by (cases gone) (auto simp: store_get_def split: option.split)
  show "\<exists>st'. store_has json_len st key now = Some (live st now key \<noteq> None, st') \<and> live st' now = live st now"
    using e L(2,4,5) by (cases gone) (auto simp: store_has_def)
qed

theorem store_is_map_witness:
  "store_inv length (store_new None) \<and> (\<exists>st'. set_ref length (store_new None) [1] (Memory [2]) 5 None = Some st'
      \<and> live st' 4 [1] = Some \<lparr> sr_value_ref = Memory [2], sr_expire_at = 5, sr_sequence = 1, sr_datetimes = None \<rparr>)
   \<and> (\<exists>st'. store_get length (store_new None) [1] 4 = Some (Inr None, st'))"
proof -
  have new: "live (store_new None) 4 = Map.empty" "st_sequence (store_new None) = 0"
    by (auto simp: live_def store_new_def fun_eq_iff)
  show ?thesis
    using store_is_map [OF store_inv_new [of length None], where key = "[1]" and vref = "Memory [2]"
        and expire = 5 and dts = None and now = 4] store_inv_new [of length None]
    by (auto simp: is_live_def new)
qed

section \<open>Scans\<close>

text \<open>All values of the store can be read.\<close>

definition readable :: "store \<Rightarrow> bool" where
  "readable st \<longleftrightarrow> (\<forall>(k, r)\<in>set (st_records st). \<exists>v. materialize st (sr_value_ref r) = Inr v)"

definition value_of :: "store \<Rightarrow> store_record \<Rightarrow> bytes" where
  "value_of st r = (case materialize st (sr_value_ref r) of Inl _ \<Rightarrow> [] | Inr v \<Rightarrow> v)"

definition visible_entry :: "store \<Rightarrow> i64 \<Rightarrow> bytes \<Rightarrow> store_entry list" where
  "visible_entry st now key = (case live st now key of None \<Rightarrow> [] | Some r \<Rightarrow> [entry_of key r (value_of st r)])"

lemma materialize_cong: "st_read_value st' = st_read_value st \<Longrightarrow> materialize st' = materialize st"
  by (auto simp: materialize_def fun_eq_iff split: value_ref.split)

lemma readable_expire:
  assumes "store_inv json_len st" and "readable st"
    and "expire_if_needed json_len st key now = Some (gone, st')"
  shows "readable st'" and "value_of st' = value_of st"
    and "visible_entry st' now = visible_entry st now"
proof -
  from expire_if_needed_ok [OF assms(1) refl, of key now] assms(3)
  have recs: "set (st_records st') \<subseteq> set (st_records st)" and rd: "st_read_value st' = st_read_value st"
    by (auto simp: AList.delete_eq split: if_splits)
  note m = materialize_cong [OF rd]
  show "readable st'" using assms(2) recs by (auto simp: readable_def m)
  show v: "value_of st' = value_of st" by (simp add: value_of_def m fun_eq_iff)
  show "visible_entry st' now = visible_entry st now"
    using live_expire(2) [OF assms(3,1)] by (auto simp: visible_entry_def v fun_eq_iff split: option.split)
qed

lemma scan_loop_live:
  "store_inv json_len st \<Longrightarrow> readable st \<Longrightarrow>
   \<exists>st'. scan_loop json_len (\<lambda>_. now) i st keys es = Some (Inr (es @ concat (map (visible_entry st now) keys)), st')
     \<and> live st' now = live st now \<and> store_inv json_len st'"
proof (induction keys arbitrary: i st es)
  case (Cons key keys)
  obtain gone st1 where e: "expire_if_needed json_len st key now = Some (gone, st1)"
    using expire_if_needed_ok [OF Cons.prems(1) refl] by blast
  note L = live_expire [OF e Cons.prems(1)] and R = readable_expire [OF Cons.prems e]
  note IH = Cons.IH [OF L(1) R(1)]
  show ?case
  proof (cases "live st now key")
    case None
    then have "visible_entry st now key = []" by (simp add: visible_entry_def)
    with None e L R(3) IH [of "Suc i" es] show ?thesis by (cases gone) auto
  next
    case (Some r)
    then have g: "\<not> gone" and r: "imap_get (st_records st1) key = Some r" using L by auto
    then obtain v where v: "materialize st1 (sr_value_ref r) = Inr v"
      using R(1) by (auto simp: readable_def dest!: map_of_SomeD)
    then have "value_of st1 r = v" by (simp add: value_of_def)
    then have "value_of st r = v" using R(2) by simp
    then have "visible_entry st now key = [entry_of key r v]" using Some by (simp add: visible_entry_def)
    with e g r v L(2) R(3) IH [of "Suc i" "es @ [entry_of key r v]"] show ?thesis by auto
  qed
qed simp

lemma order_entries:
  assumes "store_inv json_len st"
  obtains ks where "set ks = fst ` set (st_records st)" and "sorted_wrt (<) ks"
    and "\<And>opts. skiplist_range (st_order st) opts = Some (range_spec cmp opts (map same_entry ks))"
proof -
  have h: "holds cmp cmp (st_order st) (same_entry ` fst ` set (st_records st))"
    using assms by (simp add: store_inv_def)
  obtain es where es: "set es = same_entry ` fst ` set (st_records st)" "distinct es"
      "sorted_wrt (\<lambda>a b. is_le (entry_cmp cmp cmp a b)) es"
      "\<forall>opts. skiplist_range (st_order st) opts = Some (range_spec cmp opts es)"
    using sl.rng [OF h] by auto
  define ks where "ks = map re_key es"
  have e: "es = map same_entry ks" using es(1) by (auto simp: ks_def intro!: map_idI [symmetric])
  have "set ks = fst ` set (st_records st)" using es(1) by (auto simp: ks_def image_image)
  moreover have "sorted_wrt (<) ks"
  proof -
    have "distinct ks" using es(2) unfolding e by (simp add: distinct_map)
    moreover have "sorted_wrt (\<le>) ks"
      using es(3) unfolding e sorted_wrt_map
      by (rule sorted_wrt_mono_rel [rotated]) (auto simp: entry_cmp_def split: ordering.splits)
    ultimately show ?thesis by (simp add: strict_sorted_iff)
  qed
  ultimately show thesis using es(4) e by (intro that) auto
qed

text \<open>The keys a range selects, from the ordered list of all keys.\<close>

definition select_keys :: "bytes range_options \<Rightarrow> bytes list \<Rightarrow> bytes list" where
  "select_keys opts ks = (let sel = filter (in_range cmp opts) ks in
     limit (opt_count opts) (drop (opt_offset opts) (if opt_reverse opts then rev sel else sel)))"

lemma range_spec_keys: "map re_key (range_spec cmp opts (map same_entry ks)) = select_keys opts ks"
proof -
  have "map re_key (map same_entry ks) = ks" for ks by (induction ks) auto
  moreover have "filter (\<lambda>e. in_range cmp opts (re_key e)) (map same_entry ks) = map same_entry (filter (in_range cmp opts) ks)"
    by (simp add: filter_map comp_def)
  ultimately show ?thesis
    by (cases "opt_count opts")
       (simp_all add: range_spec_def select_keys_def limit_def Let_def rev_map drop_map take_map comp_def)
qed

lemma store_scan_selects:
  assumes "store_inv json_len st" and "readable st"
  obtains ks st' where "sorted_wrt (<) ks" and "set ks = fst ` set (st_records st)"
    and "store_scan json_len (\<lambda>_. now) st opts = Some (Inr (concat (map (visible_entry st now) (select_keys opts ks))), st')"
    and "live st' now = live st now"
proof -
  obtain ks where ks: "set ks = fst ` set (st_records st)" "sorted_wrt (<) ks"
      "\<And>opts. skiplist_range (st_order st) opts = Some (range_spec cmp opts (map same_entry ks))"
    using order_entries [OF assms(1)] by blast
  obtain st' where "scan_loop json_len (\<lambda>_. now) 0 st (select_keys opts ks) [] =
      Some (Inr ([] @ concat (map (visible_entry st now) (select_keys opts ks))), st')" "live st' now = live st now"
    using scan_loop_live [OF assms, of now 0 "select_keys opts ks" "[]"] by blast
  with ks show thesis by (intro that [of ks st']) (auto simp: store_scan_def range_spec_keys)
qed

text \<open>
  \<open>scan\<close> returns, in key order or reversed, the visible entries among the keys its options
  select from the ordered list of all stored keys, and expiring keys on the way changes nothing
  visible. The offset and the count apply before expired keys are dropped, so a scan with a count
  may return fewer entries than there are visible ones.
\<close>

lemma store_scan_ok:
  assumes "store_inv json_len st" and "readable st"
  shows "\<exists>ks st'. sorted_wrt (<) ks \<and> set ks = fst ` set (st_records st)
     \<and> store_scan json_len (\<lambda>_. now) st opts = Some (Inr (concat (map (visible_entry st now) (select_keys opts ks))), st')
     \<and> live st' now = live st now"
  using store_scan_selects [OF assms] by metis

lemma append_less: "(p @ t :: bytes) < p @ u \<longleftrightarrow> t < u"
  by (induction p) auto

lemma between_prefix: "(p :: bytes) \<le> k \<Longrightarrow> k < p @ u \<Longrightarrow> prefix p k"
proof (induction p arbitrary: k)
  case (Cons a p)
  then obtain b k' where "k = b # k'" by (cases k) auto
  with Cons show ?case by auto
qed simp

lemma prefix_le: "prefix (p :: bytes) k \<Longrightarrow> p \<le> k"
proof (induction p arbitrary: k)
  case (Cons a p)
  then show ?case by (cases k) auto
qed simp

lemma visible_keys: "se_key ` set (visible_entry st now k) = (if live st now k = None then {} else {k})"
  by (auto simp: visible_entry_def entry_of_def)

text \<open>
  \<open>prefix\<close> returns only entries whose key starts with the prefix. With a limit that covers all
  records it returns a visible key with the prefix exactly when the rest of the key is below the
  bytes \<open>EF BF BF\<close>: a key that continues with a four-byte UTF-8 character is left out.
\<close>

lemma store_prefix_ok:
  assumes "store_inv json_len st" and "readable st" and "length (st_records st) \<le> n"
  shows "\<exists>es st'. store_prefix json_len (\<lambda>_. now) st p n = Some (Inr es, st')
     \<and> (\<forall>e\<in>set es. prefix p (se_key e))
     \<and> (\<forall>k. live st now k \<noteq> None \<and> prefix p k \<longrightarrow> (k \<in> se_key ` set es \<longleftrightarrow> drop (length p) k < upper_mark))"
proof -
  let ?o = "range_options_default\<lparr> opt_gte := Some p, opt_lt := Some (p @ upper_mark), opt_count := Some n \<rparr>"
  obtain ks st' where ks: "sorted_wrt (<) ks" "set ks = fst ` set (st_records st)"
      "store_scan json_len (\<lambda>_. now) st ?o = Some (Inr (concat (map (visible_entry st now) (select_keys ?o ks))), st')"
    using store_scan_selects [OF assms(1,2)] by metis
  have "length ks = length (st_records st)"
  proof -
    have "distinct ks" using ks(1) by (simp add: strict_sorted_iff)
    then have "length ks = card (fst ` set (st_records st))" using ks(2) distinct_card by metis
    also have "\<dots> = length (map fst (st_records st))"
      using assms(1) distinct_card [of "map fst (st_records st)"] by (simp add: store_inv_def)
    finally show ?thesis by simp
  qed
  moreover have "in_range cmp ?o = (\<lambda>k. p \<le> k \<and> k < p @ upper_mark)"
    by (auto simp: fun_eq_iff range_options_default_def in_range_def in_bounds_def is_none_or_def)
  moreover have "opt_offset ?o = 0" "opt_count ?o = Some n" "\<not> opt_reverse ?o"
    by (simp_all add: range_options_default_def)
  ultimately have sel: "select_keys ?o ks = filter (\<lambda>k. p \<le> k \<and> k < p @ upper_mark) ks"
    using assms(3) by (simp add: select_keys_def limit_def le_trans [OF length_filter_le])
  let ?es = "concat (map (visible_entry st now) (select_keys ?o ks))"
  have mem: "k \<in> se_key ` set ?es \<longleftrightarrow> live st now k \<noteq> None \<and> p \<le> k \<and> k < p @ upper_mark" for k
  proof -
    have "live st now k \<noteq> None \<Longrightarrow> k \<in> set ks"
      unfolding ks(2) by (auto simp: live_def dest!: imap_get_keys split: option.splits)
    moreover have "se_key ` set ?es = (\<Union>x\<in>set (select_keys ?o ks). se_key ` set (visible_entry st now x))" by auto
    ultimately show ?thesis by (auto simp: sel visible_keys)
  qed
  have "prefix p (se_key e)" if "e \<in> set ?es" for e
    using mem [of "se_key e"] that between_prefix by blast
  moreover have "k \<in> se_key ` set ?es \<longleftrightarrow> drop (length p) k < upper_mark" if l: "live st now k \<noteq> None" and pre: "prefix p k" for k
  proof -
    obtain t where k: "k = p @ t" using pre by (auto simp: prefix_def)
    show ?thesis unfolding mem using l prefix_le [OF pre] by (simp add: k append_less)
  qed
  ultimately show ?thesis
    using ks(3) by (auto simp: store_prefix_def)
qed

section \<open>Reaping\<close>

definition has_due_entry :: "(i64 \<times> u64 \<times> bytes) list \<Rightarrow> i64 \<Rightarrow> bytes \<Rightarrow> store_record \<Rightarrow> bool" where
  "has_due_entry heap now key r \<longleftrightarrow> (\<exists>e\<le>now. (e, sr_sequence r, key) \<in> set heap)"

lemma reap_loop_exact:
  "store_inv json_len st \<Longrightarrow> sorted heap \<Longrightarrow>
   \<exists>n st'. reap_loop json_len None now st heap reaped = Some (n, st') \<and> store_inv json_len st'
     \<and> (\<forall>k. imap_get (st_records st') k = (case imap_get (st_records st) k of None \<Rightarrow> None
          | Some r \<Rightarrow> if is_due now r \<and> has_due_entry heap now k r then None else Some r))
     \<and> n + length (st_records st') = reaped + length (st_records st)
     \<and> length (st_expired st') + reaped = length (st_expired st) + n"
proof (induction heap arbitrary: st reaped)
  case Nil
  then show ?case
    by (auto simp: reap_loop.simps [of _ _ _ _ "[]"] is_none_or_def has_due_entry_def store_inv_def split: option.split)
next
  case (Cons h heap)
  obtain e q k where h: "h = (e, q, k)" by (cases h)
  note step = reap_loop.simps [of json_len None now st "(e, q, k) # heap" reaped]
  show ?case
  proof (cases "e > now")
    case True
    have "now < fst x" if x: "x \<in> set (h # heap)" for x
    proof -
      have "h \<le> x" using Cons.prems(2) x by auto
      then show ?thesis using True by (auto simp: h less_eq_prod_def)
    qed
    then have "\<not> has_due_entry (h # heap) now k' r" for k' r
      unfolding has_due_entry_def by (metis fst_conv not_less)
    moreover have "store_inv json_len (st\<lparr> st_expirations := h # heap \<rparr>)"
      using Cons.prems by (simp add: store_inv_def)
    ultimately show ?thesis
      using True by (auto simp: step h is_none_or_def split: option.split)
  next
    case False
    let ?current = "case imap_get (st_records st) k of None \<Rightarrow> False | Some r \<Rightarrow> sr_sequence r = q \<and> is_due now r"
    have due: "has_due_entry (h # heap) now k' r \<longleftrightarrow> has_due_entry heap now k' r \<or> (k' = k \<and> sr_sequence r = q)" for k' r
      using False by (auto simp: has_due_entry_def h not_less)
    have so: "sorted heap" using Cons.prems(2) by simp
    show ?thesis
    proof (cases ?current)
      case cur: True
      then obtain r where r: "imap_get (st_records st) k = Some r" "sr_sequence r = q" "is_due now r"
        by (auto split: option.splits)
      obtain st1 where s1: "store_remove json_len st k True = Some (Some r, st1)" "store_inv json_len st1"
          "st_records st1 = imap_remove k (st_records st)" "st_expired st1 = st_expired st @ [(k, r)]"
        using store_remove_ok [OF Cons.prems(1) r(1), of True] by auto
      have wf: "imap_wf (st_records st)" using Cons.prems(1) by (simp add: store_inv_def)
      have "Suc (length (st_records st1)) = length (st_records st)"
        using imap_sum_remove [OF wf r(1), of "\<lambda>_ _. 1"] by (simp add: s1(3) imap_sum_one)
      moreover obtain n st' where IH: "reap_loop json_len None now st1 heap (reaped + 1) = Some (n, st')"
          "store_inv json_len st'"
          "\<forall>k'. imap_get (st_records st') k' = (case imap_get (st_records st1) k' of None \<Rightarrow> None
              | Some r \<Rightarrow> if is_due now r \<and> has_due_entry heap now k' r then None else Some r)"
          "n + length (st_records st') = reaped + 1 + length (st_records st1)"
          "length (st_expired st') + (reaped + 1) = length (st_expired st1) + n"
        using Cons.IH [OF s1(2) so, of "reaped + 1"] by blast
      moreover have "reap_loop json_len None now st (h # heap) reaped = Some (n, st')"
        using IH(1) r s1(1) False by (simp add: step h is_none_or_def)
      moreover have "imap_get (st_records st') k' = (case imap_get (st_records st) k' of None \<Rightarrow> None
              | Some r \<Rightarrow> if is_due now r \<and> has_due_entry (h # heap) now k' r then None else Some r)" for k'
        using IH(3) r by (cases "k' = k") (simp_all add: s1(3) due imap_simps split: option.split)
      ultimately show ?thesis using s1(4) by auto
    next
      case cur: False
      have eq: "(case imap_get (st_records st) k' of None \<Rightarrow> None
              | Some r \<Rightarrow> if is_due now r \<and> has_due_entry (h # heap) now k' r then None else Some r)
          = (case imap_get (st_records st) k' of None \<Rightarrow> None
              | Some r \<Rightarrow> if is_due now r \<and> has_due_entry heap now k' r then None else Some r)" for k'
        using cur by (auto simp: due split: option.splits)
      have "reap_loop json_len None now st (h # heap) reaped = reap_loop json_len None now st heap reaped"
        using False cur by (simp add: step h is_none_or_def Let_def)
      then show ?thesis using Cons.IH [OF Cons.prems(1) so, of reaped] by (simp only: eq)
    qed
  qed
qed

text \<open>
  \<open>reap_expired\<close> without a limit removes exactly the due records that have their entry in the
  expiration heap, keeps all others, and counts what it removed; each removal is queued for
  \<open>take_expired\<close>.
\<close>

lemma reap_expired_exact:
  assumes "store_inv json_len st"
  shows "\<exists>n st'. reap_expired json_len st None now = Some (n, st') \<and> store_inv json_len st'
     \<and> (\<forall>k. imap_get (st_records st') k = (case imap_get (st_records st) k of None \<Rightarrow> None
          | Some r \<Rightarrow> if is_due now r \<and> has_due_entry (st_expirations st) now k r then None else Some r))
     \<and> n + length (st_records st') = length (st_records st)
     \<and> length (st_expired st') = length (st_expired st) + n"
proof -
  have "sorted (st_expirations st)" using assms by (simp add: store_inv_def)
  from reap_loop_exact [OF assms this, of now 0] show ?thesis by (simp add: reap_expired_def)
qed

text \<open>A key written \<open>n\<close> times.\<close>

fun set_times :: "(datetimes \<Rightarrow> nat) \<Rightarrow> nat \<Rightarrow> store \<Rightarrow> bytes \<Rightarrow> value_ref \<Rightarrow> i64 \<Rightarrow> store option" where
  "set_times json_len 0 st key vref expire = Some st"
| "set_times json_len (Suc n) st key vref expire = do {
     st \<leftarrow> set_times json_len n st key vref expire;
     set_ref json_len st key vref expire None }"

lemma set_again:
  assumes "store_inv json_len st" and "st_records st = [] \<or> (\<exists>r. st_records st = [(key, r)])" and "expire \<noteq> 0"
  shows "\<exists>st' r. set_ref json_len st key vref expire None = Some st' \<and> store_inv json_len st'
     \<and> st_records st' = [(key, r)] \<and> sr_expire_at r = expire
     \<and> length (st_expirations st') = (if length (st_expirations st) \<ge> 64 then 0 else length (st_expirations st) + 1)"
proof -
  from set_ref_ok [OF assms(1), of key vref expire None] obtain st' where
    st': "set_ref json_len st key vref expire None = Some st'" "store_inv json_len st'" by blast
  have "imap_remove key (st_records st) = []" using assms(2) by auto
  with st'(1) assms(3) have "\<exists>r. st_records st' = [(key, r)] \<and> sr_expire_at r = expire"
    and "length (st_expirations st') = (if length (st_expirations st) \<ge> 64 then 0 else length (st_expirations st) + 1)"
    by (auto simp: set_ref_def Let_def rebuild_expirations_def split: bind_splits option.splits if_splits)
  with st' show ?thesis by blast
qed

lemma set_times_ok:
  assumes "expire \<noteq> 0"
  shows "n \<le> 64 \<Longrightarrow> \<exists>st. set_times json_len n (store_new reader) key vref expire = Some st \<and> store_inv json_len st
     \<and> (st_records st = [] \<or> (\<exists>r. st_records st = [(key, r)])) \<and> length (st_expirations st) = n"
proof (induction n)
  case 0
  show ?case using store_inv_new [of json_len reader] by (simp add: store_new_def)
next
  case (Suc n)
  then obtain st where "set_times json_len n (store_new reader) key vref expire = Some st" "store_inv json_len st"
     "st_records st = [] \<or> (\<exists>r. st_records st = [(key, r)])" "length (st_expirations st) = n" by auto
  with set_again [OF this(2,3) assms, of vref] Suc.prems show ?case by auto
qed

text \<open>
  A key written over and over with an expiration loses its heap entry: \<open>set_ref\<close> takes the old
  record out before it pushes the new heap entry, and the rebuild that a long heap triggers reads the
  records without it. After 65 writes of one key, \<open>reap_expired\<close> never removes the record, however late
  it runs.
\<close>

lemma rewritten_key_never_reaped:
  assumes "expire \<noteq> 0"
  shows "\<exists>st r. set_times json_len 65 (store_new reader) key vref expire = Some st
     \<and> st_records st = [(key, r)] \<and> sr_expire_at r = expire
     \<and> (\<forall>now. \<exists>st'. reap_expired json_len st None now = Some (0, st') \<and> st_records st' = st_records st)"
proof -
  obtain st0 where "set_times json_len 64 (store_new reader) key vref expire = Some st0" "store_inv json_len st0"
     "st_records st0 = [] \<or> (\<exists>r. st_records st0 = [(key, r)])" "length (st_expirations st0) = 64"
    using set_times_ok [OF assms order_refl, of json_len reader key vref] by blast
  with set_again [OF this(2,3) assms, of vref] obtain st r where
    "set_times json_len 65 (store_new reader) key vref expire = Some st" "st_records st = [(key, r)]"
      "sr_expire_at r = expire" "st_expirations st = []"
    using set_times.simps(2) [of json_len 64 "store_new reader" key vref expire] by auto
  then show ?thesis
    by (auto simp: reap_expired_def reap_loop.simps [of _ _ _ _ "[]"] is_none_or_def)
qed

end
