(* ===== verification/DtIndex.thy ===== *)
theory DtIndex
  imports Store
begin

text \<open>
  The datetime index of \<open>dt_index.rs\<close>: per column a skip list of (timestamp, key) entries and the
  timestamps by key; and the columns of every key. The index is shown to represent a two-place
  table (key, column) \<open>\<mapsto>\<close> timestamp, and its ranges to list that table.
\<close>

section \<open>Definitions\<close>

record dt_column =
  dc_list :: "(i64, str) skiplist"
  dc_by_key :: "(str, i64) imap"

definition dt_column_new :: dt_column where
  "dt_column_new = \<lparr> dc_list = with_comparators cmp cmp, dc_by_key = [] \<rparr>"

record dt_range_entry =
  dre_key :: str
  dre_value :: i64

record dt_index =
  di_columns :: "(str, dt_column) imap"
  di_by_key :: "(str, datetimes) imap"

definition dt_index_default :: dt_index where
  "dt_index_default = \<lparr> di_columns = [], di_by_key = [] \<rparr>"

text \<open>One key leaves a column; the column goes with its last key.\<close>

definition drop_entry :: "str \<Rightarrow> str \<Rightarrow> i64 \<Rightarrow> (str, dt_column) imap \<Rightarrow> (str, dt_column) imap option" where
  "drop_entry key column old_value cols =
     (case imap_get cols column of
        None \<Rightarrow> Some cols
      | Some ix \<Rightarrow> do {
          (_, list) \<leftarrow> skiplist_delete (dc_list ix) old_value key;
          let ix = \<lparr> dc_list = list, dc_by_key = imap_remove key (dc_by_key ix) \<rparr>;
          Some (if dc_by_key ix = [] then imap_remove column cols else imap_insert column ix cols) })"

definition add_entry :: "str \<Rightarrow> str \<Rightarrow> i64 \<Rightarrow> (str, dt_column) imap \<Rightarrow> (str, dt_column) imap option" where
  "add_entry key column val cols = do {
     let ix = (case imap_get cols column of None \<Rightarrow> dt_column_new | Some ix \<Rightarrow> ix);
     list \<leftarrow> skiplist_insert (dc_list ix) val key;
     Some (imap_insert column \<lparr> dc_list = list, dc_by_key = imap_insert key val (dc_by_key ix) \<rparr> cols) }"

fun drop_changed ::
  "str \<Rightarrow> datetimes \<Rightarrow> datetimes \<Rightarrow> (str, dt_column) imap \<Rightarrow> (str, dt_column) imap option" where
  "drop_changed key next_dts [] cols = Some cols"
| "drop_changed key next_dts ((column, old_value) # rest) cols = do {
     cols \<leftarrow> (if imap_get next_dts column \<noteq> Some old_value
              then drop_entry key column old_value cols else Some cols);
     drop_changed key next_dts rest cols }"

fun add_changed ::
  "str \<Rightarrow> datetimes \<Rightarrow> datetimes \<Rightarrow> (str, dt_column) imap \<Rightarrow> (str, dt_column) imap option" where
  "add_changed key old [] cols = Some cols"
| "add_changed key old ((column, val) # rest) cols = do {
     cols \<leftarrow> (if imap_get old column = Some val then Some cols else add_entry key column val cols);
     add_changed key old rest cols }"

definition dt_set :: "dt_index \<Rightarrow> str \<Rightarrow> datetimes option \<Rightarrow> dt_index option" where
  "dt_set ix key dts = do {
     let old = (case imap_get (di_by_key ix) key of None \<Rightarrow> [] | Some m \<Rightarrow> m);
     let next_dts = (case dts of None \<Rightarrow> [] | Some m \<Rightarrow> m);
     cols \<leftarrow> drop_changed key next_dts old (di_columns ix);
     cols \<leftarrow> add_changed key old next_dts cols;
     Some \<lparr> di_columns = cols,
            di_by_key = (if next_dts = [] then imap_remove key (di_by_key ix)
                         else imap_insert key next_dts (di_by_key ix)) \<rparr> }"

fun drop_all :: "str \<Rightarrow> datetimes \<Rightarrow> (str, dt_column) imap \<Rightarrow> (str, dt_column) imap option" where
  "drop_all key [] cols = Some cols"
| "drop_all key ((column, val) # rest) cols = do {
     cols \<leftarrow> drop_entry key column val cols; drop_all key rest cols }"

definition dt_delete :: "dt_index \<Rightarrow> str \<Rightarrow> dt_index option" where
  "dt_delete ix key =
     (case imap_get (di_by_key ix) key of
        None \<Rightarrow> Some ix
      | Some old \<Rightarrow> do {
          cols \<leftarrow> drop_all key old (di_columns ix);
          Some \<lparr> di_columns = cols, di_by_key = imap_remove key (di_by_key ix) \<rparr> })"

definition dt_range :: "dt_index \<Rightarrow> str \<Rightarrow> i64 range_options \<Rightarrow> dt_range_entry list option" where
  "dt_range ix column options =
     (case imap_get (di_columns ix) column of
        None \<Rightarrow> Some []
      | Some c \<Rightarrow> do {
          es \<leftarrow> skiplist_range (dc_list c) options;
          Some (map (\<lambda>e. \<lparr> dre_key = re_value e, dre_value = re_key e \<rparr>) es) })"

definition dt_columns :: "dt_index \<Rightarrow> str list" where
  "dt_columns ix = map fst (di_columns ix)"

fun set_all :: "dt_index \<Rightarrow> (str \<times> datetimes option) list \<Rightarrow> dt_index option" where
  "set_all ix [] = Some ix"
| "set_all ix ((key, dts) # rest) = do { ix \<leftarrow> dt_set ix key dts; set_all ix rest }"

definition dt_rebuild :: "dt_index \<Rightarrow> (str \<times> datetimes option) list \<Rightarrow> dt_index option" where
  "dt_rebuild ix entries = set_all \<lparr> di_columns = [], di_by_key = [] \<rparr> entries"

section \<open>The represented table\<close>

text \<open>The entries of an ordered range as pairs.\<close>

lemma entry_pairs:
  fixes es :: "('k::linorder, 'v::linorder) range_entry list"
  assumes "distinct es" and "sorted_wrt (\<lambda>a b. is_le (entry_cmp cmp cmp a b)) es"
  shows "distinct (map (\<lambda>e. (re_key e, re_value e)) es)" and "sorted (map (\<lambda>e. (re_key e, re_value e)) es)"
    and "set (map (\<lambda>e. (re_key e, re_value e)) es) = {(k, v). \<lparr> re_key = k, re_value = v \<rparr> \<in> set es}"
proof -
  have "inj_on (\<lambda>e. (re_key e, re_value e)) (set es)" by (auto simp: inj_on_def)
  then show "distinct (map (\<lambda>e. (re_key e, re_value e)) es)" using assms(1) by (simp add: distinct_map)
  have "is_le (entry_cmp cmp cmp a b) \<longleftrightarrow> (re_key a, re_value a) \<le> (re_key b, re_value b)"
    for a b :: "('k, 'v) range_entry"
    by (auto simp: entry_cmp_def cmp_def)
  then show "sorted (map (\<lambda>e. (re_key e, re_value e)) es)" using assms(2) by (simp add: sorted_wrt_map)
  show "set (map (\<lambda>e. (re_key e, re_value e)) es) = {(k, v). \<lparr> re_key = k, re_value = v \<rparr> \<in> set es}"
    by (auto simp: image_iff) (metis range_entry.surjective unit.exhaust, metis range_entry.select_convs)
qed

type_synonym table = "str \<Rightarrow> str \<Rightarrow> i64 option"

definition column_entries :: "(str \<Rightarrow> i64 option) \<Rightarrow> (i64, str) range_entry set" where
  "column_entries f = {\<lparr> re_key = v, re_value = k \<rparr> | k v. f k = Some v}"

definition column_ok :: "dt_column \<Rightarrow> (str \<Rightarrow> i64 option) \<Rightarrow> bool" where
  "column_ok c f \<longleftrightarrow> imap_get (dc_by_key c) = f \<and> imap_wf (dc_by_key c)
     \<and> holds cmp cmp (dc_list c) (column_entries f)"

fun slot_ok :: "dt_column option \<Rightarrow> (str \<Rightarrow> i64 option) \<Rightarrow> bool" where
  "slot_ok None f \<longleftrightarrow> f = Map.empty"
| "slot_ok (Some ix) f \<longleftrightarrow> column_ok ix f \<and> f \<noteq> Map.empty"

definition columns_ok :: "(str, dt_column) imap \<Rightarrow> table \<Rightarrow> bool" where
  "columns_ok cols T \<longleftrightarrow> imap_wf cols \<and> (\<forall>c. slot_ok (imap_get cols c) (\<lambda>k. T k c))"

definition dt_table :: "dt_index \<Rightarrow> table" where
  "dt_table ix key = (case imap_get (di_by_key ix) key of None \<Rightarrow> Map.empty | Some m \<Rightarrow> imap_get m)"

definition dt_inv :: "dt_index \<Rightarrow> bool" where
  "dt_inv ix \<longleftrightarrow> (\<forall>key m. imap_get (di_by_key ix) key = Some m \<longrightarrow> imap_wf m)
     \<and> columns_ok (di_columns ix) (dt_table ix)"

lemma column_entries_mem: "e \<in> column_entries f \<longleftrightarrow> f (re_value e) = Some (re_key e)"
  by (cases e) (auto simp: column_entries_def)

lemma column_entries_upd:
  "f k = Some v \<Longrightarrow> column_entries (f(k := None)) = column_entries f - {\<lparr> re_key = v, re_value = k \<rparr>}"
  "f k = None \<Longrightarrow> column_entries (f(k := Some v)) = Set.insert \<lparr> re_key = v, re_value = k \<rparr> (column_entries f)"
  by (auto simp: set_eq_iff column_entries_mem) (metis range_entry.select_convs(1))

lemma columns_ok_upd:
  assumes ok: "columns_ok cols T" and wf: "imap_wf cols'"
    and get: "imap_get cols' = (imap_get cols)(c := s)" and s: "slot_ok s ((\<lambda>k. T k c)(key := v))"
  shows "columns_ok cols' (T(key := (T key)(c := v)))"
  unfolding columns_ok_def
proof (intro conjI allI wf)
  fix d
  show "slot_ok (imap_get cols' d) (\<lambda>k. (T(key := (T key)(c := v))) k d)"
  proof (cases "d = c")
    case True
    have "(\<lambda>k. (T(key := (T key)(c := v))) k c) = (\<lambda>k. T k c)(key := v)" by auto
    with s get True show ?thesis by simp
  next
    case False
    then have "(\<lambda>k. (T(key := (T key)(c := v))) k d) = (\<lambda>k. T k d)" by auto
    with ok get False show ?thesis by (simp add: columns_ok_def)
  qed
qed

lemma drop_entry_ok:
  assumes ok: "columns_ok cols T" and T: "T key c = Some v"
  shows "\<exists>cols'. drop_entry key c v cols = Some cols' \<and> columns_ok cols' (T(key := (T key)(c := None)))"
proof -
  have slot: "slot_ok (imap_get cols c) (\<lambda>k. T k c)" and wf: "imap_wf cols"
    using ok by (auto simp: columns_ok_def)
  then obtain ix where ix: "imap_get cols c = Some ix" "column_ok ix (\<lambda>k. T k c)"
    using T by (cases "imap_get cols c") (auto dest: fun_cong [of _ _ key])
  let ?f = "(\<lambda>k. T k c)(key := None)"
  define mk where "mk l = \<lparr> dc_list = l, dc_by_key = imap_remove key (dc_by_key ix) \<rparr>" for l
  have h: "holds cmp cmp (dc_list ix) (column_entries (\<lambda>k. T k c))" using ix(2) by (simp add: column_ok_def)
  obtain l where l: "skiplist_delete (dc_list ix) v key
        = Some (\<lparr> re_key = v, re_value = key \<rparr> \<in> column_entries (\<lambda>k. T k c), l)"
      "holds cmp cmp l (column_entries (\<lambda>k. T k c) - {\<lparr> re_key = v, re_value = key \<rparr>})"
    using sl.del [OF h] by blast
  have "column_entries (\<lambda>k. T k c) - {\<lparr> re_key = v, re_value = key \<rparr>} = column_entries ?f"
    using T by (simp add: column_entries_upd)
  with l have ok': "column_ok (mk l) ?f"
    using ix(2) by (simp add: column_ok_def mk_def imap_simps)
  have "imap_get (imap_remove key (dc_by_key ix)) = ?f" using ix(2) by (simp add: column_ok_def imap_simps)
  then have empty: "imap_remove key (dc_by_key ix) = [] \<longleftrightarrow> ?f = Map.empty"
    by (metis map_of_eq_empty_iff)
  show ?thesis
  proof (cases "?f = Map.empty")
    case True
    then have "drop_entry key c v cols = Some (imap_remove c cols)"
      using l(1) ix(1) empty by (simp add: drop_entry_def mk_def)
    moreover have "columns_ok (imap_remove c cols) (T(key := (T key)(c := None)))"
      by (rule columns_ok_upd [OF ok, where s = None]) (use wf True in \<open>simp_all add: imap_simps\<close>)
    ultimately show ?thesis by blast
  next
    case False
    then have "drop_entry key c v cols = Some (imap_insert c (mk l) cols)"
      using l(1) ix(1) empty by (simp add: drop_entry_def mk_def)
    moreover have "columns_ok (imap_insert c (mk l) cols) (T(key := (T key)(c := None)))"
      by (rule columns_ok_upd [OF ok, where s = "Some (mk l)"]) (use wf False ok' in \<open>simp_all add: imap_simps\<close>)
    ultimately show ?thesis by blast
  qed
qed

lemma add_entry_ok:
  assumes ok: "columns_ok cols T" and T: "T key c = None"
  shows "\<exists>cols'. add_entry key c v cols = Some cols' \<and> columns_ok cols' (T(key := (T key)(c := Some v)))"
proof -
  have slot: "slot_ok (imap_get cols c) (\<lambda>k. T k c)" and wf: "imap_wf cols"
    using ok by (auto simp: columns_ok_def)
  define ix where "ix = (case imap_get cols c of None \<Rightarrow> dt_column_new | Some ix \<Rightarrow> ix)"
  have ix: "column_ok ix (\<lambda>k. T k c)"
  proof (cases "imap_get cols c")
    case None
    then have "(\<lambda>k. T k c) = Map.empty" using slot by simp
    then show ?thesis
      using None sl.new by (simp add: ix_def column_ok_def dt_column_new_def column_entries_def)
  qed (use slot in \<open>simp add: ix_def\<close>)
  let ?f = "(\<lambda>k. T k c)(key := Some v)"
  define mk where "mk l = \<lparr> dc_list = l, dc_by_key = imap_insert key v (dc_by_key ix) \<rparr>" for l
  have h: "holds cmp cmp (dc_list ix) (column_entries (\<lambda>k. T k c))" using ix by (simp add: column_ok_def)
  have "\<lparr> re_key = v, re_value = key \<rparr> \<notin> column_entries (\<lambda>k. T k c)" using T by (auto simp: column_entries_def)
  then obtain l where l: "skiplist_insert (dc_list ix) v key = Some l"
      "holds cmp cmp l (Set.insert \<lparr> re_key = v, re_value = key \<rparr> (column_entries (\<lambda>k. T k c)))"
    using sl.ins [OF h] by blast
  have "Set.insert \<lparr> re_key = v, re_value = key \<rparr> (column_entries (\<lambda>k. T k c)) = column_entries ?f"
    using T by (simp add: column_entries_upd)
  with l have ok': "column_ok (mk l) ?f"
    using ix by (simp add: column_ok_def mk_def imap_simps)
  have "add_entry key c v cols = Some (imap_insert c (mk l) cols)"
    using l(1) by (simp add: add_entry_def ix_def mk_def)
  moreover have "columns_ok (imap_insert c (mk l) cols) (T(key := (T key)(c := Some v)))"
    by (rule columns_ok_upd [OF ok, where s = "Some (mk l)"]) (use wf ok' in \<open>simp_all add: imap_simps\<close>)
  ultimately show ?thesis by blast
qed

text \<open>The two loops of \<open>set\<close> and the loop of \<open>delete\<close>, as changes of one row of the table.\<close>

definition kept_row :: "datetimes \<Rightarrow> datetimes \<Rightarrow> (str \<Rightarrow> i64 option) \<Rightarrow> str \<Rightarrow> i64 option" where
  "kept_row old next_dts row c =
     (if imap_get old c \<noteq> None \<and> imap_get old c \<noteq> imap_get next_dts c then None else row c)"

lemma kept_row_nil: "kept_row [] next_dts row = row"
  by (simp add: kept_row_def fun_eq_iff)

lemma drop_changed_ok:
  assumes "columns_ok cols T" and "imap_wf old" and "\<And>c v. (c, v) \<in> set old \<Longrightarrow> T key c = Some v"
  shows "\<exists>cols'. drop_changed key next_dts old cols = Some cols' \<and> columns_ok cols' (T(key :=
     kept_row old next_dts (T key)))"
  using assms
proof (induction old arbitrary: cols T)
  case (Cons p old)
  obtain c v where p: "p = (c, v)" by (cases p)
  have T: "T key c = Some v" using Cons.prems(3) p by simp
  have nc: "imap_get old c = None" using Cons.prems(2) p by (simp add: map_of_eq_None_iff)
  define T1 where "T1 = (if imap_get next_dts c \<noteq> Some v then T(key := (T key)(c := None)) else T)"
  obtain cols1 where c1: "(if imap_get next_dts c \<noteq> Some v then drop_entry key c v cols else Some cols) = Some cols1"
      "columns_ok cols1 T1"
    using drop_entry_ok [OF Cons.prems(1) T] Cons.prems(1) unfolding T1_def
    by (cases "imap_get next_dts c = Some v") auto
  have "T1 key d = Some w" if "(d, w) \<in> set old" for d w
  proof -
    have "d \<noteq> c" using that nc by (auto simp: map_of_eq_None_iff rev_image_eqI)
    then show ?thesis using Cons.prems(3) that by (simp add: T1_def)
  qed
  moreover have "imap_wf old" using Cons.prems(2) by simp
  ultimately obtain cols' where c': "drop_changed key next_dts old cols1 = Some cols'" "columns_ok cols' (T1(key :=
     kept_row old next_dts (T1 key)))"
    using Cons.IH [OF c1(2)] by blast
  have "T1(key := kept_row old next_dts (T1 key))
     = T(key := kept_row (p # old) next_dts (T key))"
    using nc p T by (auto simp: T1_def fun_eq_iff kept_row_def)
  moreover have "drop_changed key next_dts (p # old) cols = Some cols'" using c1(1) c'(1) p by simp
  ultimately show ?case using c'(2) by metis
qed (simp add: kept_row_nil)

lemma drop_all_changed: "drop_all key old cols = drop_changed key [] old cols"
  by (induction key old cols rule: drop_all.induct) (auto intro!: Option.bind_cong)

lemma add_changed_ok:
  assumes "columns_ok cols T" and "imap_wf next_dts"
    and "\<And>c v. (c, v) \<in> set next_dts \<Longrightarrow> T key c = (if imap_get old c = Some v then Some v else None)"
  shows "\<exists>cols'. add_changed key old next_dts cols = Some cols' \<and> columns_ok cols' (T(key := T key ++ imap_get next_dts))"
  using assms
proof (induction next_dts arbitrary: cols T)
  case (Cons p rest)
  obtain c v where p: "p = (c, v)" by (cases p)
  have T: "T key c = (if imap_get old c = Some v then Some v else None)" using Cons.prems(3) p by simp
  have nc: "imap_get rest c = None" using Cons.prems(2) p by (simp add: map_of_eq_None_iff)
  define T1 where "T1 = T(key := (T key)(c := Some v))"
  have same: "T1 = T" if "imap_get old c = Some v" using that T by (simp add: T1_def fun_upd_idem)
  obtain cols1 where c1: "(if imap_get old c = Some v then Some cols else add_entry key c v cols) = Some cols1"
      "columns_ok cols1 T1"
    using add_entry_ok [OF Cons.prems(1), of key c v] Cons.prems(1) T same unfolding T1_def
    by (cases "imap_get old c = Some v") auto
  have "T1 key d = (if imap_get old d = Some w then Some w else None)" if "(d, w) \<in> set rest" for d w
  proof -
    have "d \<noteq> c" using that nc by (auto simp: map_of_eq_None_iff rev_image_eqI)
    then show ?thesis using Cons.prems(3) that by (simp add: T1_def)
  qed
  moreover have "imap_wf rest" using Cons.prems(2) by simp
  ultimately obtain cols' where c': "add_changed key old rest cols1 = Some cols'"
      "columns_ok cols' (T1(key := T1 key ++ imap_get rest))"
    using Cons.IH [OF c1(2)] by blast
  have "T1(key := T1 key ++ imap_get rest) = T(key := T key ++ imap_get (p # rest))"
    using nc p by (auto simp: T1_def fun_eq_iff map_add_def split: option.split)
  moreover have "add_changed key old (p # rest) cols = Some cols'" using c1(1) c'(1) p by simp
  ultimately show ?case using c'(2) by metis
qed simp

section \<open>Operations on the table\<close>

definition dts_of :: "datetimes option \<Rightarrow> datetimes" where
  "dts_of dts = (case dts of None \<Rightarrow> [] | Some m \<Rightarrow> m)"

lemma dt_table_row:
  assumes "imap_get by_key key = m"
  shows "dt_table \<lparr> di_columns = cols, di_by_key = by_key \<rparr> key = imap_get (dts_of m)"
  using assms by (simp add: dt_table_def dts_of_def split: option.split)

lemma dt_set_ok:
  assumes inv: "dt_inv ix" and wf: "imap_wf (dts_of dts)"
  shows "\<exists>ix'. dt_set ix key dts = Some ix' \<and> dt_inv ix' \<and> dt_table ix' = (dt_table ix)(key := imap_get (dts_of dts))"
proof -
  define old where "old = dts_of (imap_get (di_by_key ix) key)"
  define new where "new = dts_of dts"
  let ?T = "dt_table ix"
  have row: "?T key = imap_get old" by (simp add: old_def dt_table_def dts_of_def split: option.split)
  have wfo: "imap_wf old" using inv by (simp add: old_def dts_of_def dt_inv_def split: option.split)
  have ok: "columns_ok (di_columns ix) ?T" using inv by (simp add: dt_inv_def)
  have mem: "?T key c = Some v" if "(c, v) \<in> set old" for c v using that row wfo by simp
  define T1 where "T1 = ?T(key := kept_row old new (?T key))"
  obtain cols1 where c1: "drop_changed key new old (di_columns ix) = Some cols1" "columns_ok cols1 T1"
    using drop_changed_ok [OF ok wfo mem, of new] unfolding T1_def by blast
  have "T1 key c = (if imap_get old c = Some v then Some v else None)" if "(c, v) \<in> set new" for c v
    using that wf row by (auto simp: T1_def new_def kept_row_def)
  then obtain cols2 where c2: "add_changed key old new cols1 = Some cols2" "columns_ok cols2 (T1(key := T1 key ++ imap_get new))"
    using add_changed_ok [OF c1(2)] wf new_def by blast
  have T2: "T1(key := T1 key ++ imap_get new) = ?T(key := imap_get new)"
    using row by (auto simp: T1_def fun_eq_iff map_add_def kept_row_def split: option.split)
  define ix' where "ix' = \<lparr> di_columns = cols2, di_by_key = (if new = [] then imap_remove key (di_by_key ix)
                         else imap_insert key new (di_by_key ix)) \<rparr>"
  have "dt_set ix key dts = Some ix'"
    using c1(1) c2(1) by (simp add: dt_set_def ix'_def old_def new_def dts_of_def)
  moreover have t: "dt_table ix' = ?T(key := imap_get new)"
    by (auto simp: ix'_def dt_table_def fun_eq_iff imap_simps)
  moreover have "dt_inv ix'"
    using inv wf c2(2) T2 unfolding dt_inv_def t by (auto simp: ix'_def imap_simps new_def split: if_splits)
  ultimately show ?thesis by (auto simp: new_def)
qed

lemma dt_delete_ok:
  assumes inv: "dt_inv ix"
  shows "\<exists>ix'. dt_delete ix key = Some ix' \<and> dt_inv ix' \<and> dt_table ix' = (dt_table ix)(key := Map.empty)"
proof (cases "imap_get (di_by_key ix) key")
  case None
  then have "dt_table ix key = Map.empty" by (simp add: dt_table_def)
  then show ?thesis using None inv by (simp add: dt_delete_def fun_upd_idem)
next
  case (Some old)
  let ?T = "dt_table ix"
  have row: "?T key = imap_get old" and wfo: "imap_wf old" and ok: "columns_ok (di_columns ix) ?T"
    using Some inv by (auto simp: dt_table_def dt_inv_def)
  have mem: "?T key c = Some v" if "(c, v) \<in> set old" for c v using that row wfo by simp
  obtain cols1 where c1: "drop_all key old (di_columns ix) = Some cols1"
      "columns_ok cols1 (?T(key := kept_row old [] (?T key)))"
    unfolding drop_all_changed using drop_changed_ok [OF ok wfo mem, of "[]"] by blast
  have T1: "kept_row old [] (?T key) = Map.empty"
    using row by (auto simp: fun_eq_iff kept_row_def)
  define ix' where "ix' = \<lparr> di_columns = cols1, di_by_key = imap_remove key (di_by_key ix) \<rparr>"
  have "dt_delete ix key = Some ix'" using Some c1(1) by (simp add: dt_delete_def ix'_def)
  moreover have t: "dt_table ix' = ?T(key := Map.empty)"
    by (auto simp: ix'_def dt_table_def fun_eq_iff imap_simps)
  moreover have "dt_inv ix'"
    using inv c1(2) T1 unfolding dt_inv_def t by (auto simp: ix'_def imap_simps split: if_splits)
  ultimately show ?thesis by blast
qed

lemma dt_inv_default: "dt_inv dt_index_default" and dt_table_default: "dt_table dt_index_default = (\<lambda>_. Map.empty)"
  by (auto simp: dt_inv_def dt_index_default_def columns_ok_def dt_table_def)

lemma set_all_ok:
  assumes "dt_inv ix" and "\<forall>(k, dts)\<in>set entries. imap_wf (dts_of dts)"
  shows "\<exists>ix'. set_all ix entries = Some ix' \<and> dt_inv ix'
     \<and> dt_table ix' = (\<lambda>k. case map_of (rev entries) k of None \<Rightarrow> dt_table ix k | Some dts \<Rightarrow> imap_get (dts_of dts))"
  using assms
proof (induction entries arbitrary: ix)
  case (Cons p entries)
  obtain key dts where p: "p = (key, dts)" by (cases p)
  obtain ix1 where 1: "dt_set ix key dts = Some ix1" "dt_inv ix1"
      "dt_table ix1 = (dt_table ix)(key := imap_get (dts_of dts))"
    using dt_set_ok [OF Cons.prems(1), of dts key] Cons.prems(2) p by auto
  then obtain ix2 where "set_all ix1 entries = Some ix2" "dt_inv ix2"
      "dt_table ix2 = (\<lambda>k. case map_of (rev entries) k of None \<Rightarrow> dt_table ix1 k | Some dts \<Rightarrow> imap_get (dts_of dts))"
    using Cons.IH [OF 1(2)] Cons.prems(2) by auto
  then show ?case using 1 p by (auto simp: fun_eq_iff map_add_def split: option.split)
qed (simp add: fun_eq_iff)

lemma dt_range_ok:
  assumes inv: "dt_inv ix"
  shows "\<exists>es. set es = {(v, k). dt_table ix k column = Some v} \<and> sorted es \<and> distinct es
     \<and> dt_range ix column range_options_default = Some (map (\<lambda>(v, k). \<lparr> dre_key = k, dre_value = v \<rparr>) es)"
proof (cases "imap_get (di_columns ix) column")
  case None
  then have "(\<lambda>k. dt_table ix k column) = Map.empty"
    using inv unfolding dt_inv_def columns_ok_def by (metis slot_ok.simps(1))
  then show ?thesis using None by (intro exI [of _ "[]"]) (auto simp: dt_range_def fun_eq_iff)
next
  case (Some c)
  then have "column_ok c (\<lambda>k. dt_table ix k column)"
    using inv unfolding dt_inv_def columns_ok_def by (metis slot_ok.simps(2))
  then have "holds cmp cmp (dc_list c) (column_entries (\<lambda>k. dt_table ix k column))" by (simp add: column_ok_def)
  then obtain es where es: "skiplist_range (dc_list c) range_options_default = Some es"
      "set es = column_entries (\<lambda>k. dt_table ix k column)" "distinct es"
      "sorted_wrt (\<lambda>a b. is_le (entry_cmp cmp cmp a b)) es"
    using sl.full_range by blast
  show ?thesis
    using Some es(1,2) entry_pairs [OF es(3,4)]
    by (intro exI [of _ "map (\<lambda>e. (re_key e, re_value e)) es"])
       (simp add: dt_range_def comp_def column_entries_mem)
qed

section \<open>The properties\<close>

datatype dt_op = DtSet str "datetimes option" | DtDelete str

fun dt_run :: "dt_index \<Rightarrow> dt_op list \<Rightarrow> dt_index option" where
  "dt_run ix [] = Some ix"
| "dt_run ix (DtSet key dts # ops) = do { ix \<leftarrow> dt_set ix key dts; dt_run ix ops }"
| "dt_run ix (DtDelete key # ops) = do { ix \<leftarrow> dt_delete ix key; dt_run ix ops }"

fun table_run :: "table \<Rightarrow> dt_op list \<Rightarrow> table" where
  "table_run T [] = T"
| "table_run T (DtSet key dts # ops) = table_run (T(key := imap_get (dts_of dts))) ops"
| "table_run T (DtDelete key # ops) = table_run (T(key := Map.empty)) ops"

fun op_wf :: "dt_op \<Rightarrow> bool" where
  "op_wf (DtSet key dts) = imap_wf (dts_of dts)"
| "op_wf (DtDelete key) = True"

lemma dt_run_ok:
  assumes "dt_inv ix" and "\<forall>x\<in>set ops. op_wf x"
  shows "\<exists>ix'. dt_run ix ops = Some ix' \<and> dt_inv ix' \<and> dt_table ix' = table_run (dt_table ix) ops"
  using assms
proof (induction ops arbitrary: ix)
  case (Cons x ops)
  show ?case
  proof (cases x)
    case (DtSet key dts)
    then obtain ix1 where "dt_set ix key dts = Some ix1" "dt_inv ix1" "dt_table ix1 = (dt_table ix)(key := imap_get (dts_of dts))"
      using dt_set_ok [OF Cons.prems(1), of dts key] Cons.prems(2) by auto
    then show ?thesis using Cons.IH [of ix1] Cons.prems(2) DtSet by (simp add: fun_upd_def)
  next
    case (DtDelete key)
    then obtain ix1 where "dt_delete ix key = Some ix1" "dt_inv ix1" "dt_table ix1 = (dt_table ix)(key := Map.empty)"
      using dt_delete_ok [OF Cons.prems(1), of key] by auto
    then show ?thesis using Cons.IH [of ix1] Cons.prems(2) DtDelete by (simp add: fun_upd_def)
  qed
qed simp

text \<open>
  C19. The datetime index is the table of the datetimes last set for each key. From the empty index
  every sequence of \<open>set\<close> and \<open>delete\<close> returns (no panic of the skip lists); a range over a column then
  lists exactly the keys whose current datetimes have that column, each once with its timestamp, in
  order of timestamp and then key; and the index has a column only as long as some key uses it.
\<close>

theorem dt_index_refines:
  assumes "\<forall>x\<in>set ops. op_wf x" and "T = table_run (\<lambda>_. Map.empty) ops"
  shows "\<exists>ix. dt_run dt_index_default ops = Some ix
     \<and> set (dt_columns ix) = {c. \<exists>k. T k c \<noteq> None}
     \<and> (\<forall>column. \<exists>es. set es = {(v, k). T k column = Some v} \<and> sorted es \<and> distinct es
           \<and> dt_range ix column range_options_default = Some (map (\<lambda>(v, k). \<lparr> dre_key = k, dre_value = v \<rparr>) es))"
proof -
  obtain ix where ix: "dt_run dt_index_default ops = Some ix" "dt_inv ix" "dt_table ix = T"
    using dt_run_ok [OF dt_inv_default assms(1)] assms(2) dt_table_default by auto
  have slot: "slot_ok (imap_get (di_columns ix) c) (\<lambda>k. T k c)" for c
    using ix(2,3) by (auto simp: dt_inv_def columns_ok_def)
  have "c \<in> set (dt_columns ix) \<longleftrightarrow> (\<exists>k. T k c \<noteq> None)" for c
  proof -
    have "c \<in> set (dt_columns ix) \<longleftrightarrow> imap_get (di_columns ix) c \<noteq> None"
      by (simp add: dt_columns_def map_of_eq_None_iff)
    also have "\<dots> \<longleftrightarrow> (\<lambda>k. T k c) \<noteq> Map.empty" using slot [of c] by (cases "imap_get (di_columns ix) c") auto
    finally show ?thesis by (simp add: fun_eq_iff)
  qed
  then have cols: "set (dt_columns ix) = {c. \<exists>k. T k c \<noteq> None}" by blast
  show ?thesis using ix(1) cols dt_range_ok [OF ix(2)] unfolding ix(3) by blast
qed

theorem dt_index_refines_witness:
  "\<exists>ix. dt_run dt_index_default [DtSet [1] (Some [([9], 50)]), DtSet [2] (Some [([9], 40)]), DtDelete [1]] = Some ix
     \<and> set (dt_columns ix) = {[9]}"
proof -
  let ?ops = "[DtSet [1] (Some [([9], 50)]), DtSet [2] (Some [([9], 40)]), DtDelete [1]]"
  have wf: "\<forall>x\<in>set ?ops. op_wf x" by (simp add: dts_of_def)
  have "{c. \<exists>k. table_run (\<lambda>_. Map.empty) ?ops k c \<noteq> None} = {[9]}" by (auto simp: dts_of_def)
  then show ?thesis using dt_index_refines [OF wf refl] by metis
qed

text \<open>
  \<open>rebuild\<close> forgets what the index held: whatever it was, afterwards the table has for each key the
  datetimes of its last entry in the list, and no other key.
\<close>

lemma dt_rebuild_ok:
  assumes "\<forall>(k, dts)\<in>set entries. imap_wf (dts_of dts)"
  shows "\<exists>ix'. dt_rebuild ix entries = Some ix' \<and> dt_inv ix'
     \<and> dt_table ix' = (\<lambda>k. case map_of (rev entries) k of None \<Rightarrow> Map.empty | Some dts \<Rightarrow> imap_get (dts_of dts))"
  using set_all_ok [OF dt_inv_default assms] unfolding dt_table_default
  by (simp add: dt_rebuild_def dt_index_default_def)

end
