(* ===== verification/CompoundIndex.thy ===== *)
theory CompoundIndex
  imports Query DtIndex
begin

text \<open>
  The compound indexes of \<open>compound_index.rs\<close>: for each index the documents grouped by the
  canonical text of one field and ordered inside a group by another field. \<open>f64\<close> is the type
  parameter \<open>'f\<close> with the operations of the record \<open>numbers\<close>, \<open>i64 as f64\<close> the parameter
  \<open>of_i64\<close>, and \<open>serde_json::to_string\<close> on scalars and strings the parameter \<open>to_str\<close>.
  The theorems take \<open>'f\<close> linearly ordered by \<open>partial_cmp\<close>: the doubles that arise
  here are conversions of integers and of JSON numbers, which are never NaN, and the two zeros
  compare equal.
\<close>

section \<open>Definitions\<close>

datatype order_type = OtNumber | OtString

record compound_index_def =
  cd_group_by :: str
  cd_order_by :: str
  cd_order_type :: order_type

record compound_index_info =
  ci_name :: str
  ci_group_by :: str
  ci_order_by :: str
  ci_order_type :: order_type

datatype 'f order_value = OvNumber 'f | OvString str

record 'f compound_range_entry =
  cre_key :: str
  cre_order_value :: "'f order_value"

datatype compound_index_error = AlreadyExists str | NotFound str

record 'f compound_entry =
  ce_info :: compound_index_info
  ce_groups :: "(str, ('f order_value, str) skiplist) imap"
  ce_by_pk :: "(str, str \<times> 'f order_value) imap"

type_synonym 'f compound_index_manager = "(str, 'f compound_entry) imap"

fun compare_order :: "('n, 'f) numbers \<Rightarrow> 'f order_value \<Rightarrow> 'f order_value \<Rightarrow> ordering" where
  "compare_order N (OvNumber a) (OvNumber b) = (case f64_cmp N a b of None \<Rightarrow> Equal | Some r \<Rightarrow> r)"
| "compare_order N (OvString a) (OvString b) = cmp a b"
| "compare_order N (OvNumber _) (OvString _) = Less"
| "compare_order N (OvString _) (OvNumber _) = Greater"

fun order_value_of :: "('n, 'f) numbers \<Rightarrow> 'n json \<Rightarrow> order_type \<Rightarrow> 'f order_value option" where
  "order_value_of N v OtNumber =
     (case as_f64 N v of
        None \<Rightarrow> None
      | Some x \<Rightarrow> if f64_finite N x then Some (OvNumber x) else None)"
| "order_value_of N v OtString = map_option OvString (as_str v)"

fun valid_order :: "('n, 'f) numbers \<Rightarrow> 'f order_value \<Rightarrow> order_type \<Rightarrow> bool" where
  "valid_order N (OvNumber x) OtNumber = f64_finite N x"
| "valid_order N (OvString _) OtString = True"
| "valid_order N _ _ = False"

text \<open>The derived equality of \<open>OrderValue\<close>.\<close>

fun order_value_eq :: "('n, 'f) numbers \<Rightarrow> 'f order_value \<Rightarrow> 'f order_value \<Rightarrow> bool" where
  "order_value_eq N (OvNumber a) (OvNumber b) = f64_eq N a b"
| "order_value_eq N (OvString a) (OvString b) = (a = b)"
| "order_value_eq N _ _ = False"

fun join :: "str \<Rightarrow> str list \<Rightarrow> str" where
  "join sep [] = []"
| "join sep [x] = x"
| "join sep (x # y # ys) = x @ sep @ join sep (y # ys)"

function canonical_value :: "('n json \<Rightarrow> str) \<Rightarrow> 'n json \<Rightarrow> str" where
  "canonical_value to_str (JArray vs) =
     lit ''['' @ join (lit '','') (map (canonical_value to_str) vs) @ lit '']''"
| "canonical_value to_str (JObject m) =
     lit ''{'' @ join (lit '','')
       (map (\<lambda>(key, v). to_str (JString key) @ lit '':'' @ canonical_value to_str v) (sort_key fst m)) @ lit ''}''"
| "canonical_value to_str JNull = to_str JNull"
| "canonical_value to_str (JBool b) = to_str (JBool b)"
| "canonical_value to_str (JNumber n) = to_str (JNumber n)"
| "canonical_value to_str (JString s) = to_str (JString s)"
  by pat_completeness auto
termination
  by (relation "measure (\<lambda>(to_str, v). size v)") (auto dest!: json_size_array json_size_object)

definition create_index ::
  "'f compound_index_manager \<Rightarrow> str \<Rightarrow> compound_index_def
   \<Rightarrow> (compound_index_error + unit) \<times> 'f compound_index_manager" where
  "create_index mgr name d =
     (if imap_get mgr name \<noteq> None then (Inl (AlreadyExists name), mgr)
      else (let info = \<lparr> ci_name = name, ci_group_by = cd_group_by d, ci_order_by = cd_order_by d,
                         ci_order_type = cd_order_type d \<rparr>
            in (Inr (), imap_insert name \<lparr> ce_info = info, ce_groups = [], ce_by_pk = [] \<rparr> mgr)))"

definition drop_index :: "'f compound_index_manager \<Rightarrow> str \<Rightarrow> bool \<times> 'f compound_index_manager" where
  "drop_index mgr name = (imap_get mgr name \<noteq> None, imap_remove name mgr)"

definition list_indexes :: "'f compound_index_manager \<Rightarrow> compound_index_info list" where
  "list_indexes mgr = map (\<lambda>(_, e). ce_info e) mgr"

text \<open>Where a document belongs in an index: its grp and its order value, if it has both.\<close>

definition placement ::
  "('n, 'f) numbers \<Rightarrow> (i64 \<Rightarrow> 'f) \<Rightarrow> ('n json \<Rightarrow> str) \<Rightarrow> compound_index_info \<Rightarrow> 'n json \<Rightarrow> datetimes option
   \<Rightarrow> (str \<times> 'f order_value) option" where
  "placement N of_i64 to_str info doc dts =
     (let grp = (case get_path doc (ci_group_by info) of
                     None \<Rightarrow> None
                   | Some v \<Rightarrow> if v = JNull then None else Some (canonical_value to_str v));
          from_dts = (case dts of
                        None \<Rightarrow> None
                      | Some m \<Rightarrow> map_option (\<lambda>v. OvNumber (of_i64 v)) (imap_get m (ci_order_by info)));
          order = (case from_dts of
                     Some ov \<Rightarrow> Some ov
                   | None \<Rightarrow> Option.bind (get_path doc (ci_order_by info))
                               (\<lambda>v. order_value_of N v (ci_order_type info)))
      in case (grp, order) of
           (Some g, Some ov) \<Rightarrow> if valid_order N ov (ci_order_type info) then Some (g, ov) else None
         | _ \<Rightarrow> None)"

definition same_placement ::
  "('n, 'f) numbers \<Rightarrow> (str \<times> 'f order_value) option \<Rightarrow> (str \<times> 'f order_value) option \<Rightarrow> bool" where
  "same_placement N previous next_pl =
     (case (previous, next_pl) of
        (Some (g, ov), Some (g', ov')) \<Rightarrow> g = g' \<and> order_value_eq N ov ov'
      | _ \<Rightarrow> False)"

text \<open>\<open>prune\<close> drops a grp that became empty.\<close>

definition unplace ::
  "bool \<Rightarrow> str \<Rightarrow> 'f compound_entry \<Rightarrow> 'f compound_entry option" where
  "unplace prune pk e =
     (case imap_get (ce_by_pk e) pk of
        None \<Rightarrow> Some e
      | Some (grp, order) \<Rightarrow>
          (let e = e\<lparr> ce_by_pk := imap_remove pk (ce_by_pk e) \<rparr> in
           case imap_get (ce_groups e) grp of
             None \<Rightarrow> Some e
           | Some list \<Rightarrow> do {
               (_, list) \<leftarrow> skiplist_delete list order pk;
               Some (e\<lparr> ce_groups := (if prune \<and> is_empty list then imap_remove grp (ce_groups e)
                                     else imap_insert grp list (ce_groups e)) \<rparr>) }))"

definition place ::
  "('n, 'f) numbers \<Rightarrow> str \<Rightarrow> (str \<times> 'f order_value) option \<Rightarrow> 'f compound_entry \<Rightarrow> 'f compound_entry option" where
  "place N pk pl e =
     (case pl of
        None \<Rightarrow> Some e
      | Some (grp, order) \<Rightarrow> do {
          let list = (case imap_get (ce_groups e) grp of
                        None \<Rightarrow> with_comparators (compare_order N) cmp | Some l \<Rightarrow> l);
          list \<leftarrow> skiplist_insert list order pk;
          Some (e\<lparr> ce_groups := imap_insert grp list (ce_groups e),
                  ce_by_pk := imap_insert pk (grp, order) (ce_by_pk e) \<rparr>) })"

definition add_to_entry ::
  "('n, 'f) numbers \<Rightarrow> (i64 \<Rightarrow> 'f) \<Rightarrow> ('n json \<Rightarrow> str) \<Rightarrow> str \<Rightarrow> 'n json \<Rightarrow> datetimes option
   \<Rightarrow> 'f compound_entry \<Rightarrow> 'f compound_entry option" where
  "add_to_entry N of_i64 to_str pk doc dts e =
     (let pl = placement N of_i64 to_str (ce_info e) doc dts in
      if same_placement N (imap_get (ce_by_pk e) pk) pl then Some e
      else do { e \<leftarrow> unplace True pk e; place N pk pl e })"

fun each_entry ::
  "('f compound_entry \<Rightarrow> 'f compound_entry option) \<Rightarrow> 'f compound_index_manager
   \<Rightarrow> 'f compound_index_manager option" where
  "each_entry f [] = Some []"
| "each_entry f ((name, e) # mgr) = do { e \<leftarrow> f e; mgr \<leftarrow> each_entry f mgr; Some ((name, e) # mgr) }"

definition index_add ::
  "('n, 'f) numbers \<Rightarrow> (i64 \<Rightarrow> 'f) \<Rightarrow> ('n json \<Rightarrow> str) \<Rightarrow> 'f compound_index_manager
   \<Rightarrow> str \<Rightarrow> 'n json \<Rightarrow> datetimes option \<Rightarrow> 'f compound_index_manager option" where
  "index_add N of_i64 to_str mgr pk doc dts = each_entry (add_to_entry N of_i64 to_str pk doc dts) mgr"

definition index_remove :: "'f compound_index_manager \<Rightarrow> str \<Rightarrow> 'f compound_index_manager option" where
  "index_remove mgr pk = each_entry (unplace False pk) mgr"

definition index_range ::
  "('n json \<Rightarrow> str) \<Rightarrow> 'f compound_index_manager \<Rightarrow> str \<Rightarrow> 'n json \<Rightarrow> 'f order_value range_options
   \<Rightarrow> (compound_index_error + 'f compound_range_entry list) option" where
  "index_range to_str mgr name grp options =
     (case imap_get mgr name of
        None \<Rightarrow> Some (Inl (NotFound name))
      | Some e \<Rightarrow>
          (case imap_get (ce_groups e) (canonical_value to_str grp) of
             None \<Rightarrow> Some (Inr [])
           | Some list \<Rightarrow> do {
               items \<leftarrow> skiplist_range list options;
               Some (Inr (map (\<lambda>i. \<lparr> cre_key = re_value i, cre_order_value = re_key i \<rparr>) items)) }))"

fun add_all ::
  "('n, 'f) numbers \<Rightarrow> (i64 \<Rightarrow> 'f) \<Rightarrow> ('n json \<Rightarrow> str) \<Rightarrow> 'f compound_index_manager
   \<Rightarrow> (str \<times> 'n json \<times> datetimes option) list \<Rightarrow> 'f compound_index_manager option" where
  "add_all N of_i64 to_str mgr [] = Some mgr"
| "add_all N of_i64 to_str mgr ((key, doc, dts) # rest) = do {
     mgr \<leftarrow> index_add N of_i64 to_str mgr key doc dts; add_all N of_i64 to_str mgr rest }"

definition index_rebuild ::
  "('n, 'f) numbers \<Rightarrow> (i64 \<Rightarrow> 'f) \<Rightarrow> ('n json \<Rightarrow> str) \<Rightarrow> 'f compound_index_manager
   \<Rightarrow> (str \<times> 'n json \<times> datetimes option) list \<Rightarrow> 'f compound_index_manager option" where
  "index_rebuild N of_i64 to_str mgr entries =
     add_all N of_i64 to_str (map (\<lambda>(n, e). (n, e\<lparr> ce_groups := [], ce_by_pk := [] \<rparr>)) mgr) entries"

section \<open>Order values are linearly ordered\<close>

instantiation order_value :: (linorder) linorder
begin

fun less_order_value :: "'a order_value \<Rightarrow> 'a order_value \<Rightarrow> bool" where
  "less_order_value (OvNumber a) (OvNumber b) = (a < b)"
| "less_order_value (OvString a) (OvString b) = (a < b)"
| "less_order_value (OvNumber _) (OvString _) = True"
| "less_order_value (OvString _) (OvNumber _) = False"

definition less_eq_order_value :: "'a order_value \<Rightarrow> 'a order_value \<Rightarrow> bool" where
  "less_eq_order_value a b = (a < b \<or> a = b)"

instance
proof
  fix x y z :: "'a order_value"
  show lt: "x < y \<longleftrightarrow> x \<le> y \<and> \<not> y \<le> x"
    by (cases x; cases y) (auto simp: less_eq_order_value_def)
  show "x \<le> x" by (simp add: less_eq_order_value_def)
  show "x \<le> y \<Longrightarrow> y \<le> z \<Longrightarrow> x \<le> z"
    by (cases x; cases y; cases z) (auto simp: less_eq_order_value_def)
  show "x \<le> y \<Longrightarrow> y \<le> x \<Longrightarrow> x = y"
    by (cases x; cases y) (auto simp: less_eq_order_value_def)
  show "x \<le> y \<or> y \<le> x"
    by (cases x; cases y) (auto simp: less_eq_order_value_def)
qed

end

text \<open>The arithmetic of the doubles that arise: a linear order with its equality.\<close>

definition linear_numbers :: "('n, 'f::linorder) numbers \<Rightarrow> bool" where
  "linear_numbers N \<longleftrightarrow> (\<forall>a b. f64_cmp N a b = Some (cmp a b)) \<and> (\<forall>a b. f64_eq N a b = (a = b))"

lemma compare_order_cmp: "linear_numbers N \<Longrightarrow> compare_order N = cmp"
proof (intro ext)
  fix a b assume "linear_numbers N"
  then show "compare_order N a b = cmp a b"
    by (cases a; cases b) (auto simp: linear_numbers_def cmp_def)
qed

lemma order_value_eq_iff: "linear_numbers N \<Longrightarrow> order_value_eq N a b \<longleftrightarrow> a = b"
  by (cases a; cases b) (auto simp: linear_numbers_def)

section \<open>One index\<close>

type_synonym 'f placements = "str \<Rightarrow> (str \<times> 'f order_value) option"

definition group_entries :: "'f placements \<Rightarrow> str \<Rightarrow> ('f order_value, str) range_entry set" where
  "group_entries P g = {\<lparr> re_key = ov, re_value = pk \<rparr> | ov pk. P pk = Some (g, ov)}"

lemma group_entries_mem: "e \<in> group_entries P g \<longleftrightarrow> P (re_value e) = Some (g, re_key e)"
  by (cases e) (auto simp: group_entries_def)

lemma group_entries_remove:
  "P pk = Some (g, ov) \<Longrightarrow> group_entries (P(pk := None)) g = group_entries P g - {\<lparr> re_key = ov, re_value = pk \<rparr>}"
  "P pk = Some (g, ov) \<Longrightarrow> h \<noteq> g \<Longrightarrow> group_entries (P(pk := None)) h = group_entries P h"
  by (auto simp: set_eq_iff group_entries_mem)

lemma group_entries_add:
  "P pk = None \<Longrightarrow> group_entries (P(pk := Some (g, ov))) g = Set.insert \<lparr> re_key = ov, re_value = pk \<rparr> (group_entries P g)"
  "P pk = None \<Longrightarrow> h \<noteq> g \<Longrightarrow> group_entries (P(pk := Some (g, ov))) h = group_entries P h"
  by (auto simp: set_eq_iff group_entries_mem) (metis range_entry.select_convs(1))

fun group_ok :: "('f::linorder order_value, str) skiplist option \<Rightarrow> ('f order_value, str) range_entry set \<Rightarrow> bool" where
  "group_ok None E \<longleftrightarrow> E = {}"
| "group_ok (Some l) E \<longleftrightarrow> holds cmp cmp l E"

definition entry_inv :: "'f::linorder compound_entry \<Rightarrow> bool" where
  "entry_inv e \<longleftrightarrow> (\<forall>g. group_ok (imap_get (ce_groups e) g) (group_entries (imap_get (ce_by_pk e)) g))"

lemma unplace_ok:
  assumes inv: "entry_inv e"
  shows "\<exists>e'. unplace prune pk e = Some e' \<and> entry_inv e' \<and> ce_info e' = ce_info e
     \<and> imap_get (ce_by_pk e') = (imap_get (ce_by_pk e))(pk := None)"
proof (cases "imap_get (ce_by_pk e) pk")
  case None
  then show ?thesis using inv by (simp add: unplace_def fun_upd_idem)
next
  case (Some p)
  obtain g ov where p: "p = (g, ov)" by (cases p)
  let ?P = "imap_get (ce_by_pk e)"
  have P: "?P pk = Some (g, ov)" using Some p by simp
  have slot: "group_ok (imap_get (ce_groups e) g) (group_entries ?P g)" using inv by (simp add: entry_inv_def)
  have "\<lparr> re_key = ov, re_value = pk \<rparr> \<in> group_entries ?P g" using P by (simp add: group_entries_mem)
  then obtain l where l: "imap_get (ce_groups e) g = Some l" "holds cmp cmp l (group_entries ?P g)"
    using slot by (cases "imap_get (ce_groups e) g") auto
  obtain b l' where l': "skiplist_delete l ov pk = Some (b, l')"
      "holds cmp cmp l' (group_entries ?P g - {\<lparr> re_key = ov, re_value = pk \<rparr>})"
    using sl.del [OF l(2)] by blast
  then have h: "holds cmp cmp l' (group_entries (?P(pk := None)) g)" using group_entries_remove(1) [where P = ?P and pk = pk, OF P] by simp
  define e' where "e' = e\<lparr> ce_by_pk := imap_remove pk (ce_by_pk e),
     ce_groups := (if prune \<and> is_empty l' then imap_remove g (ce_groups e) else imap_insert g l' (ce_groups e)) \<rparr>"
  have "unplace prune pk e = Some e'"
    using P l(1) l'(1) by (simp add: unplace_def e'_def Let_def)
  moreover have pk': "imap_get (ce_by_pk e') = ?P(pk := None)" by (simp add: e'_def imap_simps)
  moreover have "entry_inv e'" unfolding entry_inv_def pk'
  proof
    fix d
    show "group_ok (imap_get (ce_groups e') d) (group_entries (?P(pk := None)) d)"
    proof (cases "d = g")
      case True
      then show ?thesis using h holds_empty [OF h] by (auto simp: e'_def imap_simps)
    next
      case False
      then show ?thesis using inv group_entries_remove(2) [where P = ?P and pk = pk, OF P False] by (auto simp: e'_def imap_simps entry_inv_def)
    qed
  qed
  ultimately show ?thesis by (auto simp: e'_def)
qed

lemma place_ok:
  assumes N: "linear_numbers N" and inv: "entry_inv e" and new: "imap_get (ce_by_pk e) pk = None"
  shows "\<exists>e'. place N pk pl e = Some e' \<and> entry_inv e' \<and> ce_info e' = ce_info e
     \<and> imap_get (ce_by_pk e') = (imap_get (ce_by_pk e))(pk := pl)"
proof (cases pl)
  case None
  then show ?thesis using inv new by (simp add: place_def fun_upd_idem)
next
  case (Some p)
  obtain g ov where p: "pl = Some (g, ov)" using Some by (cases p) auto
  let ?P = "imap_get (ce_by_pk e)"
  define l where "l = (case imap_get (ce_groups e) g of
                        None \<Rightarrow> with_comparators (compare_order N) cmp | Some l \<Rightarrow> l)"
  have slot: "group_ok (imap_get (ce_groups e) g) (group_entries ?P g)" using inv by (simp add: entry_inv_def)
  then have hl: "holds cmp cmp l (group_entries ?P g)"
    using sl.new by (cases "imap_get (ce_groups e) g") (auto simp: l_def compare_order_cmp [OF N])
  have "\<lparr> re_key = ov, re_value = pk \<rparr> \<notin> group_entries ?P g" using new by (simp add: group_entries_mem)
  then obtain l' where l': "skiplist_insert l ov pk = Some l'"
      "holds cmp cmp l' (Set.insert \<lparr> re_key = ov, re_value = pk \<rparr> (group_entries ?P g))"
    using sl.ins [OF hl] by blast
  then have h: "holds cmp cmp l' (group_entries (?P(pk := Some (g, ov))) g)"
    using group_entries_add(1) [where P = ?P and pk = pk, OF new, of g ov] by simp
  define e' where "e' = e\<lparr> ce_groups := imap_insert g l' (ce_groups e), ce_by_pk := imap_insert pk (g, ov) (ce_by_pk e) \<rparr>"
  have "place N pk pl e = Some e'"
    using p l'(1) by (simp add: place_def l_def e'_def)
  moreover have pk': "imap_get (ce_by_pk e') = ?P(pk := pl)" by (simp add: e'_def imap_simps p)
  moreover have "entry_inv e'" unfolding entry_inv_def pk'
  proof
    fix d
    show "group_ok (imap_get (ce_groups e') d) (group_entries (?P(pk := pl)) d)"
    proof (cases "d = g")
      case True
      then show ?thesis using h p by (simp add: e'_def imap_simps)
    next
      case False
      then show ?thesis using inv group_entries_add(2) [where P = ?P and pk = pk, OF new False, of ov] p
        by (simp add: e'_def imap_simps entry_inv_def)
    qed
  qed
  ultimately show ?thesis by (auto simp: e'_def)
qed

lemma add_to_entry_ok:
  assumes N: "linear_numbers N" and inv: "entry_inv e"
  shows "\<exists>e'. add_to_entry N of_i64 to_str pk doc dts e = Some e' \<and> entry_inv e' \<and> ce_info e' = ce_info e
     \<and> imap_get (ce_by_pk e') = (imap_get (ce_by_pk e))(pk := placement N of_i64 to_str (ce_info e) doc dts)"
proof -
  let ?pl = "placement N of_i64 to_str (ce_info e) doc dts"
  show ?thesis
  proof (cases "same_placement N (imap_get (ce_by_pk e) pk) ?pl")
    case True
    then have "imap_get (ce_by_pk e) pk = ?pl"
      by (auto simp: same_placement_def order_value_eq_iff [OF N] split: option.splits prod.splits)
    then have "(imap_get (ce_by_pk e))(pk := ?pl) = imap_get (ce_by_pk e)" by (metis fun_upd_triv)
    then show ?thesis using True inv by (simp add: add_to_entry_def Let_def)
  next
    case False
    obtain e1 where e1: "unplace True pk e = Some e1" "entry_inv e1" "ce_info e1 = ce_info e"
        "imap_get (ce_by_pk e1) = (imap_get (ce_by_pk e))(pk := None)"
      using unplace_ok [OF inv] by blast
    obtain e2 where e2: "place N pk ?pl e1 = Some e2" "entry_inv e2" "ce_info e2 = ce_info e1"
        "imap_get (ce_by_pk e2) = (imap_get (ce_by_pk e1))(pk := ?pl)"
      using place_ok [OF N e1(2), of pk ?pl] e1(4) by auto
    have "add_to_entry N of_i64 to_str pk doc dts e = Some e2"
      using False e1(1) e2(1) by (simp add: add_to_entry_def Let_def)
    then show ?thesis using e1 e2 by (auto simp: fun_eq_iff)
  qed
qed

section \<open>All indexes\<close>

definition manager_inv :: "'f::linorder compound_index_manager \<Rightarrow> bool" where
  "manager_inv mgr \<longleftrightarrow> (\<forall>e\<in>snd ` set mgr. entry_inv e)"

lemma each_entry_ok:
  assumes "\<forall>e\<in>snd ` set mgr. \<exists>e'. f e = Some e' \<and> Q e e'"
  shows "\<exists>mgr'. each_entry f mgr = Some mgr' \<and> list_all2 (\<lambda>(n, e) (n', e'). n' = n \<and> Q e e') mgr mgr'"
  using assms
proof (induction mgr)
  case (Cons p mgr)
  then show ?case by (cases p) auto
qed simp

lemma list_all2_lookup:
  assumes "list_all2 (\<lambda>(n, e) (n', e'). n' = n \<and> Q e e') m m'"
  shows "rel_option Q (imap_get m k) (imap_get m' k)"
  using assms by (induction rule: list_all2_induct) auto

lemma list_all2_inv:
  assumes "list_all2 (\<lambda>(n, e) (n', e'). n' = n \<and> Q e e') m m'" and "\<And>e e'. Q e e' \<Longrightarrow> R e'"
  shows "\<forall>e\<in>snd ` set m'. R e"
  using assms by (induction rule: list_all2_induct) auto

text \<open>What one index knows of every document: the reference for all operations.\<close>

definition placements_of :: "'f compound_index_manager \<Rightarrow> str \<Rightarrow> (compound_index_info \<times> 'f placements) option" where
  "placements_of mgr name = map_option (\<lambda>e. (ce_info e, imap_get (ce_by_pk e))) (imap_get mgr name)"

definition moved_to :: "str \<Rightarrow> (compound_index_info \<Rightarrow> (str \<times> 'f order_value) option)
    \<Rightarrow> (compound_index_info \<times> 'f placements) option \<Rightarrow> (compound_index_info \<times> 'f placements) option" where
  "moved_to pk pl = map_option (\<lambda>(info, P). (info, P(pk := pl info)))"

lemma each_entry_moves:
  assumes inv: "manager_inv mgr"
    and f: "\<And>e. entry_inv e \<Longrightarrow> \<exists>e'. f e = Some e' \<and> entry_inv e' \<and> ce_info e' = ce_info e
        \<and> imap_get (ce_by_pk e') = (imap_get (ce_by_pk e))(pk := pl (ce_info e))"
  shows "\<exists>mgr'. each_entry f mgr = Some mgr' \<and> manager_inv mgr'
     \<and> placements_of mgr' = (\<lambda>name. moved_to pk pl (placements_of mgr name))"
proof -
  let ?Q = "\<lambda>e e'. entry_inv e' \<and> ce_info e' = ce_info e
        \<and> imap_get (ce_by_pk e') = (imap_get (ce_by_pk e))(pk := pl (ce_info e))"
  have "\<forall>e\<in>snd ` set mgr. \<exists>e'. f e = Some e' \<and> ?Q e e'"
    using inv f unfolding manager_inv_def by blast
  from each_entry_ok [OF this] obtain mgr' where m: "each_entry f mgr = Some mgr'"
      "list_all2 (\<lambda>(n, e) (n', e'). n' = n \<and> ?Q e e') mgr mgr'"
    by blast
  have "manager_inv mgr'" unfolding manager_inv_def by (rule list_all2_inv [OF m(2)]) simp
  moreover have "placements_of mgr' name = moved_to pk pl (placements_of mgr name)" for name
    using list_all2_lookup [OF m(2), of name]
    by (cases "imap_get mgr name"; cases "imap_get mgr' name") (auto simp: placements_of_def moved_to_def)
  ultimately show ?thesis using m(1) by blast
qed

lemma index_add_ok:
  assumes "linear_numbers N" and "manager_inv mgr"
  shows "\<exists>mgr'. index_add N of_i64 to_str mgr pk doc dts = Some mgr' \<and> manager_inv mgr'
     \<and> placements_of mgr' = (\<lambda>name. moved_to pk (\<lambda>info. placement N of_i64 to_str info doc dts) (placements_of mgr name))"
  unfolding index_add_def by (rule each_entry_moves [OF assms(2) add_to_entry_ok [OF assms(1)]])

lemma index_remove_ok:
  assumes "manager_inv mgr"
  shows "\<exists>mgr'. index_remove mgr pk = Some mgr' \<and> manager_inv mgr'
     \<and> placements_of mgr' = (\<lambda>name. moved_to pk (\<lambda>_. None) (placements_of mgr name))"
  unfolding index_remove_def by (rule each_entry_moves [OF assms unplace_ok])

lemma index_range_ok:
  assumes inv: "manager_inv mgr" and P: "placements_of mgr name = Some (info, P)"
  shows "\<exists>es. set es = {(ov, pk). P pk = Some (canonical_value to_str g, ov)} \<and> sorted es \<and> distinct es
     \<and> index_range to_str mgr name g range_options_default
         = Some (Inr (map (\<lambda>(ov, pk). \<lparr> cre_key = pk, cre_order_value = ov \<rparr>) es))"
proof -
  obtain e where e: "imap_get mgr name = Some e" "imap_get (ce_by_pk e) = P"
    using P by (auto simp: placements_of_def)
  let ?g = "canonical_value to_str g"
  have "entry_inv e" using inv e(1) by (force simp: manager_inv_def dest: map_of_SomeD)
  then have slot: "group_ok (imap_get (ce_groups e) ?g) (group_entries P ?g)" using e(2) by (auto simp: entry_inv_def)
  show ?thesis
  proof (cases "imap_get (ce_groups e) ?g")
    case None
    then have "{(ov, pk). P pk = Some (?g, ov)} = {}" using slot by (auto simp: group_entries_def)
    then show ?thesis using None e(1) by (intro exI [of _ "[]"]) (simp add: index_range_def)
  next
    case (Some l)
    then have "holds cmp cmp l (group_entries P ?g)" using slot by simp
    then obtain es where es: "skiplist_range l range_options_default = Some es" "set es = group_entries P ?g" "distinct es"
        "sorted_wrt (\<lambda>a b. is_le (entry_cmp cmp cmp a b)) es"
      using sl.full_range by blast
    show ?thesis
      using Some e(1) es(1,2) entry_pairs [OF es(3,4)]
      by (intro exI [of _ "map (\<lambda>e. (re_key e, re_value e)) es"])
         (simp add: index_range_def comp_def group_entries_mem)
  qed
qed

section \<open>The properties\<close>

datatype 'n ci_op = CiCreate str compound_index_def | CiDrop str
  | CiAdd str "'n json" "datetimes option" | CiRemove str
  | CiRebuild "(str \<times> 'n json \<times> datetimes option) list"

fun ci_step ::
  "('n, 'f) numbers \<Rightarrow> (i64 \<Rightarrow> 'f) \<Rightarrow> ('n json \<Rightarrow> str) \<Rightarrow> 'f compound_index_manager \<Rightarrow> 'n ci_op
   \<Rightarrow> 'f compound_index_manager option" where
  "ci_step N of_i64 to_str mgr (CiCreate name d) = Some (snd (create_index mgr name d))"
| "ci_step N of_i64 to_str mgr (CiDrop name) = Some (snd (drop_index mgr name))"
| "ci_step N of_i64 to_str mgr (CiAdd pk doc dts) = index_add N of_i64 to_str mgr pk doc dts"
| "ci_step N of_i64 to_str mgr (CiRemove pk) = index_remove mgr pk"
| "ci_step N of_i64 to_str mgr (CiRebuild entries) = index_rebuild N of_i64 to_str mgr entries"

fun ci_run ::
  "('n, 'f) numbers \<Rightarrow> (i64 \<Rightarrow> 'f) \<Rightarrow> ('n json \<Rightarrow> str) \<Rightarrow> 'f compound_index_manager \<Rightarrow> 'n ci_op list
   \<Rightarrow> 'f compound_index_manager option" where
  "ci_run N of_i64 to_str mgr [] = Some mgr"
| "ci_run N of_i64 to_str mgr (x # xs) = do {
     mgr \<leftarrow> ci_step N of_i64 to_str mgr x; ci_run N of_i64 to_str mgr xs }"

text \<open>The reference: for every index its definition and where each document stands.\<close>

type_synonym 'f ci_ref = "str \<Rightarrow> (compound_index_info \<times> 'f placements) option"

fun ref_step ::
  "('n, 'f) numbers \<Rightarrow> (i64 \<Rightarrow> 'f) \<Rightarrow> ('n json \<Rightarrow> str) \<Rightarrow> 'f ci_ref \<Rightarrow> 'n ci_op \<Rightarrow> 'f ci_ref" where
  "ref_step N of_i64 to_str R (CiCreate name d) =
     (if R name = None
      then R(name := Some (\<lparr> ci_name = name, ci_group_by = cd_group_by d, ci_order_by = cd_order_by d,
                         ci_order_type = cd_order_type d \<rparr>, Map.empty)) else R)"
| "ref_step N of_i64 to_str R (CiDrop name) = R(name := None)"
| "ref_step N of_i64 to_str R (CiAdd pk doc dts) =
     (\<lambda>name. moved_to pk (\<lambda>info. placement N of_i64 to_str info doc dts) (R name))"
| "ref_step N of_i64 to_str R (CiRemove pk) = (\<lambda>name. moved_to pk (\<lambda>_. None) (R name))"
| "ref_step N of_i64 to_str R (CiRebuild entries) =
     (\<lambda>name. map_option (\<lambda>(info, _). (info, \<lambda>pk. Option.bind (map_of (rev entries) pk)
        (\<lambda>(doc, dts). placement N of_i64 to_str info doc dts))) (R name))"

lemma placements_create:
  assumes "manager_inv mgr"
  shows "manager_inv (snd (create_index mgr name d))"
    and "placements_of (snd (create_index mgr name d)) = ref_step N of_i64 to_str (placements_of mgr) (CiCreate name d)"
proof -
  have "entry_inv \<lparr> ce_info = i, ce_groups = [], ce_by_pk = [] \<rparr>" for i
    by (simp add: entry_inv_def group_entries_def)
  then show "manager_inv (snd (create_index mgr name d))"
    using assms unfolding create_index_def manager_inv_def
    by (auto simp: Let_def imap_insert_new map_of_eq_None_iff)
  show "placements_of (snd (create_index mgr name d)) = ref_step N of_i64 to_str (placements_of mgr) (CiCreate name d)"
    by (auto simp: create_index_def placements_of_def fun_eq_iff imap_simps Let_def)
qed

lemma imap_remove_mem: "x \<in> set (imap_remove k m) \<Longrightarrow> x \<in> set m"
  by (induction m) (auto split: if_splits)

lemma placements_drop:
  assumes "manager_inv mgr"
  shows "manager_inv (snd (drop_index mgr name))"
    and "placements_of (snd (drop_index mgr name)) = ref_step N of_i64 to_str (placements_of mgr) (CiDrop name)"
  using assms unfolding drop_index_def manager_inv_def
  by (auto simp: placements_of_def fun_eq_iff imap_simps dest: imap_remove_mem)

lemma add_all_ok:
  assumes N: "linear_numbers N" and "manager_inv mgr"
  shows "\<exists>mgr'. add_all N of_i64 to_str mgr entries = Some mgr' \<and> manager_inv mgr'
     \<and> placements_of mgr' = (\<lambda>name. map_option (\<lambda>(info, P). (info, \<lambda>pk. case map_of (rev entries) pk of
           None \<Rightarrow> P pk | Some (doc, dts) \<Rightarrow> placement N of_i64 to_str info doc dts)) (placements_of mgr name))"
  using assms(2)
proof (induction entries arbitrary: mgr)
  case (Cons x entries)
  obtain pk doc dts where x: "x = (pk, doc, dts)" by (cases x)
  obtain m1 where m1: "index_add N of_i64 to_str mgr pk doc dts = Some m1" "manager_inv m1"
      "placements_of m1 = (\<lambda>name. moved_to pk (\<lambda>info. placement N of_i64 to_str info doc dts) (placements_of mgr name))"
    using index_add_ok [OF N Cons.prems] by blast
  obtain m2 where m2: "add_all N of_i64 to_str m1 entries = Some m2" "manager_inv m2"
      "placements_of m2 = (\<lambda>name. map_option (\<lambda>(info, P). (info, \<lambda>pk. case map_of (rev entries) pk of
           None \<Rightarrow> P pk | Some (doc, dts) \<Rightarrow> placement N of_i64 to_str info doc dts)) (placements_of m1 name))"
    using Cons.IH [OF m1(2)] by blast
  have "placements_of m2 = (\<lambda>name. map_option (\<lambda>(info, P). (info, \<lambda>pk. case map_of (rev (x # entries)) pk of
           None \<Rightarrow> P pk | Some (doc, dts) \<Rightarrow> placement N of_i64 to_str info doc dts)) (placements_of mgr name))"
  proof
    fix name
    show "placements_of m2 name = map_option (\<lambda>(info, P). (info, \<lambda>pk. case map_of (rev (x # entries)) pk of
           None \<Rightarrow> P pk | Some (doc, dts) \<Rightarrow> placement N of_i64 to_str info doc dts)) (placements_of mgr name)"
      unfolding m2(3) m1(3) x
      by (cases "placements_of mgr name") (auto simp: fun_eq_iff moved_to_def map_add_def split: option.split)
  qed
  then show ?case using m1(1) m2(1,2) x by simp
qed (auto simp: fun_eq_iff option.map_id)

lemma placements_clear:
  assumes "mgr' = map (\<lambda>(n, e). (n, e\<lparr> ce_groups := [], ce_by_pk := [] \<rparr>)) mgr"
  shows "manager_inv mgr'"
    and "placements_of mgr' name = map_option (\<lambda>(info, _). (info, Map.empty)) (placements_of mgr name)"
proof -
  show "manager_inv mgr'" by (auto simp: assms manager_inv_def entry_inv_def group_entries_def)
  have "map_of mgr' name = map_option (\<lambda>e. e\<lparr> ce_groups := [], ce_by_pk := [] \<rparr>) (map_of mgr name)"
    unfolding assms by (induction mgr) auto
  then show "placements_of mgr' name = map_option (\<lambda>(info, _). (info, Map.empty)) (placements_of mgr name)"
    by (cases "map_of mgr name") (auto simp: placements_of_def)
qed

lemma ci_step_ok:
  assumes N: "linear_numbers N" and inv: "manager_inv mgr"
  shows "\<exists>mgr'. ci_step N of_i64 to_str mgr x = Some mgr' \<and> manager_inv mgr'
     \<and> placements_of mgr' = ref_step N of_i64 to_str (placements_of mgr) x"
proof (cases x)
  case (CiRebuild entries)
  let ?m = "map (\<lambda>(n, e). (n, e\<lparr> ce_groups := [], ce_by_pk := [] \<rparr>)) mgr"
  obtain m where m: "add_all N of_i64 to_str ?m entries = Some m" "manager_inv m"
     "placements_of m = (\<lambda>name. map_option (\<lambda>(info, P). (info, \<lambda>pk. case map_of (rev entries) pk of
           None \<Rightarrow> P pk | Some (doc, dts) \<Rightarrow> placement N of_i64 to_str info doc dts)) (placements_of ?m name))"
    using add_all_ok [OF N placements_clear(1) [OF refl]] by blast
  have "placements_of m name = ref_step N of_i64 to_str (placements_of mgr) (CiRebuild entries) name" for name
    unfolding m(3) placements_clear(2) [OF refl]
    by (cases "placements_of mgr name") (auto simp: fun_eq_iff split: option.split)
  then show ?thesis using m(1,2) CiRebuild by (auto simp: index_rebuild_def)
qed (use index_add_ok [OF N inv] index_remove_ok [OF inv] placements_create [OF inv] placements_drop [OF inv] in auto)

lemma ci_run_ok:
  assumes N: "linear_numbers N" and "manager_inv mgr"
  shows "\<exists>mgr'. ci_run N of_i64 to_str mgr xs = Some mgr' \<and> manager_inv mgr'
     \<and> placements_of mgr' = foldl (ref_step N of_i64 to_str) (placements_of mgr) xs"
  using assms(2)
proof (induction xs arbitrary: mgr)
  case (Cons x xs)
  obtain m1 where m1: "ci_step N of_i64 to_str mgr x = Some m1" "manager_inv m1"
      "placements_of m1 = ref_step N of_i64 to_str (placements_of mgr) x"
    using ci_step_ok [OF N Cons.prems] by blast
  with Cons.IH [OF m1(2)] show ?case by simp
qed simp

text \<open>
  C20. The compound indexes refine a table of placements. From no index, every sequence of creating,
  dropping, adding, removing and rebuilding returns; afterwards a range over a group of an index
  lists exactly the documents whose last placement in that index is the group, each once, ordered by
  order value and then key; and a range over an index that does not exist is the error
  \<open>NotFound\<close>.
\<close>

theorem compound_index_refines:
  assumes "linear_numbers N" and "R = foldl (ref_step N of_i64 to_str) Map.empty xs"
  shows "\<exists>mgr. ci_run N of_i64 to_str [] xs = Some mgr \<and> (\<forall>name. case R name of
       None \<Rightarrow> \<forall>g opts. index_range to_str mgr name g opts = Some (Inl (NotFound name))
     | Some (info, P) \<Rightarrow> \<forall>g. \<exists>es. set es = {(ov, pk). P pk = Some (canonical_value to_str g, ov)} \<and> sorted es \<and> distinct es
         \<and> index_range to_str mgr name g range_options_default
             = Some (Inr (map (\<lambda>(ov, pk). \<lparr> cre_key = pk, cre_order_value = ov \<rparr>) es)))"
proof -
  have e: "manager_inv []" "placements_of [] = Map.empty" by (auto simp: manager_inv_def placements_of_def)
  obtain mgr where m: "ci_run N of_i64 to_str [] xs = Some mgr" "manager_inv mgr" "placements_of mgr = R"
    using ci_run_ok [OF assms(1) e(1), of of_i64 to_str xs] unfolding assms(2) e(2) by blast
  have "case R name of
       None \<Rightarrow> \<forall>g opts. index_range to_str mgr name g opts = Some (Inl (NotFound name))
     | Some (info, P) \<Rightarrow> \<forall>g. \<exists>es. set es = {(ov, pk). P pk = Some (canonical_value to_str g, ov)} \<and> sorted es \<and> distinct es
         \<and> index_range to_str mgr name g range_options_default
             = Some (Inr (map (\<lambda>(ov, pk). \<lparr> cre_key = pk, cre_order_value = ov \<rparr>) es))" for name
  proof (cases "R name")
    case None
    then have "imap_get mgr name = None" using m(3) by (auto simp: placements_of_def)
    with None show ?thesis by (simp add: index_range_def)
  next
    case (Some p)
    obtain info P where p: "p = (info, P)" by (cases p)
    have "placements_of mgr name = Some (info, P)" using m(3) Some p by simp
    from index_range_ok [OF m(2) this, of to_str] Some p show ?thesis by simp
  qed
  with m(1) show ?thesis by blast
qed

text \<open>Integers as the numbers and the doubles.\<close>

abbreviation int_numbers :: "(int, int) numbers" where
  "int_numbers \<equiv> \<lparr> num_as_f64 = Some, f64_eq = (=), f64_cmp = (\<lambda>a b. Some (cmp a b)), f64_finite = (\<lambda>_. True) \<rparr>"

lemma distinct_singleton: "set xs = {x} \<Longrightarrow> distinct xs \<Longrightarrow> xs = [x]"
proof (cases xs)
  case (Cons y ys)
  assume xs: "set xs = {x}" "distinct xs"
  then have y: "y = x" and "set ys \<subseteq> {x}" "y \<notin> set ys" using Cons by auto
  then have "ys = []" by (cases ys) auto
  then show ?thesis using Cons y by simp
qed simp

theorem compound_index_refines_witness:
  "linear_numbers int_numbers
   \<and> (\<exists>mgr. ci_run int_numbers id (\<lambda>_. lit ''x'') [] [CiDrop [1]] = Some mgr
        \<and> index_range (\<lambda>_. lit ''x'') mgr [1] (JNull :: int json) range_options_default = Some (Inl (NotFound [1])))
   \<and> (\<exists>mgr. ci_run int_numbers id (\<lambda>_. lit ''x'') []
          [CiCreate [1] \<lparr> cd_group_by = lit ''g'', cd_order_by = lit ''t'', cd_order_type = OtNumber \<rparr>,
           CiAdd [7] (JObject [(lit ''g'', JBool True), (lit ''t'', JNumber 5)]) None] = Some mgr
        \<and> index_range (\<lambda>_. lit ''x'') mgr [1] (JBool True :: int json) range_options_default
            = Some (Inr [\<lparr> cre_key = [7], cre_order_value = OvNumber 5 \<rparr>]))"
proof (intro conjI)
  have N: "linear_numbers int_numbers" by (simp add: linear_numbers_def)
  then show "linear_numbers int_numbers" .
  from compound_index_refines [OF N refl, of id "\<lambda>_. lit ''x''" "[CiDrop [1]]"]
  show "\<exists>mgr. ci_run int_numbers id (\<lambda>_. lit ''x'') [] [CiDrop [1]] = Some mgr
        \<and> index_range (\<lambda>_. lit ''x'') mgr [1] (JNull :: int json) range_options_default = Some (Inl (NotFound [1]))"
    by simp
  let ?i = "\<lparr> ci_name = [1], ci_group_by = lit ''g'', ci_order_by = lit ''t'', ci_order_type = OtNumber \<rparr>"
  let ?d = "JObject [(lit ''g'', JBool True), (lit ''t'', JNumber 5)]"
  let ?ops = "[CiCreate [1] \<lparr> cd_group_by = lit ''g'', cd_order_by = lit ''t'', cd_order_type = OtNumber \<rparr>, CiAdd [7] ?d None]"
  have pl: "placement int_numbers id (\<lambda>_. lit ''x'') ?i ?d None = Some (lit ''x'', OvNumber 5)" by code_simp
  have R: "foldl (ref_step int_numbers id (\<lambda>_. lit ''x'')) Map.empty ?ops [1]
      = Some (?i, [[7] \<mapsto> (lit ''x'', OvNumber 5)])"
    using pl by (simp add: moved_to_def)
  define P where "P = [[7 :: nat] \<mapsto> (lit ''x'', OvNumber (5 :: int))]"
  have R': "foldl (ref_step int_numbers id (\<lambda>_. lit ''x'')) Map.empty ?ops [1] = Some (?i, P)"
    using R by (simp only: P_def)
  obtain mgr where m0: "ci_run int_numbers id (\<lambda>_. lit ''x'') [] ?ops = Some mgr"
      "\<forall>g :: int json. \<exists>es. set es = {(ov, pk). P pk = Some (canonical_value (\<lambda>_. lit ''x'') g, ov)} \<and> sorted es \<and> distinct es
         \<and> index_range (\<lambda>_. lit ''x'') mgr [1] g range_options_default
             = Some (Inr (map (\<lambda>(ov, pk). \<lparr> cre_key = pk, cre_order_value = ov \<rparr>) es))"
    using compound_index_refines [OF N refl, of id "\<lambda>_. lit ''x''" ?ops]
    by (elim exE conjE) (rule that, assumption, drule spec [of _ "[1]"], simp only: R' option.case prod.case simp_thms)
  then obtain es where m: "set es = {(ov, pk). P pk = Some (canonical_value (\<lambda>_. lit ''x'') (JBool True :: int json), ov)}"
      "distinct es" "index_range (\<lambda>_. lit ''x'') mgr [1] (JBool True :: int json) range_options_default
             = Some (Inr (map (\<lambda>(ov, pk). \<lparr> cre_key = pk, cre_order_value = ov \<rparr>) es))"
    by blast
  have "set es = {(OvNumber 5, [7])}" unfolding m(1) by (auto simp: P_def split: if_splits)
  then have "es = [(OvNumber 5, [7])]" using m(2) by (rule distinct_singleton)
  with m0(1) m(3) show "\<exists>mgr. ci_run int_numbers id (\<lambda>_. lit ''x'') [] ?ops = Some mgr
        \<and> index_range (\<lambda>_. lit ''x'') mgr [1] (JBool True :: int json) range_options_default
            = Some (Inr [\<lparr> cre_key = [7], cre_order_value = OvNumber 5 \<rparr>])" by simp
qed

text \<open>Objects with one entry per key, at every depth.\<close>

function json_wf :: "'n json \<Rightarrow> bool" where
  "json_wf (JArray xs) = list_all json_wf xs"
| "json_wf (JObject m) = (imap_wf m \<and> list_all (\<lambda>(_, v). json_wf v) m)"
| "json_wf JNull = True" | "json_wf (JBool b) = True"
| "json_wf (JNumber n) = True" | "json_wf (JString s) = True"
  by pat_completeness auto
termination
  by (relation "measure size") (auto dest!: json_size_array json_size_object)

lemma sort_key_same_keys:
  fixes m m' :: "(str \<times> 'a) list"
  assumes "imap_wf m" and "imap_wf m'" and "fst ` set m = fst ` set m'"
  shows "map fst (sort_key fst m) = map fst (sort_key fst m')"
  using assms by (intro sorted_distinct_set_unique) (simp_all add: distinct_map inj_on_def)

lemma canonical_value_eq:
  "json_eq a b \<Longrightarrow> json_wf a \<Longrightarrow> json_wf b \<Longrightarrow> canonical_value s a = canonical_value s b"
proof (induction a b rule: json_eq.induct)
  case (1 xs ys)
  have "canonical_value s (xs ! i) = canonical_value s (ys ! i)" if "i < length xs" for i
  proof (rule "1.IH")
    show "(xs ! i, ys ! i) \<in> set (zip xs ys)" using that "1.prems" by (auto simp: set_zip)
  qed (use that "1.prems" in \<open>auto simp: list_all_length\<close>)
  then have "map (canonical_value s) xs = map (canonical_value s) ys"
    using "1.prems"(1) by (auto intro!: nth_equalityI)
  then show ?case by simp
next
  case (2 m m')
  have rel: "\<exists>y. imap_get m' k = Some y \<and> canonical_value s x = canonical_value s y" if "(k, x) \<in> set m" for k x
  proof -
    have "case imap_get m' k of None \<Rightarrow> False | Some y \<Rightarrow> json_eq x y"
      using "2.prems"(1) that by (auto simp: list_all_iff)
    then obtain y where y: "imap_get m' k = Some y" "json_eq x y" by (auto split: option.splits)
    then have "(k, y) \<in> set m'" by (auto dest: map_of_SomeD)
    then have "canonical_value s x = canonical_value s y"
      using "2.IH" [OF that refl y(1) y(2)] that "2.prems"(2,3) by (auto simp: list_all_iff)
    with y(1) show ?thesis by blast
  qed
  have wf: "imap_wf m" "imap_wf m'" using "2.prems" by auto
  have "fst ` set m \<subseteq> fst ` set m'" using rel by (force dest: map_of_SomeD)
  moreover have "card (fst ` set m) = card (fst ` set m')"
    using wf "2.prems"(1) distinct_card [of "map fst m"] distinct_card [of "map fst m'"] by simp
  ultimately have keys: "fst ` set m = fst ` set m'" by (intro card_subset_eq) auto
  note same = sort_key_same_keys [OF wf keys]
  have "map (\<lambda>(k, v). s (JString k) @ lit '':'' @ canonical_value s v) (sort_key fst m)
      = map (\<lambda>(k, v). s (JString k) @ lit '':'' @ canonical_value s v) (sort_key fst m')"
  proof (rule nth_equalityI)
    show "length (map (\<lambda>(k, v). s (JString k) @ lit '':'' @ canonical_value s v) (sort_key fst m))
        = length (map (\<lambda>(k, v). s (JString k) @ lit '':'' @ canonical_value s v) (sort_key fst m'))"
      using "2.prems"(1) by simp
    fix i assume "i < length (map (\<lambda>(k, v). s (JString k) @ lit '':'' @ canonical_value s v) (sort_key fst m))"
    then have i: "i < length m" "i < length m'" using "2.prems"(1) by auto
    obtain k x where kx: "sort_key fst m ! i = (k, x)" by (cases "sort_key fst m ! i")
    obtain k' y where ky: "sort_key fst m' ! i = (k', y)" by (cases "sort_key fst m' ! i")
    have "k = k'" using arg_cong [OF same, of "\<lambda>l. l ! i"] i kx ky by simp
    have "(k, x) \<in> set m" using kx i by (metis length_sort nth_mem set_sort)
    moreover have "(k', y) \<in> set m'" using ky i by (metis length_sort nth_mem set_sort)
    ultimately have "canonical_value s x = canonical_value s y"
      using rel [of k x] \<open>k = k'\<close> wf(2) by auto
    then show "map (\<lambda>(k, v). s (JString k) @ lit '':'' @ canonical_value s v) (sort_key fst m) ! i
        = map (\<lambda>(k, v). s (JString k) @ lit '':'' @ canonical_value s v) (sort_key fst m') ! i"
      using i kx ky \<open>k = k'\<close> by simp
  qed
  then show ?case by (simp del: map_eq_conv)
qed auto

text \<open>
  Documents are grouped by value: two JSON values that are equal as \<open>serde_json\<close> compares them, with
  objects taken as maps whatever the order their keys were written in, have the same canonical text,
  so they fall into the same group.
\<close>

lemma canonical_value_order:
  assumes "json_eq a b" and "json_wf a" and "json_wf b"
  shows "canonical_value to_str a = canonical_value to_str b"
  using assms by (rule canonical_value_eq)

end
