(* ===== verification/Wal.thy ===== *)
theory Wal
  imports Query
begin

text \<open>
  The write-ahead log of \<open>wal.rs\<close>. One record holds \<open>WalInner\<close> with its \<open>WalState\<close>, the bytes
  of the file on disk, the local state of the flush task, and the completions sent so far: the
  sender half of a one-shot channel is a number. The critical sections of the code are the
  steps of the model; \<open>append_loc\<close>, \<open>seal\<close> and \<open>close\<close> may run between any two steps of the
  flush task. The results of the file system (success, a partial write, a failing sync, a rollback that
  fails at any of its four calls) are arguments.
\<close>

section \<open>Definitions\<close>

datatype fsync_policy = FsyncAlways | FsyncEverySecond | FsyncNo

record wal_stats =
  bytes_written :: nat
  fsyncs :: nat

record wal_options =
  wo_fsync_policy :: fsync_policy
  wo_stats :: "wal_stats option"

definition wal_options_default :: wal_options where
  "wal_options_default = \<lparr> wo_fsync_policy = FsyncEverySecond, wo_stats = None \<rparr>"

datatype wal_error = WalClosed | WalSealed | WalNotOpen | WalIo str | WalCompletionClosed

fun error_code :: "wal_error \<Rightarrow> str option" where
  "error_code WalSealed = Some (lit ''WAL_SEALED'')"
| "error_code _ = None"

record pending_write =
  pw_bytes :: bytes
  pw_completion :: nat

record batch_write_failure =
  bf_message :: str
  bf_rollback_failed :: bool

text \<open>Where the flush task is: not running, at the head of its loop, about to write, or about to report.\<close>

datatype flush_task =
    Idle
  | Ready
  | Writing "pending_write list" nat
  | Reporting "pending_write list" nat "batch_write_failure option"

record wal =
  w_policy :: fsync_policy
  w_stats :: "wal_stats option"
  w_size :: nat
  w_next_offset :: nat
  w_queue :: "pending_write list"
  w_flushing :: bool
  w_failed :: "str option"
  w_sealed :: bool
  w_closed :: bool
  w_open :: bool
  w_file :: bool
  w_timer :: bool
  w_task :: flush_task
  w_disk :: bytes
  w_sent :: "(nat \<times> (wal_error + unit)) list"
  w_channels :: nat

definition wal_new :: "wal_options \<Rightarrow> bytes \<Rightarrow> wal" where
  "wal_new options disk = \<lparr> w_policy = wo_fsync_policy options, w_stats = wo_stats options, w_size = 0,
     w_next_offset = 0, w_queue = [], w_flushing = False, w_failed = None, w_sealed = False,
     w_closed = False, w_open = False, w_file = False, w_timer = False, w_task = Idle, w_disk = disk,
     w_sent = [], w_channels = 0 \<rparr>"

definition saturating_add :: "nat \<Rightarrow> nat \<Rightarrow> nat" where
  "saturating_add a b = min (a + b) (2 ^ 64 - 1)"

definition increment_fsyncs :: "wal \<Rightarrow> wal" where
  "increment_fsyncs w = w\<lparr> w_stats := map_option (\<lambda>s. s\<lparr> fsyncs := fsyncs s + 1 \<rparr>) (w_stats w) \<rparr>"

text \<open>\<open>io\<close> is the first failing call of \<open>open_append_file\<close> and \<open>metadata\<close>, if any.\<close>

definition wal_open :: "wal \<Rightarrow> str option \<Rightarrow> (wal_error + unit) \<times> wal" where
  "wal_open w io =
     (if w_open w then (Inr (), w)
      else (case io of
              Some e \<Rightarrow> (Inl (WalIo e), w)
            | None \<Rightarrow>
                (let size = length (w_disk w);
                     w = w\<lparr> w_file := True, w_size := size, w_next_offset := size, w_failed := None,
                            w_open := True, w_closed := False, w_sealed := False \<rparr>
                 in (Inr (), if w_policy w = FsyncEverySecond then w\<lparr> w_timer := True \<rparr> else w))))"

definition seal :: "wal \<Rightarrow> wal" where
  "seal w = w\<lparr> w_sealed := True \<rparr>"

text \<open>Returns the offset and the receiver of the completion.\<close>

definition append_loc :: "wal \<Rightarrow> bytes \<Rightarrow> (wal_error + nat \<times> nat) \<times> wal" where
  "append_loc w frame =
     (if w_closed w then (Inl WalClosed, w)
      else if w_sealed w then (Inl WalSealed, w)
      else if \<not> w_open w then (Inl WalNotOpen, w)
      else (case w_failed w of
              Some message \<Rightarrow> (Inl (WalIo message), w)
            | None \<Rightarrow>
                (let completion = w_channels w; offset = w_next_offset w;
                     w = w\<lparr> w_channels := completion + 1,
                            w_next_offset := saturating_add (w_next_offset w) (length frame),
                            w_queue := w_queue w @ [\<lparr> pw_bytes = frame, pw_completion = completion \<rparr>] \<rparr>;
                     w = (if \<not> w_flushing w then w\<lparr> w_flushing := True, w_task := Ready \<rparr> else w)
                 in (Inr (offset, completion), w))))"

text \<open>What the receiver of a completion gets, once something was sent.\<close>

definition append_done :: "wal \<Rightarrow> nat \<Rightarrow> (wal_error + unit) option" where
  "append_done w completion = map_of (w_sent w) completion"

definition refresh_size :: "wal \<Rightarrow> str option \<Rightarrow> (wal_error + unit) \<times> wal" where
  "refresh_size w io =
     (if \<not> w_file w then (Inl WalNotOpen, w)
      else (case io of
              Some e \<Rightarrow> (Inl (WalIo e), w)
            | None \<Rightarrow> (Inr (), w\<lparr> w_size := length (w_disk w), w_next_offset := length (w_disk w) \<rparr>)))"

definition sync_inner :: "wal \<Rightarrow> str option \<Rightarrow> (wal_error + unit) \<times> wal" where
  "sync_inner w io =
     (if \<not> w_file w then (Inl WalNotOpen, w)
      else (case io of Some e \<Rightarrow> (Inl (WalIo e), w) | None \<Rightarrow> (Inr (), increment_fsyncs w)))"

text \<open>One round of the timer.\<close>

definition sync_tick :: "wal \<Rightarrow> str option \<Rightarrow> wal" where
  "sync_tick w io = (if w_closed w then w\<lparr> w_timer := False \<rparr> else snd (sync_inner w io))"

text \<open>One look of \<open>flush\<close> at the state: \<open>None\<close> while it has to wait.\<close>

definition flush_status :: "wal \<Rightarrow> (wal_error + unit) option" where
  "flush_status w =
     (if w_queue w = [] \<and> \<not> w_flushing w
      then Some (case w_failed w of None \<Rightarrow> Inr () | Some message \<Rightarrow> Inl (WalIo message))
      else None)"

text \<open>\<open>close\<close> before and after it waits for the flush; \<open>None\<close> for a call that goes on to wait.\<close>

definition close_begin :: "wal \<Rightarrow> (wal_error + unit) option \<times> wal" where
  "close_begin w =
     (if w_closed w then (Some (Inr ()), w)
      else if \<not> w_open w then (Some (Inr ()), w\<lparr> w_closed := True \<rparr>)
      else (None, w\<lparr> w_closed := True, w_timer := False \<rparr>))"

definition close_end :: "wal \<Rightarrow> (wal_error + unit) \<Rightarrow> str option \<Rightarrow> (wal_error + unit) \<times> wal" where
  "close_end w flush_result io =
     (let (sync_result, w) = sync_inner w io; w = w\<lparr> w_file := False, w_open := False \<rparr>
      in (case flush_result of Inl e \<Rightarrow> Inl e | Inr _ \<Rightarrow> sync_result, w))"

section \<open>The flush task\<close>

definition flush_take :: "wal \<Rightarrow> wal" where
  "flush_take w =
     (if w_queue w = [] then w\<lparr> w_flushing := False, w_task := Idle \<rparr>
      else w\<lparr> w_queue := [], w_task := Writing (w_queue w) (w_size w) \<rparr>)"

definition combined :: "pending_write list \<Rightarrow> bytes" where
  "combined batch = concat (map pw_bytes batch)"

text \<open>
  What the file system does with a batch: it writes a prefix and fails, fails to sync after writing
  everything, or succeeds; and what it does with the rollback.
\<close>

datatype write_outcome = WriteOk | WriteFails nat str | SyncFails str

datatype rollback_outcome = RollbackOk | OpenFails str | SetLenFails str | SyncAllFails str | ReopenFails str

fun write_disk :: "fsync_policy \<Rightarrow> bytes \<Rightarrow> bytes \<Rightarrow> write_outcome \<Rightarrow> str option \<times> bytes" where
  "write_disk policy disk bs WriteOk = (None, disk @ bs)"
| "write_disk policy disk bs (WriteFails n e) = (Some e, disk @ take n bs)"
| "write_disk policy disk bs (SyncFails e) = (if policy = FsyncAlways then Some e else None, disk @ bs)"

definition set_len :: "nat \<Rightarrow> bytes \<Rightarrow> bytes" where
  "set_len n bs = take n bs @ replicate (n - length bs) 0"

fun rollback_file :: "bytes \<Rightarrow> nat \<Rightarrow> rollback_outcome \<Rightarrow> str option \<times> bytes" where
  "rollback_file disk offset RollbackOk = (None, set_len offset disk)"
| "rollback_file disk offset (OpenFails e) = (Some e, disk)"
| "rollback_file disk offset (SetLenFails e) = (Some e, disk)"
| "rollback_file disk offset (SyncAllFails e) = (Some e, set_len offset disk)"
| "rollback_file disk offset (ReopenFails e) = (Some e, set_len offset disk)"

definition write_batch ::
  "wal \<Rightarrow> bytes \<Rightarrow> nat \<Rightarrow> write_outcome \<Rightarrow> rollback_outcome \<Rightarrow> batch_write_failure option \<times> wal" where
  "write_batch w bs batch_start wo ro =
     (if \<not> w_file w
      then (Some \<lparr> bf_message = lit ''WAL is not open'', bf_rollback_failed = True \<rparr>, w)
      else
        (case write_disk (w_policy w) (w_disk w) bs wo of
           (None, disk) \<Rightarrow>
             (let w = w\<lparr> w_disk := disk \<rparr>
              in (None, if w_policy w = FsyncAlways then increment_fsyncs w else w))
         | (Some error, disk) \<Rightarrow>
             (case rollback_file disk batch_start ro of
                (None, disk) \<Rightarrow>
                  (Some \<lparr> bf_message = error, bf_rollback_failed = False \<rparr>, increment_fsyncs (w\<lparr> w_disk := disk \<rparr>))
              | (Some rollback_error, disk) \<Rightarrow>
                  (Some \<lparr> bf_message = error @ lit ''; failed to roll back WAL to offset '' @ digits batch_start
                            @ lit '': '' @ rollback_error, bf_rollback_failed = True \<rparr>,
                   w\<lparr> w_disk := disk, w_file := False \<rparr>))))"

definition send_all :: "pending_write list \<Rightarrow> (wal_error + unit) \<Rightarrow> wal \<Rightarrow> wal" where
  "send_all ps r w = w\<lparr> w_sent := w_sent w @ map (\<lambda>p. (pw_completion p, r)) ps \<rparr>"

definition flush_report :: "wal \<Rightarrow> pending_write list \<Rightarrow> nat \<Rightarrow> batch_write_failure option \<Rightarrow> wal" where
  "flush_report w batch batch_start failure =
     (case failure of
        None \<Rightarrow>
          (let byte_count = length (combined batch)
           in send_all batch (Inr ()) (w\<lparr> w_size := saturating_add batch_start byte_count,
                w_stats := map_option (\<lambda>s. s\<lparr> bytes_written := bytes_written s + byte_count \<rparr>) (w_stats w),
                w_task := Ready \<rparr>))
      | Some f \<Rightarrow>
          (let queued = w_queue w;
               w = w\<lparr> w_size := batch_start, w_next_offset := batch_start, w_queue := [], w_task := Ready \<rparr>;
               w = (if bf_rollback_failed f
                    then w\<lparr> w_failed := Some (bf_message f), w_flushing := False, w_task := Idle \<rparr> else w)
           in send_all (batch @ queued) (Inl (WalIo (bf_message f))) w))"

text \<open>One critical section of \<open>flush_loop\<close>, with the file system's answers to a write.\<close>

definition flush_step :: "write_outcome \<Rightarrow> rollback_outcome \<Rightarrow> wal \<Rightarrow> wal" where
  "flush_step wo ro w =
     (case w_task w of
        Idle \<Rightarrow> w
      | Ready \<Rightarrow> flush_take w
      | Writing batch start \<Rightarrow>
          (let (failure, w) = write_batch w (combined batch) start wo ro
           in w\<lparr> w_task := Reporting batch start failure \<rparr>)
      | Reporting batch start failure \<Rightarrow> flush_report w batch start failure)"

section \<open>The log as a transition system\<close>

text \<open>
  A configuration is the log together with the appends accepted so far: receiver, offset and frame.
  The guard of an accepted append says that file positions stay below \<open>2 ^ 64\<close>. \<open>refresh_size\<close> is
  called on a quiet log only (after recovery has truncated the file, before the first write).
\<close>

type_synonym issued = "(nat, nat \<times> bytes) imap"

inductive wal_step :: "wal \<times> issued \<Rightarrow> wal \<times> issued \<Rightarrow> bool" where
  accepted: "append_loc w frame = (Inr (off, c), w') \<Longrightarrow> w_next_offset w + length frame < 2 ^ 64
     \<Longrightarrow> wal_step (w, I) (w', (c, off, frame) # I)"
| rejected: "append_loc w frame = (Inl e, w') \<Longrightarrow> wal_step (w, I) (w', I)"
| flushed: "wal_step (w, I) (flush_step wo ro w, I)"
| sealed: "wal_step (w, I) (seal w, I)"
| opened: "wal_step (w, I) (snd (wal_open w io), I)"
| synced: "wal_step (w, I) (snd (sync_inner w io), I)"
| ticked: "wal_step (w, I) (sync_tick w io, I)"
| refreshed: "flush_status w \<noteq> None \<Longrightarrow> wal_step (w, I) (snd (refresh_size w io), I)"
| closing: "wal_step (w, I) (snd (close_begin w), I)"
| closed: "w_closed w \<Longrightarrow> w_open w \<Longrightarrow> flush_status w = Some r \<Longrightarrow> wal_step (w, I) (snd (close_end w r io), I)"

definition wal_reachable :: "wal_options \<Rightarrow> bytes \<Rightarrow> wal \<times> issued \<Rightarrow> bool" where
  "wal_reachable options disk = wal_step\<^sup>*\<^sup>* (wal_new options disk, [])"

text \<open>Appends not yet reported: the batch of the flush task, then the queue.\<close>

fun task_batch :: "flush_task \<Rightarrow> pending_write list" where
  "task_batch (Writing b s) = b"
| "task_batch (Reporting b s f) = b"
| "task_batch _ = []"

abbreviation waiting :: "wal \<Rightarrow> pending_write list" where
  "waiting w \<equiv> task_batch (w_task w) @ w_queue w"

fun laid_out :: "issued \<Rightarrow> nat \<Rightarrow> pending_write list \<Rightarrow> bool" where
  "laid_out I off [] \<longleftrightarrow> True"
| "laid_out I off (p # ps) \<longleftrightarrow> map_of I (pw_completion p) = Some (off, pw_bytes p)
     \<and> laid_out I (off + length (pw_bytes p)) ps"

definition healthy :: "wal \<Rightarrow> bool" where
  "healthy w \<longleftrightarrow> w_open w \<and> w_failed w = None"

definition files_ok :: "wal \<Rightarrow> bool" where
  "files_ok w \<longleftrightarrow> w_size w \<le> length (w_disk w) \<and>
     (case w_task w of
        Idle \<Rightarrow> \<not> w_flushing w \<and> w_queue w = [] \<and> (healthy w \<longrightarrow> w_file w \<and> length (w_disk w) = w_size w)
      | Ready \<Rightarrow> w_flushing w \<and> healthy w \<and> w_file w \<and> length (w_disk w) = w_size w
      | Writing b s \<Rightarrow> b \<noteq> [] \<and> w_flushing w \<and> healthy w \<and> w_file w \<and> length (w_disk w) = w_size w \<and> s = w_size w
      | Reporting b s None \<Rightarrow> b \<noteq> [] \<and> w_flushing w \<and> healthy w \<and> w_file w \<and> s = w_size w
          \<and> drop (w_size w) (w_disk w) = combined b
      | Reporting b s (Some f) \<Rightarrow> b \<noteq> [] \<and> w_flushing w \<and> healthy w \<and> s = w_size w
          \<and> (bf_rollback_failed f \<or> w_file w \<and> length (w_disk w) = w_size w))"

definition reporting_failure :: "wal \<Rightarrow> bool" where
  "reporting_failure w \<longleftrightarrow> (case w_task w of Reporting b s (Some f) \<Rightarrow> True | _ \<Rightarrow> False)"

definition offsets_ok :: "wal \<Rightarrow> issued \<Rightarrow> bool" where
  "offsets_ok w I \<longleftrightarrow> (healthy w \<and> \<not> reporting_failure w \<longrightarrow>
     w_next_offset w = w_size w + length (combined (waiting w)) \<and> laid_out I (w_size w) (waiting w)
     \<and> (waiting w \<noteq> [] \<longrightarrow> w_next_offset w < 2 ^ 64))"

definition acked_ok :: "wal \<Rightarrow> issued \<Rightarrow> bool" where
  "acked_ok w I \<longleftrightarrow> (\<forall>c off frame. map_of I c = Some (off, frame) \<longrightarrow> append_done w c = Some (Inr ()) \<longrightarrow>
     off + length frame \<le> w_size w \<and> slice off (off + length frame) (w_disk w) = frame)"

definition channels_ok :: "wal \<Rightarrow> issued \<Rightarrow> bool" where
  "channels_ok w I \<longleftrightarrow> distinct (map fst (w_sent w) @ map pw_completion (waiting w))
     \<and> fst ` set (w_sent w) \<union> pw_completion ` set (waiting w) = {..<w_channels w}
     \<and> fst ` set I = {..<w_channels w}"

definition wal_inv :: "wal \<times> issued \<Rightarrow> bool" where
  "wal_inv wi \<longleftrightarrow> (case wi of (w, I) \<Rightarrow> files_ok w \<and> offsets_ok w I \<and> acked_ok w I \<and> channels_ok w I)"

lemma combined_simps [simp]:
  "combined [] = []" "combined (p # ps) = pw_bytes p @ combined ps" "combined (ps @ qs) = combined ps @ combined qs"
  by (simp_all add: combined_def)

lemma laid_out_append:
  "laid_out I off (ps @ qs) \<longleftrightarrow> laid_out I off ps \<and> laid_out I (off + length (combined ps)) qs"
  by (induction ps arbitrary: off) (auto simp: add.assoc)

lemma laid_out_fresh:
  "laid_out I off ps \<Longrightarrow> c \<notin> pw_completion ` set ps \<Longrightarrow> laid_out ((c, x) # I) off ps"
  by (induction ps arbitrary: off) auto

lemma slice_take: "b \<le> n \<Longrightarrow> slice a b (take n xs) = slice a b xs"
  by (simp add: slice_def drop_take min_def)

text \<open>The appends of a batch that was written are in the file at their offsets.\<close>

lemma laid_out_slice:
  assumes "laid_out I off ps" and "length pre = off" and "p \<in> set ps"
  shows "\<exists>o1. map_of I (pw_completion p) = Some (o1, pw_bytes p) \<and> o1 + length (pw_bytes p) \<le> off + length (combined ps)
     \<and> slice o1 (o1 + length (pw_bytes p)) (pre @ combined ps) = pw_bytes p"
  using assms
proof (induction ps arbitrary: off pre)
  case (Cons q ps)
  show ?case
  proof (cases "p = q")
    case True
    then show ?thesis using Cons.prems slice_mid [of pre "pw_bytes q" "combined ps"] by auto
  next
    case False
    then show ?thesis using Cons.IH [of "off + length (pw_bytes q)" "pre @ pw_bytes q"] Cons.prems by auto
  qed
qed simp

lemma wal_inv_new: "wal_inv (wal_new options disk, [])"
  by (simp add: wal_inv_def files_ok_def offsets_ok_def acked_ok_def channels_ok_def healthy_def wal_new_def)

section \<open>Every step keeps the invariant\<close>

lemmas inv_defs = files_ok_def offsets_ok_def acked_ok_def channels_ok_def healthy_def reporting_failure_def append_done_def

text \<open>Steps that touch none of the fields above but the statistics and flags.\<close>

lemma wal_inv_flags:
  assumes "wal_inv (w, I)" and "w_size w' = w_size w" "w_next_offset w' = w_next_offset w" "w_queue w' = w_queue w"
    "w_flushing w' = w_flushing w" "w_failed w' = w_failed w" "w_open w' = w_open w" "w_file w' = w_file w"
    "w_task w' = w_task w" "w_disk w' = w_disk w" "w_sent w' = w_sent w" "w_channels w' = w_channels w"
  shows "wal_inv (w', I)"
  using assms(1) unfolding wal_inv_def inv_defs prod.case assms(2-) .

lemma increment_fsyncs_fields [simp]:
  "w_size (increment_fsyncs w) = w_size w" "w_next_offset (increment_fsyncs w) = w_next_offset w"
  "w_queue (increment_fsyncs w) = w_queue w" "w_flushing (increment_fsyncs w) = w_flushing w"
  "w_failed (increment_fsyncs w) = w_failed w" "w_open (increment_fsyncs w) = w_open w"
  "w_file (increment_fsyncs w) = w_file w" "w_task (increment_fsyncs w) = w_task w"
  "w_disk (increment_fsyncs w) = w_disk w" "w_sent (increment_fsyncs w) = w_sent w"
  "w_channels (increment_fsyncs w) = w_channels w" "w_policy (increment_fsyncs w) = w_policy w"
  "w_closed (increment_fsyncs w) = w_closed w"
  by (simp_all add: increment_fsyncs_def)

lemma wal_inv_sync: "wal_inv (w, I) \<Longrightarrow> wal_inv (snd (sync_inner w io), I)"
  by (erule wal_inv_flags) (simp_all add: sync_inner_def split: option.split)

lemma wal_inv_append:
  assumes inv: "wal_inv (w, I)" and a: "append_loc w frame = (Inr (off, c), w')"
    and bound: "w_next_offset w + length frame < 2 ^ 64"
  shows "wal_inv (w', (c, off, frame) # I)"
proof -
  have h: "healthy w" and c: "c = w_channels w" and off: "off = w_next_offset w"
    and w': "w' = (let w1 = w\<lparr> w_channels := w_channels w + 1, w_next_offset := w_next_offset w + length frame,
                            w_queue := w_queue w @ [\<lparr> pw_bytes = frame, pw_completion = w_channels w \<rparr>] \<rparr>
                   in if \<not> w_flushing w then w1\<lparr> w_flushing := True, w_task := Ready \<rparr> else w1)"
    using a bound by (auto simp: append_loc_def healthy_def saturating_add_def Let_def split: if_splits option.splits)
  have f: "files_ok w" and o: "offsets_ok w I" and ack: "acked_ok w I" and ch: "channels_ok w I"
    using inv by (auto simp: wal_inv_def)
  have idle: "\<not> w_flushing w \<longleftrightarrow> w_task w = Idle" using f by (auto simp: files_ok_def split: flush_task.splits option.splits)
  have wait: "waiting w' = waiting w @ [\<lparr> pw_bytes = frame, pw_completion = c \<rparr>]"
    using idle by (auto simp: w' c Let_def)
  have fields: "w_size w' = w_size w" "w_disk w' = w_disk w" "w_sent w' = w_sent w" "w_channels w' = Suc c"
      "healthy w' = healthy w" "w_next_offset w' = w_next_offset w + length frame" "w_file w' = w_file w"
    by (simp_all add: w' c healthy_def Let_def)
  have fresh: "c \<notin> pw_completion ` set (waiting w)" "c \<notin> fst ` set I" "c \<notin> fst ` set (w_sent w)"
    using ch by (auto simp: channels_ok_def c)
  have "files_ok w'"
    using f h by (cases "w_task w") (auto simp: files_ok_def w' healthy_def Let_def split: option.splits)
  moreover have "reporting_failure w' = reporting_failure w"
    using idle by (auto simp: w' Let_def reporting_failure_def)
  then have "offsets_ok w' ((c, off, frame) # I)"
    using o laid_out_fresh [OF _ fresh(1)] bound
    unfolding offsets_ok_def wait fields by (auto simp: laid_out_append off)
  moreover have "acked_ok w' ((c, off, frame) # I)"
    using ack fresh(3) unfolding acked_ok_def fields append_done_def by (auto simp: map_of_eq_None_iff [symmetric])
  moreover have "channels_ok w' ((c, off, frame) # I)"
    using ch fresh unfolding channels_ok_def wait fields by (auto simp: c)
  ultimately show ?thesis by (simp add: wal_inv_def)
qed

lemma wal_inv_take:
  assumes "wal_inv (w, I)" and "w_task w = Ready"
  shows "wal_inv (flush_take w, I)"
  using assms by (auto simp: wal_inv_def flush_take_def inv_defs)

text \<open>What a write leaves on disk: the acknowledged prefix, and the batch if it succeeded.\<close>

lemma write_batch_ok:
  assumes "w_file w" and "length (w_disk w) = n" and "write_batch w bs n wo ro = (failure, w')"
  shows "take n (w_disk w') = w_disk w" and "failure = None \<Longrightarrow> w_file w' \<and> w_disk w' = w_disk w @ bs"
    and "failure = Some f \<Longrightarrow> bf_rollback_failed f \<or> w_file w' \<and> w_disk w' = w_disk w"
    and "w' = w\<lparr> w_disk := w_disk w', w_file := w_file w', w_stats := w_stats w' \<rparr>" and "n \<le> length (w_disk w')"
proof -
  have roll: "snd (rollback_file (w_disk w @ xs) n ro) = w_disk w \<or> snd (rollback_file (w_disk w @ xs) n ro) = w_disk w @ xs"
    "fst (rollback_file (w_disk w @ xs) n ro) = None \<Longrightarrow> snd (rollback_file (w_disk w @ xs) n ro) = w_disk w" for xs
    using assms(2) by (cases ro; simp add: set_len_def)+
  obtain xs where xs: "snd (write_disk (w_policy w) (w_disk w) bs wo) = w_disk w @ xs"
      "fst (write_disk (w_policy w) (w_disk w) bs wo) = None \<Longrightarrow> xs = bs"
    by (cases wo) auto
  note split = prod.splits option.splits if_splits
  show 1: "take n (w_disk w') = w_disk w"
    using assms roll [of xs] xs by (auto simp: write_batch_def Let_def split: split)
  show "failure = None \<Longrightarrow> w_file w' \<and> w_disk w' = w_disk w @ bs"
    using assms xs by (auto simp: write_batch_def Let_def split: split)
  show "failure = Some f \<Longrightarrow> bf_rollback_failed f \<or> w_file w' \<and> w_disk w' = w_disk w"
    using assms roll [of xs] xs by (auto simp: write_batch_def Let_def split: split)
  show "w' = w\<lparr> w_disk := w_disk w', w_file := w_file w', w_stats := w_stats w' \<rparr>"
    using assms by (auto simp: write_batch_def Let_def increment_fsyncs_def split: split)
  show "n \<le> length (w_disk w')" using 1 assms(2) by (metis length_take min.cobounded1 min.commute)
qed

lemma wal_inv_write:
  assumes inv: "wal_inv (w, I)" and t: "w_task w = Writing b s" and wb: "write_batch w (combined b) s wo ro = (failure, w1)"
  shows "wal_inv (w1\<lparr> w_task := Reporting b s failure \<rparr>, I)"
proof -
  let ?w = "w1\<lparr> w_task := Reporting b s failure \<rparr>"
  have f: "w_file w" "length (w_disk w) = s" "s = w_size w" "healthy w" "w_flushing w" "b \<noteq> []"
    and o: "offsets_ok w I" and ack: "acked_ok w I" and ch: "channels_ok w I"
    using inv t by (auto simp: wal_inv_def files_ok_def)
  note ok = write_batch_ok [OF f(1,2) wb]
  have fields: "w_size ?w = w_size w" "w_next_offset ?w = w_next_offset w" "w_queue ?w = w_queue w" "w_sent ?w = w_sent w"
      "w_channels ?w = w_channels w" "healthy ?w = healthy w" "w_flushing ?w = w_flushing w" "waiting ?w = waiting w"
    by (subst ok(4), simp add: t healthy_def)+
  have "files_ok ?w"
  proof (cases failure)
    case None
    then show ?thesis using ok(2) f fields(1,6,7) by (simp add: files_ok_def)
  next
    case (Some g)
    then show ?thesis using ok(3) [OF Some] ok(5) f fields(1,6,7) by (auto simp: files_ok_def)
  qed
  moreover have "offsets_ok ?w I" using o t fields by (auto simp: offsets_ok_def reporting_failure_def)
  moreover have "acked_ok ?w I"
    unfolding acked_ok_def
  proof (intro allI impI)
    fix c off frame
    assume "map_of I c = Some (off, frame)" "append_done ?w c = Some (Inr ())"
    then have "off + length frame \<le> w_size w" "slice off (off + length frame) (w_disk w) = frame"
      using ack fields(4) by (auto simp: acked_ok_def append_done_def)
    then show "off + length frame \<le> w_size ?w \<and> slice off (off + length frame) (w_disk ?w) = frame"
      using ok(1) f(3) fields(1) slice_take [of "off + length frame" s off "w_disk w1"] by auto
  qed
  moreover have "channels_ok ?w I" using ch fields by (simp add: channels_ok_def)
  ultimately show ?thesis by (simp add: wal_inv_def)
qed

lemma append_done_send:
  assumes "distinct (map fst (w_sent w) @ map pw_completion ps)"
  shows "append_done (send_all ps r w) c = (if c \<in> pw_completion ` set ps then Some r else append_done w c)"
proof -
  have "map_of (map (\<lambda>p. (pw_completion p, r)) ps) c = (if c \<in> pw_completion ` set ps then Some r else None)"
    by (induction ps) auto
  moreover have "map_of (w_sent w) c = None" if "c \<in> pw_completion ` set ps"
    using assms that by (auto simp: map_of_eq_None_iff)
  ultimately show ?thesis
    by (auto simp: append_done_def send_all_def map_add_def split: option.split)
qed

lemma wal_inv_report_ok:
  assumes inv: "wal_inv (w, I)" and t: "w_task w = Reporting b s None"
  shows "wal_inv (flush_report w b s None, I)"
proof -
  let ?n = "length (combined b)"
  let ?w = "flush_report w b s None"
  have f: "w_file w" "s = w_size w" "healthy w" "w_flushing w" "drop (w_size w) (w_disk w) = combined b"
      "w_size w \<le> length (w_disk w)" "b \<noteq> []"
    and o: "offsets_ok w I" and ack: "acked_ok w I" and ch: "channels_ok w I"
    using inv t by (auto simp: wal_inv_def files_ok_def)
  have lay: "laid_out I (w_size w) b" "laid_out I (w_size w + ?n) (w_queue w)"
    and nx: "w_next_offset w = w_size w + ?n + length (combined (w_queue w))"
    and lt: "b @ w_queue w \<noteq> [] \<longrightarrow> w_next_offset w < 2 ^ 64"
    using o t f(3) by (auto simp: offsets_ok_def reporting_failure_def laid_out_append)
  have len: "length (w_disk w) = w_size w + ?n" using f(5,6) by (metis le_add_diff_inverse length_drop)
  have disk: "w_disk w = take (w_size w) (w_disk w) @ combined b" using f(5) by (metis append_take_drop_id)
  have size: "w_size ?w = w_size w + ?n"
    using f(2,7) nx lt by (simp add: flush_report_def send_all_def saturating_add_def Let_def)
  have fields: "w_next_offset ?w = w_next_offset w" "w_queue ?w = w_queue w" "w_channels ?w = w_channels w"
      "healthy ?w = healthy w" "w_flushing ?w = w_flushing w" "w_disk ?w = w_disk w" "w_task ?w = Ready" "w_file ?w = w_file w"
    by (simp_all add: flush_report_def send_all_def Let_def healthy_def)
  have sent: "w_sent ?w = w_sent w @ map (\<lambda>p. (pw_completion p, Inr ())) b"
    by (simp add: flush_report_def send_all_def Let_def)
  have "files_ok ?w" using f fields size len by (simp add: files_ok_def)
  moreover have "offsets_ok ?w I"
    unfolding offsets_ok_def fields size using lay nx lt by auto
  moreover have "acked_ok ?w I"
    unfolding acked_ok_def fields size
  proof (intro allI impI)
    fix c off frame
    assume c: "map_of I c = Some (off, frame)" "append_done ?w c = Some (Inr ())"
    show "off + length frame \<le> w_size w + ?n \<and> slice off (off + length frame) (w_disk w) = frame"
    proof (cases "c \<in> pw_completion ` set b")
      case True
      then obtain p where "p \<in> set b" "c = pw_completion p" by blast
      then show ?thesis
        using laid_out_slice [OF lay(1), of "take (w_size w) (w_disk w)" p] c(1) f(6) disk by auto
    next
      case False
      then have "map_of (map (\<lambda>p. (pw_completion p, Inr () :: wal_error + unit)) b) c = None"
        by (auto simp: map_of_eq_None_iff)
      then have "append_done w c = Some (Inr ())"
        using c(2) by (auto simp: append_done_def sent map_add_def split: option.splits)
      then show ?thesis using ack c(1) by (fastforce simp: acked_ok_def)
    qed
  qed
  moreover have "channels_ok ?w I"
    using ch t unfolding channels_ok_def sent fields by (auto simp: comp_def image_Un image_image)
  ultimately show ?thesis by (simp add: wal_inv_def)
qed

lemma wal_inv_report_failed:
  assumes inv: "wal_inv (w, I)" and t: "w_task w = Reporting b s (Some f)"
  shows "wal_inv (flush_report w b s (Some f), I)"
proof -
  let ?w = "flush_report w b s (Some f)"
  have fo: "s = w_size w" "healthy w" "w_flushing w" "w_size w \<le> length (w_disk w)"
      "bf_rollback_failed f \<or> w_file w \<and> length (w_disk w) = w_size w"
    and ack: "acked_ok w I" and ch: "channels_ok w I"
    using inv t by (auto simp: wal_inv_def files_ok_def)
  have fields: "w_queue ?w = []" "w_channels ?w = w_channels w" "w_size ?w = w_size w" "w_next_offset ?w = w_size w"
      "w_disk ?w = w_disk w" "w_file ?w = w_file w" "w_open ?w = w_open w"
      "w_task ?w = (if bf_rollback_failed f then Idle else Ready)"
      "w_flushing ?w = (\<not> bf_rollback_failed f)"
      "w_failed ?w = (if bf_rollback_failed f then Some (bf_message f) else None)"
      "w_sent ?w = w_sent w @ map (\<lambda>p. (pw_completion p, Inl (WalIo (bf_message f)))) (waiting w)"
    using fo(1,2,3) t by (auto simp: flush_report_def send_all_def Let_def healthy_def)
  have "files_ok ?w" using fo fields by (auto simp: files_ok_def healthy_def)
  moreover have "offsets_ok ?w I" using fields by (auto simp: offsets_ok_def)
  moreover have "acked_ok ?w I"
  proof -
    have "append_done ?w c = Some (Inr ()) \<Longrightarrow> append_done w c = Some (Inr ())" for c
      unfolding append_done_def fields by (auto simp: map_add_def split: option.splits dest: map_of_SomeD)
    then show ?thesis using ack unfolding acked_ok_def fields by blast
  qed
  moreover have "channels_ok ?w I"
    using ch unfolding channels_ok_def fields by (auto simp: comp_def image_Un image_image)
  ultimately show ?thesis by (simp add: wal_inv_def)
qed

lemma wal_inv_flush: "wal_inv (w, I) \<Longrightarrow> wal_inv (flush_step wo ro w, I)"
proof (cases "w_task w")
  case (Writing b s)
  assume "wal_inv (w, I)"
  obtain failure w1 where wb: "write_batch w (combined b) s wo ro = (failure, w1)"
    by (cases "write_batch w (combined b) s wo ro")
  with wal_inv_write [OF \<open>wal_inv (w, I)\<close> Writing] Writing show ?thesis by (simp add: flush_step_def)
next
  case (Reporting b s failure)
  assume "wal_inv (w, I)"
  then show ?thesis using Reporting wal_inv_report_ok wal_inv_report_failed
    by (cases failure) (auto simp: flush_step_def)
qed (auto simp: flush_step_def wal_inv_take)

lemma quiet_idle:
  assumes "wal_inv (w, I)"
  shows "flush_status w \<noteq> None \<longleftrightarrow> w_task w = Idle"
  using assms by (cases "w_task w") (auto simp: wal_inv_def files_ok_def flush_status_def split: option.splits)

lemma quiet_inv:
  assumes "w_task w = Idle"
  shows "wal_inv (w, I) \<longleftrightarrow> w_size w \<le> length (w_disk w) \<and> \<not> w_flushing w \<and> w_queue w = []
     \<and> (healthy w \<longrightarrow> w_file w \<and> length (w_disk w) = w_size w \<and> w_next_offset w = w_size w)
     \<and> acked_ok w I \<and> channels_ok w I"
  using assms by (auto simp: wal_inv_def files_ok_def offsets_ok_def reporting_failure_def)

lemma acked_ok_longer:
  assumes "acked_ok w I" and "w_disk w' = w_disk w" "w_sent w' = w_sent w" "w_size w \<le> w_size w'"
  shows "acked_ok w' I"
  using assms unfolding acked_ok_def append_done_def by fastforce

text \<open>A quiet log taken to a quiet log with the same file: opened, closed or refreshed.\<close>

lemma wal_inv_quiet:
  assumes inv: "wal_inv (w, I)" and idle: "w_task w = Idle"
    and same: "w_task w' = w_task w" "w_disk w' = w_disk w" "w_sent w' = w_sent w" "w_channels w' = w_channels w"
      "w_queue w' = w_queue w" "w_flushing w' = w_flushing w"
    and size: "w_size w' = w_size w \<or> w_size w' = length (w_disk w)"
    and h: "healthy w' \<Longrightarrow> w_file w' \<and> length (w_disk w) = w_size w' \<and> w_next_offset w' = w_size w'"
  shows "wal_inv (w', I)"
proof -
  note q = inv [unfolded quiet_inv [OF idle]]
  have "acked_ok w' I" using q size same by (intro acked_ok_longer [of w I w']) auto
  moreover have "channels_ok w' I" using q unfolding channels_ok_def same by blast
  ultimately show ?thesis using q size same h idle by (subst quiet_inv) auto
qed

lemma closed_idle: "wal_inv (w, I) \<Longrightarrow> \<not> w_open w \<Longrightarrow> w_task w = Idle"
  by (cases "w_task w") (auto simp: wal_inv_def files_ok_def healthy_def split: option.splits)

lemma wal_step_inv: "wal_step wi wi' \<Longrightarrow> wal_inv wi \<Longrightarrow> wal_inv wi'"
proof (induction rule: wal_step.induct)
  case (accepted w frame off c w' I)
  then show ?case by (intro wal_inv_append)
next
  case (rejected w frame e w' I)
  then have "w' = w" by (auto simp: append_loc_def Let_def split: if_splits option.splits)
  with rejected show ?case by simp
next
  case (flushed w I wo ro)
  then show ?case by (rule wal_inv_flush)
next
  case (sealed w I)
  then show ?case by (rule wal_inv_flags) (simp_all add: seal_def)
next
  case (opened w I io)
  show ?case
  proof (cases "w_open w \<or> io \<noteq> None")
    case True
    then show ?thesis using opened by (auto simp: wal_open_def)
  next
    case False
    then show ?thesis
      using opened closed_idle [OF opened]
      by (intro wal_inv_quiet [OF opened]) (auto simp: wal_open_def Let_def)
  qed
next
  case (synced w I io)
  then show ?case by (rule wal_inv_sync)
next
  case (ticked w I io)
  show ?case
  proof (cases "w_closed w")
    case True
    then show ?thesis by (intro wal_inv_flags [OF ticked]) (simp_all add: sync_tick_def)
  next
    case False
    then show ?thesis using wal_inv_sync [OF ticked] by (simp add: sync_tick_def)
  qed
next
  case (refreshed w I io)
  then have idle: "w_task w = Idle" using quiet_idle by blast
  show ?case
  proof (cases "w_file w \<and> io = None")
    case True
    then show ?thesis
      by (intro wal_inv_quiet [OF refreshed(2) idle]) (auto simp: refresh_size_def)
  next
    case False
    then show ?thesis using refreshed by (auto simp: refresh_size_def split: option.split)
  qed
next
  case (closing w I)
  then show ?case by (rule wal_inv_flags) (simp_all add: close_begin_def)
next
  case (closed w r I io)
  then have idle: "w_task w = Idle" using quiet_idle by (metis option.distinct(1))
  obtain sr w1 where w1: "sync_inner w io = (sr, w1)" by (cases "sync_inner w io")
  then have "wal_inv (w1, I)" "w_task w1 = Idle"
    using wal_inv_sync [OF closed(4), of io] idle by (auto simp: sync_inner_def split: if_splits option.splits)
  then have "wal_inv (w1\<lparr> w_file := False, w_open := False \<rparr>, I)"
    by (rule wal_inv_quiet) (simp_all add: healthy_def)
  then show ?case using w1 by (simp add: close_end_def)
qed

lemma wal_reachable_inv: "wal_reachable options disk wi \<Longrightarrow> wal_inv wi"
  unfolding wal_reachable_def
  by (induction rule: rtranclp_induct) (auto intro: wal_inv_new wal_step_inv)

section \<open>The properties\<close>


text \<open>A log with one append whose batch was written and reported.\<close>

abbreviation demo_wal :: wal where
  "demo_wal \<equiv> (flush_step WriteOk RollbackOk ^^ 3)
     (snd (append_loc (snd (wal_open (wal_new wal_options_default [9]) None)) [1, 2]))"

lemma demo_reachable: "wal_reachable wal_options_default [9] (demo_wal, [(0, 1, [1, 2])])"
proof -
  let ?w0 = "wal_new wal_options_default [9]"
  let ?w1 = "snd (wal_open ?w0 None)"
  let ?w2 = "snd (append_loc ?w1 [1, 2])"
  have f: "wal_step\<^sup>*\<^sup>* (w, I) ((flush_step WriteOk RollbackOk ^^ n) w, I)" for w I n
    by (induction n) (auto intro: flushed rtranclp.rtrancl_into_rtrancl)
  have o: "wal_step (?w0, []) (?w1, [])" by (rule opened)
  have "append_loc ?w1 [1, 2] = (Inr (1, 0), ?w2)"
    by (simp add: append_loc_def wal_open_def wal_new_def wal_options_default_def)
  moreover have "w_next_offset ?w1 + length [1 :: byte, 2] < 2 ^ 64"
    by (simp add: wal_open_def wal_new_def wal_options_default_def)
  ultimately have a: "wal_step (?w1, []) (?w2, [(0, 1, [1, 2])])" by (rule accepted)
  show ?thesis unfolding wal_reachable_def
    using converse_rtranclp_into_rtranclp [OF o converse_rtranclp_into_rtranclp [OF a f]] .
qed

lemma demo_done: "append_done demo_wal 0 = Some (Inr ())"
  by (simp add: numeral_3_eq_3 append_loc_def wal_open_def wal_new_def wal_options_default_def flush_step_def
    flush_take_def write_batch_def flush_report_def send_all_def append_done_def saturating_add_def Let_def combined_def)


text \<open>The flush task alone, with the file system's answers to each step.\<close>

fun flush_run :: "(write_outcome \<times> rollback_outcome) list \<Rightarrow> wal \<Rightarrow> wal" where
  "flush_run [] w = w"
| "flush_run ((wo, ro) # rest) w = flush_run rest (flush_step wo ro w)"

fun task_rank :: "flush_task \<Rightarrow> bool \<Rightarrow> nat" where
  "task_rank Idle e = 0"
| "task_rank Ready e = (if e then 1 else 4)"
| "task_rank (Writing b s) e = (if e then 3 else 6)"
| "task_rank (Reporting b s f) e = (if e then 2 else 5)"

definition flush_rank :: "wal \<Rightarrow> nat" where
  "flush_rank w = task_rank (w_task w) (w_queue w = [])"

lemma flush_rank_step: "flush_rank (flush_step wo ro w) \<le> flush_rank w - 1"
proof (cases "w_task w")
  case (Writing b s)
  obtain failure w1 where wb: "write_batch w (combined b) s wo ro = (failure, w1)"
    by (cases "write_batch w (combined b) s wo ro")
  then have "w_queue w1 = w_queue w"
    by (auto simp: write_batch_def Let_def split: if_splits prod.splits option.splits)
  then show ?thesis using wb Writing by (simp add: flush_step_def flush_rank_def)
next
  case (Reporting b s failure)
  then show ?thesis
    by (cases failure) (auto simp: flush_step_def flush_rank_def flush_report_def send_all_def Let_def)
qed (auto simp: flush_step_def flush_rank_def flush_take_def)

lemma flush_rank_run: "flush_rank (flush_run outs w) \<le> flush_rank w - length outs"
proof (induction outs w rule: flush_run.induct)
  case (2 wo ro rest w)
  then show ?case using flush_rank_step [of wo ro w] by simp
qed simp

lemma flush_run_reachable: "wal_reachable options disk (w, I) \<Longrightarrow> wal_reachable options disk (flush_run outs w, I)"
  unfolding wal_reachable_def
proof (induction outs w rule: flush_run.induct)
  case (2 wo ro rest w)
  have "wal_step\<^sup>*\<^sup>* (wal_new options disk, []) (flush_step wo ro w, I)"
    using "2.prems" by (rule rtranclp.rtrancl_into_rtrancl) (rule flushed)
  from "2.IH" [OF this] show ?case by simp
qed simp

text \<open>
  C16. Every accepted append is answered exactly once. In every reachable configuration no completion
  was sent twice, and an accepted append either has its completion or still waits in the batch of
  the flush task or in the queue, never both; and from there the flush task, left to run, answers
  everything within six steps, whatever the file system does, and stops with an empty queue.
\<close>

theorem wal_answers_all:
  assumes "wal_reachable options disk (w, I)" and "6 \<le> length outs" and "c \<in> fst ` set I"
  shows "distinct (map fst (w_sent w)) \<and> (append_done w c = None \<longleftrightarrow> c \<in> pw_completion ` set (waiting w))
     \<and> flush_status (flush_run outs w) \<noteq> None \<and> append_done (flush_run outs w) c \<noteq> None"
proof -
  have ans: "distinct (map fst (w_sent v)) \<and> (append_done v c = None \<longleftrightarrow> c \<in> pw_completion ` set (waiting v))"
    if "wal_inv (v, I)" for v
  proof -
    have ch: "distinct (map fst (w_sent v) @ map pw_completion (waiting v))"
        "fst ` set (w_sent v) \<union> pw_completion ` set (waiting v) = {..<w_channels v}" "fst ` set I = {..<w_channels v}"
      using that by (simp_all add: wal_inv_def channels_ok_def)
    then have "c \<in> fst ` set (w_sent v) \<union> pw_completion ` set (waiting v)" using assms(3) by blast
    moreover have "fst ` set (w_sent v) \<inter> pw_completion ` set (waiting v) = {}" using ch(1) by auto
    ultimately show ?thesis using ch(1) by (auto simp: append_done_def map_of_eq_None_iff)
  qed
  let ?w = "flush_run outs w"
  have inv: "wal_inv (?w, I)" using wal_reachable_inv [OF flush_run_reachable [OF assms(1)]] .
  have "flush_rank w \<le> 6" unfolding flush_rank_def by (cases "w_task w") auto
  then have "flush_rank ?w = 0" using flush_rank_run [of outs w] assms(2) by simp
  then have "w_task ?w = Idle" unfolding flush_rank_def by (cases "w_task ?w") (auto split: if_splits)
  then have "flush_status ?w \<noteq> None" "waiting ?w = []"
    using quiet_idle [OF inv] inv [unfolded quiet_inv [OF \<open>w_task ?w = Idle\<close>]] by auto
  then show ?thesis using ans [OF wal_reachable_inv [OF assms(1)]] ans [OF inv] by simp
qed

theorem wal_answers_all_witness:
  "flush_status (flush_run (replicate 6 (WriteFails 1 [], OpenFails [])) demo_wal) \<noteq> None
   \<and> append_done demo_wal 0 \<noteq> None"
  using wal_answers_all [OF demo_reachable, of "replicate 6 (WriteFails 1 [], OpenFails [])" 0] demo_done by simp

text \<open>
  The errors of \<open>append_loc\<close>. An append to a reachable log is rejected exactly when the log is
  closed, sealed, not open, or failed by a rollback that did not succeed; the cause is reported in
  this order, only \<open>Sealed\<close> has a code, and a rejected append changes nothing. Otherwise the offset
  returned is where the file will end once everything accepted before is written.
\<close>

lemma append_loc_result:
  assumes "wal_reachable options disk (w, I)"
  shows "case append_loc w frame of
       (Inl e, w') \<Rightarrow> w' = w \<and> (error_code e = Some (lit ''WAL_SEALED'') \<longleftrightarrow> w_sealed w \<and> \<not> w_closed w)
         \<and> e = (if w_closed w then WalClosed else if w_sealed w then WalSealed
                else if \<not> w_open w then WalNotOpen else WalIo (the (w_failed w)))
         \<and> (w_closed w \<or> w_sealed w \<or> \<not> w_open w \<or> w_failed w \<noteq> None)
     | (Inr (off, c), w') \<Rightarrow> \<not> w_closed w \<and> \<not> w_sealed w \<and> w_open w \<and> w_failed w = None
         \<and> c \<notin> fst ` set I \<and> flush_status w' = None
         \<and> (\<not> reporting_failure w \<longrightarrow> off = w_size w + length (combined (waiting w)))"
proof -
  have inv: "wal_inv (w, I)" using assms by (rule wal_reachable_inv)
  then have "c \<notin> fst ` set I" if "c = w_channels w" for c using that by (auto simp: wal_inv_def channels_ok_def)
  moreover have "healthy w \<and> \<not> reporting_failure w \<longrightarrow> w_next_offset w = w_size w + length (combined (waiting w))"
    using inv by (auto simp: wal_inv_def offsets_ok_def)
  ultimately show ?thesis
    by (auto simp: append_loc_def healthy_def flush_status_def Let_def split: option.split)
qed

text \<open>
  A log without failure is tight: whenever a reachable log is open, not failed and quiet (what
  \<open>flush\<close> waits for), its size, the next offset and the length of the file agree, and nothing waits.
\<close>

lemma wal_quiet_tight:
  assumes "wal_reachable options disk (w, I)" and "flush_status w = Some (Inr ())" and "w_open w"
  shows "w_size w = length (w_disk w) \<and> w_next_offset w = length (w_disk w) \<and> waiting w = [] \<and> w_file w"
proof -
  have inv: "wal_inv (w, I)" using assms(1) by (rule wal_reachable_inv)
  then have idle: "w_task w = Idle" using quiet_idle assms(2) by auto
  have "healthy w" using assms(2,3) by (auto simp: healthy_def flush_status_def split: if_splits option.splits)
  then show ?thesis using inv [unfolded quiet_inv [OF idle]] idle by auto
qed

end
