(* ===== verification/ValueReader.thy ===== *)
theory ValueReader
  imports CodecRefs Store
begin

text \<open>
  The positioned value reader of \<open>value_reader.rs\<close>. An open handle names a file by its inode; the
  directory entry of a path may change under it (a compaction renames a new file over it), and the
  content of an inode may grow. How many bytes one \<open>read\<close> delivers is the parameter \<open>rd\<close>, as for
  the scanner; the lock of a slot is never poisoned.
\<close>

section \<open>Definitions\<close>

datatype value_reader_error = VrNotOpen value_file | VrShortRead value_file nat | VrIo str

record value_reader =
  vr_snapshot :: "nat option"
  vr_wal :: "nat option"

definition value_reader_new :: value_reader where
  "value_reader_new = \<lparr> vr_snapshot = None, vr_wal = None \<rparr>"

text \<open>The directory: a path leads to an inode, to nothing, or fails to open.\<close>

datatype lookup = Missing | Unreadable str | Inode nat

fun open_if_exists :: "lookup \<Rightarrow> str + nat option" where
  "open_if_exists Missing = Inr None"
| "open_if_exists (Unreadable e) = Inl e"
| "open_if_exists (Inode i) = Inr (Some i)"

definition reopen_snapshot :: "(value_file \<Rightarrow> lookup) \<Rightarrow> value_reader \<Rightarrow> (value_reader_error + unit) \<times> value_reader" where
  "reopen_snapshot dir vr =
     (case open_if_exists (dir Snapshot) of
        Inl e \<Rightarrow> (Inl (VrIo e), vr) | Inr h \<Rightarrow> (Inr (), vr\<lparr> vr_snapshot := h \<rparr>))"

definition reopen_wal :: "(value_file \<Rightarrow> lookup) \<Rightarrow> value_reader \<Rightarrow> (value_reader_error + unit) \<times> value_reader" where
  "reopen_wal dir vr =
     (case open_if_exists (dir Wal) of
        Inl e \<Rightarrow> (Inl (VrIo e), vr) | Inr h \<Rightarrow> (Inr (), vr\<lparr> vr_wal := h \<rparr>))"

definition reopen_both :: "(value_file \<Rightarrow> lookup) \<Rightarrow> value_reader \<Rightarrow> (value_reader_error + unit) \<times> value_reader" where
  "reopen_both dir vr =
     (case reopen_snapshot dir vr of (Inl e, vr) \<Rightarrow> (Inl e, vr) | (Inr _, vr) \<Rightarrow> reopen_wal dir vr)"

definition reader_open :: "(value_file \<Rightarrow> lookup) \<Rightarrow> value_reader \<Rightarrow> (value_reader_error + unit) \<times> value_reader" where
  "reader_open dir vr =
     (case open_if_exists (dir Snapshot) of
        Inl e \<Rightarrow> (Inl (VrIo e), vr)
      | Inr h \<Rightarrow>
          (let vr = vr\<lparr> vr_snapshot := h \<rparr> in
           case open_if_exists (dir Wal) of
             Inl e \<Rightarrow> (Inl (VrIo e), vr) | Inr h \<Rightarrow> (Inr (), vr\<lparr> vr_wal := h \<rparr>)))"

definition reader_close :: "value_reader \<Rightarrow> value_reader" where
  "reader_close vr = vr\<lparr> vr_snapshot := None, vr_wal := None \<rparr>"

text \<open>
  The loop of \<open>read\<close>: a call at the end of the file delivers nothing, which is a short read.
\<close>

function read_loop :: "(nat \<Rightarrow> nat \<Rightarrow> nat) \<Rightarrow> value_file \<Rightarrow> bytes \<Rightarrow> nat \<Rightarrow> nat \<Rightarrow> bytes \<Rightarrow> value_reader_error + bytes" where
  "read_loop rd name content offset n outp =
     (if length outp < n then
        let position = offset + length outp;
            available = min (n - length outp) (length content - position);
            count = min (rd position available) available in
        if count = 0 then Inl (VrShortRead name position)
        else read_loop rd name content offset n (outp @ slice position (position + count) content)
      else Inr outp)"
  by pat_completeness auto
termination
proof (relation "measure (\<lambda>(rd, name, content, offset, n, outp). n - length outp)", goal_cases)
  case (2 rd name content offset n outp position available count)
  from 2(3,4) have "count \<le> length content - position" unfolding 2(3,4) by linarith
  with 2(5) have "length (slice position (position + count) content) = count" by (simp add: slice_def)
  with 2(1,5) show ?case by simp
qed simp

declare read_loop.simps [simp del]

definition reader_read ::
  "(nat \<Rightarrow> nat \<Rightarrow> nat) \<Rightarrow> (nat \<Rightarrow> bytes) \<Rightarrow> value_reader \<Rightarrow> value_loc \<Rightarrow> value_reader_error + bytes" where
  "reader_read rd content vr loc =
     (if loc_len loc = 0 then Inr []
      else (case (case loc_file loc of Snapshot \<Rightarrow> vr_snapshot vr | Wal \<Rightarrow> vr_wal vr) of
              None \<Rightarrow> Inl (VrNotOpen (loc_file loc))
            | Some i \<Rightarrow> read_loop rd (loc_file loc) (content i) (loc_offset loc) (loc_len loc) []))"

section \<open>A read is a slice\<close>

lemma read_loop_slice:
  assumes rd: "file_reads rd" and "outp = take (length outp) (slice offset (offset + n) content)"
    and "length outp \<le> n"
  shows "read_loop rd name content offset n outp =
     (if offset + n \<le> length content \<or> n = length outp then Inr (slice offset (offset + n) content)
      else Inl (VrShortRead name (max (length content) (offset + length outp))))"
  using assms(2,3)
proof (induction "n - length outp" arbitrary: outp rule: less_induct)
  case less
  note unfold = read_loop.simps [of rd name content offset n outp]
  let ?p = "offset + length outp"
  let ?a = "min (n - length outp) (length content - ?p)"
  let ?c = "min (rd ?p ?a) ?a"
  show ?case
  proof (cases "length outp < n")
    case False
    then have n: "n = length outp" using less.prems by simp
    then have "length (slice offset (offset + n) content) \<le> n" by (simp add: slice_def)
    then have "outp = slice offset (offset + n) content" using less.prems(1) n by simp
    then show ?thesis using n unfold by simp
  next
    case True
    show ?thesis
    proof (cases "?a = 0")
      case True': True
      then have "length content \<le> ?p" using True by (simp split: if_splits)
      then show ?thesis using True True' unfold by (simp add: Let_def max_def)
    next
      case False
      then have a: "0 < ?a" by simp
      define c where "c = ?c"
      have c: "0 < c" using a file_reads.rd_ge [OF rd, of ?a ?p] unfolding c_def by linarith
      have le: "c \<le> n - length outp" "?p + c \<le> length content" using a unfolding c_def by linarith+
      define out where "out = outp @ slice ?p (?p + c) content"
      have len: "length out = length outp + c" using le(2) by (simp add: out_def length_slice)
      have "out = take (length out) (slice offset (offset + n) content)"
      proof -
        have "outp = take (length outp) (drop offset content)"
          using less.prems by (simp add: slice_def min_def split: if_splits)
        then have "out = take (length outp) (drop offset content) @ take c (drop (length outp) (drop offset content))"
          by (simp add: out_def slice_def add.commute)
        also have "\<dots> = take (length outp + c) (drop offset content)" by (simp add: take_add)
        finally have "out = take (length outp + c) (drop offset content)" .
        moreover have "take (length outp + c) (slice offset (offset + n) content) = take (length outp + c) (drop offset content)"
          using le(1) True by (simp add: slice_def min_def)
        ultimately show ?thesis using len by metis
      qed
      then have "read_loop rd name content offset n out =
         (if offset + n \<le> length content \<or> n = length out then Inr (slice offset (offset + n) content)
          else Inl (VrShortRead name (max (length content) (offset + length out))))"
        using less.hyps [of out] c le len by simp
      moreover have "read_loop rd name content offset n outp = read_loop rd name content offset n out"
        using True c unfolding unfold out_def c_def Let_def by (simp only: if_True if_False less_numeral_extra(3) neq0_conv [symmetric] simp_thms)
      moreover have "offset + n \<le> length content" if "n = length out" using that len le by simp
      ultimately show ?thesis using True len le by (auto simp: max_def)
    qed
  qed
qed

text \<open>
  A positioned read returns exactly the addressed slice of the file behind the open handle, however
  the operating system splits it into reads; it always ends; and when the file is shorter it is a
  short read at the end of the file (or at the start of the range, when that is behind the end).
\<close>

lemma reader_read_slice:
  assumes "file_reads rd" and "loc_len loc > 0"
    and "(case loc_file loc of Snapshot \<Rightarrow> vr_snapshot vr | Wal \<Rightarrow> vr_wal vr) = Some i"
  shows "reader_read rd content vr loc =
     (case get_range (content i) (loc_offset loc) (loc_offset loc + loc_len loc) of
        Some bs \<Rightarrow> Inr bs
      | None \<Rightarrow> Inl (VrShortRead (loc_file loc) (max (length (content i)) (loc_offset loc))))"
  using assms(2,3) read_loop_slice [OF assms(1), of "[]" "loc_offset loc" "loc_len loc" "content i" "loc_file loc"]
  by (auto simp: reader_read_def get_range_def)

end
