(* ===== verification/Recovery.thy ===== *)
theory Recovery
  imports Query ValueReader
begin

text \<open>
  Recovery of the database from its snapshot and log, \<open>recovery.rs\<close>. A file is missing, cannot be
  opened, or has a content and an anchor (device and inode). The clock is a parameter: \<open>clock f off\<close>
  is the time read when the record of file \<open>f\<close> with its value at \<open>off\<close> is processed. The metadata
  document is read by \<open>serde_json\<close>: the parameter \<open>dt_field\<close> gives its \<open>dt\<close> member, or the
  error; what the visitor does with that member is modelled. A finite double is truncated to an
  integer by the parameter \<open>trunc\<close>.
\<close>

section \<open>Definitions\<close>

datatype value_mode = VmMemory | VmDisk

record wal_anchor =
  wa_device :: u64
  wa_inode :: u64

record recovery_info =
  ri_snapshot_frames :: nat
  ri_wal_frames :: nat
  ri_truncated_wal :: bool
  ri_corrupt_ranges :: "(nat \<times> nat) list"
  ri_snapshot_corrupt_ranges :: "(nat \<times> nat) list"
  ri_lost_bytes :: nat
  ri_wal_scan_end :: nat
  ri_wal_device :: u64
  ri_wal_inode :: u64

record catch_up_result =
  cu_offset :: nat
  cu_applied_frames :: nat

datatype recovered_op =
    RecSet bytes value_ref i64 "datetimes option"
  | RecDel bytes

datatype metadata_error = MetaJson str | MetaNotFinite str | MetaOutOfRange str | MetaType

datatype recovery_error = RecIo | RecCodec codec_error | RecMetadata metadata_error

record recovery_options =
  ro_mode :: corruption_mode
  ro_truncate :: bool
  ro_value_mode :: value_mode

definition recovery_options_new :: recovery_options where
  "recovery_options_new = \<lparr> ro_mode = Resync, ro_truncate = True, ro_value_mode = VmMemory \<rparr>"

record scanned_file =
  sf_operations :: "recovered_op list"
  sf_frames :: nat
  sf_corrupt_ranges :: "(nat \<times> nat) list"
  sf_scan_end :: nat
  sf_size :: nat
  sf_anchor :: wal_anchor

text \<open>The visitor of datetime metadata.\<close>

fun visit_map :: "('n, 'f) numbers \<Rightarrow> ('f \<Rightarrow> int) \<Rightarrow> (str \<times> 'n json) list \<Rightarrow> datetimes \<Rightarrow> metadata_error + datetimes" where
  "visit_map N trunc [] outp = Inr outp"
| "visit_map N trunc ((key, v) # rest) outp =
     (case as_f64 N v of
        None \<Rightarrow> Inl (MetaNotFinite key)
      | Some number \<Rightarrow>
          if \<not> f64_finite N number then Inl (MetaNotFinite key)
          else if trunc number < - (2 ^ 63) \<or> trunc number \<ge> 2 ^ 63
          then Inl (MetaOutOfRange key)
          else visit_map N trunc rest (imap_insert key (trunc number) outp))"

fun deserialize_datetimes :: "('n, 'f) numbers \<Rightarrow> ('f \<Rightarrow> int) \<Rightarrow> 'n json \<Rightarrow> metadata_error + datetimes option" where
  "deserialize_datetimes N trunc JNull = Inr None"
| "deserialize_datetimes N trunc (JObject m) = map_sum id Some (visit_map N trunc m [])"
| "deserialize_datetimes N trunc _ = Inl MetaType"

definition parse_meta ::
  "('n, 'f) numbers \<Rightarrow> ('f \<Rightarrow> int) \<Rightarrow> (bytes \<Rightarrow> str + 'n json option) \<Rightarrow> bytes option \<Rightarrow> metadata_error + datetimes option" where
  "parse_meta N trunc dt_field meta =
     (case meta of
        None \<Rightarrow> Inr None
      | Some bs \<Rightarrow> (case dt_field bs of
                      Inl e \<Rightarrow> Inl (MetaJson e)
                    | Inr None \<Rightarrow> Inr None
                    | Inr (Some v) \<Rightarrow> deserialize_datetimes N trunc v))"

definition read_at :: "bytes \<Rightarrow> nat \<Rightarrow> nat \<Rightarrow> recovery_error + bytes" where
  "read_at content offset n =
     (if n = 0 then Inr []
      else (case get_range content offset (offset + n) of None \<Rightarrow> Inl RecIo | Some bs \<Rightarrow> Inr bs))"

definition set_ref_to_ops ::
  "(bytes option \<Rightarrow> metadata_error + datetimes option) \<Rightarrow> (value_file \<Rightarrow> nat \<Rightarrow> i64) \<Rightarrow> bytes \<Rightarrow> nat \<Rightarrow> nat \<Rightarrow> bytes option \<Rightarrow> i64
   \<Rightarrow> value_file \<Rightarrow> bytes \<Rightarrow> value_mode \<Rightarrow> recovery_error + recovered_op list" where
  "set_ref_to_ops meta_of clock key value_offset value_len meta expire_at file_kind content vmode =
     (if expire_at \<noteq> 0 \<and> expire_at \<le> clock file_kind value_offset then Inr [RecDel key]
      else (case meta_of meta of
              Inl e \<Rightarrow> Inl (RecMetadata e)
            | Inr dts \<Rightarrow>
                (case (case vmode of
                         VmMemory \<Rightarrow> map_sum id Memory (read_at content value_offset value_len)
                       | VmDisk \<Rightarrow> Inr (Disk \<lparr> loc_file = file_kind, loc_offset = value_offset, loc_len = value_len \<rparr>)) of
                   Inl e \<Rightarrow> Inl e
                 | Inr vref \<Rightarrow> Inr [RecSet key vref expire_at dts])))"

fun batch_to_ops ::
  "(bytes option \<Rightarrow> metadata_error + datetimes option) \<Rightarrow> (value_file \<Rightarrow> nat \<Rightarrow> i64) \<Rightarrow> batch_op_ref list
   \<Rightarrow> value_file \<Rightarrow> bytes \<Rightarrow> value_mode \<Rightarrow> recovery_error + recovered_op list" where
  "batch_to_ops meta_of clock [] file_kind content vmode = Inr []"
| "batch_to_ops meta_of clock (r # rs) file_kind content vmode =
     (case (if br_type r = TYPE_SET
            then set_ref_to_ops meta_of clock (br_key r) (br_value_offset r) (br_value_len r) (br_meta r)
                   (br_expire_at r) file_kind content vmode
            else if br_type r = TYPE_DEL then Inr [RecDel (br_key r)]
            else Inr []) of
        Inl e \<Rightarrow> Inl e
      | Inr ops \<Rightarrow> map_sum id (append ops) (batch_to_ops meta_of clock rs file_kind content vmode))"

definition frame_to_ops ::
  "(bytes option \<Rightarrow> metadata_error + datetimes option) \<Rightarrow> (value_file \<Rightarrow> nat \<Rightarrow> i64) \<Rightarrow> frame_ref
   \<Rightarrow> value_file \<Rightarrow> bytes \<Rightarrow> value_mode \<Rightarrow> recovery_error + recovered_op list" where
  "frame_to_ops meta_of clock r file_kind content vmode =
     (if fr_type r = TYPE_SET
      then set_ref_to_ops meta_of clock (fr_key r) (fr_value_offset r) (fr_value_len r) (fr_meta r)
             (fr_expire_at r) file_kind content vmode
      else if fr_type r = TYPE_DEL then Inr [RecDel (fr_key r)]
      else if fr_type r = TYPE_BATCH then
        (case read_at content (fr_value_offset r) (fr_value_len r) of
           Inl e \<Rightarrow> Inl e
         | Inr body \<Rightarrow>
             (case scan_batch_op_refs body (fr_value_offset r) of
                Inl _ \<Rightarrow> Inr []
              | Inr rs \<Rightarrow> batch_to_ops meta_of clock rs file_kind content vmode))
      else Inr [])"

fun frames_to_ops ::
  "(bytes option \<Rightarrow> metadata_error + datetimes option) \<Rightarrow> (value_file \<Rightarrow> nat \<Rightarrow> i64) \<Rightarrow> frame_ref list
   \<Rightarrow> value_file \<Rightarrow> bytes \<Rightarrow> value_mode \<Rightarrow> recovery_error + recovered_op list" where
  "frames_to_ops meta_of clock [] file_kind content vmode = Inr []"
| "frames_to_ops meta_of clock (r # rs) file_kind content vmode =
     (case frame_to_ops meta_of clock r file_kind content vmode of
        Inl e \<Rightarrow> Inl e
      | Inr ops \<Rightarrow> map_sum id (append ops) (frames_to_ops meta_of clock rs file_kind content vmode))"

datatype db_file = NoFile | BadFile | DbFile bytes wal_anchor

fun scan_file ::
  "'h hasher \<Rightarrow> (nat \<Rightarrow> nat \<Rightarrow> nat) \<Rightarrow> (bytes option \<Rightarrow> metadata_error + datetimes option) \<Rightarrow> (value_file \<Rightarrow> nat \<Rightarrow> i64)
   \<Rightarrow> db_file \<Rightarrow> value_file \<Rightarrow> corruption_mode \<Rightarrow> value_mode \<Rightarrow> recovery_error + scanned_file option" where
  "scan_file H rd meta_of clock NoFile file_kind mode vmode = Inr None"
| "scan_file H rd meta_of clock BadFile file_kind mode vmode = Inl RecIo"
| "scan_file H rd meta_of clock (DbFile content anchor) file_kind mode vmode =
     (case scan_frame_refs H rd content mode 0 of
        Inl e \<Rightarrow> Inl (RecCodec e)
      | Inr scan \<Rightarrow>
          (case frames_to_ops meta_of clock (sr_frames scan) file_kind content vmode of
             Inl e \<Rightarrow> Inl e
           | Inr ops \<Rightarrow> Inr (Some \<lparr> sf_operations = ops, sf_frames = length (sr_frames scan),
                 sf_corrupt_ranges = sr_corrupt_ranges scan, sf_scan_end = sr_eof_offset scan,
                 sf_size = length content, sf_anchor = anchor \<rparr>)))"

fun apply_operations :: "(datetimes \<Rightarrow> nat) \<Rightarrow> store \<Rightarrow> recovered_op list \<Rightarrow> store option" where
  "apply_operations json_len st [] = Some st"
| "apply_operations json_len st (RecSet key vref expire_at dts # ops) = do {
     st \<leftarrow> set_ref json_len st key vref expire_at dts; apply_operations json_len st ops }"
| "apply_operations json_len st (RecDel key # ops) = do {
     (_, st) \<leftarrow> store_del json_len st key; apply_operations json_len st ops }"

definition corrupt_tail :: "scanned_file option \<Rightarrow> nat option" where
  "corrupt_tail wal =
     (case wal of
        None \<Rightarrow> None
      | Some s \<Rightarrow> (if sf_corrupt_ranges s = [] then None
                   else (let r = last (sf_corrupt_ranges s) in if snd r = sf_size s then Some (fst r) else None)))"

definition ops_of_scan :: "scanned_file option \<Rightarrow> recovered_op list" where
  "ops_of_scan scan = (case scan of None \<Rightarrow> [] | Some s \<Rightarrow> sf_operations s)"

definition ranges_of_scan :: "scanned_file option \<Rightarrow> (nat \<times> nat) list" where
  "ranges_of_scan scan = (case scan of None \<Rightarrow> [] | Some s \<Rightarrow> sf_corrupt_ranges s)"

definition recovery_info_of :: "scanned_file option \<Rightarrow> scanned_file option \<Rightarrow> bool \<Rightarrow> recovery_info" where
  "recovery_info_of snapshot wal truncated =
     \<lparr> ri_snapshot_frames = (case snapshot of None \<Rightarrow> 0 | Some s \<Rightarrow> sf_frames s),
       ri_wal_frames = (case wal of None \<Rightarrow> 0 | Some s \<Rightarrow> sf_frames s),
       ri_truncated_wal = truncated,
       ri_corrupt_ranges = ranges_of_scan wal,
       ri_snapshot_corrupt_ranges = ranges_of_scan snapshot,
       ri_lost_bytes = sum_list (map (\<lambda>(a, b). b - a) (ranges_of_scan snapshot @ ranges_of_scan wal)),
       ri_wal_scan_end = (case wal of None \<Rightarrow> 0 | Some s \<Rightarrow> sf_scan_end s),
       ri_wal_device = (case wal of None \<Rightarrow> 0 | Some s \<Rightarrow> wa_device (sf_anchor s)),
       ri_wal_inode = (case wal of None \<Rightarrow> 0 | Some s \<Rightarrow> wa_inode (sf_anchor s)) \<rparr>"

fun truncate_file :: "nat \<Rightarrow> db_file \<Rightarrow> db_file" where
  "truncate_file n (DbFile content anchor) = DbFile (take n content) anchor"
| "truncate_file n f = f"

text \<open>
  \<open>io_ok\<close> says whether opening and cutting the log succeeds. The result is the answer, the store and
  the log file.
\<close>

definition recover ::
  "'h hasher \<Rightarrow> (nat \<Rightarrow> nat \<Rightarrow> nat) \<Rightarrow> (bytes option \<Rightarrow> metadata_error + datetimes option) \<Rightarrow> (value_file \<Rightarrow> nat \<Rightarrow> i64)
   \<Rightarrow> (datetimes \<Rightarrow> nat) \<Rightarrow> bool \<Rightarrow> store \<Rightarrow> recovery_options \<Rightarrow> db_file \<Rightarrow> db_file
   \<Rightarrow> ((recovery_error + recovery_info) \<times> store \<times> db_file) option" where
  "recover H rd meta_of clock json_len io_ok st options snapshot_file wal_file =
     (case scan_file H rd meta_of clock snapshot_file Snapshot (ro_mode options) (ro_value_mode options) of
        Inl e \<Rightarrow> Some (Inl e, st, wal_file)
      | Inr snapshot \<Rightarrow>
        (case scan_file H rd meta_of clock wal_file Wal (ro_mode options) (ro_value_mode options) of
           Inl e \<Rightarrow> Some (Inl e, st, wal_file)
         | Inr wal \<Rightarrow> do {
             st \<leftarrow> apply_operations json_len st (ops_of_scan snapshot);
             st \<leftarrow> apply_operations json_len st (ops_of_scan wal);
             Some (case (if ro_truncate options then corrupt_tail wal else None) of
                     None \<Rightarrow> (Inr (recovery_info_of snapshot wal False), st, wal_file)
                   | Some n \<Rightarrow>
                       if io_ok then (Inr (recovery_info_of snapshot wal True), st, truncate_file n wal_file)
                       else (Inl RecIo, st, wal_file)) }))"

text \<open>The callback of \<open>catch_up_wal\<close> keeps a state of its own.\<close>

fun apply_frames ::
  "(frame_ref \<Rightarrow> bytes \<Rightarrow> 's \<Rightarrow> (recovery_error + unit) \<times> 's) \<Rightarrow> frame_ref list \<Rightarrow> bytes \<Rightarrow> 's
   \<Rightarrow> (recovery_error + unit) \<times> 's" where
  "apply_frames f [] content s = (Inr (), s)"
| "apply_frames f (r # rs) content s =
     (case f r content s of (Inl e, s) \<Rightarrow> (Inl e, s) | (Inr _, s) \<Rightarrow> apply_frames f rs content s)"

fun catch_up_wal ::
  "'h hasher \<Rightarrow> (nat \<Rightarrow> nat \<Rightarrow> nat) \<Rightarrow> db_file \<Rightarrow> nat \<Rightarrow> wal_anchor
   \<Rightarrow> (frame_ref \<Rightarrow> bytes \<Rightarrow> 's \<Rightarrow> (recovery_error + unit) \<times> 's) \<Rightarrow> 's
   \<Rightarrow> (recovery_error + catch_up_result option) \<times> 's" where
  "catch_up_wal H rd NoFile offset anchor f s = (Inr None, s)"
| "catch_up_wal H rd BadFile offset anchor f s = (Inl RecIo, s)"
| "catch_up_wal H rd (DbFile content found) offset anchor f s =
     (if found \<noteq> anchor \<or> offset > length content then (Inr None, s)
      else (case scan_frame_refs H rd content Strict offset of
              Inl e \<Rightarrow> (Inl (RecCodec e), s)
            | Inr scan \<Rightarrow>
                if sr_frames scan = [] \<and> sr_eof_offset scan < length content then
                  (let n = min (length content - offset) (length MAGIC) in
                   case read_at content offset n of
                     Inl e \<Rightarrow> (Inl e, s)
                   | Inr bs \<Rightarrow> (Inr (if bs \<noteq> take n MAGIC then None
                                     else Some \<lparr> cu_offset = offset, cu_applied_frames = 0 \<rparr>), s))
                else
                  (case apply_frames f (sr_frames scan) content s of
                     (Inl e, s) \<Rightarrow> (Inl e, s)
                   | (Inr _, s) \<Rightarrow>
                       (Inr (Some \<lparr> cu_offset = sr_eof_offset scan, cu_applied_frames = length (sr_frames scan) \<rparr>), s))))"

section \<open>What a frame means\<close>

text \<open>The reference: the operations of a decoded frame, with the value at hand.\<close>

type_synonym meta_reader = "bytes option \<Rightarrow> metadata_error + datetimes option"

definition set_effect :: "meta_reader \<Rightarrow> i64 \<Rightarrow> bytes \<Rightarrow> bytes \<Rightarrow> bytes option \<Rightarrow> i64 \<Rightarrow> recovery_error + recovered_op list" where
  "set_effect meta_of now key val meta expire =
     (if expire \<noteq> 0 \<and> expire \<le> now then Inr [RecDel key]
      else map_sum RecMetadata (\<lambda>dts. [RecSet key (Memory val) expire dts]) (meta_of meta))"

fun batch_effect :: "meta_reader \<Rightarrow> i64 \<Rightarrow> batch_op list \<Rightarrow> recovery_error + recovered_op list" where
  "batch_effect meta_of now [] = Inr []"
| "batch_effect meta_of now (b # bs) =
     (case (if op_type b = TYPE_SET
            then set_effect meta_of now (op_key b) (unwrap_or_default (op_value b)) (op_meta b) (op_expire_at b)
            else if op_type b = TYPE_DEL then Inr [RecDel (op_key b)] else Inr []) of
        Inl e \<Rightarrow> Inl e
      | Inr ops \<Rightarrow> map_sum id (append ops) (batch_effect meta_of now bs))"

definition frame_effect :: "meta_reader \<Rightarrow> i64 \<Rightarrow> frame \<Rightarrow> recovery_error + recovered_op list" where
  "frame_effect meta_of now f =
     (if frame_type f = TYPE_SET
      then set_effect meta_of now (frame_key f) (frame_value f) (frame_meta f) (frame_expire_at f)
      else if frame_type f = TYPE_DEL then Inr [RecDel (frame_key f)]
      else if frame_type f = TYPE_BATCH then
        (case decode_batch_ops (frame_value f) of Inl _ \<Rightarrow> Inr [] | Inr bs \<Rightarrow> batch_effect meta_of now bs)
      else Inr [])"

fun frames_effect :: "meta_reader \<Rightarrow> i64 \<Rightarrow> frame list \<Rightarrow> recovery_error + recovered_op list" where
  "frames_effect meta_of now [] = Inr []"
| "frames_effect meta_of now (f # fs) =
     (case frame_effect meta_of now f of
        Inl e \<Rightarrow> Inl e | Inr ops \<Rightarrow> map_sum id (append ops) (frames_effect meta_of now fs))"

lemma read_at_slice: "off + n \<le> length content \<Longrightarrow> read_at content off n = Inr (slice off (off + n) content)"
  by (simp add: read_at_def get_range_def slice_def)

lemma set_ref_to_ops_memory:
  assumes "off + n \<le> length content"
  shows "set_ref_to_ops meta_of (\<lambda>_ _. now) key off n meta expire kind content VmMemory
     = set_effect meta_of now key (slice off (off + n) content) meta expire"
  using read_at_slice [OF assms] by (cases "meta_of meta") (simp_all add: set_ref_to_ops_def set_effect_def)

lemma batch_to_ops_memory:
  assumes "list_all2 (op_ref_matches (slice off (off + n) content) off) rs bs" and "off + n \<le> length content"
  shows "batch_to_ops meta_of (\<lambda>_ _. now) rs kind content VmMemory = batch_effect meta_of now bs"
  using assms(1)
proof (induction rule: list_all2_induct)
  case (Cons r rs b bs)
  let ?body = "slice off (off + n) content"
  let ?o = "br_value_offset r - off"
  have m: "br_type r = op_type b" "br_key r = op_key b" "br_meta r = op_meta b" "br_expire_at r = op_expire_at b"
      "off \<le> br_value_offset r" "?o + br_value_len r \<le> length ?body"
      "op_value b = Some (slice ?o (?o + br_value_len r) ?body)"
    using Cons.hyps(1) unfolding op_ref_matches_def by blast+
  have n: "?o + br_value_len r \<le> n" using m(6) assms(2) by (simp add: length_slice)
  have sl: "slice ?o (?o + br_value_len r) ?body = slice (br_value_offset r) (br_value_offset r + br_value_len r) content"
    using slice_slice [of off "?o + br_value_len r" "off + n" ?o content] n m(5) by (simp add: add.assoc)
  have "br_value_offset r + br_value_len r \<le> length content" using n m(5) assms(2) by linarith
  note s = set_ref_to_ops_memory [OF this, of meta_of now "br_key r" "br_meta r" "br_expire_at r" kind]
  show ?case using Cons.IH s m(1-4,7) sl by (auto split: sum.split)
qed simp

lemma frame_to_ops_memory:
  assumes "fr_value_offset r + fr_value_len r \<le> length content"
  shows "frame_to_ops meta_of (\<lambda>_ _. now) r kind content VmMemory = frame_effect meta_of now (materialize_ref content r)"
proof -
  let ?body = "slice (fr_value_offset r) (fr_value_offset r + fr_value_len r) content"
  have "same_outcome (op_ref_matches ?body (fr_value_offset r)) (scan_batch_op_refs ?body (fr_value_offset r)) (decode_batch_ops ?body)"
    using scan_batch_loop_matches [of ?body "fr_value_offset r" 2]
    by (simp add: scan_batch_op_refs_def decode_batch_ops_def same_outcome_def)
  then have "(case scan_batch_op_refs ?body (fr_value_offset r) of Inl _ \<Rightarrow> Inr []
        | Inr rs \<Rightarrow> batch_to_ops meta_of (\<lambda>_ _. now) rs kind content VmMemory)
      = (case decode_batch_ops ?body of Inl _ \<Rightarrow> Inr [] | Inr bs \<Rightarrow> batch_effect meta_of now bs)"
    using batch_to_ops_memory [OF _ assms]
    by (auto simp: same_outcome_def elim!: rel_sum.cases)
  then show ?thesis
    using set_ref_to_ops_memory [OF assms] read_at_slice [OF assms]
    by (simp add: frame_to_ops_def frame_effect_def materialize_ref_def)
qed

lemma frames_to_ops_memory:
  assumes "\<forall>r\<in>set rs. fr_value_offset r + fr_value_len r \<le> length content"
  shows "frames_to_ops meta_of (\<lambda>_ _. now) rs kind content VmMemory
     = frames_effect meta_of now (map (materialize_ref content) rs)"
  using assms by (induction rs) (auto simp: frame_to_ops_memory split: sum.split)

text \<open>The references of a scan lie inside the file.\<close>

lemma read_frame_ref_range:
  assumes "read_frame_ref_at H content position (length content) = Inr (Some r)"
  shows "fr_value_offset r + fr_value_len r \<le> length content"
  using assms
  by (auto simp: read_frame_ref_at_def Let_def codec_consts split: if_splits sum.splits option.splits
           dest!: checked_frame_len_eq)

lemma scan_loop_range:
  assumes "CodecRefs.scan_loop H rd content mode position frames ranges = Inr scan"
    and "\<forall>r\<in>set frames. fr_value_offset r + fr_value_len r \<le> length content"
  shows "\<forall>r\<in>set (sr_frames scan). fr_value_offset r + fr_value_len r \<le> length content"
  using assms
proof (induction H rd content mode position frames ranges rule: CodecRefs.scan_loop.induct)
  case (1 H rd content mode position frames ranges)
  note unfold = CodecRefs.scan_loop.simps [of H rd content mode position frames ranges]
  show ?case
  proof (cases "position < length content")
    case False
    then show ?thesis using 1(3,4) by (auto simp: unfold)
  next
    case True
    show ?thesis
    proof (cases "read_frame_ref_at H content position (length content)")
      case (Inl e)
      then show ?thesis using 1(3) True by (simp add: unfold)
    next
      case (Inr ro)
      show ?thesis
      proof (cases ro)
        case (Some r)
        then show ?thesis
          using 1(2) [OF refl True Inr Some] 1(3,4) True Inr read_frame_ref_range [of H content position r]
          by (auto simp: unfold)
      next
        case None
        then show ?thesis
          using 1(1) [OF refl True Inr None] 1(3,4) True Inr
          by (auto simp: unfold Let_def split: if_splits sum.splits option.splits)
      qed
    qed
  qed
qed

section \<open>Replaying operations\<close>

type_synonym contents = "bytes \<Rightarrow> (value_ref \<times> i64 \<times> datetimes option) option"

definition contents_of :: "store \<Rightarrow> contents" where
  "contents_of st key = map_option (\<lambda>r. (sr_value_ref r, sr_expire_at r, sr_datetimes r)) (imap_get (st_records st) key)"

fun replay :: "contents \<Rightarrow> recovered_op list \<Rightarrow> contents" where
  "replay C [] = C"
| "replay C (RecSet key vref expire dts # ops) = replay (C(key \<mapsto> (vref, expire, dts))) ops"
| "replay C (RecDel key # ops) = replay (C(key := None)) ops"

lemma replay_append: "replay C (xs @ ys) = replay (replay C xs) ys"
  by (induction C xs rule: replay.induct) (auto simp: fun_upd_def)

lemma apply_operations_ok:
  assumes "store_inv json_len st"
  shows "\<exists>st'. apply_operations json_len st ops = Some st' \<and> store_inv json_len st'
     \<and> contents_of st' = replay (contents_of st) ops"
  using assms
proof (induction ops arbitrary: st)
  case (Cons x ops)
  show ?case
  proof (cases x)
    case (RecSet key vref expire dts)
    obtain st1 where s: "set_ref json_len st key vref expire dts = Some st1" "store_inv json_len st1"
        "imap_get (st_records st1) = (imap_get (st_records st))(key \<mapsto>
           \<lparr> sr_value_ref = vref, sr_expire_at = expire, sr_sequence = st_sequence st + 1, sr_datetimes = dts \<rparr>)"
      using set_ref_ok [OF Cons.prems] by blast
    have "contents_of st1 = (contents_of st)(key \<mapsto> (vref, expire, dts))"
      by (simp add: contents_of_def fun_eq_iff s(3))
    then show ?thesis using Cons.IH [OF s(2)] s(1) RecSet by (simp add: fun_upd_def)
  next
    case (RecDel key)
    obtain b st1 where s: "store_del json_len st key = Some (b, st1)" "store_inv json_len st1"
        "imap_get (st_records st1) = (imap_get (st_records st))(key := None)"
      using store_del_ok [OF Cons.prems] by blast
    have "contents_of st1 = (contents_of st)(key := None)" by (simp add: contents_of_def fun_eq_iff s(3))
    then show ?thesis using Cons.IH [OF s(2)] s(1) RecDel by (simp add: fun_upd_def)
  qed
qed simp

text \<open>A scan of a file in memory mode, by what the parser makes of its content.\<close>

lemma scan_file_memory:
  assumes H: "crc_hasher H" and rd: "file_reads rd"
    and p: "parse_buffer H content mode = \<lparr> pr_frames = fs, pr_corrupt_ranges = ranges, pr_eof_offset = eof \<rparr>"
    and ops: "frames_effect meta_of now fs = Inr ops"
  shows "scan_file H rd meta_of (\<lambda>_ _. now) (DbFile content anchor) kind mode VmMemory =
     Inr (Some \<lparr> sf_operations = ops, sf_frames = length fs, sf_corrupt_ranges = ranges, sf_scan_end = eof,
       sf_size = length content, sf_anchor = anchor \<rparr>)"
proof -
  have "agrees content (CodecRefs.scan_loop H rd content mode 0 [] []) (parse_loop H content mode 0 [] [])"
    by (rule frame_scanner.scan_loop_agrees [OF frame_scanner.intro [OF H rd]]) simp
  then obtain scan where scan: "CodecRefs.scan_loop H rd content mode 0 [] [] = Inr scan"
      "map (materialize_ref content) (sr_frames scan) = fs" "sr_corrupt_ranges scan = ranges" "sr_eof_offset scan = eof"
    using p by (auto simp: agrees_def parse_buffer_def)
  have "\<forall>r\<in>set (sr_frames scan). fr_value_offset r + fr_value_len r \<le> length content"
    by (rule scan_loop_range [OF scan(1)]) simp
  note mem = frames_to_ops_memory [OF this, of meta_of now kind]
  have "length (sr_frames scan) = length fs" using scan(2) by auto
  then show ?thesis using scan mem ops by (simp add: scan_frame_refs_def)
qed

lemma recover_scanned:
  assumes inv: "store_inv json_len st"
    and snap: "scan_file H rd meta_of clock snapshot_file Snapshot (ro_mode options) (ro_value_mode options) = Inr (Some s1)"
    and wal: "scan_file H rd meta_of clock wal_file Wal (ro_mode options) (ro_value_mode options) = Inr (Some s2)"
    and trunc: "ro_truncate options"
  obtains st2 where "recover H rd meta_of clock json_len True st options snapshot_file wal_file =
      Some (Inr (recovery_info_of (Some s1) (Some s2) (corrupt_tail (Some s2) \<noteq> None)), st2,
        case corrupt_tail (Some s2) of None \<Rightarrow> wal_file | Some n \<Rightarrow> truncate_file n wal_file)"
    "store_inv json_len st2" "contents_of st2 = replay (contents_of st) (sf_operations s1 @ sf_operations s2)"
proof -
  obtain st1 where st1: "apply_operations json_len st (sf_operations s1) = Some st1" "store_inv json_len st1"
      "contents_of st1 = replay (contents_of st) (sf_operations s1)"
    using apply_operations_ok [OF inv] by blast
  obtain st2 where st2: "apply_operations json_len st1 (sf_operations s2) = Some st2" "store_inv json_len st2"
      "contents_of st2 = replay (contents_of st1) (sf_operations s2)"
    using apply_operations_ok [OF st1(2)] by blast
  show ?thesis
    by (rule that [of st2]) (use snap wal trunc st1 st2 in \<open>simp_all add: recover_def ops_of_scan_def replay_append split: option.split\<close>)
qed

text \<open>The log of a crash: whole frames, then a remainder the strict parser reports as one range.\<close>

lemma cut_log:
  fixes H :: "'h hasher"
  assumes "\<forall>f\<in>set fs. wf_frame f" and "k = whole fs n"
  defines "left \<equiv> take n (log_image H fs)"
  shows "take (log_size (take k fs)) left = log_image H (take k fs)"
    and "log_size (take k fs) = length left \<longleftrightarrow> left = log_image H (take k fs)"
    and "parse_buffer H left Strict
      = \<lparr> pr_frames = take k fs, pr_corrupt_ranges = if log_size (take k fs) = length left then [] else [(log_size (take k fs), length left)], pr_eof_offset = log_size (take k fs) \<rparr>"
proof -
  show pre: "take (log_size (take k fs)) left = log_image H (take k fs)"
    using log_prefix_split [of n H fs] unfolding left_def assms(2) [symmetric] by simp
  show "log_size (take k fs) = length left \<longleftrightarrow> left = log_image H (take k fs)"
    using pre by (metis length_log_image order_refl take_all)
  show "parse_buffer H left Strict = \<lparr> pr_frames = take k fs,
      pr_corrupt_ranges = if log_size (take k fs) = length left then [] else [(log_size (take k fs), length left)], pr_eof_offset = log_size (take k fs) \<rparr>"
    unfolding left_def assms(2) by (rule parse_strict_cut [OF assms(1)])
qed

text \<open>
  C1. Crash recovery. The snapshot holds the frames \<open>ss\<close>, the log held the frames \<open>fs\<close> and was cut by a
  crash after any number \<open>n\<close> of bytes. Recovery in strict mode succeeds: the store then holds exactly
  what replaying \<open>ss\<close> and the frames of the log that lie wholly before the cut gives, over whatever it
  held; the store's invariant holds; the torn remainder is cut from the log, which then is the image of
  exactly those frames; and the report counts them and the lost bytes.
\<close>

theorem recover_after_crash:
  assumes "crc_hasher H" and "file_reads rd" and "store_inv json_len st"
    and "\<forall>f\<in>set ss. wf_frame f" and "\<forall>f\<in>set fs. wf_frame f" and "k = whole fs n"
    and "frames_effect meta_of now ss = Inr ops1" and "frames_effect meta_of now (take k fs) = Inr ops2"
  shows "\<exists>info st'. recover H rd meta_of (\<lambda>_ _. now) json_len True st
       \<lparr> ro_mode = Strict, ro_truncate = True, ro_value_mode = VmMemory \<rparr>
       (DbFile (log_image H ss) a) (DbFile (take n (log_image H fs)) b)
     = Some (Inr info, st', DbFile (log_image H (take k fs)) b)
     \<and> store_inv json_len st' \<and> contents_of st' = replay (contents_of st) (ops1 @ ops2)
     \<and> ri_snapshot_frames info = length ss \<and> ri_wal_frames info = k
     \<and> ri_lost_bytes info = length (take n (log_image H fs)) - log_size (take k fs)
     \<and> (ri_truncated_wal info \<longleftrightarrow> take n (log_image H fs) \<noteq> log_image H (take k fs))"
proof -
  let ?o = "\<lparr> ro_mode = Strict, ro_truncate = True, ro_value_mode = VmMemory \<rparr>"
  define cut where "cut = take n (log_image H fs)"
  note cut = cut_log [OF assms(5,6), of H, folded cut_def]
  have ps: "parse_buffer H (log_image H ss) Strict = \<lparr> pr_frames = ss, pr_corrupt_ranges = [], pr_eof_offset = log_size ss \<rparr>"
    using parse_buffer_strict_torn [OF assms(4), of "[]" H "[]"] by (simp add: torn_of_def)
  obtain s1 where s1: "scan_file H rd meta_of (\<lambda>_ _. now) (DbFile (log_image H ss) a) Snapshot (ro_mode ?o) (ro_value_mode ?o) = Inr (Some s1)"
      "sf_operations s1 = ops1" "sf_frames s1 = length ss" "sf_corrupt_ranges s1 = []"
    using scan_file_memory [OF assms(1,2) ps assms(7), of a Snapshot] by simp
  obtain s2 where s2: "scan_file H rd meta_of (\<lambda>_ _. now) (DbFile cut b) Wal (ro_mode ?o) (ro_value_mode ?o) = Inr (Some s2)"
      "sf_operations s2 = ops2" "sf_frames s2 = length (take k fs)" "sf_scan_end s2 = log_size (take k fs)" "sf_size s2 = length cut"
      "sf_corrupt_ranges s2 = (if log_size (take k fs) = length cut then [] else [(log_size (take k fs), length cut)])"
    using scan_file_memory [OF assms(1,2) cut(3) assms(8), of b Wal] by simp
  obtain st2 where st2: "recover H rd meta_of (\<lambda>_ _. now) json_len True st ?o (DbFile (log_image H ss) a) (DbFile cut b) =
      Some (Inr (recovery_info_of (Some s1) (Some s2) (corrupt_tail (Some s2) \<noteq> None)), st2,
        case corrupt_tail (Some s2) of None \<Rightarrow> DbFile cut b | Some n \<Rightarrow> truncate_file n (DbFile cut b))"
      "store_inv json_len st2" "contents_of st2 = replay (contents_of st) (sf_operations s1 @ sf_operations s2)"
    using recover_scanned [OF assms(3) s1(1) s2(1)] by auto
  have "length (take k fs) = k" using whole_le [of fs n] assms(6) by simp
  then show ?thesis
    using st2 s1 s2 cut(1,2) unfolding cut_def [symmetric]
    by (cases "cut = log_image H (take k fs)") (auto simp: corrupt_tail_def recovery_info_of_def ranges_of_scan_def)
qed

definition sample_anchor :: wal_anchor where
  "sample_anchor = \<lparr> wa_device = 1, wa_inode = 2 \<rparr>"

theorem recover_after_crash_witness:
  "\<exists>info st'. recover crc32_ieee full_read (\<lambda>_. Inr None) (\<lambda>_ _. -10) (\<lambda>_. 0) True (store_new None)
       \<lparr> ro_mode = Strict, ro_truncate = True, ro_value_mode = VmMemory \<rparr>
       (DbFile (log_image crc32_ieee []) sample_anchor) (DbFile (take 40 (log_image crc32_ieee [sample_frame, sample_frame])) sample_anchor)
     = Some (Inr info, st', DbFile (log_image crc32_ieee [sample_frame]) sample_anchor)
     \<and> contents_of st' [102, 111, 111] = Some (Memory [98, 97, 114], - 5, None) \<and> ri_wal_frames info = 1"
proof -
  let ?fs = "[sample_frame, sample_frame]"
  let ?meta = "\<lambda>_. Inr None :: metadata_error + datetimes option"
  have k: "1 = whole ?fs 40" by (simp add: sample_frame_size)
  have e: "frames_effect ?meta (- 10) (take 1 ?fs) = Inr [RecSet [102, 111, 111] (Memory [98, 97, 114]) (- 5) None]"
    by (simp add: frame_effect_def set_effect_def sample_frame_def TYPE_SET_def)
  have c: "contents_of (store_new None) = Map.empty" by (auto simp: contents_of_def store_new_def)
  show ?thesis
    using recover_after_crash [OF ieee.crc_hasher_axioms full.file_reads_axioms store_inv_new [of "\<lambda>_. 0" None], where ss = "[]"
        and ?ops1.0 = "[]", OF _ _ k _ e, of sample_anchor sample_anchor] sample_frame_wf
    unfolding c by auto
qed

section \<open>Following a growing log\<close>

lemma parse_loop_torn:
  assumes "\<forall>f\<in>set gs. wf_frame f" and "\<forall>f\<in>set hs. wf_frame f" and "torn_of H hs t"
  shows "parse_loop H (p @ log_image H gs @ t) Strict (length p) [] [] =
    \<lparr> pr_frames = gs,
      pr_corrupt_ranges = (if t = [] then [] else [(length p + log_size gs, length p + log_size gs + length t)]),
      pr_eof_offset = length p + log_size gs \<rparr>"
proof -
  have "read_frame_at H (p @ log_image H gs @ t) (length p + log_size gs) = None"
    using read_torn_log [OF assms(3,2), of "p @ log_image H gs"] by simp
  then show ?thesis
    unfolding parse_loop_log [OF assms(1)] by (subst parse_loop.simps) (simp add: add.assoc)
qed

lemma torn_magic:
  assumes "torn_of H hs t" and "n \<le> length t" and "n \<le> 2"
  shows "take n t = take n MAGIC"
  using assms(1)
proof (cases rule: torn_ofE)
  case (2 f gs)
  have "take n t = take n (take (length t) (frame_image H f))" using 2(2) by simp
  also have "\<dots> = take n (frame_image H f)" using assms(2) by (simp add: min_def)
  also have "\<dots> = take n MAGIC" proof -
    have "n - length MAGIC = 0" using assms(3) by (simp add: MAGIC_def)
    then show ?thesis by (simp add: frame_image_def)
  qed
  finally show ?thesis .
qed (use assms in simp)

text \<open>
  A reader that follows the log sees every committed frame once. The log held the frames \<open>fs\<close> when the
  reader had read up to its end; since then the frames \<open>gs\<close> were appended, the last of them possibly
  only in part. Catching up applies exactly the frames of \<open>gs\<close> that are complete, in order, and returns
  the position behind the last of them, from which the next call goes on; a log that was replaced
  (another anchor) is reported as such and nothing is applied.
\<close>

lemma catch_up_wal_ok:
  assumes "crc_hasher H" and "file_reads rd" and "\<forall>f\<in>set gs. wf_frame f" and "k = whole gs m"
    and "content = log_image H fs @ take m (log_image H gs)"
  shows "\<exists>refs. map (materialize_ref content) refs = take k gs
     \<and> catch_up_wal H rd (DbFile content a) (log_size fs) a f s =
         (case apply_frames f refs content s of
            (Inl e, s') \<Rightarrow> (Inl e, s')
          | (Inr _, s') \<Rightarrow> (Inr (Some \<lparr> cu_offset = log_size fs + log_size (take k gs), cu_applied_frames = k \<rparr>), s'))
     \<and> (b \<noteq> a \<longrightarrow> catch_up_wal H rd (DbFile content b) (log_size fs) a f s = (Inr None, s))"
proof -
  define t where "t = take (m - log_size (take k gs)) (log_image H (drop k gs))"
  have torn: "torn_of H (drop k gs) t" unfolding t_def assms(4) by (rule cut_torn)
  have c: "content = log_image H fs @ log_image H (take k gs) @ t"
    using log_prefix_split [of m H gs] unfolding assms(4) [symmetric] t_def [symmetric] assms(5) by simp
  have wf: "\<forall>f\<in>set (take k gs). wf_frame f" "\<forall>f\<in>set (drop k gs). wf_frame f"
    using assms(3) by (auto dest: in_set_takeD in_set_dropD)
  have p: "parse_loop H content Strict (log_size fs) [] [] =
    \<lparr> pr_frames = take k gs,
      pr_corrupt_ranges = (if t = [] then [] else [(log_size fs + log_size (take k gs), log_size fs + log_size (take k gs) + length t)]),
      pr_eof_offset = log_size fs + log_size (take k gs) \<rparr>"
    using parse_loop_torn [OF wf torn, of "log_image H fs"] unfolding c by simp
  have "agrees content (CodecRefs.scan_loop H rd content Strict (log_size fs) [] []) (parse_loop H content Strict (log_size fs) [] [])"
    by (rule frame_scanner.scan_loop_agrees [OF frame_scanner.intro [OF assms(1,2)]]) simp
  then obtain scan where scan: "scan_frame_refs H rd content Strict (log_size fs) = Inr scan"
      "map (materialize_ref content) (sr_frames scan) = take k gs" "sr_eof_offset scan = log_size fs + log_size (take k gs)"
    unfolding p by (auto simp: agrees_def scan_frame_refs_def)
  have len: "length content = log_size fs + log_size (take k gs) + length t" by (simp add: c)
  have k: "length (take k gs) = k" using whole_le [of gs m] assms(4) by simp
  then have nf: "length (sr_frames scan) = k" using arg_cong [OF scan(2), of length] by simp
  have magic: "read_at content (log_size fs) n = Inr (take n MAGIC)"
    if "sr_frames scan = []" "n = min (length content - log_size fs) (length MAGIC)" for n
  proof -
    have "k = 0" using that(1) nf by simp
    then have ct: "content = log_image H fs @ t" using c by simp
    have n: "n \<le> length t" "n \<le> 2" using that(2) ct by (simp_all add: MAGIC_def)
    have "read_at content (log_size fs) n = Inr (slice (log_size fs) (log_size fs + n) content)"
      using n(1) ct by (intro read_at_slice) simp
    also have "slice (log_size fs) (log_size fs + n) content = take n t" by (simp add: ct slice_def)
    finally show ?thesis using torn_magic [OF torn n] by simp
  qed
  have "catch_up_wal H rd (DbFile content a) (log_size fs) a f s =
         (case apply_frames f (sr_frames scan) content s of
            (Inl e, s') \<Rightarrow> (Inl e, s')
          | (Inr _, s') \<Rightarrow> (Inr (Some \<lparr> cu_offset = log_size fs + log_size (take k gs), cu_applied_frames = k \<rparr>), s'))"
    using scan(1,3) len nf magic by (auto simp: Let_def split: prod.split sum.split)
  with scan(2) show ?thesis by auto
qed

end
