(* ===== verification/Snapshot.thy ===== *)
theory Snapshot
  imports Recovery
begin

text \<open>
  Writing a snapshot, \<open>snapshot.rs\<close>: one frame per live entry, gathered into blocks of one megabyte,
  and the location of every value. \<open>serde_json\<close>'s encoding of the datetimes is the parameter
  \<open>meta_bytes\<close>; \<open>io p\<close> says whether the block written at position \<open>p\<close> succeeds. The yields to the
  scheduler every few entries change no state and are left out.
\<close>

section \<open>Definitions\<close>

definition FLUSH_BYTES :: nat where "FLUSH_BYTES = 1048576"

record snapshot_result =
  sn_count :: nat
  sn_bytes :: nat
  sn_locations :: "(bytes, value_loc) imap"

datatype snapshot_error = SnIo | SnCodec codec_error | SnStore store_error

definition entry_frame :: "(datetimes \<Rightarrow> bytes) \<Rightarrow> store_entry \<Rightarrow> frame" where
  "entry_frame meta_bytes e = \<lparr> frame_type = TYPE_SET, frame_key = se_key e, frame_value = se_value e,
     frame_meta = map_option meta_bytes (se_datetimes e), frame_expire_at = se_expire_at e \<rparr>"

text \<open>The loop: the content of the file so far, the bytes written, the pending block.\<close>

fun snapshot_loop ::
  "'h hasher \<Rightarrow> (datetimes \<Rightarrow> bytes) \<Rightarrow> (nat \<Rightarrow> bool) \<Rightarrow> store_entry list \<Rightarrow> bytes \<Rightarrow> nat \<Rightarrow> nat \<Rightarrow> bytes
   \<Rightarrow> (bytes, value_loc) imap \<Rightarrow> (snapshot_error + snapshot_result) \<times> bytes" where
  "snapshot_loop H meta_bytes io [] content count written block locations =
     (if block \<noteq> [] then
        (if io written
         then (Inr \<lparr> sn_count = count, sn_bytes = written + length block, sn_locations = locations \<rparr>, content @ block)
         else (Inl SnIo, content))
      else (Inr \<lparr> sn_count = count, sn_bytes = written, sn_locations = locations \<rparr>, content))"
| "snapshot_loop H meta_bytes io (e # es) content count written block locations =
     (case encode_frame H (entry_frame meta_bytes e) of
        Inl err \<Rightarrow> (Inl (SnCodec err), content)
      | Inr img \<Rightarrow>
          (let frame_offset = written + length block;
               loc = \<lparr> loc_file = Snapshot, loc_offset = frame_offset + HEADER_SIZE + length (se_key e),
                       loc_len = length (se_value e) mod 2 ^ 32 \<rparr>;
               locations = imap_insert (se_key e) loc locations;
               block = block @ img in
           if length block \<ge> FLUSH_BYTES then
             (if io written
              then snapshot_loop H meta_bytes io es (content @ block) (count + 1) (written + length block) [] locations
              else (Inl SnIo, content))
           else snapshot_loop H meta_bytes io es content (count + 1) written block locations))"

definition write_snapshot_entries ::
  "'h hasher \<Rightarrow> (datetimes \<Rightarrow> bytes) \<Rightarrow> (nat \<Rightarrow> bool) \<Rightarrow> bool \<Rightarrow> store_entry list
   \<Rightarrow> (snapshot_error + snapshot_result) \<times> bytes" where
  "write_snapshot_entries H meta_bytes io sync_ok entries =
     (case snapshot_loop H meta_bytes io entries [] 0 0 [] [] of
        (Inl e, content) \<Rightarrow> (Inl e, content)
      | (Inr r, content) \<Rightarrow> (if sync_ok then Inr r else Inl SnIo, content))"

definition write_snapshot ::
  "'h hasher \<Rightarrow> (datetimes \<Rightarrow> bytes) \<Rightarrow> (nat \<Rightarrow> bool) \<Rightarrow> bool \<Rightarrow> store \<Rightarrow> i64
   \<Rightarrow> (snapshot_error + snapshot_result) \<times> bytes" where
  "write_snapshot H meta_bytes io sync_ok st now =
     (case store_entries st now of
        Inl e \<Rightarrow> (Inl (SnStore e), [])
      | Inr entries \<Rightarrow> write_snapshot_entries H meta_bytes io sync_ok entries)"

section \<open>The image and the locations\<close>

fun locations_from :: "(datetimes \<Rightarrow> bytes) \<Rightarrow> nat \<Rightarrow> store_entry list \<Rightarrow> (bytes, value_loc) imap \<Rightarrow> (bytes, value_loc) imap" where
  "locations_from meta_bytes p [] locations = locations"
| "locations_from meta_bytes p (e # es) locations =
     locations_from meta_bytes (p + frame_size (entry_frame meta_bytes e)) es
       (imap_insert (se_key e) \<lparr> loc_file = Snapshot, loc_offset = p + HEADER_SIZE + length (se_key e),
          loc_len = length (se_value e) mod 2 ^ 32 \<rparr> locations)"

lemma snapshot_loop_ok:
  assumes "\<forall>e\<in>set es. length (se_key e) \<le> MAX_KEY_LEN" and "written = length content"
  shows "\<exists>fl. snapshot_loop H meta_bytes (\<lambda>_. True) es content count written block locations =
      (Inr \<lparr> sn_count = count + length es, sn_bytes = length fl,
             sn_locations = locations_from meta_bytes (length content + length block) es locations \<rparr>, fl)
     \<and> fl = content @ block @ log_image H (map (entry_frame meta_bytes) es)"
  using assms
proof (induction es arbitrary: content count written block locations)
  case (Cons e es)
  let ?f = "entry_frame meta_bytes e"
  have enc: "encode_frame H ?f = Inr (frame_image H ?f)"
    using Cons.prems(1) by (simp add: encode_frame_def entry_frame_def)
  have len: "length (frame_image H ?f) = frame_size ?f" by simp
  show ?case
  proof (cases "FLUSH_BYTES \<le> length (block @ frame_image H ?f)")
    case True
    then show ?thesis
      using Cons.IH [of "written + length block + frame_size ?f" "content @ block @ frame_image H ?f" "count + 1" "[]"] Cons.prems enc
      by (simp add: Let_def add.assoc)
  next
    case False
    then show ?thesis
      using Cons.IH [of written content "count + 1" "block @ frame_image H ?f"] Cons.prems enc
      by (simp add: Let_def add.assoc)
  qed
qed simp

lemma locations_from_other: "k \<notin> se_key ` set es \<Longrightarrow> imap_get (locations_from mb p es locs) k = imap_get locs k"
  by (induction es arbitrary: p locs) (auto simp: imap_simps)

lemma value_slice:
  "slice (length p + HEADER_SIZE + length (frame_key f)) (length p + HEADER_SIZE + length (frame_key f) + length (frame_value f))
     (p @ frame_image H f @ s) = frame_value f"
proof -
  define h where "h = MAGIC @ [frame_type f, 0] @ le_bytes 2 (length (frame_key f)) @ le_bytes 4 (length (frame_value f))
      @ le_bytes 4 (length (unwrap_or_default (frame_meta f))) @ i64_bytes (frame_expire_at f) @ frame_key f"
  define r where "r = unwrap_or_default (frame_meta f) @ le_bytes 4 (unat (crc32 H (frame_body f) 0))"
  have img: "p @ frame_image H f @ s = (p @ h) @ frame_value f @ (r @ s)"
    by (simp add: h_def r_def frame_image_def frame_body_def Let_def)
  have len: "length p + HEADER_SIZE + length (frame_key f) = length (p @ h)"
    by (simp add: h_def codec_consts)
  show ?thesis unfolding img len by (rule slice_mid)
qed

lemma locations_read:
  assumes "e \<in> set es" and "distinct (map se_key es)" and "\<forall>e\<in>set es. length (se_value e) < 2 ^ 32"
  shows "\<exists>loc. imap_get (locations_from mb (length p) es locs) (se_key e) = Some loc
     \<and> read_at (p @ log_image H (map (entry_frame mb) es)) (loc_offset loc) (loc_len loc) = Inr (se_value e)"
  using assms
proof (induction es arbitrary: p locs)
  case (Cons d es)
  let ?f = "entry_frame mb d"
  show ?case
  proof (cases "e = d")
    case True
    let ?loc = "\<lparr> loc_file = Snapshot, loc_offset = length p + HEADER_SIZE + length (se_key d), loc_len = length (se_value d) \<rparr>"
    have "imap_get (locations_from mb (length p) (d # es) locs) (se_key e) = Some ?loc"
      using True Cons.prems locations_from_other [of "se_key d" es] by (simp add: imap_simps)
    moreover have "length p + HEADER_SIZE + length (se_key d) + length (se_value d) \<le> length (p @ log_image H (map (entry_frame mb) (d # es)))"
      by (simp add: frame_size_def entry_frame_def)
    then have "read_at (p @ log_image H (map (entry_frame mb) (d # es))) (loc_offset ?loc) (loc_len ?loc) = Inr (se_value d)"
      using value_slice [of p ?f H "log_image H (map (entry_frame mb) es)"] read_at_slice
      by (simp add: entry_frame_def)
    ultimately show ?thesis using True by blast
  next
    case False
    then show ?thesis using Cons.IH [of "p @ frame_image H ?f"] Cons.prems by simp
  qed
qed simp



end
