(* ===== verification/TranscriptModel.thy ===== *)
theory TranscriptModel
  imports Query
begin

text \<open>
  The data of the transcript crate (\<open>model/*.rs\<close>, the vocabulary of \<open>ops/operation.rs\<close>). The parameter
  \<open>'j\<close> is the type of the opaque values a transcript carries and only compares: JSON payloads, and the
  cost as a double read from JSON. Identifiers are strings. \<open>serde\<close> attributes and the wire modules are
  left out.
\<close>

section \<open>Identifiers\<close>

type_synonym string_id = str
type_synonym 'j optional_json_value = "'j option option"

definition show_int :: "int \<Rightarrow> str" where
  "show_int i = (if i < 0 then 45 # digits (nat (- i)) else digits (nat i))"

definition turn_id :: "i64 \<Rightarrow> string_id" where
  "turn_id ordinal = lit ''t'' @ show_int ordinal"

definition step_id :: "string_id \<Rightarrow> i64 \<Rightarrow> string_id" where
  "step_id turn ordinal = turn @ lit ''.'' @ show_int ordinal"

definition frame_id :: "string_id \<Rightarrow> i64 \<Rightarrow> string_id" where
  "frame_id step ordinal = step @ lit ''.f'' @ show_int ordinal"

text \<open>\<open>parse::<i64>\<close>.\<close>

fun digits_value :: "nat \<Rightarrow> str \<Rightarrow> nat option" where
  "digits_value acc [] = Some acc"
| "digits_value acc (c # cs) = (if 48 \<le> c \<and> c \<le> 57 then digits_value (acc * 10 + (c - 48)) cs else None)"

definition parse_i64 :: "str \<Rightarrow> i64 option" where
  "parse_i64 s =
     (let negative = (s \<noteq> [] \<and> hd s = 45);
          body = (if s \<noteq> [] \<and> (hd s = 43 \<or> hd s = 45) then tl s else s) in
      if body = [] then None
      else (case digits_value 0 body of
              None \<Rightarrow> None
            | Some n \<Rightarrow> (let i = (if negative then - int n else int n) in if is_i64 i then Some i else None)))"

text \<open>\<open>get(1..)\<close> is \<open>None\<close> for the empty string and inside a character of several bytes.\<close>

fun turn_ordinal :: "string_id \<Rightarrow> i64" where
  "turn_ordinal [] = 0"
| "turn_ordinal (c # rest) =
     (if c < 128 then (case parse_i64 (trim rest) of None \<Rightarrow> 0 | Some i \<Rightarrow> i) else 0)"

definition compare_turn_ids :: "string_id \<Rightarrow> string_id \<Rightarrow> ordering" where
  "compare_turn_ids a b = cmp (turn_ordinal a) (turn_ordinal b)"

section \<open>Frames\<close>

datatype text_role = RoleAssistant | RoleUser

record text_frame =
  tf_frame_id :: string_id
  tf_role :: text_role
  tf_text :: str
  tf_attachment_ids :: "string_id list option"
  tf_task_id :: "string_id option"

record thinking_frame =
  kf_frame_id :: string_id
  kf_text :: str

datatype tool_frame_state = ToolRunning | ToolDone | ToolError

datatype agent_ref_role = RefChild | RefMember

record agent_ref =
  ar_agent_id :: string_id
  ar_role :: "agent_ref_role option"

record 'j tool_call_frame =
  tc_frame_id :: string_id
  tc_tool_call_id :: str
  tc_name :: str
  tc_view :: "str option"
  tc_state :: tool_frame_state
  tc_input :: "'j optional_json_value"
  tc_output :: "'j optional_json_value"
  tc_display :: "'j optional_json_value"
  tc_error :: "str option"
  tc_task_id :: "string_id option"
  tc_approval_id :: "string_id option"
  tc_todo_id :: "string_id option"
  tc_agent_refs :: "agent_ref list option"

datatype interaction_kind = KindApproval | KindQuestion

datatype interaction_state = IsPending | IsApproved | IsRejected | IsCancelled | IsAnswered | IsDismissed

record 'j interaction_frame =
  if_frame_id :: string_id
  if_interaction_id :: string_id
  if_interaction_kind :: interaction_kind
  if_tool_call_id :: "str option"
  if_state :: interaction_state
  if_request :: "'j optional_json_value"
  if_response :: "'j optional_json_value"

datatype notice_level = NoticeError | NoticeWarning | NoticeInfo

record 'j notice_frame =
  nf_frame_id :: string_id
  nf_level :: notice_level
  nf_source :: "str option"
  nf_message :: str
  nf_detail :: "'j optional_json_value"

datatype 'j transcript_frame =
    TextFrame text_frame
  | ThinkingFrame thinking_frame
  | ToolFrame "'j tool_call_frame"
  | InteractionFrame "'j interaction_frame"
  | NoticeFrame "'j notice_frame"

fun frame_id_of :: "'j transcript_frame \<Rightarrow> string_id" where
  "frame_id_of (TextFrame f) = tf_frame_id f"
| "frame_id_of (ThinkingFrame f) = kf_frame_id f"
| "frame_id_of (ToolFrame f) = tc_frame_id f"
| "frame_id_of (InteractionFrame f) = if_frame_id f"
| "frame_id_of (NoticeFrame f) = nf_frame_id f"

section \<open>Turns and steps\<close>

datatype 'j turn_origin =
    OriginUser "'j optional_json_value"
  | OriginCron "string_id option" "'j optional_json_value"
  | OriginTask string_id "'j optional_json_value"
  | OriginHook "'j optional_json_value"
  | OriginCompaction "'j optional_json_value"
  | OriginSide "'j optional_json_value"
  | OriginOther "'j optional_json_value"

fun origin_kind :: "'j turn_origin \<Rightarrow> str" where
  "origin_kind (OriginUser _) = lit ''user''"
| "origin_kind (OriginCron _ _) = lit ''cron''"
| "origin_kind (OriginTask _ _) = lit ''task''"
| "origin_kind (OriginHook _) = lit ''hook''"
| "origin_kind (OriginCompaction _) = lit ''compaction''"
| "origin_kind (OriginSide _) = lit ''side''"
| "origin_kind (OriginOther _) = lit ''other''"

definition origin_other :: "'j turn_origin" where
  "origin_other = OriginOther None"

datatype turn_state = TurnQueued | TurnRunning | TurnCompleted | TurnFailed | TurnCancelled

datatype step_state = StepRunning | StepCompleted | StepInterrupted | StepFailed

record 'j transcript_usage =
  us_input_tokens :: "u64 option"
  us_output_tokens :: "u64 option"
  us_cached_tokens :: "u64 option"
  us_cost :: "'j option"

record 'j transcript_step =
  ts_step_id :: string_id
  ts_turn_id :: string_id
  ts_ordinal :: i64
  ts_state :: step_state
  ts_frames :: "'j transcript_frame list"
  ts_started_at :: "str option"
  ts_ended_at :: "str option"

record 'j transcript_turn =
  tt_turn_id :: string_id
  tt_ordinal :: i64
  tt_state :: turn_state
  tt_origin :: "'j turn_origin"
  tt_prompt :: "str option"
  tt_attachment_ids :: "string_id list option"
  tt_steps :: "'j transcript_step list"
  tt_started_at :: "str option"
  tt_ended_at :: "str option"
  tt_usage :: "'j transcript_usage option"

section \<open>Items and entities\<close>

record 'j transcript_marker =
  mk_marker_id :: string_id
  mk_marker :: str
  mk_payload :: "'j optional_json_value"
  mk_at :: "str option"

record transcript_task_ref =
  tr_ref_id :: string_id
  tr_task_id :: string_id
  tr_at :: "str option"

datatype 'j transcript_item =
    ItemTurn "'j transcript_turn"
  | ItemMarker "'j transcript_marker"
  | ItemTaskRef transcript_task_ref

fun item_id :: "'j transcript_item \<Rightarrow> str" where
  "item_id (ItemTurn t) = tt_turn_id t"
| "item_id (ItemMarker m) = mk_marker_id m"
| "item_id (ItemTaskRef r) = tr_ref_id r"

datatype task_kind = TaskShell | TaskSubagent | TaskTool | TaskOther

datatype task_state = TaskRunning | TaskCompleted | TaskFailed | TaskTimedOut | TaskKilled | TaskLost

record transcript_task =
  tk_task_id :: string_id
  tk_kind :: task_kind
  tk_state :: task_state
  tk_detached :: bool
  tk_description :: "str option"
  tk_agent_id :: "string_id option"
  tk_output_tail :: str
  tk_started_at :: "str option"
  tk_ended_at :: "str option"

record 'j transcript_interaction =
  ti_interaction_id :: string_id
  ti_interaction_kind :: interaction_kind
  ti_tool_call_id :: str
  ti_state :: interaction_state
  ti_request :: "'j optional_json_value"
  ti_response :: "'j optional_json_value"

datatype attachment_source = SourceUrl str | SourceFile str

record transcript_attachment =
  ta_attachment_id :: string_id
  ta_media_type :: str
  ta_name :: "str option"
  ta_size :: "u64 option"
  ta_source :: "attachment_source option"
  ta_placeholder :: "str option"

datatype todo_status = TodoPending | TodoInProgress | TodoDone

record todo_item =
  td_title :: str
  td_status :: todo_status

record transcript_todo =
  to_todo_id :: string_id
  to_items :: "todo_item list"
  to_updated_at :: "str option"

section \<open>Metadata\<close>

datatype goal_status = GoalActive | GoalPaused | GoalBlocked | GoalComplete

record goal_meta =
  gm_objective :: str
  gm_status :: goal_status
  gm_completion_criterion :: "str option"
  gm_budget_used :: "u64 option"
  gm_budget_limit :: "u64 option"

record plan_mode = pm_review_path :: "str option"
record swarm_mode = sm_trigger :: "str option"

record modes_meta =
  mo_plan :: "plan_mode option"
  mo_swarm :: "swarm_mode option"

record modes_meta_merge =
  mm_plan :: "plan_mode option option"
  mm_swarm :: "swarm_mode option option"

datatype activity_meta = ActIdle | ActTurn | ActDisposing | ActUnknown

record transcript_meta =
  me_goal :: "goal_meta option"
  me_modes :: "modes_meta option"
  me_activity :: "activity_meta option"

definition transcript_meta_default :: transcript_meta where
  "transcript_meta_default = \<lparr> me_goal = None, me_modes = None, me_activity = None \<rparr>"

record transcript_meta_merge =
  mg_goal :: "goal_meta option"
  mg_modes :: "modes_meta_merge option"
  mg_activity :: "activity_meta option"

section \<open>Operations\<close>

record 'j turn_header =
  th_turn_id :: string_id
  th_ordinal :: i64
  th_state :: turn_state
  th_origin :: "'j turn_origin"
  th_prompt :: "str option"
  th_attachment_ids :: "string_id list option"
  th_started_at :: "str option"
  th_ended_at :: "str option"
  th_usage :: "'j transcript_usage option"

definition header_of_turn :: "'j transcript_turn \<Rightarrow> 'j turn_header" where
  "header_of_turn t = \<lparr> th_turn_id = tt_turn_id t, th_ordinal = tt_ordinal t, th_state = tt_state t,
     th_origin = tt_origin t, th_prompt = tt_prompt t, th_attachment_ids = tt_attachment_ids t,
     th_started_at = tt_started_at t, th_ended_at = tt_ended_at t, th_usage = tt_usage t \<rparr>"

definition into_turn :: "'j turn_header \<Rightarrow> 'j transcript_step list \<Rightarrow> 'j transcript_turn" where
  "into_turn h steps = \<lparr> tt_turn_id = th_turn_id h, tt_ordinal = th_ordinal h, tt_state = th_state h,
     tt_origin = th_origin h, tt_prompt = th_prompt h, tt_attachment_ids = th_attachment_ids h,
     tt_steps = steps, tt_started_at = th_started_at h, tt_ended_at = th_ended_at h, tt_usage = th_usage h \<rparr>"

record step_header =
  sh_step_id :: string_id
  sh_turn_id :: string_id
  sh_ordinal :: i64
  sh_state :: step_state
  sh_started_at :: "str option"
  sh_ended_at :: "str option"

definition header_of_step :: "'j transcript_step \<Rightarrow> step_header" where
  "header_of_step s = \<lparr> sh_step_id = ts_step_id s, sh_turn_id = ts_turn_id s, sh_ordinal = ts_ordinal s,
     sh_state = ts_state s, sh_started_at = ts_started_at s, sh_ended_at = ts_ended_at s \<rparr>"

definition into_step :: "step_header \<Rightarrow> 'j transcript_frame list \<Rightarrow> 'j transcript_step" where
  "into_step h frames = \<lparr> ts_step_id = sh_step_id h, ts_turn_id = sh_turn_id h, ts_ordinal = sh_ordinal h,
     ts_state = sh_state h, ts_frames = frames, ts_started_at = sh_started_at h, ts_ended_at = sh_ended_at h \<rparr>"

datatype append_target =
    TargetFrame string_id string_id string_id
  | TargetTask string_id

record 'j agent_transcript_snapshot =
  as_items :: "'j transcript_item list"
  as_tasks :: "transcript_task list"
  as_interactions :: "'j transcript_interaction list"
  as_attachments :: "transcript_attachment list"
  as_todos :: "transcript_todo list"
  as_meta :: transcript_meta
  as_has_more_older :: "bool option"

datatype 'j transcript_operation =
    Reset string_id "'j agent_transcript_snapshot"
  | TurnUpsert "'j turn_header"
  | StepUpsert string_id step_header
  | FrameUpsert string_id string_id "'j transcript_frame"
  | Append append_target nat str
  | MarkerUpsert "'j transcript_marker" "i64 option"
  | TaskRefUpsert transcript_task_ref "i64 option"
  | TaskUpsert transcript_task
  | InteractionUpsert "'j transcript_interaction"
  | AttachmentUpsert transcript_attachment
  | TodoUpsert transcript_todo
  | MetaMerge transcript_meta_merge
  | ItemsRemove "str list"

fun op_name :: "'j transcript_operation \<Rightarrow> str" where
  "op_name (Reset _ _) = lit ''reset''"
| "op_name (TurnUpsert _) = lit ''turn.upsert''"
| "op_name (StepUpsert _ _) = lit ''step.upsert''"
| "op_name (FrameUpsert _ _ _) = lit ''frame.upsert''"
| "op_name (Append _ _ _) = lit ''append''"
| "op_name (MarkerUpsert _ _) = lit ''marker.upsert''"
| "op_name (TaskRefUpsert _ _) = lit ''taskref.upsert''"
| "op_name (TaskUpsert _) = lit ''task.upsert''"
| "op_name (InteractionUpsert _) = lit ''interaction.upsert''"
| "op_name (AttachmentUpsert _) = lit ''attachment.upsert''"
| "op_name (TodoUpsert _) = lit ''todo.upsert''"
| "op_name (MetaMerge _) = lit ''meta.merge''"
| "op_name (ItemsRemove _) = lit ''items.remove''"

record append_gap =
  ag_target :: append_target
  ag_expected :: nat
  ag_got :: nat

record 'j applied_ops =
  ao_accepted :: "'j transcript_operation list"
  ao_gap :: "append_gap option"

record 'j transcript_change_event =
  ce_agent_id :: string_id
  ce_ops :: "'j transcript_operation list"

section \<open>Identifiers read back\<close>

lemma digits_value_append:
  "digits_value a (xs @ ys) = Option.bind (digits_value a xs) (\<lambda>b. digits_value b ys)"
  by (induction xs arbitrary: a) auto

lemma digits_value_digits: "digits_value 0 (digits n) = Some n"
proof (induction n rule: digits.induct)
  case (1 n)
  then show ?case by (cases "n < 10") (auto simp: digits.simps [of n] digits_value_append)
qed

lemma digits_hd: "48 \<le> hd (digits n) \<and> hd (digits n) \<le> 57"
  using digits_range [of "hd (digits n)" n] digits_nonempty [of n] by simp

lemma parse_i64_show: "is_i64 i \<Longrightarrow> parse_i64 (show_int i) = Some i"
  using digits_hd [of "nat i"] digits_nonempty digits_value_digits
  by (auto simp: parse_i64_def show_int_def Let_def)

lemma trim_show: "trim (show_int i) = show_int i"
proof -
  have sp: "\<not> is_space c" if "c \<in> set (show_int i)" for c
    using that digits_range by (fastforce simp: show_int_def is_space_def split: if_splits)
  have dw: "dropWhile is_space xs = xs" if "\<forall>c\<in>set xs. \<not> is_space c" for xs
    using that by (cases xs) auto
  have "dropWhile is_space (show_int i) = show_int i" "dropWhile is_space (rev (show_int i)) = rev (show_int i)"
    using sp by (auto intro!: dw)
  then show ?thesis by (simp add: trim_def)
qed

lemma turn_ordinal_id: "is_i64 n \<Longrightarrow> turn_ordinal (turn_id n) = n"
  by (simp add: turn_id_def lit_def trim_show parse_i64_show)

end
