(* ===== verification/TranscriptOps.thy ===== *)
theory TranscriptOps
  imports TranscriptModel
begin

text \<open>
  The reducer of one agent transcript, \<open>ops/apply.rs\<close>: every operation as a function from a state to a
  state, a flag that says whether anything changed, and the gap of an append that does not fit. The
  shared branches behind \<open>Arc\<close> are plain values. Text offsets count UTF-16 code units.
\<close>

section \<open>Text in UTF-16\<close>

definition utf16_char :: "nat \<Rightarrow> nat list" where
  "utf16_char c = (if c < 0x10000 then [c]
     else [0xD800 + (c - 0x10000) div 1024, 0xDC00 + (c - 0x10000) mod 1024])"

definition encode_utf16 :: "str \<Rightarrow> nat list" where
  "encode_utf16 s = concat (map utf16_char s)"

fun from_utf16 :: "nat list \<Rightarrow> str option" where
  "from_utf16 [] = Some []"
| "from_utf16 (u # us) =
     (if u < 0xD800 \<or> 0xE000 \<le> u then map_option (Cons u) (from_utf16 us)
      else if 0xDC00 \<le> u then None
      else (case us of
              [] \<Rightarrow> None
            | v # vs \<Rightarrow> if 0xDC00 \<le> v \<and> v < 0xE000
                        then map_option (Cons (0x10000 + (u - 0xD800) * 1024 + (v - 0xDC00))) (from_utf16 vs)
                        else None))"

section \<open>State and results\<close>

record 'j agent_state =
  st_items :: "'j transcript_item list"
  st_tasks :: "(string_id, transcript_task) imap"
  st_interactions :: "(string_id, 'j transcript_interaction) imap"
  st_attachments :: "(string_id, transcript_attachment) imap"
  st_todos :: "(string_id, transcript_todo) imap"
  st_meta :: transcript_meta
  st_pending_interactions :: "string_id list"
  st_has_more_older :: bool

definition agent_state_default :: "'j agent_state" where
  "agent_state_default = \<lparr> st_items = [], st_tasks = [], st_interactions = [], st_attachments = [], st_todos = [],
     st_meta = transcript_meta_default, st_pending_interactions = [], st_has_more_older = False \<rparr>"

record offset_gap =
  og_expected :: nat
  og_got :: nat

record 'j apply_result =
  res_state :: "'j agent_state"
  res_changed :: bool
  res_gap :: "offset_gap option"

definition unchanged :: "'j agent_state \<Rightarrow> 'j apply_result" where
  "unchanged s = \<lparr> res_state = s, res_changed = False, res_gap = None \<rparr>"

definition changed :: "'j agent_state \<Rightarrow> 'j apply_result" where
  "changed s = \<lparr> res_state = s, res_changed = True, res_gap = None \<rparr>"

definition gap_result :: "'j agent_state \<Rightarrow> offset_gap \<Rightarrow> 'j apply_result" where
  "gap_result s g = \<lparr> res_state = s, res_changed = False, res_gap = Some g \<rparr>"

section \<open>Reset\<close>

fun pending_frames :: "'j transcript_frame list \<Rightarrow> string_id list \<Rightarrow> string_id list" where
  "pending_frames [] pending = pending"
| "pending_frames (InteractionFrame f # fs) pending =
     pending_frames fs (if if_state f = IsPending then iset_insert (if_interaction_id f) pending else pending)"
| "pending_frames (_ # fs) pending = pending_frames fs pending"

fun pending_items :: "'j transcript_item list \<Rightarrow> string_id list \<Rightarrow> string_id list" where
  "pending_items [] pending = pending"
| "pending_items (ItemTurn t # rest) pending =
     pending_items rest (foldl (\<lambda>p s. pending_frames (ts_frames s) p) pending (tt_steps t))"
| "pending_items (_ # rest) pending = pending_items rest pending"

definition collect_by :: "('a \<Rightarrow> 'k) \<Rightarrow> 'a list \<Rightarrow> ('k, 'a) imap" where
  "collect_by key xs = foldl (\<lambda>m x. imap_insert (key x) x m) [] xs"

definition apply_reset :: "'j agent_transcript_snapshot \<Rightarrow> 'j apply_result" where
  "apply_reset snapshot =
     (let pending = foldl (\<lambda>p i. if ti_state i = IsPending then iset_insert (ti_interaction_id i) p else p) []
                      (as_interactions snapshot);
          pending = pending_items (as_items snapshot) pending
      in changed \<lparr> st_items = as_items snapshot,
           st_tasks = collect_by tk_task_id (as_tasks snapshot),
           st_interactions = collect_by ti_interaction_id (as_interactions snapshot),
           st_attachments = collect_by ta_attachment_id (as_attachments snapshot),
           st_todos = collect_by to_todo_id (as_todos snapshot),
           st_meta = as_meta snapshot,
           st_pending_interactions = pending,
           st_has_more_older = (case as_has_more_older snapshot of None \<Rightarrow> False | Some b \<Rightarrow> b) \<rparr>)"

section \<open>Turns, steps and frames\<close>

definition skeleton_turn :: "string_id \<Rightarrow> 'j transcript_turn" where
  "skeleton_turn tid = \<lparr> tt_turn_id = tid, tt_ordinal = turn_ordinal tid, tt_state = TurnRunning,
     tt_origin = origin_other, tt_prompt = None, tt_attachment_ids = None, tt_steps = [], tt_started_at = None,
     tt_ended_at = None, tt_usage = None \<rparr>"

definition skeleton_step :: "string_id \<Rightarrow> string_id \<Rightarrow> 'j transcript_step" where
  "skeleton_step sid tid =
     (let ordinal = (case Option.bind (Option.bind (strip_prefix tid sid) (strip_prefix (lit ''.''))) parse_i64 of
                       None \<Rightarrow> 0 | Some i \<Rightarrow> i)
      in \<lparr> ts_step_id = sid, ts_turn_id = tid, ts_ordinal = ordinal, ts_state = StepRunning, ts_frames = [],
           ts_started_at = None, ts_ended_at = None \<rparr>)"

fun find_turn :: "'j transcript_item list \<Rightarrow> string_id \<Rightarrow> 'j transcript_turn option" where
  "find_turn [] tid = None"
| "find_turn (ItemTurn t # rest) tid = (if tt_turn_id t = tid then Some t else find_turn rest tid)"
| "find_turn (_ # rest) tid = find_turn rest tid"

definition get_turn :: "'j agent_state \<Rightarrow> string_id \<Rightarrow> 'j transcript_turn option" where
  "get_turn s tid = find_turn (st_items s) tid"

definition turn_after :: "i64 \<Rightarrow> 'j transcript_item \<Rightarrow> bool" where
  "turn_after n item = (case item of ItemTurn t \<Rightarrow> tt_ordinal t > n | _ \<Rightarrow> False)"

text \<open>Insertion before the first item that satisfies a test, or at the end.\<close>

definition insert_before :: "('a \<Rightarrow> bool) \<Rightarrow> 'a \<Rightarrow> 'a list \<Rightarrow> 'a list" where
  "insert_before P x xs = takeWhile (\<lambda>y. \<not> P y) xs @ x # dropWhile (\<lambda>y. \<not> P y) xs"

definition insert_turn :: "'j transcript_item list \<Rightarrow> 'j transcript_turn \<Rightarrow> 'j transcript_item list" where
  "insert_turn items t = insert_before (turn_after (tt_ordinal t)) (ItemTurn t) items"

fun replace_item :: "string_id \<Rightarrow> 'j transcript_turn \<Rightarrow> 'j transcript_item \<Rightarrow> 'j transcript_item" where
  "replace_item tid r (ItemTurn t) = (if tt_turn_id t = tid then ItemTurn r else ItemTurn t)"
| "replace_item tid r item = item"

definition replace_turn :: "'j transcript_item list \<Rightarrow> string_id \<Rightarrow> 'j transcript_turn \<Rightarrow> 'j transcript_item list" where
  "replace_turn items tid r = map (replace_item tid r) items"

fun origin_payload :: "'j turn_origin \<Rightarrow> 'j optional_json_value" where
  "origin_payload (OriginUser p) = p"
| "origin_payload (OriginCron _ p) = p"
| "origin_payload (OriginTask _ p) = p"
| "origin_payload (OriginHook p) = p"
| "origin_payload (OriginCompaction p) = p"
| "origin_payload (OriginSide p) = p"
| "origin_payload (OriginOther p) = p"

definition origin_kind_and_payload_equal :: "'j turn_origin \<Rightarrow> 'j turn_origin \<Rightarrow> bool" where
  "origin_kind_and_payload_equal left right \<longleftrightarrow>
     origin_kind left = origin_kind right \<and> origin_payload left = origin_payload right"

definition turn_equals :: "'j transcript_turn \<Rightarrow> 'j turn_header \<Rightarrow> bool" where
  "turn_equals t h \<longleftrightarrow> tt_ordinal t = th_ordinal h \<and> tt_state t = th_state h \<and> tt_prompt t = th_prompt h
     \<and> tt_attachment_ids t = th_attachment_ids h \<and> tt_started_at t = th_started_at h
     \<and> tt_ended_at t = th_ended_at h \<and> origin_kind_and_payload_equal (tt_origin t) (th_origin h)
     \<and> tt_usage t = th_usage h"

definition apply_turn_upsert :: "'j agent_state \<Rightarrow> 'j turn_header \<Rightarrow> 'j apply_result" where
  "apply_turn_upsert s h =
     (case get_turn s (th_turn_id h) of
        Some t \<Rightarrow>
          if turn_equals t h then unchanged s
          else changed (s\<lparr> st_items := replace_turn (st_items s) (th_turn_id h) (into_turn h (tt_steps t)) \<rparr>)
      | None \<Rightarrow> changed (s\<lparr> st_items := insert_turn (st_items s) (into_turn h []) \<rparr>))"

definition step_equals :: "'j transcript_step \<Rightarrow> step_header \<Rightarrow> bool" where
  "step_equals s h \<longleftrightarrow> ts_ordinal s = sh_ordinal h \<and> ts_state s = sh_state h
     \<and> ts_started_at s = sh_started_at h \<and> ts_ended_at s = sh_ended_at h"

definition position :: "('a \<Rightarrow> bool) \<Rightarrow> 'a list \<Rightarrow> nat option" where
  "position P xs = (let i = length (takeWhile (\<lambda>x. \<not> P x) xs) in if i < length xs then Some i else None)"

definition put_turn :: "'j agent_state \<Rightarrow> string_id \<Rightarrow> 'j transcript_turn \<Rightarrow> 'j agent_state" where
  "put_turn s tid t = s\<lparr> st_items := (if get_turn s tid \<noteq> None then replace_turn (st_items s) tid t
                                      else insert_turn (st_items s) t) \<rparr>"

definition turn_or_skeleton :: "'j agent_state \<Rightarrow> string_id \<Rightarrow> 'j transcript_turn" where
  "turn_or_skeleton s tid = (case get_turn s tid of Some t \<Rightarrow> t | None \<Rightarrow> skeleton_turn tid)"

definition apply_step_upsert :: "'j agent_state \<Rightarrow> string_id \<Rightarrow> step_header \<Rightarrow> 'j apply_result" where
  "apply_step_upsert s tid h =
     (let t = turn_or_skeleton s tid in
      case position (\<lambda>x. ts_step_id x = sh_step_id h) (tt_steps t) of
        Some i \<Rightarrow>
          if step_equals (tt_steps t ! i) h then unchanged s
          else changed (put_turn s tid
                 (t\<lparr> tt_steps := (tt_steps t)[i := into_step h (ts_frames (tt_steps t ! i))] \<rparr>))
      | None \<Rightarrow>
          changed (put_turn s tid
            (t\<lparr> tt_steps := sort_key ts_ordinal (tt_steps t @ [into_step h []]) \<rparr>)))"

fun frame_equals :: "'j transcript_frame \<Rightarrow> 'j transcript_frame \<Rightarrow> bool" where
  "frame_equals (TextFrame a) (TextFrame b) \<longleftrightarrow> tf_text a = tf_text b \<and> tf_role a = tf_role b
     \<and> tf_attachment_ids a = tf_attachment_ids b \<and> tf_task_id a = tf_task_id b"
| "frame_equals (ThinkingFrame a) (ThinkingFrame b) \<longleftrightarrow> kf_text a = kf_text b"
| "frame_equals (ToolFrame a) (ToolFrame b) \<longleftrightarrow> tc_state a = tc_state b \<and> tc_tool_call_id a = tc_tool_call_id b
     \<and> tc_name a = tc_name b \<and> tc_view a = tc_view b \<and> tc_input a = tc_input b \<and> tc_output a = tc_output b
     \<and> tc_display a = tc_display b \<and> tc_error a = tc_error b \<and> tc_task_id a = tc_task_id b
     \<and> tc_approval_id a = tc_approval_id b \<and> tc_todo_id a = tc_todo_id b \<and> tc_agent_refs a = tc_agent_refs b"
| "frame_equals (InteractionFrame a) (InteractionFrame b) \<longleftrightarrow> if_state a = if_state b
     \<and> if_request a = if_request b \<and> if_response a = if_response b"
| "frame_equals (NoticeFrame a) (NoticeFrame b) \<longleftrightarrow> nf_message a = nf_message b \<and> nf_level a = nf_level b
     \<and> nf_detail a = nf_detail b"
| "frame_equals _ _ \<longleftrightarrow> False"

definition track_pending :: "string_id list \<Rightarrow> 'j transcript_frame \<Rightarrow> string_id list option" where
  "track_pending pending frame =
     (case frame of
        InteractionFrame f \<Rightarrow>
          if if_state f = IsPending then
            (if if_interaction_id f \<in> set pending then None else Some (iset_insert (if_interaction_id f) pending))
          else if if_interaction_id f \<notin> set pending then None
          else Some (iset_remove (if_interaction_id f) pending)
      | _ \<Rightarrow> None)"

definition apply_frame_upsert ::
  "'j agent_state \<Rightarrow> string_id \<Rightarrow> string_id \<Rightarrow> 'j transcript_frame \<Rightarrow> 'j apply_result" where
  "apply_frame_upsert s tid sid frame =
     (let t = turn_or_skeleton s tid;
          existing_step = position (\<lambda>x. ts_step_id x = sid) (tt_steps t);
          st = (case existing_step of Some i \<Rightarrow> tt_steps t ! i | None \<Rightarrow> skeleton_step sid tid);
          existing_frame = position (\<lambda>f. frame_id_of f = frame_id_of frame) (ts_frames st) in
      if (case existing_frame of Some i \<Rightarrow> frame_equals (ts_frames st ! i) frame | None \<Rightarrow> False) then unchanged s
      else
        (let st = st\<lparr> ts_frames := (case existing_frame of
                                      Some i \<Rightarrow> (ts_frames st)[i := frame] | None \<Rightarrow> ts_frames st @ [frame]) \<rparr>;
             t = t\<lparr> tt_steps := (case existing_step of
                                   Some i \<Rightarrow> (tt_steps t)[i := st]
                                 | None \<Rightarrow> sort_key ts_ordinal (tt_steps t @ [st])) \<rparr>;
             next_s = put_turn s tid t
         in changed (case track_pending (st_pending_interactions s) frame of
                       None \<Rightarrow> next_s | Some p \<Rightarrow> next_s\<lparr> st_pending_interactions := p \<rparr>)))"

section \<open>Appends\<close>

record append_at_offset_result =
  aa_text :: str
  aa_changed :: bool
  aa_gap :: "offset_gap option"

definition append_gap_at :: "str \<Rightarrow> nat \<Rightarrow> nat \<Rightarrow> append_at_offset_result" where
  "append_gap_at local expected got =
     \<lparr> aa_text = local, aa_changed = False, aa_gap = Some \<lparr> og_expected = expected, og_got = got \<rparr> \<rparr>"

definition append_at_offset :: "str \<Rightarrow> nat \<Rightarrow> str \<Rightarrow> append_at_offset_result" where
  "append_at_offset local offset chunk =
     (let local_units = encode_utf16 local; chunk_units = encode_utf16 chunk; expected = length local_units in
      if offset > length local_units then append_gap_at local expected offset
      else
        (let duplicate_end = offset + length chunk_units in
         if duplicate_end \<le> length local_units \<and> slice offset duplicate_end local_units = chunk_units
         then \<lparr> aa_text = local, aa_changed = False, aa_gap = None \<rparr>
         else
           (let overlap = length local_units - offset in
            if drop offset local_units \<noteq> take (min (length chunk_units) overlap) chunk_units
               \<or> overlap > length chunk_units
            then append_gap_at local expected offset
            else if drop overlap chunk_units = []
            then \<lparr> aa_text = local, aa_changed = False, aa_gap = None \<rparr>
            else (case from_utf16 (take offset local_units @ chunk_units) of
                    None \<Rightarrow> append_gap_at local expected offset
                  | Some text \<Rightarrow> \<lparr> aa_text = text, aa_changed = True, aa_gap = None \<rparr>))))"

fun text_of_frame :: "'j transcript_frame \<Rightarrow> str option" where
  "text_of_frame (TextFrame f) = Some (tf_text f)"
| "text_of_frame (ThinkingFrame f) = Some (kf_text f)"
| "text_of_frame _ = None"

fun with_text :: "str \<Rightarrow> 'j transcript_frame \<Rightarrow> 'j transcript_frame" where
  "with_text text (TextFrame f) = TextFrame (f\<lparr> tf_text := text \<rparr>)"
| "with_text text (ThinkingFrame f) = ThinkingFrame (f\<lparr> kf_text := text \<rparr>)"
| "with_text text f = f"

definition apply_frame_append ::
  "'j agent_state \<Rightarrow> string_id \<Rightarrow> string_id \<Rightarrow> string_id \<Rightarrow> nat \<Rightarrow> str \<Rightarrow> 'j apply_result" where
  "apply_frame_append s tid sid fid offset text =
     (let missing = gap_result s \<lparr> og_expected = 0, og_got = offset \<rparr> in
      case get_turn s tid of None \<Rightarrow> missing | Some t \<Rightarrow>
      (case find (\<lambda>x. ts_step_id x = sid) (tt_steps t) of None \<Rightarrow> missing | Some st \<Rightarrow>
       (case find (\<lambda>f. frame_id_of f = fid) (ts_frames st) of None \<Rightarrow> missing | Some frame \<Rightarrow>
        (case text_of_frame frame of None \<Rightarrow> missing | Some current \<Rightarrow>
          (let merged = append_at_offset current offset text in
           case aa_gap merged of
             Some g \<Rightarrow> gap_result s g
           | None \<Rightarrow>
               if \<not> aa_changed merged then unchanged s
               else
                 (let next_frame = with_text (aa_text merged) frame;
                      next_step = st\<lparr> ts_frames := map (\<lambda>f. if frame_id_of f = fid then next_frame else f) (ts_frames st) \<rparr>;
                      next_turn = t\<lparr> tt_steps := map (\<lambda>x. if ts_step_id x = sid then next_step else x) (tt_steps t) \<rparr>
                  in changed (s\<lparr> st_items := replace_turn (st_items s) tid next_turn \<rparr>)))))))"

definition apply_task_append :: "'j agent_state \<Rightarrow> string_id \<Rightarrow> nat \<Rightarrow> str \<Rightarrow> 'j apply_result" where
  "apply_task_append s tid offset text =
     (let current = (case imap_get (st_tasks s) tid of None \<Rightarrow> [] | Some t \<Rightarrow> tk_output_tail t);
          merged = append_at_offset current offset text in
      case aa_gap merged of
        Some g \<Rightarrow> gap_result s g
      | None \<Rightarrow>
          if \<not> aa_changed merged then unchanged s
          else
            (let t = (case imap_get (st_tasks s) tid of
                        Some t \<Rightarrow> t\<lparr> tk_output_tail := aa_text merged \<rparr>
                      | None \<Rightarrow> \<lparr> tk_task_id = tid, tk_kind = TaskOther, tk_state = TaskRunning, tk_detached = False,
                                   tk_description = None, tk_agent_id = None, tk_output_tail = aa_text merged,
                                   tk_started_at = None, tk_ended_at = None \<rparr>)
             in changed (s\<lparr> st_tasks := imap_insert tid t (st_tasks s) \<rparr>)))"

fun apply_append :: "'j agent_state \<Rightarrow> append_target \<Rightarrow> nat \<Rightarrow> str \<Rightarrow> 'j apply_result" where
  "apply_append s (TargetTask tid) offset text = apply_task_append s tid offset text"
| "apply_append s (TargetFrame tid sid fid) offset text = apply_frame_append s tid sid fid offset text"

section \<open>Items and entities\<close>

definition turn_from :: "i64 \<Rightarrow> 'j transcript_item \<Rightarrow> bool" where
  "turn_from n item = (case item of ItemTurn t \<Rightarrow> tt_ordinal t \<ge> n | _ \<Rightarrow> False)"

definition apply_item_upsert ::
  "'j agent_state \<Rightarrow> 'j transcript_item \<Rightarrow> str \<Rightarrow> i64 option \<Rightarrow> 'j apply_result" where
  "apply_item_upsert s item iid before_turn =
     (if list_ex (\<lambda>e. item_id e = iid) (st_items s) then
        (let items = map (\<lambda>e. if item_id e \<noteq> iid \<or> e = item then e else item) (st_items s) in
         if \<not> list_ex (\<lambda>e. item_id e = iid \<and> e \<noteq> item) (st_items s) then unchanged s
         else changed (s\<lparr> st_items := items \<rparr>))
      else
        changed (s\<lparr> st_items := (case before_turn of
                                   Some anchor \<Rightarrow> insert_before (turn_from anchor) item (st_items s)
                                 | None \<Rightarrow> st_items s @ [item]) \<rparr>))"

fun frame_anchors :: "'j transcript_frame list \<Rightarrow> str list \<times> string_id list \<Rightarrow> str list \<times> string_id list" where
  "frame_anchors [] acc = acc"
| "frame_anchors (ToolFrame f # fs) (calls, pending) = frame_anchors fs (iset_insert (tc_tool_call_id f) calls, pending)"
| "frame_anchors (InteractionFrame f # fs) (calls, pending) = frame_anchors fs (calls, iset_remove (if_interaction_id f) pending)"
| "frame_anchors (_ # fs) acc = frame_anchors fs acc"

definition turn_anchors :: "str list \<times> string_id list \<Rightarrow> 'j transcript_turn \<Rightarrow> str list \<times> string_id list" where
  "turn_anchors acc t = foldl (\<lambda>a s. frame_anchors (ts_frames s) a) acc (tt_steps t)"

fun removed_turns :: "str list \<Rightarrow> 'j transcript_item list \<Rightarrow> 'j transcript_turn list" where
  "removed_turns ids [] = []"
| "removed_turns ids (ItemTurn t # rest) =
     (if tt_turn_id t \<in> set ids then t # removed_turns ids rest else removed_turns ids rest)"
| "removed_turns ids (_ # rest) = removed_turns ids rest"

definition apply_items_remove :: "'j agent_state \<Rightarrow> str list \<Rightarrow> 'j apply_result" where
  "apply_items_remove s ids =
     (let gone = removed_turns ids (st_items s);
          items = filter (\<lambda>i. item_id i \<notin> set ids) (st_items s) in
      if length items = length (st_items s) then unchanged s
      else
        (let next_s = s\<lparr> st_items := items \<rparr> in
         if gone = [] then changed next_s
         else
           (let (calls, pending) = foldl turn_anchors ([], st_pending_interactions s) gone;
                dead = map (ti_interaction_id \<circ> snd)
                         (filter (\<lambda>(_, i). ti_tool_call_id i \<in> set calls) (st_interactions s));
                interactions = foldl (\<lambda>m k. imap_remove k m) (st_interactions s) dead;
                pending = foldl (\<lambda>p k. iset_remove k p) pending dead
            in changed (next_s\<lparr> st_interactions := interactions, st_pending_interactions := pending \<rparr>))))"

definition task_equals :: "transcript_task \<Rightarrow> transcript_task \<Rightarrow> bool" where
  "task_equals a b \<longleftrightarrow> tk_kind a = tk_kind b \<and> tk_state a = tk_state b \<and> tk_detached a = tk_detached b
     \<and> tk_description a = tk_description b \<and> tk_agent_id a = tk_agent_id b \<and> tk_output_tail a = tk_output_tail b
     \<and> tk_started_at a = tk_started_at b \<and> tk_ended_at a = tk_ended_at b"

definition apply_task_upsert :: "'j agent_state \<Rightarrow> transcript_task \<Rightarrow> 'j apply_result" where
  "apply_task_upsert s t =
     (if (case imap_get (st_tasks s) (tk_task_id t) of None \<Rightarrow> False | Some c \<Rightarrow> task_equals c t) then unchanged s
      else changed (s\<lparr> st_tasks := imap_insert (tk_task_id t) t (st_tasks s) \<rparr>))"

definition interaction_equals :: "'j transcript_interaction \<Rightarrow> 'j transcript_interaction \<Rightarrow> bool" where
  "interaction_equals a b \<longleftrightarrow> ti_interaction_kind a = ti_interaction_kind b \<and> ti_tool_call_id a = ti_tool_call_id b
     \<and> ti_state a = ti_state b \<and> ti_request a = ti_request b \<and> ti_response a = ti_response b"

definition apply_interaction_upsert :: "'j agent_state \<Rightarrow> 'j transcript_interaction \<Rightarrow> 'j apply_result" where
  "apply_interaction_upsert s i =
     (if (case imap_get (st_interactions s) (ti_interaction_id i) of None \<Rightarrow> False | Some c \<Rightarrow> interaction_equals c i)
      then unchanged s
      else
        (let pending = (if ti_state i = IsPending
                        then iset_insert (ti_interaction_id i) (st_pending_interactions s)
                        else iset_remove (ti_interaction_id i) (st_pending_interactions s))
         in changed (s\<lparr> st_interactions := imap_insert (ti_interaction_id i) i (st_interactions s),
                       st_pending_interactions := pending \<rparr>)))"

definition attachment_equals :: "transcript_attachment \<Rightarrow> transcript_attachment \<Rightarrow> bool" where
  "attachment_equals a b \<longleftrightarrow> ta_media_type a = ta_media_type b \<and> ta_name a = ta_name b \<and> ta_size a = ta_size b
     \<and> ta_source a = ta_source b \<and> ta_placeholder a = ta_placeholder b"

definition apply_attachment_upsert :: "'j agent_state \<Rightarrow> transcript_attachment \<Rightarrow> 'j apply_result" where
  "apply_attachment_upsert s a =
     (if (case imap_get (st_attachments s) (ta_attachment_id a) of None \<Rightarrow> False | Some c \<Rightarrow> attachment_equals c a)
      then unchanged s
      else changed (s\<lparr> st_attachments := imap_insert (ta_attachment_id a) a (st_attachments s) \<rparr>))"

definition apply_todo_upsert :: "'j agent_state \<Rightarrow> transcript_todo \<Rightarrow> 'j apply_result" where
  "apply_todo_upsert s t =
     (if (case imap_get (st_todos s) (to_todo_id t) of
            None \<Rightarrow> False | Some c \<Rightarrow> to_items c = to_items t \<and> to_updated_at c = to_updated_at t)
      then unchanged s
      else changed (s\<lparr> st_todos := imap_insert (to_todo_id t) t (st_todos s) \<rparr>))"

definition merge_modes :: "modes_meta option \<Rightarrow> modes_meta_merge \<Rightarrow> modes_meta option" where
  "merge_modes modes m =
     (let plan = (case mm_plan m of None \<Rightarrow> Option.bind modes mo_plan | Some v \<Rightarrow> v);
          swarm = (case mm_swarm m of None \<Rightarrow> Option.bind modes mo_swarm | Some v \<Rightarrow> v)
      in if plan = None \<and> swarm = None then None else Some \<lparr> mo_plan = plan, mo_swarm = swarm \<rparr>)"

definition apply_meta_merge :: "'j agent_state \<Rightarrow> transcript_meta_merge \<Rightarrow> 'j apply_result" where
  "apply_meta_merge s m =
     (let modes = (case mg_modes m of None \<Rightarrow> me_modes (st_meta s) | Some mm \<Rightarrow> merge_modes (me_modes (st_meta s)) mm);
          next_meta = \<lparr> me_goal = (case mg_goal m of Some g \<Rightarrow> Some g | None \<Rightarrow> me_goal (st_meta s)),
                        me_modes = modes,
                        me_activity = (case mg_activity m of Some a \<Rightarrow> Some a | None \<Rightarrow> me_activity (st_meta s)) \<rparr>;
          modes_recreated = (mg_modes m \<noteq> None \<and> me_modes next_meta \<noteq> None) in
      if \<not> modes_recreated \<and> next_meta = st_meta s then unchanged s
      else changed (s\<lparr> st_meta := next_meta \<rparr>))"

fun apply_operation :: "'j agent_state \<Rightarrow> 'j transcript_operation \<Rightarrow> 'j apply_result" where
  "apply_operation s (Reset _ snapshot) = apply_reset snapshot"
| "apply_operation s (TurnUpsert h) = apply_turn_upsert s h"
| "apply_operation s (StepUpsert tid h) = apply_step_upsert s tid h"
| "apply_operation s (FrameUpsert tid sid f) = apply_frame_upsert s tid sid f"
| "apply_operation s (Append target offset text) = apply_append s target offset text"
| "apply_operation s (MarkerUpsert m before) = apply_item_upsert s (ItemMarker m) (mk_marker_id m) before"
| "apply_operation s (TaskRefUpsert r before) = apply_item_upsert s (ItemTaskRef r) (tr_ref_id r) before"
| "apply_operation s (TaskUpsert t) = apply_task_upsert s t"
| "apply_operation s (InteractionUpsert i) = apply_interaction_upsert s i"
| "apply_operation s (AttachmentUpsert a) = apply_attachment_upsert s a"
| "apply_operation s (TodoUpsert t) = apply_todo_upsert s t"
| "apply_operation s (MetaMerge m) = apply_meta_merge s m"
| "apply_operation s (ItemsRemove ids) = apply_items_remove s ids"

end
