(* ===== verification/TranscriptReducer.thy ===== *)
theory TranscriptReducer
  imports TranscriptOps
begin

text \<open>
  Correctness of the transcript reducer: text appends converge whatever chunks are repeated, every
  operation keeps the state well formed, and applying an operation again changes nothing.
\<close>

section \<open>UTF-16\<close>

definition is_scalar :: "nat \<Rightarrow> bool" where
  "is_scalar c \<longleftrightarrow> c < 0xD800 \<or> 0xE000 \<le> c \<and> c < 0x110000"

abbreviation valid_str :: "str \<Rightarrow> bool" where
  "valid_str s \<equiv> list_all is_scalar s"

lemma encode_utf16_simps [simp]:
  "encode_utf16 [] = []" "encode_utf16 (c # s) = utf16_char c @ encode_utf16 s"
  "encode_utf16 (s @ t) = encode_utf16 s @ encode_utf16 t"
  by (simp_all add: encode_utf16_def)

lemma utf16_char_nonempty: "utf16_char c \<noteq> []"
  by (simp add: utf16_char_def)

lemma encode_utf16_empty: "encode_utf16 s = [] \<longleftrightarrow> s = []"
  by (cases s) (auto simp: utf16_char_nonempty)

lemma from_utf16_char:
  assumes "is_scalar c"
  shows "from_utf16 (utf16_char c @ us) = map_option (Cons c) (from_utf16 us)"
proof (cases "c < 0x10000")
  case True
  then show ?thesis using assms by (simp add: utf16_char_def is_scalar_def)
next
  case False
  let ?d = "c - 0x10000"
  have d: "?d < 0x100000" "c = 0x10000 + ?d" using assms False by (auto simp: is_scalar_def)
  then have "?d div 1024 < 1024" by simp
  moreover have "?d mod 1024 < 1024" "?d div 1024 * 1024 + ?d mod 1024 = ?d" by simp_all
  ultimately show ?thesis using False d(2) by (simp add: utf16_char_def)
qed

lemma from_encode: "valid_str s \<Longrightarrow> from_utf16 (encode_utf16 s) = Some s"
  by (induction s) (auto simp: from_utf16_char)

lemma encode_units:
  assumes "valid_str s" and "u \<in> set (encode_utf16 s)"
  shows "u < 0x10000"
proof -
  have "v < 0x10000" if "is_scalar c" "v \<in> set (utf16_char c)" for v c
  proof (cases "c < 0x10000")
    case False
    then have "(c - 0x10000) div 1024 < 1024" "(c - 0x10000) mod 1024 < 1024" using that(1) by (auto simp: is_scalar_def)
    then show ?thesis using that(2) False by (auto simp: utf16_char_def)
  qed (use that in \<open>simp add: utf16_char_def\<close>)
  then show ?thesis using assms by (induction s) auto
qed

lemma encode_from:
  assumes "from_utf16 us = Some s" and "\<forall>u\<in>set us. u < 0x10000"
  shows "encode_utf16 s = us \<and> valid_str s"
  using assms
proof (induction us arbitrary: s rule: from_utf16.induct)
  case (2 u us)
  show ?case
  proof (cases "u < 0xD800 \<or> 0xE000 \<le> u")
    case True
    then show ?thesis using 2(1,3,4) by (auto simp: utf16_char_def is_scalar_def)
  next
    case False
    then obtain v vs t where v: "us = v # vs" "\<not> 0xDC00 \<le> u" "0xDC00 \<le> v" "v < 0xE000" "from_utf16 vs = Some t"
        "s = (0x10000 + (u - 0xD800) * 1024 + (v - 0xDC00)) # t"
      using 2(3) by (auto split: if_splits list.splits)
    have IH: "encode_utf16 t = vs \<and> valid_str t" using 2(2) [of v vs t] False v 2(4) by auto
    define x where "x = u - 0xD800"
    define y where "y = v - 0xDC00"
    have x: "x < 1024" "u = 0xD800 + x" and y: "y < 1024" "v = 0xDC00 + y" using False v by (auto simp: x_def y_def)
    have "(x * 1024 + y) div 1024 = x" "(x * 1024 + y) mod 1024 = y" using y(1) by simp_all
    moreover have "0x10000 + x * 1024 + y - 0x10000 = x * 1024 + y" by simp
    ultimately have "utf16_char (0x10000 + x * 1024 + y) = [u, v]" using x y by (simp add: utf16_char_def)
    moreover have "is_scalar (0x10000 + x * 1024 + y)" using x(1) y(1) by (simp add: is_scalar_def)
    ultimately show ?thesis using IH v(1,6) by (simp add: x_def y_def)
  qed
qed simp

section \<open>Appending text\<close>

lemma slice_split3:
  assumes "i \<le> j" and "j \<le> k"
  shows "slice i k xs = slice i j xs @ slice j k xs"
proof -
  obtain d e where "j = i + d" "k = j + e" using assms le_Suc_ex by metis
  then have "slice i k xs = take (d + e) (drop i xs)" "slice i j xs = take d (drop i xs)"
    "slice j k xs = take e (drop d (drop i xs))" by (simp_all add: slice_def add.commute)
  then show ?thesis by (simp add: take_add)
qed

lemma append_chunk:
  assumes "valid_str T" and "a \<le> length T" and "i \<le> j" and "j \<le> length T"
  shows "append_at_offset (take a T) (length (encode_utf16 (take i T))) (slice i j T) =
    (if i \<le> a then \<lparr> aa_text = take (max a j) T, aa_changed = (a < j), aa_gap = None \<rparr>
     else \<lparr> aa_text = take a T, aa_changed = False,
            aa_gap = Some \<lparr> og_expected = length (encode_utf16 (take a T)), og_got = length (encode_utf16 (take i T)) \<rparr> \<rparr>)"
proof (cases "i \<le> a")
  case False
  have "take i T = take a T @ slice a i T" using False by (simp add: slice_def flip: take_add)
  moreover have "slice a i T \<noteq> []" using False assms(3,4) by (simp add: slice_def)
  ultimately have "length (encode_utf16 (take a T)) < length (encode_utf16 (take i T))"
    by (simp add: encode_utf16_empty)
  then show ?thesis using False by (simp add: append_at_offset_def append_gap_at_def Let_def)
next
  case True
  define A where "A = encode_utf16 (take i T)"
  have split: "take n T = take i T @ slice i n T" if "i \<le> n" for n
    using that by (simp add: slice_def flip: take_add)
  have L: "encode_utf16 (take a T) = A @ encode_utf16 (slice i a T)" using split [OF True] by (simp add: A_def)
  show ?thesis
  proof (cases "j \<le> a")
    case True': True
    have "slice i a T = slice i j T @ slice j a T"
      using True' assms(3) by (intro slice_split3)
    then have L': "encode_utf16 (take a T) = A @ encode_utf16 (slice i j T) @ encode_utf16 (slice j a T)" using L by simp
    then have "slice (length A) (length A + length (encode_utf16 (slice i j T))) (encode_utf16 (take a T)) = encode_utf16 (slice i j T)"
      by (simp add: slice_mid)
    then show ?thesis using True True' L' by (simp add: append_at_offset_def Let_def A_def max_def)
  next
    case False
    define X where "X = encode_utf16 (slice i a T)"
    define Y where "Y = encode_utf16 (slice a j T)"
    have "slice i j T = slice i a T @ slice a j T"
      using False True by (intro slice_split3) simp_all
    then have C: "encode_utf16 (slice i j T) = X @ Y" by (simp add: X_def Y_def)
    have "slice a j T \<noteq> []" using False assms(2,4) by (simp add: slice_def)
    then have Y: "Y \<noteq> []" by (simp add: Y_def encode_utf16_empty)
    have LX: "encode_utf16 (take a T) = A @ X" using L X_def by simp
    have "A @ X @ Y = encode_utf16 (take j T)" using split [OF assms(3)] C by (simp add: A_def)
    moreover have "valid_str (take j T)" using assms(1) by (auto simp: list_all_iff dest: in_set_takeD)
    ultimately have dec: "from_utf16 (A @ X @ Y) = Some (take j T)" using from_encode by simp
    show ?thesis
      using True False Y dec
      by (simp add: append_at_offset_def Let_def A_def [symmetric] LX C max_def)
  qed
qed

lemma append_keeps:
  assumes "valid_str local" and "valid_str chunk" and "append_at_offset local off chunk = r"
    and "L = encode_utf16 local" and "C = encode_utf16 chunk" and "R = encode_utf16 (aa_text r)"
  shows "if aa_gap r = None then take (length L) R = L \<and> slice off (off + length C) R = C
         else aa_text r = local \<and> \<not> aa_changed r"
proof (cases "aa_gap r")
  case (Some g)
  then show ?thesis using assms(3)
    by (auto simp: append_at_offset_def append_gap_at_def Let_def split: if_splits option.splits)
next
  case gap: None
  have no_gap: "off \<le> length L" using assms(3,4) gap by (auto simp: append_at_offset_def append_gap_at_def Let_def split: if_splits)
  have "take (length L) R = L \<and> slice off (off + length C) R = C"
  proof (cases "off + length C \<le> length L \<and> slice off (off + length C) L = C")
    case True
    then have "aa_text r = local" using assms(3) no_gap unfolding assms(4,5) append_at_offset_def Let_def by auto
    then show ?thesis using True assms(4,6) by simp
  next
    case new: False
    define n where "n = length L - off"
    have "\<not> length L < off" using no_gap by simp
    then have r: "r = (if drop off L \<noteq> take (min (length C) n) C \<or> length C < n then append_gap_at local (length L) off
        else if drop n C = [] then \<lparr> aa_text = local, aa_changed = False, aa_gap = None \<rparr>
        else (case from_utf16 (take off L @ C) of None \<Rightarrow> append_gap_at local (length L) off
              | Some s \<Rightarrow> \<lparr> aa_text = s, aa_changed = True, aa_gap = None \<rparr>))"
      unfolding assms(3) [symmetric] append_at_offset_def Let_def assms(4,5) [symmetric] n_def
      by (simp only: if_not_P [OF new] if_False)
    have fits: "\<not> (drop off L \<noteq> take (min (length C) n) C \<or> length C < n)"
    proof
      assume "drop off L \<noteq> take (min (length C) n) C \<or> length C < n"
      then have "r = append_gap_at local (length L) off" unfolding r by (rule if_P)
      then show False using gap by (simp add: append_gap_at_def)
    qed
    then have agree: "drop off L = take (min (length C) n) C" "n \<le> length C" by (simp_all only: de_Morgan_disj not_less not_not)
    then have L: "L = take off L @ take n C" by (metis append_take_drop_id min.absorb2)
    have "drop n C \<noteq> []"
    proof
      assume "drop n C = []"
      then have "length C = n" "drop off L = C" using agree by simp_all
      then show False using new no_gap n_def by (simp add: slice_def)
    qed
    then have "from_utf16 (take off L @ C) = Some (aa_text r)"
      using gap unfolding r if_not_P [OF fits] by (cases "from_utf16 (take off L @ C)") (simp_all add: append_gap_at_def)
    moreover have "\<forall>u\<in>set (take off L @ C). u < 0x10000"
      using encode_units [OF assms(1)] encode_units [OF assms(2)] assms(4,5) by (auto dest: in_set_takeD)
    ultimately have R: "R = take off L @ C" using encode_from assms(6) by blast
    have "take (length L) R = take off L @ take n C" using no_gap n_def unfolding R by simp
    moreover have "slice off (off + length C) R = C" using slice_mid [of "take off L" C "[]"] no_gap unfolding R by simp
    ultimately show ?thesis using L by simp
  qed
  then show ?thesis using gap by simp
qed

text \<open>
  C33. Streamed text converges. Of a string \<open>T\<close> the receiver has the first \<open>a\<close> characters; the chunk
  \<open>T[i..j]\<close> arrives with its offset in UTF-16 units. If it does not start behind what the receiver has,
  then afterwards the receiver has the first \<open>max a j\<close> characters of \<open>T\<close> and nothing else: a repeated or
  overlapping chunk changes nothing it has, a chunk that goes further extends it. If it starts behind,
  the string stays and the gap reports the expected and the received offset. Of any other chunk, at any
  offset, one that is accepted stands at its offset in the new string, which begins with all that was
  there before; one that contradicts it is answered with a gap and changes nothing.
\<close>

theorem append_at_offset_converges:
  assumes "valid_str T" and "a \<le> length T" and "i \<le> j" and "j \<le> length T" and "valid_str other"
    and "r = append_at_offset (take a T) off other"
  shows "append_at_offset (take a T) (length (encode_utf16 (take i T))) (slice i j T) =
    (if i \<le> a then \<lparr> aa_text = take (max a j) T, aa_changed = (a < j), aa_gap = None \<rparr>
     else \<lparr> aa_text = take a T, aa_changed = False,
            aa_gap = Some \<lparr> og_expected = length (encode_utf16 (take a T)), og_got = length (encode_utf16 (take i T)) \<rparr> \<rparr>)
   \<and> (if aa_gap r = None
      then take (length (encode_utf16 (take a T))) (encode_utf16 (aa_text r)) = encode_utf16 (take a T)
           \<and> slice off (off + length (encode_utf16 other)) (encode_utf16 (aa_text r)) = encode_utf16 other
      else aa_text r = take a T \<and> \<not> aa_changed r)"
proof
  have "valid_str (take a T)" using assms(1) by (auto simp: list_all_iff dest: in_set_takeD)
  from append_keeps [OF this assms(5) assms(6) [symmetric] refl refl refl]
  show "if aa_gap r = None
      then take (length (encode_utf16 (take a T))) (encode_utf16 (aa_text r)) = encode_utf16 (take a T)
           \<and> slice off (off + length (encode_utf16 other)) (encode_utf16 (aa_text r)) = encode_utf16 other
      else aa_text r = take a T \<and> \<not> aa_changed r" .
qed (rule append_chunk [OF assms(1-4)])

theorem append_at_offset_converges_witness:
  "append_at_offset (lit ''hel'') 2 (lit ''llo'') = \<lparr> aa_text = lit ''hello'', aa_changed = True, aa_gap = None \<rparr>
   \<and> aa_gap (append_at_offset (lit ''hel'') 4 (lit ''o'')) = Some \<lparr> og_expected = 3, og_got = 4 \<rparr>"
proof -
  let ?T = "lit ''hello''"
  have v: "valid_str ?T" by (simp add: lit_def is_scalar_def)
  have o: "valid_str (lit ''x'')" by (simp add: lit_def is_scalar_def)
  have e: "length ?T = 5" "take 3 ?T = lit ''hel''" "take (max 3 5) ?T = ?T" "slice 2 5 ?T = lit ''llo''" "slice 4 5 ?T = lit ''o''"
    "length (encode_utf16 (take 2 ?T)) = 2" "length (encode_utf16 (lit ''hel'')) = 3" "length (encode_utf16 (take 4 ?T)) = 4"
    by (simp_all add: lit_def slice_def utf16_char_def)
  have "append_at_offset (lit ''hel'') 2 (lit ''llo'') = \<lparr> aa_text = ?T, aa_changed = True, aa_gap = None \<rparr>"
    using append_at_offset_converges [OF v _ _ _ o refl, of 3 2 5 0, THEN conjunct1] e by simp
  moreover have "aa_gap (append_at_offset (lit ''hel'') 4 (lit ''o'')) = Some \<lparr> og_expected = 3, og_got = 4 \<rparr>"
    using append_at_offset_converges [OF v _ _ _ o refl, of 3 4 5 0, THEN conjunct1] e by simp
  ultimately show ?thesis ..
qed

lemma append_valid_idem:
  assumes "valid_str local" and "valid_str chunk" and "append_at_offset local off chunk = r" and "aa_gap r = None"
  shows "valid_str (aa_text r)"
    and "append_at_offset (aa_text r) off chunk = \<lparr> aa_text = aa_text r, aa_changed = False, aa_gap = None \<rparr>"
proof -
  let ?L = "encode_utf16 local" and ?C = "encode_utf16 chunk"
  have "valid_str (aa_text r) \<and>
    append_at_offset (aa_text r) off chunk = \<lparr> aa_text = aa_text r, aa_changed = False, aa_gap = None \<rparr>"
  proof (cases "aa_changed r")
    case False
    then have "aa_text r = local" "r = \<lparr> aa_text = local, aa_changed = False, aa_gap = None \<rparr>"
      using assms(3,4) by (auto simp: append_at_offset_def append_gap_at_def Let_def split: if_splits option.splits)
    then show ?thesis using assms(1,3) by simp
  next
    case True
    then have off: "off \<le> length ?L" and dec: "from_utf16 (take off ?L @ ?C) = Some (aa_text r)"
      using assms(3,4) by (auto simp: append_at_offset_def append_gap_at_def Let_def split: if_splits option.splits)
    have "\<forall>u\<in>set (take off ?L @ ?C). u < 0x10000"
      using encode_units [OF assms(1)] encode_units [OF assms(2)] by (auto dest: in_set_takeD)
    from encode_from [OF dec this] have e: "encode_utf16 (aa_text r) = take off ?L @ ?C" "valid_str (aa_text r)" by auto
    have "slice off (off + length ?C) (take off ?L @ ?C) = ?C"
      using slice_mid [of "take off ?L" ?C "[]"] off by simp
    then show ?thesis using e off by (simp add: append_at_offset_def Let_def)
  qed
  then show "valid_str (aa_text r)" "append_at_offset (aa_text r) off chunk = \<lparr> aa_text = aa_text r, aa_changed = False, aa_gap = None \<rparr>"
    by auto
qed

end
