(* ===== verification/TranscriptInv.thy ===== *)
theory TranscriptInv
  imports TranscriptReducer "HOL-Library.Multiset"
begin

text \<open>
  The invariant of a transcript state and what a repeated operation does. A state is well formed when
  turns, the steps of a turn and the frames of a step are unique, the entity tables are keyed by their
  own ids, no interaction is pending twice, and every text is a Unicode string.
\<close>

section \<open>Lists with a distinguished element\<close>

lemma position_Some:
  assumes "position P xs = Some i"
  shows "i < length xs" and "P (xs ! i)" and "j < i \<Longrightarrow> \<not> P (xs ! j)"
proof -
  have i: "i = length (takeWhile (\<lambda>x. \<not> P x) xs)" "i < length xs"
    using assms by (auto simp: position_def Let_def split: if_splits)
  show "i < length xs" by (fact i(2))
  show "P (xs ! i)" using nth_length_takeWhile [of "\<lambda>x. \<not> P x" xs] i by simp
  show "j < i \<Longrightarrow> \<not> P (xs ! j)" using i(1) by (metis nth_mem set_takeWhileD takeWhile_nth)
qed

lemma position_None: "position P xs = None \<longleftrightarrow> (\<forall>x\<in>set xs. \<not> P x)"
proof -
  have "length (takeWhile (\<lambda>x. \<not> P x) xs) < length xs \<longleftrightarrow> (\<exists>x\<in>set xs. P x)"
    by (induction xs) auto
  then show ?thesis by (auto simp: position_def Let_def)
qed

lemma position_intro:
  assumes "i < length xs" and "P (xs ! i)" and "\<And>j. j < i \<Longrightarrow> \<not> P (xs ! j)"
  shows "position P xs = Some i"
proof -
  have "takeWhile (\<lambda>x. \<not> P x) xs = take i xs" by (rule takeWhile_eq_take_P_nth) (use assms in auto)
  then show ?thesis using assms(1) by (simp add: position_def)
qed

lemma position_update:
  assumes "position P xs = Some i" and "P y"
  shows "position P (xs[i := y]) = Some i"
  using position_Some [OF assms(1)] assms(2) by (intro position_intro) auto

lemma position_unique:
  assumes "y \<in> set xs" and "P y" and "\<And>x. x \<in> set xs \<Longrightarrow> P x \<Longrightarrow> x = y"
  obtains i where "position P xs = Some i" and "xs ! i = y"
proof -
  obtain i where i: "position P xs = Some i"
    using assms(1,2) position_None [of P xs] by (cases "position P xs") auto
  then show thesis using that position_Some [OF i] assms(3) nth_mem by blast
qed


lemma list_all_update: "list_all Q xs \<Longrightarrow> Q y \<Longrightarrow> list_all Q (xs[i := y])"
  by (auto simp: list_all_iff dest: set_update_subset_insert [THEN subsetD])

lemma distinct_map_update:
  assumes "distinct (map f xs)" and "i < length xs" and "f y = f (xs ! i)"
  shows "distinct (map f (xs[i := y]))"
proof -
  have "(map f xs)[i := f (xs ! i)] = map f xs" using assms(2) by (metis list_update_id nth_map)
  then show ?thesis using assms by (simp add: map_update)
qed

text \<open>Replacing the element a test selects, or adding it: the shape of every upsert.\<close>

definition upsert_at :: "('a list \<Rightarrow> 'a list) \<Rightarrow> ('a \<Rightarrow> bool) \<Rightarrow> 'a \<Rightarrow> 'a list \<Rightarrow> 'a list" where
  "upsert_at order P y xs = (case position P xs of Some i \<Rightarrow> xs[i := y] | None \<Rightarrow> order (xs @ [y]))"

lemma upsert_at_position:
  assumes "\<And>zs. mset (order zs) = mset zs" and "P y"
  obtains i where "position P (upsert_at order P y xs) = Some i" and "upsert_at order P y xs ! i = y"
proof (cases "position P xs")
  case None
  have set: "set (order (xs @ [y])) = set (xs @ [y])" using assms(1) by (rule mset_eq_setD)
  have "\<not> P x" if "x \<in> set xs" for x using that position_None [THEN iffD1, OF None] by simp
  then have "x = y" if "x \<in> set (order (xs @ [y]))" "P x" for x using that set by auto
  moreover have "y \<in> set (order (xs @ [y]))" using set by simp
  ultimately obtain i where "position P (order (xs @ [y])) = Some i" "order (xs @ [y]) ! i = y"
    using position_unique [of y "order (xs @ [y])" P] assms(2) by blast
  then show thesis using that None by (simp add: upsert_at_def)
next
  case (Some i)
  then show thesis using that position_update [OF Some assms(2)] position_Some(1) [OF Some] by (simp add: upsert_at_def)
qed

lemma upsert_at_ids:
  assumes "\<And>zs. mset (order zs) = mset zs" and "distinct (map f xs)"
  shows "distinct (map f (upsert_at order (\<lambda>x. f x = f y) y xs))"
proof (cases "position (\<lambda>x. f x = f y) xs")
  case None
  then have "f y \<notin> f ` set xs" using position_None [of "\<lambda>x. f x = f y" xs] by auto
  then have "distinct (map f (xs @ [y]))" using assms(2) by auto
  then show ?thesis using None mset_eq_imp_distinct_iff [of "map f (order (xs @ [y]))" "map f (xs @ [y])"] assms(1)
    by (simp add: upsert_at_def)
next
  case (Some i)
  then show ?thesis using assms(2) position_Some [OF Some] by (auto simp: upsert_at_def intro!: distinct_map_update)
qed

lemma upsert_at_all:
  assumes "\<And>zs. mset (order zs) = mset zs" and "list_all Q xs" and "Q y"
  shows "list_all Q (upsert_at order P y xs)"
proof (cases "position P xs")
  case None
  have "set (order (xs @ [y])) = set (xs @ [y])" using assms(1) by (rule mset_eq_setD)
  then show ?thesis using None assms(2,3) by (simp add: upsert_at_def list_all_iff)
qed (use assms list_all_update in \<open>auto simp: upsert_at_def\<close>)


section \<open>Turns among the items\<close>

fun turns_of :: "'j transcript_item list \<Rightarrow> 'j transcript_turn list" where
  "turns_of [] = []"
| "turns_of (ItemTurn t # rest) = t # turns_of rest"
| "turns_of (_ # rest) = turns_of rest"

lemma turns_of_append [simp]: "turns_of (xs @ ys) = turns_of xs @ turns_of ys"
  by (induction xs rule: turns_of.induct) auto

lemma set_turns_of: "t \<in> set (turns_of xs) \<longleftrightarrow> ItemTurn t \<in> set xs"
  by (induction xs rule: turns_of.induct) auto

lemma turns_of_replace:
  "turns_of (replace_turn items tid r) = map (\<lambda>t. if tt_turn_id t = tid then r else t) (turns_of items)"
  by (induction items rule: turns_of.induct) (auto simp: replace_turn_def)

lemma turns_of_filter: "turns_of (filter (\<lambda>i. Q (item_id i)) xs) = filter (\<lambda>t. Q (tt_turn_id t)) (turns_of xs)"
  by (induction xs rule: turns_of.induct) auto

lemma insert_before_split:
  obtains ys zs where "xs = ys @ zs" and "insert_before P x xs = ys @ x # zs"
  using that [of "takeWhile (\<lambda>y. \<not> P y) xs" "dropWhile (\<lambda>y. \<not> P y) xs"] by (simp add: insert_before_def)

lemma find_turn_Some:
  "find_turn items tid = Some t \<Longrightarrow> t \<in> set (turns_of items) \<and> tt_turn_id t = tid"
  by (induction items tid rule: find_turn.induct) (auto split: if_splits)

lemma find_turn_None: "find_turn items tid = None \<longleftrightarrow> tid \<notin> tt_turn_id ` set (turns_of items)"
  by (induction items tid rule: find_turn.induct) auto

lemma find_turn_append:
  "find_turn (xs @ ys) tid = (case find_turn xs tid of None \<Rightarrow> find_turn ys tid | Some t \<Rightarrow> Some t)"
  by (induction xs tid rule: find_turn.induct) auto

lemma find_turn_replace:
  "find_turn items tid \<noteq> None \<Longrightarrow> tt_turn_id r = tid \<Longrightarrow> find_turn (replace_turn items tid r) tid = Some r"
  by (induction items tid rule: find_turn.induct) (auto simp: replace_turn_def split: if_splits)

lemma get_turn_put:
  assumes "tt_turn_id t = tid"
  shows "get_turn (put_turn s tid t) tid = Some t"
proof (cases "get_turn s tid")
  case None
  obtain ys zs where i: "st_items s = ys @ zs" "insert_turn (st_items s) t = ys @ ItemTurn t # zs"
    unfolding insert_turn_def by (rule insert_before_split)
  then have "find_turn ys tid = None" using None by (auto simp: get_turn_def find_turn_append split: option.splits)
  then show ?thesis using None i assms by (simp add: put_turn_def get_turn_def find_turn_append)
next
  case (Some u)
  then show ?thesis using find_turn_replace [of "st_items s" tid t] assms by (simp add: put_turn_def get_turn_def)
qed

section \<open>Well-formed states\<close>

definition wf_frame :: "'j transcript_frame \<Rightarrow> bool" where
  "wf_frame f \<longleftrightarrow> (case text_of_frame f of None \<Rightarrow> True | Some text \<Rightarrow> valid_str text)"

definition wf_step :: "'j transcript_step \<Rightarrow> bool" where
  "wf_step st \<longleftrightarrow> distinct (map frame_id_of (ts_frames st)) \<and> list_all wf_frame (ts_frames st)"

definition wf_turn :: "'j transcript_turn \<Rightarrow> bool" where
  "wf_turn t \<longleftrightarrow> distinct (map ts_step_id (tt_steps t)) \<and> list_all wf_step (tt_steps t)"

definition wf_items :: "'j transcript_item list \<Rightarrow> bool" where
  "wf_items items \<longleftrightarrow> distinct (map tt_turn_id (turns_of items)) \<and> list_all wf_turn (turns_of items)"

definition keyed :: "('v \<Rightarrow> 'k) \<Rightarrow> ('k, 'v) imap \<Rightarrow> bool" where
  "keyed key m \<longleftrightarrow> imap_wf m \<and> list_all (\<lambda>(k, v). key v = k) m"

definition wf_state :: "'j agent_state \<Rightarrow> bool" where
  "wf_state s \<longleftrightarrow> wf_items (st_items s)
     \<and> keyed tk_task_id (st_tasks s) \<and> list_all (\<lambda>(_, t). valid_str (tk_output_tail t)) (st_tasks s)
     \<and> keyed ti_interaction_id (st_interactions s) \<and> keyed ta_attachment_id (st_attachments s)
     \<and> keyed to_todo_id (st_todos s) \<and> distinct (st_pending_interactions s)"

text \<open>What an operation has to bring along: unique ids in a reset and Unicode texts.\<close>

fun wf_op :: "'j transcript_operation \<Rightarrow> bool" where
  "wf_op (Reset _ snap) \<longleftrightarrow> wf_items (as_items snap) \<and> list_all (\<lambda>t. valid_str (tk_output_tail t)) (as_tasks snap)"
| "wf_op (FrameUpsert _ _ f) \<longleftrightarrow> wf_frame f"
| "wf_op (Append _ _ text) \<longleftrightarrow> valid_str text"
| "wf_op (TaskUpsert t) \<longleftrightarrow> valid_str (tk_output_tail t)"
| "wf_op _ \<longleftrightarrow> True"

lemma wf_items_replace:
  assumes "wf_items items" and "wf_turn t" and "tt_turn_id t = tid"
  shows "wf_items (replace_turn items tid t)"
proof -
  have "map tt_turn_id (turns_of (replace_turn items tid t)) = map tt_turn_id (turns_of items)"
    using assms(3) by (simp add: turns_of_replace)
  moreover have "list_all wf_turn (turns_of (replace_turn items tid t))"
    using assms(1,2) by (auto simp: turns_of_replace wf_items_def list_all_iff)
  ultimately show ?thesis using assms(1) unfolding wf_items_def by metis
qed

lemma wf_items_put:
  assumes "wf_items (st_items s)" and "wf_turn t" and "tt_turn_id t = tid"
  shows "wf_items (st_items (put_turn s tid t))"
proof (cases "get_turn s tid")
  case None
  obtain ys zs where "st_items s = ys @ zs" "insert_turn (st_items s) t = ys @ ItemTurn t # zs"
    unfolding insert_turn_def by (rule insert_before_split)
  moreover have "tid \<notin> tt_turn_id ` set (turns_of (st_items s))" using None by (simp add: get_turn_def find_turn_None)
  ultimately show ?thesis using None assms by (auto simp: put_turn_def wf_items_def)
next
  case (Some u)
  then show ?thesis using wf_items_replace [OF assms] by (simp add: put_turn_def)
qed

lemma wf_turn_or_skeleton:
  assumes "wf_items (st_items s)"
  shows "wf_turn (turn_or_skeleton s tid)" and "tt_turn_id (turn_or_skeleton s tid) = tid"
proof -
  have "wf_turn (turn_or_skeleton s tid) \<and> tt_turn_id (turn_or_skeleton s tid) = tid"
  proof (cases "get_turn s tid")
    case (Some t)
    then show ?thesis using find_turn_Some [of "st_items s" tid t] assms
      by (simp add: get_turn_def turn_or_skeleton_def wf_items_def list_all_iff)
  qed (simp add: turn_or_skeleton_def skeleton_turn_def wf_turn_def)
  then show "wf_turn (turn_or_skeleton s tid)" "tt_turn_id (turn_or_skeleton s tid) = tid" by auto
qed

lemma put_turn_other [simp]:
  "st_tasks (put_turn s tid t) = st_tasks s" "st_interactions (put_turn s tid t) = st_interactions s"
  "st_attachments (put_turn s tid t) = st_attachments s" "st_todos (put_turn s tid t) = st_todos s"
  "st_pending_interactions (put_turn s tid t) = st_pending_interactions s"
  by (simp_all add: put_turn_def)


section \<open>Entity tables\<close>

lemma list_all_imap_insert: "list_all Q m \<Longrightarrow> Q (k, v) \<Longrightarrow> list_all Q (imap_insert k v m)"
  by (induction m) auto

lemma list_all_imap_remove: "list_all Q m \<Longrightarrow> list_all Q (imap_remove k m)"
  by (auto simp: list_all_iff AList.delete_eq)

lemma list_all_imap_get: "list_all Q m \<Longrightarrow> imap_get m k = Some v \<Longrightarrow> Q (k, v)"
  by (auto simp: list_all_iff dest: map_of_SomeD)

lemma keyed_remove: "keyed key m \<Longrightarrow> keyed key (imap_remove k m)"
  by (simp add: keyed_def imap_wf_remove list_all_imap_remove)

lemma keyed_get: "keyed key m \<Longrightarrow> imap_get m k = Some v \<Longrightarrow> key v = k"
  unfolding keyed_def using list_all_imap_get [of "\<lambda>(k, v). key v = k" m k v] by auto

text \<open>
  The contract the four tables share: rows are found by their own key, and the comparison that decides
  whether an upsert changes anything holds between a row and itself.
\<close>

locale entity_table =
  fixes key :: "'v \<Rightarrow> 'k" and same :: "'v \<Rightarrow> 'v \<Rightarrow> bool"
  assumes same_refl: "same v v"
begin

lemma keyed_insert: "keyed key m \<Longrightarrow> k = key v \<Longrightarrow> keyed key (imap_insert k v m)"
  by (simp add: keyed_def imap_wf_insert list_all_imap_insert)

lemma insert_known: "case imap_get (imap_insert (key v) v m) (key v) of None \<Rightarrow> False | Some c \<Rightarrow> same c v"
  by (simp add: imap_simps same_refl)

lemma collect_by_snoc: "collect_by key (vs @ [v]) = imap_insert (key v) v (collect_by key vs)"
  by (simp add: collect_by_def)

lemma keyed_collect: "keyed key (collect_by key vs)"
proof (induction vs rule: rev_induct)
  case (snoc v vs)
  then show ?case unfolding collect_by_snoc by (rule keyed_insert) simp
qed (simp add: collect_by_def keyed_def)

lemma all_collect: "list_all Q vs \<Longrightarrow> list_all (\<lambda>(_, v). Q v) (collect_by key vs)"
proof (induction vs rule: rev_induct)
  case (snoc v vs)
  then show ?case unfolding collect_by_snoc by (auto intro: list_all_imap_insert)
qed (simp add: collect_by_def)

lemma collect_rows:
  assumes "keyed key m"
  shows "collect_by key (map snd m) = m"
proof -
  have "collect_by key (map snd (xs @ ys)) = xs @ ys" if "keyed key (xs @ ys)" "ys = []" for xs ys
    using that
  proof (induction xs arbitrary: ys rule: rev_induct)
    case (snoc x xs)
    then have "collect_by key (map snd xs) = xs" "key (snd x) = fst x" "fst x \<notin> fst ` set xs"
      by (auto simp: keyed_def split: prod.splits)
    then show ?case using snoc.prems(2) collect_by_snoc [of "map snd xs" "snd x"] imap_insert_new [of "fst x" xs "snd x"] by simp
  qed (simp add: collect_by_def)
  from this [of m "[]"] assms show ?thesis by simp
qed

end

interpretation tasks: entity_table tk_task_id task_equals
  by unfold_locales (simp add: task_equals_def)

interpretation interactions: entity_table ti_interaction_id interaction_equals
  by unfold_locales (simp add: interaction_equals_def)

interpretation attachments: entity_table ta_attachment_id attachment_equals
  by unfold_locales (simp add: attachment_equals_def)

interpretation todos: entity_table to_todo_id "\<lambda>c t. to_items c = to_items t \<and> to_updated_at c = to_updated_at t"
  by unfold_locales simp

lemmas result_simps = changed_def unchanged_def gap_result_def

section \<open>Every operation keeps a state well formed\<close>

lemma distinct_iset_insert: "distinct xs \<Longrightarrow> distinct (iset_insert x xs)"
  by (simp add: iset_insert_def)

lemma distinct_pending_frames: "distinct p \<Longrightarrow> distinct (pending_frames fs p)"
  by (induction fs p rule: pending_frames.induct) (auto simp: distinct_iset_insert)

lemma distinct_foldl: "(\<And>p x. distinct p \<Longrightarrow> distinct (f p x)) \<Longrightarrow> distinct p \<Longrightarrow> distinct (foldl f p xs)"
  by (induction xs arbitrary: p) auto

lemma distinct_pending_items: "distinct p \<Longrightarrow> distinct (pending_items items p)"
  by (induction items p rule: pending_items.induct) (auto intro!: distinct_foldl distinct_pending_frames)

lemma wf_apply_reset:
  assumes "wf_op (Reset a snap)"
  shows "wf_state (res_state (apply_reset snap))"
  using assms tasks.all_collect [of "\<lambda>t. valid_str (tk_output_tail t)" "as_tasks snap"]
  by (auto simp: apply_reset_def wf_state_def result_simps Let_def tasks.keyed_collect interactions.keyed_collect
      attachments.keyed_collect todos.keyed_collect intro!: distinct_pending_items distinct_foldl distinct_iset_insert)

lemma apply_turn_upsert_put:
  "res_state (apply_turn_upsert s h) =
     (case get_turn s (th_turn_id h) of
        Some t \<Rightarrow> if turn_equals t h then s else put_turn s (th_turn_id h) (into_turn h (tt_steps t))
      | None \<Rightarrow> put_turn s (th_turn_id h) (into_turn h []))"
  by (simp add: apply_turn_upsert_def result_simps put_turn_def split: option.splits)

lemma wf_into_turn: "wf_turn t \<Longrightarrow> wf_turn (into_turn h (tt_steps t))" "wf_turn (into_turn h [])"
  by (simp_all add: wf_turn_def into_turn_def)

lemma wf_state_put:
  assumes "wf_state s" and "wf_turn t" and "tt_turn_id t = tid"
  shows "wf_state (put_turn s tid t)"
  using assms wf_items_put [of s t tid] by (simp add: wf_state_def)

lemma into_turn_id [simp]: "tt_turn_id (into_turn h steps) = th_turn_id h" "tt_steps (into_turn h steps) = steps"
  by (simp_all add: into_turn_def)

lemma wf_get_turn: "wf_state s \<Longrightarrow> get_turn s tid = Some t \<Longrightarrow> wf_turn t \<and> tt_turn_id t = tid"
  using find_turn_Some [of "st_items s" tid t] by (auto simp: wf_state_def wf_items_def get_turn_def list_all_iff)

lemma wf_apply_turn_upsert: "wf_state s \<Longrightarrow> wf_state (res_state (apply_turn_upsert s h))"
  by (auto simp: apply_turn_upsert_put wf_into_turn dest: wf_get_turn intro!: wf_state_put split: option.splits)


text \<open>The steps of a turn and the frames of a step after an upsert.\<close>

definition put_step :: "'j transcript_step \<Rightarrow> 'j transcript_turn \<Rightarrow> 'j transcript_turn" where
  "put_step st t = t\<lparr> tt_steps := upsert_at (sort_key ts_ordinal) (\<lambda>x. ts_step_id x = ts_step_id st) st (tt_steps t) \<rparr>"

definition put_frame :: "'j transcript_frame \<Rightarrow> 'j transcript_step \<Rightarrow> 'j transcript_step" where
  "put_frame f st = st\<lparr> ts_frames := upsert_at (\<lambda>xs. xs) (\<lambda>x. frame_id_of x = frame_id_of f) f (ts_frames st) \<rparr>"

lemma wf_put_step: "wf_turn t \<Longrightarrow> wf_step st \<Longrightarrow> wf_turn (put_step st t)"
  unfolding wf_turn_def put_step_def
  by (auto intro!: upsert_at_ids [where f = ts_step_id] upsert_at_all)

lemma wf_put_frame: "wf_step st \<Longrightarrow> wf_frame f \<Longrightarrow> wf_step (put_frame f st)"
  unfolding wf_step_def put_frame_def
  by (auto intro!: upsert_at_ids [where f = frame_id_of] upsert_at_all)

lemma put_step_id [simp]: "tt_turn_id (put_step st t) = tt_turn_id t"
  by (simp add: put_step_def)

lemma put_frame_id [simp]: "ts_step_id (put_frame f st) = ts_step_id st"
  by (simp add: put_frame_def)

lemma into_step_simps [simp]: "ts_step_id (into_step h fs) = sh_step_id h" "ts_frames (into_step h fs) = fs"
  by (simp_all add: into_step_def)

lemma skeleton_step_simps [simp]: "ts_step_id (skeleton_step sid tid) = sid" "ts_frames (skeleton_step sid tid) = []"
  by (simp_all add: skeleton_step_def Let_def)

lemma wf_step_nth: "wf_turn t \<Longrightarrow> position P (tt_steps t) = Some i \<Longrightarrow> wf_step (tt_steps t ! i)"
  using position_Some(1) by (fastforce simp: wf_turn_def list_all_length)

lemma apply_step_upsert_put:
  "res_state (apply_step_upsert s tid h) =
     (let t = turn_or_skeleton s tid in
      case position (\<lambda>x. ts_step_id x = sh_step_id h) (tt_steps t) of
        Some i \<Rightarrow> if step_equals (tt_steps t ! i) h then s
                  else put_turn s tid (put_step (into_step h (ts_frames (tt_steps t ! i))) t)
      | None \<Rightarrow> put_turn s tid (put_step (into_step h []) t))"
  by (simp add: apply_step_upsert_def result_simps put_step_def upsert_at_def Let_def split: option.splits)

lemma wf_apply_step_upsert:
  assumes "wf_state s"
  shows "wf_state (res_state (apply_step_upsert s tid h))"
proof -
  have t: "wf_turn (turn_or_skeleton s tid)" "tt_turn_id (turn_or_skeleton s tid) = tid"
    using wf_turn_or_skeleton assms by (auto simp: wf_state_def)
  have "wf_step (into_step h [])" by (simp add: wf_step_def)
  moreover have "wf_step (into_step h (ts_frames st))" if "wf_step st" for st :: "'a transcript_step"
    using that by (simp add: wf_step_def)
  ultimately show ?thesis using assms t
    by (auto simp: apply_step_upsert_put Let_def intro!: wf_state_put wf_put_step dest: wf_step_nth split: option.splits)
qed

definition step_or_skeleton :: "'j transcript_turn \<Rightarrow> string_id \<Rightarrow> string_id \<Rightarrow> 'j transcript_step" where
  "step_or_skeleton t tid sid =
     (case position (\<lambda>x. ts_step_id x = sid) (tt_steps t) of Some i \<Rightarrow> tt_steps t ! i | None \<Rightarrow> skeleton_step sid tid)"

lemma step_or_skeleton_id: "ts_step_id (step_or_skeleton t tid sid) = sid"
  by (auto simp: step_or_skeleton_def dest: position_Some(2) split: option.splits)

lemma wf_step_or_skeleton: "wf_turn t \<Longrightarrow> wf_step (step_or_skeleton t tid sid)"
  by (auto simp: step_or_skeleton_def wf_step_def [of "skeleton_step sid tid"] dest: wf_step_nth split: option.splits)

lemma apply_frame_upsert_put:
  "res_state (apply_frame_upsert s tid sid frame) =
     (let t = turn_or_skeleton s tid; st = step_or_skeleton t tid sid in
      if (case position (\<lambda>f. frame_id_of f = frame_id_of frame) (ts_frames st) of
            Some i \<Rightarrow> frame_equals (ts_frames st ! i) frame | None \<Rightarrow> False) then s
      else (case track_pending (st_pending_interactions s) frame of
              None \<Rightarrow> put_turn s tid (put_step (put_frame frame st) t)
            | Some p \<Rightarrow> (put_turn s tid (put_step (put_frame frame st) t))\<lparr> st_pending_interactions := p \<rparr>))"
proof -
  let ?t = "turn_or_skeleton s tid"
  let ?st = "step_or_skeleton ?t tid sid"
  have "put_step (put_frame frame ?st) ?t =
      ?t\<lparr> tt_steps := (case position (\<lambda>x. ts_step_id x = sid) (tt_steps ?t) of
          Some i \<Rightarrow> (tt_steps ?t)[i := put_frame frame ?st] | None \<Rightarrow> sort_key ts_ordinal (tt_steps ?t @ [put_frame frame ?st])) \<rparr>"
    by (simp add: put_step_def upsert_at_def step_or_skeleton_id)
  then show ?thesis
    unfolding apply_frame_upsert_def Let_def step_or_skeleton_def [symmetric]
    by (simp add: result_simps put_frame_def upsert_at_def split: option.split)
qed

lemma distinct_track: "distinct p \<Longrightarrow> track_pending p f = Some p' \<Longrightarrow> distinct p'"
  by (auto simp: track_pending_def distinct_iset_insert distinct_removeAll split: transcript_frame.splits if_splits)

lemma wf_apply_frame_upsert:
  assumes "wf_state s" and "wf_frame frame"
  shows "wf_state (res_state (apply_frame_upsert s tid sid frame))"
proof -
  have t: "wf_turn (turn_or_skeleton s tid)" "tt_turn_id (turn_or_skeleton s tid) = tid"
    using wf_turn_or_skeleton assms by (auto simp: wf_state_def)
  let ?s = "put_turn s tid (put_step (put_frame frame (step_or_skeleton (turn_or_skeleton s tid) tid sid)) (turn_or_skeleton s tid))"
  have wf: "wf_state ?s" using assms t by (intro wf_state_put wf_put_step wf_put_frame wf_step_or_skeleton) auto
  then have "wf_state (?s\<lparr> st_pending_interactions := p \<rparr>)" if "distinct p" for p
    using that by (simp add: wf_state_def)
  then show ?thesis using wf assms(1) distinct_track [of "st_pending_interactions s" frame]
    by (auto simp: apply_frame_upsert_put Let_def wf_state_def [of s] split: option.splits)
qed


text \<open>Appends.\<close>

lemma find_map_same: "find P xs = Some x \<Longrightarrow> P y \<Longrightarrow> find P (map (\<lambda>z. if P z then y else z) xs) = Some y"
  by (induction xs) (auto split: if_splits)

lemma find_Some_mem: "find P xs = Some x \<Longrightarrow> x \<in> set xs \<and> P x"
  by (auto simp: find_Some_iff)

lemma with_text_simps [simp]:
  "frame_id_of (with_text chunk f) = frame_id_of f"
  "text_of_frame f \<noteq> None \<Longrightarrow> text_of_frame (with_text chunk f) = Some chunk"
  by (cases f; simp)+

lemma map_ids_same: "(\<And>z. P z \<longleftrightarrow> f z = k) \<Longrightarrow> f y = k \<Longrightarrow> map f (map (\<lambda>z. if P z then y else z) xs) = map f xs"
  by auto

lemma frame_append_cases:
  obtains (gap) g where "apply_frame_append s tid sid fid offset chunk = gap_result s g"
  | (same) "apply_frame_append s tid sid fid offset chunk = unchanged s"
  | (grows) t st frame cur T u v where
      "get_turn s tid = Some t" "find (\<lambda>x. ts_step_id x = sid) (tt_steps t) = Some st"
      "find (\<lambda>f. frame_id_of f = fid) (ts_frames st) = Some frame" "text_of_frame frame = Some cur"
      "append_at_offset cur offset chunk = \<lparr> aa_text = T, aa_changed = True, aa_gap = None \<rparr>"
      "u = st\<lparr> ts_frames := map (\<lambda>f. if frame_id_of f = fid then with_text T frame else f) (ts_frames st) \<rparr>"
      "v = t\<lparr> tt_steps := map (\<lambda>x. if ts_step_id x = sid then u else x) (tt_steps t) \<rparr>"
      "apply_frame_append s tid sid fid offset chunk = changed (s\<lparr> st_items := replace_turn (st_items s) tid v \<rparr>)"
proof -
  note d = apply_frame_append_def [of s tid sid fid offset chunk] Let_def
  show thesis
  proof (cases "get_turn s tid")
    case (Some t)
    show thesis
    proof (cases "find (\<lambda>x. ts_step_id x = sid) (tt_steps t)")
      case st: (Some st)
      show thesis
      proof (cases "find (\<lambda>f. frame_id_of f = fid) (ts_frames st)")
        case fr: (Some frame)
        show thesis
        proof (cases "text_of_frame frame")
          case cur: (Some cur)
          obtain T c g where r: "append_at_offset cur offset chunk = \<lparr> aa_text = T, aa_changed = c, aa_gap = g \<rparr>"
            by (cases "append_at_offset cur offset chunk") auto
          show thesis
          proof (cases g)
            case None
            show thesis
            proof (cases c)
              case True
              show thesis by (rule grows [OF Some st fr cur _ refl refl]) (use Some st fr cur r None True in \<open>simp_all add: d\<close>)
            qed (use Some st fr cur r None same in \<open>simp add: d\<close>)
          qed (use Some st fr cur r gap in \<open>simp add: d\<close>)
        qed (use Some st fr gap in \<open>simp add: d\<close>)
      qed (use Some st gap in \<open>simp add: d\<close>)
    qed (use Some gap in \<open>simp add: d\<close>)
  qed (use gap in \<open>simp add: d\<close>)
qed

lemma wf_grown_turn:
  assumes "wf_turn t" and "find (\<lambda>x. ts_step_id x = sid) (tt_steps t) = Some st"
    and "find (\<lambda>f. frame_id_of f = fid) (ts_frames st) = Some frame" and "text_of_frame frame = Some cur" and "valid_str T"
    and u: "u = st\<lparr> ts_frames := map (\<lambda>f. if frame_id_of f = fid then with_text T frame else f) (ts_frames st) \<rparr>"
    and v: "v = t\<lparr> tt_steps := map (\<lambda>x. if ts_step_id x = sid then u else x) (tt_steps t) \<rparr>"
  shows "wf_turn v"
proof -
  note st = find_Some_mem [OF assms(2)] and fr = find_Some_mem [OF assms(3)]
  have wst: "wf_step st" using assms(1) st by (simp add: wf_turn_def list_all_iff)
  have wf: "wf_frame (with_text T frame)" using assms(4,5) by (simp add: wf_frame_def)
  have "map frame_id_of (ts_frames u) = map frame_id_of (ts_frames st)" using fr u by simp
  moreover have "list_all wf_frame (ts_frames u)" using wst wf u by (auto simp: wf_step_def list_all_iff)
  ultimately have wu: "wf_step u" using wst unfolding wf_step_def by metis
  have "ts_step_id u = sid" using u st by simp
  then have "map ts_step_id (tt_steps v) = map ts_step_id (tt_steps t)" using v by simp
  moreover have "list_all wf_step (tt_steps v)" using assms(1) wu v by (auto simp: wf_turn_def list_all_iff)
  ultimately show ?thesis using assms(1) unfolding wf_turn_def by metis
qed

lemma wf_text_at:
  assumes "wf_turn t" and "find (\<lambda>x. ts_step_id x = sid) (tt_steps t) = Some st"
    and "find (\<lambda>f. frame_id_of f = fid) (ts_frames st) = Some frame" and "text_of_frame frame = Some cur"
  shows "valid_str cur"
  using assms find_Some_mem [OF assms(2)] find_Some_mem [OF assms(3)]
  by (auto simp: wf_turn_def wf_step_def wf_frame_def list_all_iff split: option.splits)

lemma wf_apply_frame_append:
  assumes "wf_state s" and "valid_str chunk"
  shows "wf_state (res_state (apply_frame_append s tid sid fid offset chunk))"
proof (cases rule: frame_append_cases [of s tid sid fid offset chunk])
  case (grows t st frame cur T u v)
  have t: "wf_turn t" "tt_turn_id t = tid" using wf_get_turn [OF assms(1) grows(1)] by auto
  have "valid_str T" using append_valid_idem(1) [OF wf_text_at [OF t(1) grows(2-4)] assms(2) grows(5)] by simp
  then have "wf_turn v" by (rule wf_grown_turn [OF t(1) grows(2-4) _ grows(6,7)])
  moreover have "tt_turn_id v = tid" using t grows(7) by simp
  ultimately have "wf_items (replace_turn (st_items s) tid v)"
    using assms(1) by (intro wf_items_replace) (auto simp: wf_state_def)
  then show ?thesis using assms(1) grows(8) by (simp add: wf_state_def result_simps)
qed (use assms in \<open>simp_all add: result_simps\<close>)

lemma wf_apply_task_append:
  assumes "wf_state s" and "valid_str chunk"
  shows "wf_state (res_state (apply_task_append s tid offset chunk))"
proof -
  define cur where "cur = (case imap_get (st_tasks s) tid of None \<Rightarrow> [] | Some t \<Rightarrow> tk_output_tail t)"
  define r where "r = append_at_offset cur offset chunk"
  have "valid_str cur" using assms(1) list_all_imap_get [of "\<lambda>(_, t). valid_str (tk_output_tail t)" "st_tasks s" tid]
    by (auto simp: cur_def wf_state_def split: option.splits)
  then have T: "valid_str (aa_text r)" if "aa_gap r = None" using append_valid_idem(1) assms(2) that r_def by blast
  have "wf_state (s\<lparr> st_tasks := imap_insert tid t (st_tasks s) \<rparr>)" if "tk_task_id t = tid" "valid_str (tk_output_tail t)" for t
    using assms(1) that by (auto simp: wf_state_def intro: tasks.keyed_insert list_all_imap_insert)
  moreover have "tk_task_id t = tid" if "imap_get (st_tasks s) tid = Some t" for t
    using assms(1) keyed_get that by (fastforce simp: wf_state_def)
  ultimately show ?thesis using assms(1) T
    by (auto simp: apply_task_append_def Let_def result_simps cur_def [symmetric] r_def [symmetric] split: option.splits)
qed


text \<open>Markers, task references and removals.\<close>

definition is_turn :: "'j transcript_item \<Rightarrow> bool" where
  "is_turn item \<longleftrightarrow> (case item of ItemTurn _ \<Rightarrow> True | _ \<Rightarrow> False)"

lemma is_turn_simps [simp]: "is_turn (ItemTurn t)" "\<not> is_turn (ItemMarker m)" "\<not> is_turn (ItemTaskRef r)"
  by (simp_all add: is_turn_def)

lemma turns_of_non_turn: "\<not> is_turn x \<Longrightarrow> turns_of (x # xs) = turns_of xs"
  by (cases x) auto

lemma turns_of_overwrite:
  "\<not> is_turn item \<Longrightarrow> turns_of (map (\<lambda>e. if item_id e = iid \<longrightarrow> e = item then e else item) xs)
     = filter (\<lambda>t. tt_turn_id t \<noteq> iid) (turns_of xs)"
proof (induction xs)
  case (Cons x xs)
  then show ?case by (cases x) (auto simp: turns_of_non_turn)
qed simp

lemma wf_items_filter: "wf_items items \<Longrightarrow> turns_of items' = filter Q (turns_of items) \<Longrightarrow> wf_items items'"
  by (auto simp: wf_items_def list_all_iff distinct_map_filter)

lemma wf_apply_item_upsert:
  assumes "wf_state s" and "\<not> is_turn item"
  shows "wf_state (res_state (apply_item_upsert s item iid before))"
proof -
  have "turns_of (st_items (res_state (apply_item_upsert s item iid before))) =
      filter (\<lambda>t. tt_turn_id t \<noteq> iid \<or> \<not> list_ex (\<lambda>e. item_id e = iid \<and> e \<noteq> item) (st_items s)) (turns_of (st_items s))"
  proof (cases "list_ex (\<lambda>e. item_id e = iid) (st_items s)")
    case True
    then show ?thesis using assms(2) by (simp add: apply_item_upsert_def result_simps turns_of_overwrite)
  next
    case False
    then have "\<not> list_ex (\<lambda>e. item_id e = iid \<and> e \<noteq> item) (st_items s)" by (auto simp: list_ex_iff)
    moreover obtain ys zs where "st_items s = ys @ zs"
      "insert_before (turn_from (the before)) item (st_items s) = ys @ item # zs" by (rule insert_before_split)
    ultimately show ?thesis using False assms(2)
      by (auto simp: apply_item_upsert_def result_simps turns_of_non_turn split: option.splits)
  qed
  then have "wf_items (st_items (res_state (apply_item_upsert s item iid before)))"
    using assms(1) wf_items_filter by (auto simp: wf_state_def)
  then show ?thesis using assms(1) by (auto simp: wf_state_def apply_item_upsert_def result_simps split: if_splits)
qed

lemma distinct_frame_anchors: "distinct (snd acc) \<Longrightarrow> distinct (snd (frame_anchors fs acc))"
  by (induction fs acc rule: frame_anchors.induct) (auto simp: distinct_removeAll)

lemma distinct_turn_anchors: "distinct (snd acc) \<Longrightarrow> distinct (snd (foldl turn_anchors acc ts))"
proof (induction ts arbitrary: acc)
  case (Cons t ts)
  have "distinct (snd (foldl (\<lambda>a s. frame_anchors (ts_frames s) a) acc sts))" for sts
    using Cons.prems by (induction sts arbitrary: acc) (simp_all add: distinct_frame_anchors)
  then have "distinct (snd (turn_anchors acc t))" by (simp add: turn_anchors_def)
  then show ?case using Cons.IH by simp
qed simp

lemma keyed_foldl_remove: "keyed key m \<Longrightarrow> keyed key (foldl (\<lambda>m k. imap_remove k m) m ks)"
  by (induction ks arbitrary: m) (auto intro: keyed_remove)

lemma wf_apply_items_remove:
  assumes "wf_state s"
  shows "wf_state (res_state (apply_items_remove s ids))"
proof -
  have "wf_items (filter (\<lambda>i. item_id i \<notin> set ids) (st_items s))"
    using assms wf_items_filter turns_of_filter by (fastforce simp: wf_state_def)
  moreover have "distinct (snd (foldl turn_anchors ([], st_pending_interactions s) ts))" for ts :: "'a transcript_turn list"
    using assms by (auto intro!: distinct_turn_anchors simp: wf_state_def)
  ultimately show ?thesis using assms
    by (auto simp: wf_state_def apply_items_remove_def result_simps Let_def
        intro!: keyed_foldl_remove distinct_foldl distinct_removeAll split: prod.splits) (metis snd_conv)+
qed

text \<open>
  C13. Every operation keeps a state well formed: turn ids stay unique in the transcript, step ids in a
  turn and frame ids in a step, also where an upsert or a frame creates the missing turn and step; the
  four entity tables stay keyed by their own ids, no interaction is pending twice, and every text stays a
  Unicode string although appends cut it at UTF-16 offsets.
\<close>

theorem apply_operation_wf:
  assumes "wf_state s" and "wf_op op"
  shows "wf_state (res_state (apply_operation s op))"
proof (cases op)
  case (Append target offset chunk)
  then show ?thesis using assms wf_apply_frame_append wf_apply_task_append by (cases target) auto
next
  case (TaskUpsert t)
  then show ?thesis using assms
    by (auto simp: apply_task_upsert_def result_simps wf_state_def intro: tasks.keyed_insert list_all_imap_insert)
next
  case (InteractionUpsert i)
  then show ?thesis using assms
    by (auto simp: apply_interaction_upsert_def result_simps wf_state_def Let_def distinct_iset_insert distinct_removeAll
        intro: interactions.keyed_insert)
next
  case (AttachmentUpsert a)
  then show ?thesis using assms
    by (auto simp: apply_attachment_upsert_def result_simps wf_state_def intro: attachments.keyed_insert)
next
  case (TodoUpsert t)
  then show ?thesis using assms by (auto simp: apply_todo_upsert_def result_simps wf_state_def intro: todos.keyed_insert)
next
  case (MetaMerge m)
  then show ?thesis using assms by (simp add: apply_meta_merge_def result_simps wf_state_def Let_def)
qed (use assms in \<open>auto intro: wf_apply_reset wf_apply_turn_upsert wf_apply_step_upsert wf_apply_frame_upsert
       wf_apply_item_upsert wf_apply_items_remove\<close>)


definition example_frame :: "'j transcript_frame" where
  "example_frame = TextFrame \<lparr> tf_frame_id = lit ''f'', tf_role = RoleAssistant, tf_text = lit ''hi'',
     tf_attachment_ids = None, tf_task_id = None \<rparr>"

theorem apply_operation_wf_witness:
  "wf_state (res_state (apply_operation (agent_state_default :: nat agent_state)
     (FrameUpsert (lit ''t1'') (lit ''t1.0'') example_frame)))"
  by (rule apply_operation_wf)
    (simp_all add: wf_state_def agent_state_default_def wf_items_def keyed_def wf_frame_def example_frame_def lit_def is_scalar_def)

section \<open>Applying an operation again\<close>

abbreviation quiet :: "'j apply_result \<Rightarrow> 'j apply_result" where
  "quiet r \<equiv> r\<lparr> res_changed := False \<rparr>"

lemma quiet_simps [simp]: "quiet (changed s) = unchanged s" "quiet (unchanged s) = unchanged s" "quiet (gap_result s g) = gap_result s g"
  "res_state (changed s) = s" "res_state (unchanged s) = s" "res_state (gap_result s g) = s"
  by (simp_all add: result_simps)

lemma turn_equals_into: "turn_equals (into_turn h steps) h"
  by (simp add: turn_equals_def into_turn_def origin_kind_and_payload_equal_def)

lemma apply_turn_upsert_again:
  "apply_turn_upsert (res_state (apply_turn_upsert s h)) h = quiet (apply_turn_upsert s h)"
proof -
  have p: "apply_turn_upsert s h = changed (put_turn s (th_turn_id h) t)
      \<Longrightarrow> \<exists>steps. t = into_turn h steps \<Longrightarrow> ?thesis" for t
  proof -
    assume r: "apply_turn_upsert s h = changed (put_turn s (th_turn_id h) t)" and "\<exists>steps. t = into_turn h steps"
    then obtain steps where t: "t = into_turn h steps" by blast
    then have "get_turn (put_turn s (th_turn_id h) t) (th_turn_id h) = Some t" by (simp add: get_turn_put)
    then show ?thesis unfolding r by (simp add: apply_turn_upsert_def t turn_equals_into)
  qed
  show ?thesis
  proof (cases "get_turn s (th_turn_id h)")
    case None
    then show ?thesis by (intro p [of "into_turn h []"]) (auto simp: apply_turn_upsert_def put_turn_def)
  next
    case (Some t)
    show ?thesis
    proof (cases "turn_equals t h")
      case True
      then show ?thesis using Some by (simp add: apply_turn_upsert_def)
    next
      case False
      then show ?thesis using Some
        by (intro p [of "into_turn h (tt_steps t)"]) (auto simp: apply_turn_upsert_def put_turn_def)
    qed
  qed
qed

lemma turn_or_skeleton_put: "tt_turn_id t = tid \<Longrightarrow> turn_or_skeleton (put_turn s tid t) tid = t"
  by (simp add: turn_or_skeleton_def get_turn_put)

lemma put_step_position:
  obtains i where "position (\<lambda>x. ts_step_id x = ts_step_id st) (tt_steps (put_step st t)) = Some i"
    and "tt_steps (put_step st t) ! i = st"
proof -
  obtain i where "position (\<lambda>x. ts_step_id x = ts_step_id st)
      (upsert_at (sort_key ts_ordinal) (\<lambda>x. ts_step_id x = ts_step_id st) st (tt_steps t)) = Some i"
    "upsert_at (sort_key ts_ordinal) (\<lambda>x. ts_step_id x = ts_step_id st) st (tt_steps t) ! i = st"
    by (rule upsert_at_position [of "sort_key ts_ordinal" "\<lambda>x. ts_step_id x = ts_step_id st" st "tt_steps t"]) auto
  then show thesis using that by (simp add: put_step_def)
qed

lemma put_frame_position:
  obtains i where "position (\<lambda>x. frame_id_of x = frame_id_of f) (ts_frames (put_frame f st)) = Some i"
    and "ts_frames (put_frame f st) ! i = f"
proof -
  obtain i where "position (\<lambda>x. frame_id_of x = frame_id_of f)
      (upsert_at (\<lambda>xs. xs) (\<lambda>x. frame_id_of x = frame_id_of f) f (ts_frames st)) = Some i"
    "upsert_at (\<lambda>xs. xs) (\<lambda>x. frame_id_of x = frame_id_of f) f (ts_frames st) ! i = f"
    by (rule upsert_at_position [of "\<lambda>xs. xs" "\<lambda>x. frame_id_of x = frame_id_of f" f "ts_frames st"]) auto
  then show thesis using that by (simp add: put_frame_def)
qed

lemma step_equals_into: "step_equals (into_step h fs) h"
  by (simp add: step_equals_def into_step_def)

lemma turn_or_skeleton_id: "tt_turn_id (turn_or_skeleton s tid) = tid"
  by (auto simp: turn_or_skeleton_def skeleton_turn_def get_turn_def dest: find_turn_Some split: option.splits)

lemma apply_step_upsert_again:
  "apply_step_upsert (res_state (apply_step_upsert s tid h)) tid h = quiet (apply_step_upsert s tid h)"
proof (cases "res_changed (apply_step_upsert s tid h)")
  case False
  then have "apply_step_upsert s tid h = unchanged s"
    by (auto simp: apply_step_upsert_def Let_def changed_def split: option.splits if_splits)
  then show ?thesis by simp
next
  case True
  let ?t = "turn_or_skeleton s tid"
  from True obtain fs where r: "apply_step_upsert s tid h = changed (put_turn s tid (put_step (into_step h fs) ?t))"
    by (auto simp: apply_step_upsert_def Let_def unchanged_def put_step_def upsert_at_def split: option.splits if_splits)
  let ?u = "put_step (into_step h fs) ?t"
  have u: "turn_or_skeleton (put_turn s tid ?u) tid = ?u" by (simp add: turn_or_skeleton_put turn_or_skeleton_id)
  obtain i where "position (\<lambda>x. ts_step_id x = sh_step_id h) (tt_steps ?u) = Some i" "tt_steps ?u ! i = into_step h fs"
    using put_step_position [of "into_step h fs" ?t] by auto
  then have "apply_step_upsert (put_turn s tid ?u) tid h = unchanged (put_turn s tid ?u)"
    using u by (simp add: apply_step_upsert_def step_equals_into)
  then show ?thesis using r by simp
qed

lemma frame_equals_refl: "frame_equals f f"
  by (cases f) auto

lemma apply_frame_upsert_again:
  "apply_frame_upsert (res_state (apply_frame_upsert s tid sid f)) tid sid f = quiet (apply_frame_upsert s tid sid f)"
proof (cases "res_changed (apply_frame_upsert s tid sid f)")
  case False
  then have "apply_frame_upsert s tid sid f = unchanged s"
    unfolding apply_frame_upsert_def Let_def by (auto simp: changed_def split: if_splits)
  then show ?thesis by simp
next
  case True
  let ?t = "turn_or_skeleton s tid"
  let ?st = "put_frame f (step_or_skeleton ?t tid sid)"
  let ?u = "put_step ?st ?t"
  define s' where "s' = res_state (apply_frame_upsert s tid sid f)"
  have gapless: "quiet (apply_frame_upsert s tid sid f) = unchanged s'"
    unfolding s'_def apply_frame_upsert_def Let_def by (simp add: result_simps)
  have "\<not> (case position (\<lambda>x. frame_id_of x = frame_id_of f) (ts_frames (step_or_skeleton ?t tid sid)) of
            Some i \<Rightarrow> frame_equals (ts_frames (step_or_skeleton ?t tid sid) ! i) f | None \<Rightarrow> False)"
    using True unfolding apply_frame_upsert_def Let_def step_or_skeleton_def [symmetric] by (auto simp: unchanged_def split: if_splits)
  then have "st_items s' = st_items (put_turn s tid ?u)"
    unfolding s'_def apply_frame_upsert_put Let_def by (simp split: option.splits)
  then have "turn_or_skeleton s' tid = turn_or_skeleton (put_turn s tid ?u) tid"
    by (simp add: turn_or_skeleton_def get_turn_def)
  then have u: "turn_or_skeleton s' tid = ?u" by (simp add: turn_or_skeleton_put turn_or_skeleton_id)
  obtain i where "position (\<lambda>x. ts_step_id x = sid) (tt_steps ?u) = Some i" "tt_steps ?u ! i = ?st"
    using put_step_position [of ?st ?t] step_or_skeleton_id [of ?t tid sid] by auto
  then have st: "step_or_skeleton ?u tid sid = ?st" by (simp add: step_or_skeleton_def)
  obtain k where "position (\<lambda>x. frame_id_of x = frame_id_of f) (ts_frames ?st) = Some k" "ts_frames ?st ! k = f"
    by (rule put_frame_position)
  then have "apply_frame_upsert s' tid sid f = unchanged s'"
    unfolding apply_frame_upsert_def Let_def step_or_skeleton_def [symmetric] u st by (simp add: frame_equals_refl)
  then show ?thesis using gapless s'_def by simp
qed


lemma apply_frame_append_again:
  assumes "wf_state s" and "valid_str chunk"
  shows "apply_frame_append (res_state (apply_frame_append s tid sid fid offset chunk)) tid sid fid offset chunk
    = quiet (apply_frame_append s tid sid fid offset chunk)"
proof (cases rule: frame_append_cases [of s tid sid fid offset chunk])
  case (grows t st frame cur T u v)
  let ?s = "s\<lparr> st_items := replace_turn (st_items s) tid v \<rparr>"
  have t: "wf_turn t" "tt_turn_id t = tid" using wf_get_turn [OF assms(1) grows(1)] by auto
  note st = find_Some_mem [OF grows(2)] and fr = find_Some_mem [OF grows(3)]
  have v: "get_turn ?s tid = Some v"
    using find_turn_replace [of "st_items s" tid v] grows(1) t(2) grows(7) by (simp add: get_turn_def)
  have u: "find (\<lambda>x. ts_step_id x = sid) (tt_steps v) = Some u"
    using find_map_same [OF grows(2), of u] st grows(6,7) by simp
  have f: "find (\<lambda>f. frame_id_of f = fid) (ts_frames u) = Some (with_text T frame)"
    using find_map_same [OF grows(3), of "with_text T frame"] fr grows(6) by simp
  have "append_at_offset T offset chunk = \<lparr> aa_text = T, aa_changed = False, aa_gap = None \<rparr>"
    using append_valid_idem(2) [OF wf_text_at [OF t(1) grows(2-4)] assms(2) grows(5)] by simp
  then have "apply_frame_append ?s tid sid fid offset chunk = unchanged ?s"
    using v u f grows(4) by (simp add: apply_frame_append_def)
  then show ?thesis using grows(8) by simp
qed simp_all

lemma apply_task_append_again:
  assumes "wf_state s" and "valid_str chunk"
  shows "apply_task_append (res_state (apply_task_append s tid offset chunk)) tid offset chunk
    = quiet (apply_task_append s tid offset chunk)"
proof -
  define cur where "cur = (case imap_get (st_tasks s) tid of None \<Rightarrow> [] | Some t \<Rightarrow> tk_output_tail t)"
  define r where "r = append_at_offset cur offset chunk"
  note d = apply_task_append_def [of s tid offset chunk] Let_def cur_def [symmetric] r_def [symmetric]
  have v: "valid_str cur" using assms(1) list_all_imap_get [of "\<lambda>(_, t). valid_str (tk_output_tail t)" "st_tasks s" tid]
    by (auto simp: cur_def wf_state_def split: option.splits)
  show ?thesis
  proof (cases "aa_gap r = None \<and> aa_changed r")
    case True
    then obtain t where t: "apply_task_append s tid offset chunk = changed (s\<lparr> st_tasks := imap_insert tid t (st_tasks s) \<rparr>)"
      "tk_output_tail t = aa_text r"
      by (auto simp: d split: option.splits)
    have "append_at_offset (aa_text r) offset chunk = \<lparr> aa_text = aa_text r, aa_changed = False, aa_gap = None \<rparr>"
      using append_valid_idem(2) [OF v assms(2)] True r_def by blast
    then have "apply_task_append (s\<lparr> st_tasks := imap_insert tid t (st_tasks s) \<rparr>) tid offset chunk
        = unchanged (s\<lparr> st_tasks := imap_insert tid t (st_tasks s) \<rparr>)"
      using t(2) by (simp add: apply_task_append_def imap_simps)
    then show ?thesis using t(1) by simp
  next
    case False
    then have "apply_task_append s tid offset chunk = unchanged s \<or> (\<exists>g. apply_task_append s tid offset chunk = gap_result s g)"
      by (cases "aa_gap r") (auto simp: d)
    then show ?thesis by (elim disjE exE) simp_all
  qed
qed

lemma apply_item_upsert_again:
  assumes "item_id item = iid"
  shows "apply_item_upsert (res_state (apply_item_upsert s item iid before)) item iid before
    = quiet (apply_item_upsert s item iid before)"
proof -
  have known: "apply_item_upsert s' item iid before = unchanged s'"
    if "list_ex (\<lambda>e. item_id e = iid) (st_items s')" "\<not> list_ex (\<lambda>e. item_id e = iid \<and> e \<noteq> item) (st_items s')" for s'
    using that by (simp add: apply_item_upsert_def)
  show ?thesis
  proof (cases "list_ex (\<lambda>e. item_id e = iid) (st_items s)")
    case True
    show ?thesis
    proof (cases "list_ex (\<lambda>e. item_id e = iid \<and> e \<noteq> item) (st_items s)")
      case differs: True
      then have r: "apply_item_upsert s item iid before =
          changed (s\<lparr> st_items := map (\<lambda>e. if item_id e \<noteq> iid \<or> e = item then e else item) (st_items s) \<rparr>)"
        using True by (simp add: apply_item_upsert_def)
      show ?thesis unfolding r by (simp, rule known) (use True assms in \<open>auto simp: list_ex_iff\<close>)
    qed (use True known in simp)
  next
    case False
    then have r: "apply_item_upsert s item iid before = changed (s\<lparr> st_items :=
        (case before of Some anchor \<Rightarrow> insert_before (turn_from anchor) item (st_items s) | None \<Rightarrow> st_items s @ [item]) \<rparr>)"
      by (simp add: apply_item_upsert_def)
    have "set (insert_before P item (st_items s)) = insert item (set (st_items s))" for P
      using insert_before_split [of "st_items s" P item] by (metis Un_insert_right list.simps(15) set_append)
    then have "set (case before of Some anchor \<Rightarrow> insert_before (turn_from anchor) item (st_items s) | None \<Rightarrow> st_items s @ [item])
        = insert item (set (st_items s))"
      by (simp split: option.splits)
    then show ?thesis unfolding r using False assms by (simp, intro known) (auto simp: list_ex_iff)
  qed
qed

lemma apply_items_remove_again:
  "apply_items_remove (res_state (apply_items_remove s ids)) ids = quiet (apply_items_remove s ids)"
proof (cases "length (filter (\<lambda>i. item_id i \<notin> set ids) (st_items s)) = length (st_items s)")
  case True
  then show ?thesis by (simp add: apply_items_remove_def)
next
  case False
  define s' where "s' = res_state (apply_items_remove s ids)"
  have s': "apply_items_remove s ids = changed s' \<and> st_items s' = filter (\<lambda>i. item_id i \<notin> set ids) (st_items s)"
    using False unfolding s'_def by (simp add: apply_items_remove_def Let_def split: prod.split)
  then have "apply_items_remove s' ids = unchanged s'" by (simp add: apply_items_remove_def filter_filter)
  then show ?thesis using s' by simp
qed

lemma merge_modes_again: "merge_modes (merge_modes modes m) m = merge_modes modes m"
  by (cases "mm_plan m"; cases "mm_swarm m") (auto simp: merge_modes_def Let_def)

lemma apply_meta_merge_again:
  "apply_meta_merge (res_state (apply_meta_merge s m)) m =
     (apply_meta_merge s m)\<lparr> res_changed := mg_modes m \<noteq> None \<and> me_modes (st_meta (res_state (apply_meta_merge s m))) \<noteq> None \<rparr>"
proof -
  define nm where "nm s' = \<lparr> me_goal = (case mg_goal m of Some g \<Rightarrow> Some g | None \<Rightarrow> me_goal (st_meta s')),
      me_modes = (case mg_modes m of None \<Rightarrow> me_modes (st_meta s') | Some mm \<Rightarrow> merge_modes (me_modes (st_meta s')) mm),
      me_activity = (case mg_activity m of Some a \<Rightarrow> Some a | None \<Rightarrow> me_activity (st_meta s')) \<rparr>" for s' :: "'a agent_state"
  have d: "apply_meta_merge s' m =
      (if \<not> (mg_modes m \<noteq> None \<and> me_modes (nm s') \<noteq> None) \<and> nm s' = st_meta s' then unchanged s' else changed (s'\<lparr> st_meta := nm s' \<rparr>))"
    for s' unfolding apply_meta_merge_def Let_def nm_def by (rule refl)
  have st: "res_state (apply_meta_merge s m) = s\<lparr> st_meta := nm s \<rparr>" unfolding d by simp
  have gap: "res_gap (apply_meta_merge s m) = None" unfolding d by (simp add: result_simps)
  have "nm (s\<lparr> st_meta := nm s \<rparr>) = nm s"
    by (cases "mg_goal m"; cases "mg_modes m"; cases "mg_activity m") (simp_all add: nm_def merge_modes_again)
  then have "apply_meta_merge (s\<lparr> st_meta := nm s \<rparr>) m =
      (if mg_modes m \<noteq> None \<and> me_modes (nm s) \<noteq> None then changed else unchanged) (s\<lparr> st_meta := nm s \<rparr>)"
    unfolding d by simp
  then show ?thesis using st gap by (cases "apply_meta_merge s m") (simp add: result_simps)
qed

text \<open>
  C15. Applying an operation a second time changes nothing, so a batch that is delivered again does no
  harm: the state and the reported gap are the same, and the second application reports no change. The
  exceptions are the ones the code makes: a reset always reports a change, and a metadata merge that
  carries modes reports one whenever modes remain.
\<close>

theorem apply_operation_idempotent:
  assumes "wf_state s" and "wf_op op" and "r = apply_operation s op"
  shows "apply_operation (res_state r) op = r\<lparr> res_changed :=
    (case op of Reset _ _ \<Rightarrow> True
              | MetaMerge m \<Rightarrow> mg_modes m \<noteq> None \<and> me_modes (st_meta (res_state r)) \<noteq> None
              | _ \<Rightarrow> False) \<rparr>"
proof (cases op)
  case (Reset a snap)
  then show ?thesis using assms(3) by (simp add: apply_reset_def Let_def changed_def)
next
  case (Append target offset chunk)
  then show ?thesis using assms apply_frame_append_again apply_task_append_again by (cases target) auto
next
  case (TaskUpsert t)
  then show ?thesis using assms tasks.insert_known [of t "st_tasks s"]
    by (auto simp: apply_task_upsert_def split: if_splits)
next
  case (InteractionUpsert i)
  then show ?thesis using assms interactions.insert_known [of i "st_interactions s"]
    by (auto simp: apply_interaction_upsert_def Let_def split: if_splits)
next
  case (AttachmentUpsert a)
  then show ?thesis using assms attachments.insert_known [of a "st_attachments s"]
    by (auto simp: apply_attachment_upsert_def split: if_splits)
next
  case (TodoUpsert t)
  then show ?thesis using assms todos.insert_known [of t "st_todos s"]
    by (auto simp: apply_todo_upsert_def split: if_splits)
qed (simp_all add: assms(3) apply_turn_upsert_again apply_step_upsert_again apply_frame_upsert_again apply_item_upsert_again
      apply_items_remove_again apply_meta_merge_again)

theorem apply_operation_idempotent_witness:
  "let op = FrameUpsert (lit ''t1'') (lit ''t1.0'') example_frame;
       r = apply_operation (agent_state_default :: nat agent_state) op
   in apply_operation (res_state r) op = r\<lparr> res_changed := False \<rparr>"
proof -
  have "wf_state (agent_state_default :: nat agent_state)"
    by (simp add: wf_state_def agent_state_default_def wf_items_def keyed_def)
  moreover have "wf_op (FrameUpsert (lit ''t1'') (lit ''t1.0'') (example_frame :: nat transcript_frame))"
    by (simp add: wf_frame_def example_frame_def lit_def is_scalar_def)
  ultimately show ?thesis using apply_operation_idempotent [OF _ _ refl] by (fastforce simp: Let_def)
qed

end
