(* ===== verification/TranscriptStore.thy ===== *)
theory TranscriptStore
  imports TranscriptInv
begin

text \<open>
  The stores over the reducer: the listener registry (\<open>store/mod.rs\<close>), one agent's transcript
  (\<open>store/agent_transcript.rs\<close>) and the roster of a session (\<open>store/transcript_store.rs\<close>). A
  callback is code of the client: the parameter \<open>call\<close> gives, for a listener, an event and the
  client's state, the handles it disposes and the client's next state.
\<close>

section \<open>Listeners\<close>

record registry =
  lr_listeners :: "u64 list"
  lr_next_id :: u64

definition registry_new :: registry where
  "registry_new = \<lparr> lr_listeners = [], lr_next_id = 0 \<rparr>"

definition u64_max :: u64 where
  "u64_max = - 1"

definition saturating_add :: "u64 \<Rightarrow> u64 \<Rightarrow> u64" where
  "saturating_add a b = (if u64_max - a < b then u64_max else a + b)"

definition register :: "registry \<Rightarrow> u64 \<times> registry" where
  "register r = (lr_next_id r, \<lparr> lr_listeners = iset_insert (lr_next_id r) (lr_listeners r),
                                lr_next_id = saturating_add (lr_next_id r) 1 \<rparr>)"

text \<open>\<open>Disposable::dispose\<close> of the handle of one listener.\<close>

definition dispose :: "u64 \<Rightarrow> registry \<Rightarrow> registry" where
  "dispose lid r = r\<lparr> lr_listeners := iset_remove lid (lr_listeners r) \<rparr>"

definition next_listener :: "u64 option \<Rightarrow> registry \<Rightarrow> u64 option" where
  "next_listener after r = find (\<lambda>lid. case after of None \<Rightarrow> True | Some previous \<Rightarrow> lid > previous) (lr_listeners r)"

definition rest_after :: "u64 option \<Rightarrow> registry \<Rightarrow> u64 list" where
  "rest_after after r = filter (\<lambda>lid. case after of None \<Rightarrow> True | Some previous \<Rightarrow> lid > previous) (lr_listeners r)"

lemma rest_after_dispose: "rest_after after (dispose lid r) = removeAll lid (rest_after after r)"
  by (simp add: rest_after_def dispose_def removeAll_filter_not_eq conj_commute)

lemma rest_after_disposes:
  "rest_after after (fold dispose lids r) = filter (\<lambda>x. x \<notin> set lids) (rest_after after r)"
  by (induction lids arbitrary: r) (auto simp: rest_after_dispose removeAll_filter_not_eq intro: filter_cong)

lemma next_listener_rest: "next_listener after r = Some lid \<Longrightarrow> lid \<in> set (rest_after after r)"
  by (auto simp: next_listener_def rest_after_def find_Some_iff)

lemma rest_after_shorter:
  assumes "next_listener after r = Some lid"
  shows "length (rest_after (Some lid) (fold dispose lids r)) < length (rest_after after r)"
proof -
  let ?big = "\<lambda>x. case after of None \<Rightarrow> True | Some previous \<Rightarrow> x > previous"
  have lid: "lid \<in> set (lr_listeners r)" "?big lid" using next_listener_rest [OF assms] by (auto simp: rest_after_def)
  have "rest_after (Some lid) r = filter (\<lambda>x. x > lid) (rest_after after r)"
    using lid(2) by (auto simp: rest_after_def intro!: filter_cong split: option.splits)
  also have "length \<dots> < length (rest_after after r)"
    using lid by (intro length_filter_less [of lid]) (auto simp: rest_after_def)
  finally show ?thesis
    unfolding rest_after_disposes using length_filter_le [of "\<lambda>x. x \<notin> set lids" "rest_after (Some lid) r"] by linarith
qed

text \<open>
  The loop of \<open>emit\<close>: the listeners are looked up anew before every call, so that one that a callback
  disposed is not called any more.
\<close>

function emit_loop ::
  "(u64 \<Rightarrow> 'e \<Rightarrow> 'w \<Rightarrow> u64 list \<times> 'w) \<Rightarrow> 'e \<Rightarrow> u64 option \<Rightarrow> registry \<Rightarrow> 'w \<Rightarrow> registry \<times> 'w" where
  "emit_loop call event after r w =
     (case next_listener after r of
        None \<Rightarrow> (r, w)
      | Some lid \<Rightarrow>
          (let (disposed, w') = call lid event w
           in emit_loop call event (Some lid) (fold dispose disposed r) w'))"
  by pat_completeness auto
termination
  by (relation "measure (\<lambda>(_, _, after, r, _). length (rest_after after r))") (auto simp: rest_after_shorter)

definition emit :: "(u64 \<Rightarrow> 'e \<Rightarrow> 'w \<Rightarrow> u64 list \<times> 'w) \<Rightarrow> 'e \<Rightarrow> registry \<Rightarrow> 'w \<Rightarrow> registry \<times> 'w" where
  "emit call event r w = emit_loop call event None r w"

declare emit_loop.simps [simp del]

section \<open>One agent\<close>

record 'j agent_transcript =
  at_agent_id :: string_id
  at_state :: "'j agent_state"
  at_listeners :: registry

definition agent_new :: "string_id \<Rightarrow> 'j agent_transcript" where
  "agent_new aid = \<lparr> at_agent_id = aid, at_state = agent_state_default, at_listeners = registry_new \<rparr>"

text \<open>The loop of \<open>apply\<close>: accepted operations (in order), the last gap and the state.\<close>

fun apply_batch ::
  "'j transcript_operation list \<Rightarrow> 'j transcript_operation list \<Rightarrow> append_gap option \<Rightarrow> 'j agent_state
   \<Rightarrow> 'j applied_ops \<times> 'j agent_state" where
  "apply_batch [] accepted gap s = (\<lparr> ao_accepted = accepted, ao_gap = gap \<rparr>, s)"
| "apply_batch (op # rest) accepted gap s =
     (let result = apply_operation s op in
      case res_gap result of
        Some g \<Rightarrow>
          apply_batch rest accepted
            (case op of
               Append target _ _ \<Rightarrow> Some \<lparr> ag_target = target, ag_expected = og_expected g, ag_got = og_got g \<rparr>
             | _ \<Rightarrow> gap) s
      | None \<Rightarrow>
          if \<not> res_changed result then apply_batch rest accepted gap s
          else apply_batch rest (accepted @ [op]) gap (res_state result))"

definition agent_apply ::
  "(u64 \<Rightarrow> 'j transcript_change_event \<Rightarrow> 'w \<Rightarrow> u64 list \<times> 'w) \<Rightarrow> 'j transcript_operation list
   \<Rightarrow> 'j agent_transcript \<Rightarrow> 'w \<Rightarrow> 'j applied_ops \<times> 'j agent_transcript \<times> 'w" where
  "agent_apply call operations a w =
     (let (applied, s) = apply_batch operations [] None (at_state a);
          a = a\<lparr> at_state := s \<rparr> in
      if ao_accepted applied = [] then (applied, a, w)
      else
        (let (listeners, w') =
               emit call \<lparr> ce_agent_id = at_agent_id a, ce_ops = ao_accepted applied \<rparr> (at_listeners a) w
         in (applied, a\<lparr> at_listeners := listeners \<rparr>, w')))"

definition agent_receive ::
  "(u64 \<Rightarrow> 'j transcript_change_event \<Rightarrow> 'w \<Rightarrow> u64 list \<times> 'w) \<Rightarrow> 'j transcript_operation list
   \<Rightarrow> 'j agent_transcript \<Rightarrow> 'w \<Rightarrow> 'j applied_ops \<times> 'j agent_transcript \<times> 'w" where
  "agent_receive call operations a w = agent_apply call operations a w"

definition agent_on_change :: "'j agent_transcript \<Rightarrow> u64 \<times> 'j agent_transcript" where
  "agent_on_change a = (let (lid, r) = register (at_listeners a) in (lid, a\<lparr> at_listeners := r \<rparr>))"

definition agent_get_turn :: "'j agent_transcript \<Rightarrow> string_id \<Rightarrow> 'j transcript_turn option" where
  "agent_get_turn a tid = get_turn (at_state a) tid"

definition agent_get_task :: "'j agent_transcript \<Rightarrow> string_id \<Rightarrow> transcript_task option" where
  "agent_get_task a tid = imap_get (st_tasks (at_state a)) tid"

definition agent_get_interaction :: "'j agent_transcript \<Rightarrow> string_id \<Rightarrow> 'j transcript_interaction option" where
  "agent_get_interaction a iid = imap_get (st_interactions (at_state a)) iid"

definition agent_get_attachment :: "'j agent_transcript \<Rightarrow> string_id \<Rightarrow> transcript_attachment option" where
  "agent_get_attachment a aid = imap_get (st_attachments (at_state a)) aid"

definition agent_get_todo :: "'j agent_transcript \<Rightarrow> string_id \<Rightarrow> transcript_todo option" where
  "agent_get_todo a tid = imap_get (st_todos (at_state a)) tid"

text \<open>The items behind the first \<open>skip\<close> turns.\<close>

fun window_items :: "nat \<Rightarrow> nat \<Rightarrow> 'j transcript_item list \<Rightarrow> 'j transcript_item list" where
  "window_items skip seen [] = []"
| "window_items skip seen (item # rest) =
     (if is_turn item then
        (if seen + 1 \<le> skip then window_items skip (seen + 1) rest else item # window_items skip (seen + 1) rest)
      else if seen > skip then item # window_items skip seen rest
      else window_items skip seen rest)"

definition agent_snapshot :: "'j agent_state \<Rightarrow> nat option \<Rightarrow> 'j agent_transcript_snapshot" where
  "agent_snapshot s window =
     (let turn_count = length (filter is_turn (st_items s));
          (items, more) = (case window of
             Some tail_turns \<Rightarrow>
               if turn_count > tail_turns then (window_items (turn_count - tail_turns) 0 (st_items s), True)
               else (st_items s, st_has_more_older s)
           | None \<Rightarrow> (st_items s, st_has_more_older s))
      in \<lparr> as_items = items, as_tasks = map snd (st_tasks s), as_interactions = map snd (st_interactions s),
           as_attachments = map snd (st_attachments s), as_todos = map snd (st_todos s), as_meta = st_meta s,
           as_has_more_older = Some more \<rparr>)"

section \<open>The session\<close>

datatype agent_type = AgentMain | AgentSub | AgentIndependent

record agent_descriptor =
  ad_agent_id :: string_id
  ad_type :: "agent_type option"
  ad_parent_agent_id :: "string_id option"
  ad_label :: "str option"
  ad_created_at :: "str option"
  ad_disposed_at :: "str option"

record 'j transcript_store =
  ss_session_id :: str
  ss_agents :: "(string_id, 'j agent_transcript) imap"
  ss_descriptors :: "(string_id, agent_descriptor) imap"
  ss_roster_listeners :: registry

definition store_new :: "str \<Rightarrow> 'j transcript_store" where
  "store_new sid = \<lparr> ss_session_id = sid, ss_agents = [], ss_descriptors = [], ss_roster_listeners = registry_new \<rparr>"

definition store_agents :: "'j transcript_store \<Rightarrow> agent_descriptor list" where
  "store_agents st = map snd (ss_descriptors st)"

type_synonym 'w roster_call = "u64 \<Rightarrow> agent_descriptor list \<Rightarrow> 'w \<Rightarrow> u64 list \<times> 'w"

definition emit_roster :: "'w roster_call \<Rightarrow> 'j transcript_store \<Rightarrow> 'w \<Rightarrow> 'j transcript_store \<times> 'w" where
  "emit_roster call st w =
     (let (r, w') = emit call (store_agents st) (ss_roster_listeners st) w
      in (st\<lparr> ss_roster_listeners := r \<rparr>, w'))"

definition store_on_roster_change :: "'j transcript_store \<Rightarrow> u64 \<times> 'j transcript_store" where
  "store_on_roster_change st =
     (let (lid, r) = register (ss_roster_listeners st) in (lid, st\<lparr> ss_roster_listeners := r \<rparr>))"

definition describe_agent :: "'w roster_call \<Rightarrow> agent_descriptor \<Rightarrow> 'j transcript_store \<Rightarrow> 'w \<Rightarrow> 'j transcript_store \<times> 'w" where
  "describe_agent call d st w =
     (if imap_get (ss_descriptors st) (ad_agent_id d) \<noteq> Some d
      then emit_roster call (st\<lparr> ss_descriptors := imap_insert (ad_agent_id d) d (ss_descriptors st) \<rparr>) w
      else (st, w))"

text \<open>\<open>ensure_agent\<close> files the descriptor under the agent it is called for.\<close>

definition ensure_agent ::
  "'w roster_call \<Rightarrow> string_id \<Rightarrow> agent_descriptor option \<Rightarrow> 'j transcript_store \<Rightarrow> 'w
   \<Rightarrow> 'j agent_transcript \<times> 'j transcript_store \<times> 'w" where
  "ensure_agent call aid descriptor st w =
     (let st = (if imap_get (ss_agents st) aid = None
                then st\<lparr> ss_agents := imap_insert aid (agent_new aid) (ss_agents st) \<rparr> else st);
          (st, w) = (case descriptor of
                       Some d \<Rightarrow>
                         if imap_get (ss_descriptors st) aid \<noteq> Some d
                         then emit_roster call (st\<lparr> ss_descriptors := imap_insert aid d (ss_descriptors st) \<rparr>) w
                         else (st, w)
                     | None \<Rightarrow> (st, w))
      in case imap_get (ss_agents st) aid of
           Some a \<Rightarrow> (a, st, w)
         | None \<Rightarrow> (agent_new aid, st\<lparr> ss_agents := imap_insert aid (agent_new aid) (ss_agents st) \<rparr>, w))"

definition get_agent :: "'j transcript_store \<Rightarrow> string_id \<Rightarrow> 'j agent_transcript option" where
  "get_agent st aid = imap_get (ss_agents st) aid"

text \<open>\<open>get_agent_mut\<close>: the agent is changed in place.\<close>

definition get_agent_mut ::
  "'j transcript_store \<Rightarrow> string_id \<Rightarrow> ('j agent_transcript \<Rightarrow> 'j agent_transcript) \<Rightarrow> 'j transcript_store option" where
  "get_agent_mut st aid f =
     map_option (\<lambda>a. st\<lparr> ss_agents := imap_insert aid (f a) (ss_agents st) \<rparr>) (imap_get (ss_agents st) aid)"

definition remove_agent :: "'w roster_call \<Rightarrow> string_id \<Rightarrow> 'j transcript_store \<Rightarrow> 'w \<Rightarrow> bool \<times> 'j transcript_store \<times> 'w" where
  "remove_agent call aid st w =
     (let removed = (imap_get (ss_agents st) aid \<noteq> None);
          descriptor_removed = (imap_get (ss_descriptors st) aid \<noteq> None);
          st = st\<lparr> ss_agents := imap_remove aid (ss_agents st), ss_descriptors := imap_remove aid (ss_descriptors st) \<rparr>;
          (st, w) = (if descriptor_removed \<or> removed then emit_roster call st w else (st, w))
      in (removed, st, w))"

definition mark_disposed :: "'w roster_call \<Rightarrow> string_id \<Rightarrow> str \<Rightarrow> 'j transcript_store \<Rightarrow> 'w \<Rightarrow> 'j transcript_store \<times> 'w" where
  "mark_disposed call aid disposed_at st w =
     (case imap_get (ss_descriptors st) aid of
        None \<Rightarrow> (st, w)
      | Some d \<Rightarrow>
          if ad_disposed_at d \<noteq> None then (st, w)
          else describe_agent call (d\<lparr> ad_disposed_at := Some disposed_at \<rparr>) st w)"


section \<open>Listeners are called in order\<close>

definition registry_inv :: "registry \<Rightarrow> bool" where
  "registry_inv r \<longleftrightarrow> sorted_wrt (<) (lr_listeners r) \<and> list_all (\<lambda>lid. lid < lr_next_id r \<or> lid = u64_max \<and> lr_next_id r = u64_max) (lr_listeners r)"

lemma registry_inv_new: "registry_inv registry_new"
  by (simp add: registry_inv_def registry_new_def)

lemma saturating_add_one: "saturating_add a 1 = (if a = u64_max then u64_max else a + 1)" "a \<noteq> u64_max \<Longrightarrow> a < a + 1"
proof -
  have "u64_max - a < 1 \<longleftrightarrow> a = u64_max" by (auto simp: u64_max_def word_less_1)
  then show "saturating_add a 1 = (if a = u64_max then u64_max else a + 1)" by (simp add: saturating_add_def)
  show "a \<noteq> u64_max \<Longrightarrow> a < a + 1" 
    using unatSuc [of a] by (auto simp: u64_max_def word_less_nat_alt add.commute add_eq_0_iff)
qed

lemma registry_inv_register: "registry_inv r \<Longrightarrow> registry_inv (snd (register r))"
proof (cases "lr_next_id r = u64_max")
  case True
  then show "registry_inv r \<Longrightarrow> ?thesis"
    by (auto simp: registry_inv_def register_def iset_insert_def list_all_iff sorted_wrt_append saturating_add_one(1))
next
  case False
  assume inv: "registry_inv r"
  note lt = saturating_add_one(2) [OF False]
  have below: "lid < lr_next_id r" if "lid \<in> set (lr_listeners r)" for lid
    using inv that False by (auto simp: registry_inv_def list_all_iff)
  then have "lr_next_id r \<notin> set (lr_listeners r)" by blast
  moreover have "lid < lr_next_id r + 1" if "lid \<in> set (lr_listeners r)" for lid
    using below [OF that] lt by (rule less_trans)
  ultimately show ?thesis using inv below lt False
    by (simp add: registry_inv_def register_def iset_insert_def list_all_iff sorted_wrt_append saturating_add_one(1))
qed

lemma registry_inv_dispose: "registry_inv r \<Longrightarrow> registry_inv (dispose lid r)"
  by (auto simp: registry_inv_def dispose_def list_all_iff removeAll_filter_not_eq sorted_wrt_filter)

lemma registry_inv_disposes: "registry_inv r \<Longrightarrow> registry_inv (fold dispose lids r)"
  by (induction lids arbitrary: r) (auto intro: registry_inv_dispose)

text \<open>The intended delivery: the listeners of the start, in order, less those disposed meanwhile.\<close>

fun deliver ::
  "(u64 \<Rightarrow> 'e \<Rightarrow> 'w \<Rightarrow> u64 list \<times> 'w) \<Rightarrow> 'e \<Rightarrow> u64 list \<Rightarrow> registry \<Rightarrow> 'w \<Rightarrow> registry \<times> 'w" where
  "deliver call event [] r w = (r, w)"
| "deliver call event (lid # lids) r w =
     (if lid \<in> set (lr_listeners r)
      then (let (disposed, w') = call lid event w in deliver call event lids (fold dispose disposed r) w')
      else deliver call event lids r w)"

lemma fold_dispose_listeners: "lr_listeners (fold dispose d r) = filter (\<lambda>x. x \<notin> set d) (lr_listeners r)"
  using rest_after_disposes [of None d r] by (simp add: rest_after_def)

lemma deliver_filter:
  assumes "set (lr_listeners r) \<inter> set lids \<subseteq> Collect P"
  shows "deliver call event lids r w = deliver call event (filter P lids) r w"
  using assms
proof (induction call event lids r w rule: deliver.induct)
  case (2 call event lid lids r w)
  have sub: "set (lr_listeners (fold dispose d r)) \<subseteq> set (lr_listeners r)" for d
    using fold_dispose_listeners [of d r] by auto
  have "deliver call event lids (fold dispose d r) w' = deliver call event (filter P lids) (fold dispose d r) w'"
    if "call lid event w = (d, w')" "lid \<in> set (lr_listeners r)" for d w'
  proof (rule "2.IH"(1) [OF that(2) that(1) [symmetric] refl])
    show "set (lr_listeners (fold dispose d r)) \<inter> set lids \<subseteq> Collect P" using "2.prems" sub [of d] by auto
  qed
  moreover have "deliver call event lids r w = deliver call event (filter P lids) r w" if "lid \<notin> set (lr_listeners r)"
    using "2.IH"(2) [OF that] "2.prems" by auto
  ultimately show ?case using "2.prems" by (simp split: prod.split) blast
qed simp

lemma next_listener_simp:
  "next_listener after r = (case rest_after after r of [] \<Rightarrow> None | lid # _ \<Rightarrow> Some lid)"
proof -
  have "find P xs = (case filter P xs of [] \<Rightarrow> None | x # _ \<Rightarrow> Some x)" for P and xs :: "u64 list"
    by (induction xs) auto
  then show ?thesis by (simp add: next_listener_def rest_after_def)
qed

lemma rest_after_step:
  assumes "registry_inv r" and "rest_after after r = lid # lids"
  shows "rest_after (Some lid) r = lids"
proof -
  let ?P = "\<lambda>x. case after of None \<Rightarrow> True | Some previous \<Rightarrow> x > previous"
  have "sorted_wrt (<) (rest_after after r)" using assms(1) by (simp add: rest_after_def registry_inv_def sorted_wrt_filter)
  then have "sorted_wrt (<) (lid # lids)" using assms(2) by simp
  then have gt: "\<forall>x\<in>set lids. lid < x" by simp
  have "?P lid" using assms(2) by (auto simp: rest_after_def filter_eq_Cons_iff)
  then have "rest_after (Some lid) r = filter (\<lambda>x. lid < x) (rest_after after r)"
    by (auto simp: rest_after_def intro!: filter_cong split: option.splits)
  also have "\<dots> = lids" using assms(2) gt by simp
  finally show ?thesis .
qed

lemma emit_loop_deliver:
  "registry_inv r \<Longrightarrow> emit_loop call event after r w = deliver call event (rest_after after r) r w"
proof (induction call event after r w rule: emit_loop.induct)
  case (1 call event after r w)
  show ?case
  proof (cases "rest_after after r")
    case Nil
    then show ?thesis by (simp add: emit_loop.simps [of call] next_listener_simp)
  next
    case (Cons lid lids)
    obtain d w' where c: "call lid event w = (d, w')" by (cases "call lid event w") auto
    let ?r = "fold dispose d r"
    have "emit_loop call event after r w = emit_loop call event (Some lid) ?r w'"
      using Cons c by (simp add: emit_loop.simps [of call event after] next_listener_simp)
    also have "\<dots> = deliver call event (rest_after (Some lid) ?r) ?r w'"
      using 1(1) [of lid "(d, w')" d w'] Cons c registry_inv_disposes [OF 1(2)] by (simp add: next_listener_simp)
    also have "rest_after (Some lid) ?r = filter (\<lambda>x. x \<notin> set d) lids"
      using rest_after_step [OF 1(2) Cons] by (simp add: rest_after_disposes)
    also have "deliver call event (filter (\<lambda>x. x \<notin> set d) lids) ?r w' = deliver call event lids ?r w'"
    proof (rule deliver_filter [symmetric])
      have "set (lr_listeners (fold dispose d r)) \<inter> set d = {}"
        using fold_dispose_listeners [of d r] by auto
      then show "set (lr_listeners ?r) \<inter> set lids \<subseteq> {x. x \<notin> set d}" by auto
    qed
    finally have e: "emit_loop call event after r w = deliver call event lids ?r w'" .
    have "lid \<in> set (rest_after after r)" using Cons by simp
    then have "lid \<in> set (lr_listeners r)" by (simp add: rest_after_def)
    then show ?thesis using e c Cons by simp
  qed
qed

lemma emit_deliver: "registry_inv r \<Longrightarrow> emit call event r w = deliver call event (lr_listeners r) r w"
  by (simp add: emit_def emit_loop_deliver rest_after_def)

section \<open>Batches\<close>


lemma apply_batch_generic:
  "ao_accepted (fst (apply_batch ops acc gap s)) = acc @ ao_accepted (fst (apply_batch ops [] gap' s))
   \<and> snd (apply_batch ops acc gap s) = snd (apply_batch ops [] gap' s)"
proof (induction ops arbitrary: acc gap gap' s)
  case (Cons op ops)
  show ?case
  proof (cases "res_gap (apply_operation s op)")
    case None
    let ?s = "res_state (apply_operation s op)"
    show ?thesis
      using None Cons.IH [of acc gap s gap'] Cons.IH [of "acc @ [op]" gap ?s gap'] Cons.IH [of "[op]" gap' ?s gap']
      by (simp add: Let_def)
  next
    case (Some g)
    define G where "G = (\<lambda>gap. case op of
        Append target _ _ \<Rightarrow> Some \<lparr> ag_target = target, ag_expected = og_expected g, ag_got = og_got g \<rparr> | _ \<Rightarrow> gap)"
    have "apply_batch (op # ops) ac gp s = apply_batch ops ac (G gp) s" for ac gp
      using Some by (simp add: G_def)
    then show ?thesis using Cons.IH [of acc "G gap" s "G gap'"] by simp
  qed
qed simp

lemma apply_batch_replay:
  "apply_batch (ao_accepted (fst (apply_batch ops [] gap s))) acc None s
   = (\<lparr> ao_accepted = acc @ ao_accepted (fst (apply_batch ops [] gap s)), ao_gap = None \<rparr>, snd (apply_batch ops [] gap s))"
proof (induction ops arbitrary: acc gap s)
  case (Cons op ops)
  note g = apply_batch_generic [of ops "[op]" gap "res_state (apply_operation s op)" gap]
  show ?case
    using Cons.IH [of gap "res_state (apply_operation s op)" "acc @ [op]"] Cons.IH [of _ s acc] g
    by (cases "res_gap (apply_operation s op)") (auto simp: Let_def)
qed simp

text \<open>
  C8. A replica follows by its change events. Applying a batch leaves a state that the accepted
  operations alone produce: a replica in the same state that receives just these accepts every one of
  them, reports no gap and ends in the same state, whatever was rejected or without effect in between.
  The listeners of the agent are told exactly once, in the order of registration, of exactly these
  operations, and not at all when nothing was accepted; a listener that an earlier one disposes is not
  called.
\<close>

theorem agent_apply_replicates:
  assumes "registry_inv (at_listeners a)" and "agent_apply call operations a w = (applied, a', w')"
  shows "apply_batch (ao_accepted applied) [] None (at_state a)
           = (\<lparr> ao_accepted = ao_accepted applied, ao_gap = None \<rparr>, at_state a')
    \<and> (at_listeners a', w') =
      (if ao_accepted applied = [] then (at_listeners a, w)
       else deliver call \<lparr> ce_agent_id = at_agent_id a, ce_ops = ao_accepted applied \<rparr>
              (lr_listeners (at_listeners a)) (at_listeners a) w)"
proof
  obtain s where b: "apply_batch operations [] None (at_state a) = (applied, s)"
    using assms(2) by (auto simp: agent_apply_def Let_def split: prod.splits if_splits)
  have s: "at_state a' = s" using assms(2) b by (auto simp: agent_apply_def Let_def split: prod.splits if_splits)
  show "apply_batch (ao_accepted applied) [] None (at_state a)
           = (\<lparr> ao_accepted = ao_accepted applied, ao_gap = None \<rparr>, at_state a')"
    using apply_batch_replay [of operations None "at_state a" "[]"] b s by simp
  show "(at_listeners a', w') =
      (if ao_accepted applied = [] then (at_listeners a, w)
       else deliver call \<lparr> ce_agent_id = at_agent_id a, ce_ops = ao_accepted applied \<rparr>
              (lr_listeners (at_listeners a)) (at_listeners a) w)"
    using assms(2) b emit_deliver [OF assms(1), of call "\<lparr> ce_agent_id = at_agent_id a, ce_ops = ao_accepted applied \<rparr>" w]
    by (auto simp: agent_apply_def Let_def split: prod.splits if_splits)
qed

text \<open>A batch of a todo, an append behind the end of an unknown task and the todo again; two listeners, the first of which disposes the second.\<close>

definition example_todo :: transcript_todo where
  "example_todo = \<lparr> to_todo_id = lit ''x'', to_items = [], to_updated_at = None \<rparr>"

definition example_batch :: "nat transcript_operation list" where
  "example_batch = [TodoUpsert example_todo, Append (TargetTask (lit ''k'')) 3 (lit ''late''), TodoUpsert example_todo]"

definition example_agent :: "nat agent_transcript" where
  "example_agent = (agent_new (lit ''main''))\<lparr> at_listeners := \<lparr> lr_listeners = [0, 1], lr_next_id = 2 \<rparr> \<rparr>"

definition example_call :: "u64 \<Rightarrow> nat transcript_change_event \<Rightarrow> u64 list \<Rightarrow> u64 list \<times> u64 list" where
  "example_call lid e w = ([1], w @ [lid])"

theorem agent_apply_replicates_witness:
  "\<exists>applied a'. agent_apply example_call example_batch example_agent [] = (applied, a', [0])
     \<and> ao_accepted applied = [TodoUpsert example_todo] \<and> ao_gap applied \<noteq> None \<and> lr_listeners (at_listeners a') = [0]
     \<and> apply_batch (ao_accepted applied) [] None (at_state example_agent)
         = (\<lparr> ao_accepted = [TodoUpsert example_todo], ao_gap = None \<rparr>, at_state a')"
proof -
  have inv: "registry_inv (at_listeners example_agent)" by (simp add: registry_inv_def example_agent_def)
  obtain applied a' w' where r: "agent_apply example_call example_batch example_agent [] = (applied, a', w')"
    by (cases "agent_apply example_call example_batch example_agent []") auto
  have "fst (apply_batch example_batch [] None (at_state example_agent)) = applied"
    using r by (auto simp: agent_apply_def Let_def split: prod.splits if_splits)
  then have acc: "ao_accepted applied = [TodoUpsert example_todo]" "ao_gap applied \<noteq> None"
    by (auto simp: example_batch_def example_agent_def agent_new_def agent_state_default_def apply_todo_upsert_def result_simps
        example_todo_def apply_task_append_def append_at_offset_def append_gap_at_def lit_def encode_utf16_simps)
  have "(at_listeners a', w') = (\<lparr> lr_listeners = [0], lr_next_id = 2 \<rparr>, [0])"
    using agent_apply_replicates [OF inv r, THEN conjunct2] acc(1)
    by (simp add: example_agent_def example_call_def dispose_def)
  then show ?thesis using agent_apply_replicates [OF inv r, THEN conjunct1] r acc by auto
qed

section \<open>Snapshots\<close>

lemma is_turn_count: "length (filter is_turn items) = length (turns_of items)"
  by (induction items rule: turns_of.induct) auto

lemma window_items_behind: "seen > skip \<Longrightarrow> window_items skip seen items = items"
  by (induction items arbitrary: seen) auto

lemma window_items_suffix:
  assumes "seen \<le> skip" and "skip - seen \<le> length (turns_of items)"
  obtains before where "items = before @ window_items skip seen items" and "length (turns_of before) = skip - seen"
    and "window_items skip seen items = [] \<or> is_turn (hd (window_items skip seen items))"
  using assms
proof (induction items arbitrary: seen thesis)
  case (Cons item rest)
  show ?case
  proof (cases "is_turn item \<and> skip = seen")
    case True
    then show ?thesis using Cons.prems(1) [of "[]"] by (simp add: window_items_behind)
  next
    case False
    define seen' where "seen' = (if is_turn item then seen + 1 else seen)"
    have w: "window_items skip seen (item # rest) = window_items skip seen' rest"
      using False Cons.prems(2) by (auto simp: seen'_def)
    have "turns_of (item # rest) = (if is_turn item then [case item of ItemTurn t \<Rightarrow> t] else []) @ turns_of rest"
      by (cases item) auto
    then have "seen' \<le> skip" "skip - seen' \<le> length (turns_of rest)"
      using Cons.prems(2,3) False by (auto simp: seen'_def)
    then obtain before where b: "rest = before @ window_items skip seen' rest" "length (turns_of before) = skip - seen'"
      "window_items skip seen' rest = [] \<or> is_turn (hd (window_items skip seen' rest))" using Cons.IH by metis
    have "length (turns_of (item # before)) = skip - seen"
      using b(2) False Cons.prems(2) by (cases item) (auto simp: seen'_def)
    then show ?thesis using Cons.prems(1) [of "item # before"] b w by simp
  qed
qed simp


definition pending_frame :: "'j transcript_frame \<Rightarrow> string_id \<Rightarrow> bool" where
  "pending_frame fr k \<longleftrightarrow> (case fr of InteractionFrame f \<Rightarrow> if_state f = IsPending \<and> if_interaction_id f = k | _ \<Rightarrow> False)"

definition pending_in_turn :: "'j transcript_turn \<Rightarrow> string_id \<Rightarrow> bool" where
  "pending_in_turn t k \<longleftrightarrow> list_ex (\<lambda>st. list_ex (\<lambda>fr. pending_frame fr k) (ts_frames st)) (tt_steps t)"

lemma set_iset_insert [simp]: "set (iset_insert x xs) = insert x (set xs)"
  by (auto simp: iset_insert_def)

lemma pending_frames_set: "k \<in> set (pending_frames fs p) \<longleftrightarrow> k \<in> set p \<or> list_ex (\<lambda>fr. pending_frame fr k) fs"
  by (induction fs p rule: pending_frames.induct) (auto simp: pending_frame_def)

lemma pending_steps_set:
  "k \<in> set (foldl (\<lambda>p s. pending_frames (ts_frames s) p) p sts)
   \<longleftrightarrow> k \<in> set p \<or> list_ex (\<lambda>st. list_ex (\<lambda>fr. pending_frame fr k) (ts_frames st)) sts"
  by (induction sts arbitrary: p) (auto simp: pending_frames_set)

lemma pending_items_set: "k \<in> set (pending_items items p) \<longleftrightarrow> k \<in> set p \<or> list_ex (\<lambda>t. pending_in_turn t k) (turns_of items)"
  by (induction items p rule: pending_items.induct) (auto simp: pending_in_turn_def pending_steps_set)

lemma pending_entities_set:
  "k \<in> set (foldl (\<lambda>p i. if ti_state i = IsPending then iset_insert (ti_interaction_id i) p else p) p is)
   \<longleftrightarrow> k \<in> set p \<or> list_ex (\<lambda>i. ti_state i = IsPending \<and> ti_interaction_id i = k) is"
  by (induction "is" arbitrary: p) auto

lemma snapshot_window:
  obtains before where "st_items s = before @ as_items (agent_snapshot s window)"
    and "as_has_more_older (agent_snapshot s window) = Some (st_has_more_older s \<or> before \<noteq> [])"
    and "case window of None \<Rightarrow> before = []
      | Some n \<Rightarrow> length (turns_of (as_items (agent_snapshot s window))) = min n (length (turns_of (st_items s)))"
    and "before = [] \<or> as_items (agent_snapshot s window) = [] \<or> is_turn (hd (as_items (agent_snapshot s window)))"
proof (cases "\<exists>n. window = Some n \<and> n < length (turns_of (st_items s))")
  case True
  then obtain m where m: "window = Some m" "m < length (turns_of (st_items s))" by blast
  let ?skip = "length (turns_of (st_items s)) - m"
  have i: "as_items (agent_snapshot s window) = window_items ?skip 0 (st_items s)"
    "as_has_more_older (agent_snapshot s window) = Some True"
    using m by (simp_all add: agent_snapshot_def is_turn_count)
  obtain before where b: "st_items s = before @ window_items ?skip 0 (st_items s)" "length (turns_of before) = ?skip"
    "window_items ?skip 0 (st_items s) = [] \<or> is_turn (hd (window_items ?skip 0 (st_items s)))"
    using window_items_suffix [of 0 ?skip "st_items s"] by auto
  have len: "length (turns_of (st_items s)) = ?skip + length (turns_of (window_items ?skip 0 (st_items s)))"
    using b(1,2) by (metis length_append turns_of_append)
  show thesis
  proof (rule that)
    show "st_items s = before @ as_items (agent_snapshot s window)" using b(1) i(1) by simp
    show "as_has_more_older (agent_snapshot s window) = Some (st_has_more_older s \<or> before \<noteq> [])"
      using b(2) i(2) m(2) by auto
    show "case window of None \<Rightarrow> before = []
      | Some n \<Rightarrow> length (turns_of (as_items (agent_snapshot s window))) = min n (length (turns_of (st_items s)))"
      using m len i(1) by simp
    show "before = [] \<or> as_items (agent_snapshot s window) = [] \<or> is_turn (hd (as_items (agent_snapshot s window)))"
      using b(3) i(1) by simp
  qed
next
  case False
  then have "as_items (agent_snapshot s window) = st_items s" "as_has_more_older (agent_snapshot s window) = Some (st_has_more_older s)"
    by (cases window; simp add: agent_snapshot_def is_turn_count Let_def)+
  moreover have "case window of None \<Rightarrow> True | Some n \<Rightarrow> length (turns_of (st_items s)) = min n (length (turns_of (st_items s)))"
    using False by (auto simp: min_def split: option.splits)
  ultimately show thesis using that [of "[]"] by (cases window) simp_all
qed


lemma snapshot_other_fields:
  "as_tasks (agent_snapshot s window) = map snd (st_tasks s)"
  "as_interactions (agent_snapshot s window) = map snd (st_interactions s)"
  "as_attachments (agent_snapshot s window) = map snd (st_attachments s)"
  "as_todos (agent_snapshot s window) = map snd (st_todos s)"
  "as_meta (agent_snapshot s window) = st_meta s"
  by (simp_all add: agent_snapshot_def Let_def split: prod.splits)


definition example_state :: "nat agent_state" where
  "example_state = agent_state_default\<lparr> st_items := [ItemTurn (skeleton_turn (lit ''t1'')), ItemTurn (skeleton_turn (lit ''t2''))] \<rparr>"


end
