(* ===== verification/TranscriptPages.thy ===== *)
theory TranscriptPages
  imports TranscriptInv
begin

text \<open>
  What a subscriber gets: the grades of a subscription (\<open>granularity/grade.rs\<close>,
  \<open>granularity/filter_ops.rs\<close>) and the pages of a transcript (\<open>pagination/paginate.rs\<close>), with the proof
  that a client that pages backwards sees every item exactly once.
\<close>

section \<open>Grades\<close>

datatype transcript_grade = GradeOff | GradeTurn | GradeBlock | GradeDelta

fun grade_rank :: "transcript_grade \<Rightarrow> nat" where
  "grade_rank GradeOff = 0"
| "grade_rank GradeTurn = 1"
| "grade_rank GradeBlock = 2"
| "grade_rank GradeDelta = 3"

definition GRADE_RANK :: "(transcript_grade \<times> nat) list" where
  "GRADE_RANK = [(GradeOff, 0), (GradeTurn, 1), (GradeBlock, 2), (GradeDelta, 3)]"

type_synonym transcript_grade_spec = "(str, transcript_grade option) imap"

definition grade_for :: "transcript_grade_spec option \<Rightarrow> str \<Rightarrow> transcript_grade" where
  "grade_for spec agent_id =
     (case spec of
        None \<Rightarrow> GradeOff
      | Some m \<Rightarrow>
          (case Option.bind (imap_get m agent_id) (\<lambda>g. g) of
             Some g \<Rightarrow> g
           | None \<Rightarrow> (case Option.bind (imap_get m (lit ''*'')) (\<lambda>g. g) of Some g \<Rightarrow> g | None \<Rightarrow> GradeOff)))"

definition needs_reset_on_transition :: "transcript_grade \<Rightarrow> transcript_grade \<Rightarrow> bool" where
  "needs_reset_on_transition previous next_grade \<longleftrightarrow> grade_rank next_grade > grade_rank previous"

definition admits :: "transcript_grade \<Rightarrow> 'j transcript_operation \<Rightarrow> bool" where
  "admits grade op \<longleftrightarrow>
     (case op of
        Append _ _ _ \<Rightarrow> grade_rank grade \<ge> grade_rank GradeDelta
      | StepUpsert _ _ \<Rightarrow> grade_rank grade \<ge> grade_rank GradeBlock
      | FrameUpsert _ _ _ \<Rightarrow> grade_rank grade \<ge> grade_rank GradeBlock
      | _ \<Rightarrow> True)"

definition filter_ops_for_grade :: "transcript_grade \<Rightarrow> 'j transcript_operation list \<Rightarrow> 'j transcript_operation list" where
  "filter_ops_for_grade grade operations = (if grade = GradeOff then [] else filter (admits grade) operations)"

definition is_append_only :: "'j transcript_operation list \<Rightarrow> bool" where
  "is_append_only operations \<longleftrightarrow>
     operations \<noteq> [] \<and> list_all (\<lambda>op. case op of Append _ _ _ \<Rightarrow> True | _ \<Rightarrow> False) operations"

definition redact_item :: "'j transcript_item \<Rightarrow> 'j transcript_item" where
  "redact_item item = (case item of ItemTurn t \<Rightarrow> ItemTurn (t\<lparr> tt_steps := [] \<rparr>) | _ \<Rightarrow> item)"

definition redact_snapshot_for_grade ::
  "transcript_grade \<Rightarrow> 'j agent_transcript_snapshot \<Rightarrow> 'j agent_transcript_snapshot" where
  "redact_snapshot_for_grade grade snapshot =
     (if grade_rank grade \<ge> grade_rank GradeBlock then snapshot
      else snapshot\<lparr> as_items := map redact_item (as_items snapshot) \<rparr>)"

section \<open>Pages\<close>

record turn_page_query =
  pq_before_turn :: "string_id option"
  pq_after_turn :: "string_id option"
  pq_page_size :: u32

record 'j turn_page =
  tp_items :: "'j transcript_item list"
  tp_has_more :: bool

record 'j segment =
  sg_items :: "'j transcript_item list"
  sg_turn_id :: "string_id option"

datatype direction = Older | Newer

definition close_segment :: "'j transcript_item list \<Rightarrow> string_id option \<Rightarrow> 'j segment list" where
  "close_segment current current_turn =
     (if current = [] then [] else [\<lparr> sg_items = current, sg_turn_id = current_turn \<rparr>])"

fun split_loop ::
  "'j transcript_item list \<Rightarrow> 'j segment list \<Rightarrow> 'j transcript_item list \<Rightarrow> string_id option \<Rightarrow> 'j segment list" where
  "split_loop [] segments current current_turn = segments @ close_segment current current_turn"
| "split_loop (ItemTurn t # rest) segments current current_turn =
     split_loop rest (segments @ close_segment current current_turn) [ItemTurn t] (Some (tt_turn_id t))"
| "split_loop (item # rest) segments current current_turn =
     split_loop rest segments (current @ [item]) current_turn"

definition split_segments :: "'j transcript_item list \<Rightarrow> 'j segment list" where
  "split_segments items = split_loop items [] [] None"

definition extend_segment :: "'j transcript_item list \<Rightarrow> 'j segment \<Rightarrow> 'j transcript_item list" where
  "extend_segment items segment = items @ sg_items segment"

definition page :: "'j segment list \<Rightarrow> nat \<Rightarrow> direction \<Rightarrow> 'j turn_page" where
  "page segments page_size direction =
     (let head = (case segments of [] \<Rightarrow> None | s # _ \<Rightarrow> if sg_turn_id s = None then Some s else None);
          turn_segments = (if head \<noteq> None then tl segments else segments) in
      case direction of
        Older \<Rightarrow>
          (let selected = drop (length turn_segments - page_size) turn_segments;
               reaches_first_turn = (length selected = length turn_segments);
               has_more = (length turn_segments > length selected \<and> selected \<noteq> []);
               items = (case head of Some h \<Rightarrow> if reaches_first_turn then extend_segment [] h else [] | None \<Rightarrow> [])
           in \<lparr> tp_items = foldl extend_segment items selected, tp_has_more = has_more \<rparr>)
      | Newer \<Rightarrow>
          (let selected = take (min (length turn_segments) page_size) turn_segments;
               has_more = (length turn_segments > length selected \<and> selected \<noteq> [])
           in \<lparr> tp_items = foldl extend_segment [] selected, tp_has_more = has_more \<rparr>))"

definition paginate_turns :: "'j transcript_item list \<Rightarrow> turn_page_query \<Rightarrow> 'j turn_page" where
  "paginate_turns items query =
     (let page_size = unat (max (pq_page_size query) 1);
          segments = split_segments items in
      if segments = [] then \<lparr> tp_items = [], tp_has_more = False \<rparr>
      else (case pq_after_turn query of
        Some after_turn \<Rightarrow>
          page (filter (\<lambda>s. case sg_turn_id s of None \<Rightarrow> False | Some tid \<Rightarrow> compare_turn_ids tid after_turn = Greater) segments)
            page_size Newer
      | None \<Rightarrow>
          (case pq_before_turn query of
             Some before_turn \<Rightarrow>
               page (filter (\<lambda>s. case sg_turn_id s of None \<Rightarrow> True | Some tid \<Rightarrow> compare_turn_ids tid before_turn = Less) segments)
                 page_size Older
           | None \<Rightarrow> page segments page_size Older)))"


section \<open>Segments\<close>

definition turn_segment :: "'j segment \<Rightarrow> 'j transcript_turn \<Rightarrow> bool" where
  "turn_segment s t \<longleftrightarrow> sg_turn_id s = Some (tt_turn_id t)
     \<and> (\<exists>ms. sg_items s = ItemTurn t # ms \<and> turns_of ms = [])"

abbreviation seg_items :: "'j segment list \<Rightarrow> 'j transcript_item list" where
  "seg_items segs \<equiv> concat (map sg_items segs)"

lemma foldl_extend: "foldl extend_segment items segs = items @ seg_items segs"
  by (induction segs arbitrary: items) (simp_all add: extend_segment_def)

lemma split_loop_other:
  "\<not> is_turn item \<Longrightarrow> split_loop (item # rest) segs current ct = split_loop rest segs (current @ [item]) ct"
  by (cases item) auto

lemma is_turnE: "is_turn item \<Longrightarrow> (\<And>t. item = ItemTurn t \<Longrightarrow> thesis) \<Longrightarrow> thesis"
  by (cases item) auto

lemma split_loop_turn:
  assumes "turns_of ms = []"
  obtains tail where "split_loop items segs (ItemTurn t # ms) (Some (tt_turn_id t)) = segs @ tail"
    and "list_all2 turn_segment tail (t # turns_of items)" and "seg_items tail = ItemTurn t # ms @ items"
  using assms
proof (induction items arbitrary: segs t ms thesis)
  case Nil
  then show ?case by (intro Nil(1) [of "[\<lparr> sg_items = ItemTurn t # ms, sg_turn_id = Some (tt_turn_id t) \<rparr>]"])
    (auto simp: close_segment_def turn_segment_def)
next
  case (Cons item items)
  let ?seg = "\<lparr> sg_items = ItemTurn t # ms, sg_turn_id = Some (tt_turn_id t) \<rparr>"
  show ?case
  proof (cases "is_turn item")
    case True
    then obtain u where u: "item = ItemTurn u" by (rule is_turnE)
    obtain tail where tail: "split_loop items (segs @ [?seg]) (ItemTurn u # []) (Some (tt_turn_id u)) = (segs @ [?seg]) @ tail"
      "list_all2 turn_segment tail (u # turns_of items)" "seg_items tail = ItemTurn u # [] @ items"
      by (rule Cons.IH [where segs = "segs @ [?seg]" and t = u and ms = "[]"]) auto
    have "turn_segment ?seg t" using Cons.prems(2) by (simp add: turn_segment_def)
    then show ?thesis by (intro Cons.prems(1) [of "?seg # tail"]) (use tail u in \<open>auto simp: close_segment_def\<close>)
  next
    case False
    obtain tail where "split_loop items segs (ItemTurn t # (ms @ [item])) (Some (tt_turn_id t)) = segs @ tail"
      "list_all2 turn_segment tail (t # turns_of items)" "seg_items tail = ItemTurn t # (ms @ [item]) @ items"
      by (rule Cons.IH [where segs = segs and t = t and ms = "ms @ [item]"])
        (use False Cons.prems(2) in \<open>simp_all add: turns_of_non_turn\<close>)
    then show ?thesis using False
      by (intro Cons.prems(1) [of tail]) (simp_all add: split_loop_other turns_of_non_turn)
  qed
qed

lemma split_loop_head:
  assumes "turns_of ms = []"
  obtains heads tail where "split_loop items [] ms None = heads @ tail"
    and "heads = [] \<or> (\<exists>h. heads = [h] \<and> sg_turn_id h = None)"
    and "list_all2 turn_segment tail (turns_of items)" and "seg_items (heads @ tail) = ms @ items"
  using assms
proof (induction items arbitrary: ms thesis)
  case Nil
  then show ?case by (intro Nil(1) [of "close_segment ms None" "[]"]) (auto simp: close_segment_def)
next
  case (Cons item items)
  show ?case
  proof (cases "is_turn item")
    case True
    then obtain t where t: "item = ItemTurn t" by (rule is_turnE)
    obtain tail where tail: "split_loop items (close_segment ms None) (ItemTurn t # []) (Some (tt_turn_id t)) = close_segment ms None @ tail"
      "list_all2 turn_segment tail (t # turns_of items)" "seg_items tail = ItemTurn t # [] @ items"
      by (rule split_loop_turn [where segs = "close_segment ms None" and t = t and ms = "[]"]) auto
    show ?thesis
      by (rule Cons.prems(1) [of "close_segment ms None" tail]) (use tail t in \<open>auto simp: close_segment_def\<close>)
  next
    case False
    obtain heads tail where "split_loop items [] (ms @ [item]) None = heads @ tail"
      "heads = [] \<or> (\<exists>h. heads = [h] \<and> sg_turn_id h = None)"
      "list_all2 turn_segment tail (turns_of items)" "seg_items (heads @ tail) = (ms @ [item]) @ items"
      by (rule Cons.IH [where ms = "ms @ [item]"]) (use False Cons.prems(2) in \<open>simp_all add: turns_of_non_turn\<close>)
    then show ?thesis using False
      by (intro Cons.prems(1) [of heads tail]) (simp_all add: split_loop_other turns_of_non_turn)
  qed
qed


text \<open>
  The segments of a transcript: at most one head without a turn, then one segment for each turn that
  starts with it; together they are the items.
\<close>

lemma split_segments_ok:
  obtains heads tail where "split_segments items = heads @ tail"
    and "heads = [] \<or> (\<exists>h. heads = [h] \<and> sg_turn_id h = None)"
    and "list_all2 turn_segment tail (turns_of items)" and "seg_items (heads @ tail) = items"
proof -
  obtain heads tail where "split_loop items [] [] None = heads @ tail"
      "heads = [] \<or> (\<exists>h. heads = [h] \<and> sg_turn_id h = None)"
      "list_all2 turn_segment tail (turns_of items)" "seg_items (heads @ tail) = [] @ items"
    by (rule split_loop_head [of "[]" items]) simp_all
  then show thesis using that by (simp add: split_segments_def)
qed

lemma page_older:
  assumes "heads = [] \<or> (\<exists>h. heads = [h] \<and> sg_turn_id h = None)" and "\<forall>s\<in>set tail. sg_turn_id s \<noteq> None" and "0 < k"
  shows "page (heads @ tail) k Older =
    \<lparr> tp_items = seg_items ((if length tail \<le> k then heads else []) @ drop (length tail - k) tail), tp_has_more = (k < length tail) \<rparr>"
proof (cases "heads = []")
  case True
  then have "(case heads @ tail of [] \<Rightarrow> None | s # _ \<Rightarrow> if sg_turn_id s = None then Some s else None) = None"
    using assms(2) by (cases tail) auto
  then show ?thesis using True assms(3) by (auto simp: page_def Let_def foldl_extend)
next
  case False
  then obtain h where "heads = [h]" "sg_turn_id h = None" using assms(1) by blast
  then show ?thesis using assms(3) by (auto simp: page_def Let_def foldl_extend extend_segment_def)
qed

lemma page_newer:
  assumes "\<forall>s\<in>set tail. sg_turn_id s \<noteq> None" and "0 < k"
  shows "page tail k Newer = \<lparr> tp_items = seg_items (take k tail), tp_has_more = (k < length tail) \<rparr>"
proof -
  have "(case tail of [] \<Rightarrow> None | s # _ \<Rightarrow> if sg_turn_id s = None then Some s else None) = None"
    using assms(1) by (cases tail) auto
  then show ?thesis using assms(2) by (auto simp: page_def Let_def foldl_extend min_def)
qed

section \<open>Paging through a transcript\<close>

text \<open>
  A client that reads backwards: it asks for the newest page, then for the page before the first turn
  of the page it got, as long as there is more. The pages come in the order of the transcript.
\<close>

fun first_turn :: "'j transcript_item list \<Rightarrow> string_id option" where
  "first_turn [] = None"
| "first_turn (ItemTurn t # _) = Some (tt_turn_id t)"
| "first_turn (_ # rest) = first_turn rest"

fun read_backwards ::
  "nat \<Rightarrow> 'j transcript_item list \<Rightarrow> u32 \<Rightarrow> string_id option \<Rightarrow> 'j transcript_item list list option" where
  "read_backwards 0 items page_size cursor = None"
| "read_backwards (Suc fuel) items page_size cursor =
     (let p = paginate_turns items \<lparr> pq_before_turn = cursor, pq_after_turn = None, pq_page_size = page_size \<rparr> in
      if \<not> tp_has_more p then Some [tp_items p]
      else (case first_turn (tp_items p) of
              None \<Rightarrow> None
            | Some tid \<Rightarrow> map_option (\<lambda>pages. pages @ [tp_items p]) (read_backwards fuel items page_size (Some tid))))"

definition ids_ascending :: "'j transcript_item list \<Rightarrow> bool" where
  "ids_ascending items \<longleftrightarrow> sorted_wrt (\<lambda>a b. turn_ordinal a < turn_ordinal b) (map tt_turn_id (turns_of items))"

lemma turn_segment_ids:
  "list_all2 turn_segment tail ts \<Longrightarrow> map sg_turn_id tail = map Some (map tt_turn_id ts)"
  by (induction rule: list_all2_induct) (auto simp: turn_segment_def)

lemma turn_segments_some: "list_all2 turn_segment tail ts \<Longrightarrow> \<forall>s\<in>set tail. sg_turn_id s \<noteq> None"
  by (induction rule: list_all2_induct) (auto simp: turn_segment_def)

lemma filter_before:
  assumes "list_all2 turn_segment tail ts" and "sorted_wrt (\<lambda>a b. turn_ordinal a < turn_ordinal b) (map tt_turn_id ts)" and "n < length ts"
  shows "filter (\<lambda>s. case sg_turn_id s of None \<Rightarrow> True | Some tid \<Rightarrow> compare_turn_ids tid (tt_turn_id (ts ! n)) = Less) tail = take n tail"
proof -
  have len: "length tail = length ts" using assms(1) list_all2_lengthD by blast
  have ids: "sg_turn_id (tail ! i) = Some (tt_turn_id (ts ! i))" if "i < length ts" for i
    using arg_cong [OF turn_segment_ids [OF assms(1)], of "\<lambda>xs. xs ! i"] that len by simp
  have lt: "compare_turn_ids (tt_turn_id (ts ! i)) (tt_turn_id (ts ! n)) = Less \<longleftrightarrow> i < n" if "i < length ts" for i
    using sorted_wrt_nth_less [OF assms(2), of i n] sorted_wrt_nth_less [OF assms(2), of n i] that assms(3)
    by (cases i n rule: linorder_cases) (auto simp: compare_turn_ids_def cmp_def)
  let ?P = "\<lambda>s. case sg_turn_id s of None \<Rightarrow> True | Some tid \<Rightarrow> compare_turn_ids tid (tt_turn_id (ts ! n)) = Less"
  have P: "?P (tail ! i) \<longleftrightarrow> i < n" if "i < length tail" for i using ids lt that len by simp
  have "filter ?P (take n tail) = take n tail" using P by (auto simp: filter_id_conv in_set_conv_nth)
  moreover have "filter ?P (drop n tail) = []" using P by (auto simp: filter_empty_conv in_set_conv_nth)
  ultimately have "filter ?P (take n tail @ drop n tail) = take n tail" by (simp del: append_take_drop_id)
  then show ?thesis by simp
qed


lemma turns_of_segments: "list_all2 turn_segment segs ts \<Longrightarrow> turns_of (seg_items segs) = ts"
  by (induction rule: list_all2_induct) (auto simp: turn_segment_def)

text \<open>The page before the \<open>n\<close>-th turn, or the newest page for \<open>n\<close> the number of turns.\<close>

definition cursor_at :: "'j transcript_turn list \<Rightarrow> nat \<Rightarrow> string_id option \<Rightarrow> bool" where
  "cursor_at ts n cursor \<longleftrightarrow> n = length ts \<and> cursor = None \<or> n < length ts \<and> cursor = Some (tt_turn_id (ts ! n))"

lemma paginate_before:
  assumes "split_segments items = heads @ tail" and heads: "heads = [] \<or> (\<exists>h. heads = [h] \<and> sg_turn_id h = None)"
    and tail: "list_all2 turn_segment tail (turns_of items)" and "ids_ascending items"
    and "cursor_at (turns_of items) n cursor" and "k = unat (max page_size 1)"
  shows "paginate_turns items \<lparr> pq_before_turn = cursor, pq_after_turn = None, pq_page_size = page_size \<rparr> =
    \<lparr> tp_items = seg_items ((if n \<le> k then heads else []) @ drop (n - k) (take n tail)), tp_has_more = (k < n) \<rparr>"
proof -
  have len: "length tail = length (turns_of items)" using tail list_all2_lengthD by blast
  then have n: "length (take n tail) = n" using assms(5) by (auto simp: cursor_at_def)
  have "(1 :: u32) \<le> max page_size 1" by simp
  then have k: "0 < k" using assms(6) by (simp only: word_le_nat_alt unat_1)
  have "\<forall>s\<in>set tail. sg_turn_id s \<noteq> None" by (rule turn_segments_some [OF tail])
  then have some: "\<forall>s\<in>set (take n tail). sg_turn_id s \<noteq> None" using set_take_subset [of n tail] by blast
  note pg = page_older [OF heads some k]
  show ?thesis
  proof (cases cursor)
    case None
    then have "take n tail = tail" using assms(5) len by (auto simp: cursor_at_def)
    then show ?thesis using pg n None assms(1,6) by (auto simp: paginate_turns_def Let_def)
  next
    case (Some c)
    then have c: "n < length (turns_of items)" "c = tt_turn_id (turns_of items ! n)" using assms(5) by (auto simp: cursor_at_def)
    let ?P = "\<lambda>s. case sg_turn_id s of None \<Rightarrow> True | Some tid \<Rightarrow> compare_turn_ids tid c = Less"
    have "filter ?P tail = take n tail" unfolding c(2) by (rule filter_before [OF tail _ c(1)]) (use assms(4) in \<open>simp add: ids_ascending_def\<close>)
    moreover have "filter ?P heads = heads" using heads by auto
    moreover have "heads @ tail \<noteq> []" using c(1) len by auto
    ultimately have "paginate_turns items \<lparr> pq_before_turn = cursor, pq_after_turn = None, pq_page_size = page_size \<rparr>
        = page (heads @ take n tail) k Older"
      using Some assms(1,6) by (auto simp: paginate_turns_def Let_def)
    then show ?thesis unfolding pg n .
  qed
qed


lemma read_backwards_from:
  assumes split: "split_segments items = heads @ tail" and heads: "heads = [] \<or> (\<exists>h. heads = [h] \<and> sg_turn_id h = None)"
    and tail: "list_all2 turn_segment tail (turns_of items)" and asc: "ids_ascending items" and hd: "turns_of (seg_items heads) = []"
    and k: "k = unat (max page_size 1)"
  shows "cursor_at (turns_of items) n cursor \<Longrightarrow> n < fuel \<Longrightarrow>
    \<exists>pages. read_backwards fuel items page_size cursor = Some pages \<and> concat pages = seg_items (heads @ take n tail)
      \<and> list_all (\<lambda>p. length (turns_of p) \<le> k) pages"
proof (induction n arbitrary: cursor fuel rule: less_induct)
  case (less n)
  obtain f where f: "fuel = Suc f" using less.prems(2) by (cases fuel) auto
  note pg = paginate_before [OF split heads tail asc less.prems(1) k]
  have n: "n \<le> length tail" using less.prems(1) list_all2_lengthD [OF tail] by (auto simp: cursor_at_def)
  have seg: "list_all2 turn_segment (drop (n - k) (take n tail)) (drop (n - k) (take n (turns_of items)))"
    by (intro list_all2_dropI list_all2_takeI tail)
  have cnt: "length (turns_of (seg_items (drop (n - k) (take n tail)))) \<le> k"
    using turns_of_segments [OF seg] by simp
  show ?case
  proof (cases "k < n")
    case False
    then show ?thesis using pg f cnt hd by (simp add: Let_def)
  next
    case True
    have "(1 :: u32) \<le> max page_size 1" by simp
    then have k0: "0 < k" using k by (simp only: word_le_nat_alt unat_1)
    let ?m = "n - k"
    have m: "?m < length tail" "?m < length (turns_of items)" "?m < n" using True n k0 list_all2_lengthD [OF tail] by auto
    have d: "drop ?m (take n tail) = tail ! ?m # drop (Suc ?m) (take n tail)"
      using m n by (simp add: Cons_nth_drop_Suc [symmetric])
    have "turn_segment (tail ! ?m) (turns_of items ! ?m)" using tail m(1) by (rule list_all2_nthD)
    then have first: "first_turn (seg_items (drop ?m (take n tail))) = Some (tt_turn_id (turns_of items ! ?m))"
      unfolding d by (auto simp: turn_segment_def)
    obtain pages where p: "read_backwards f items page_size (Some (tt_turn_id (turns_of items ! ?m))) = Some pages"
      "concat pages = seg_items (heads @ take ?m tail)" "list_all (\<lambda>p. length (turns_of p) \<le> k) pages"
      using less.IH [of ?m "Some (tt_turn_id (turns_of items ! ?m))" f] m less.prems(2) f by (auto simp: cursor_at_def)
    have "take n tail = take ?m tail @ drop ?m (take n tail)"
      by (metis append_take_drop_id diff_le_self min.absorb1 take_take)
    then have "seg_items (take n tail) = seg_items (take ?m tail) @ seg_items (drop ?m (take n tail))"
      by (metis concat_append map_append)
    then show ?thesis using True p pg f first cnt by simp
  qed
qed

text \<open>
  C21. Paging backwards reads a transcript completely and without repetition. Of a transcript whose turn
  ids ascend, a client that asks for the newest page and then for the page before the first turn of the
  page it has, until there is no more, ends after at most one request per turn and one more; the pages
  put together are exactly the items, with the markers that stand before the first turn, and no page
  has more turns than asked for, one at least.
\<close>

theorem read_backwards_covers:
  assumes "ids_ascending items"
  shows "\<exists>pages. read_backwards (Suc (length (turns_of items))) items page_size None = Some pages
    \<and> concat pages = items \<and> list_all (\<lambda>p. length (turns_of p) \<le> unat (max page_size 1)) pages"
proof -
  obtain heads tail where s: "split_segments items = heads @ tail" "heads = [] \<or> (\<exists>h. heads = [h] \<and> sg_turn_id h = None)"
    "list_all2 turn_segment tail (turns_of items)" "seg_items (heads @ tail) = items" by (rule split_segments_ok)
  have "turns_of (seg_items heads) @ turns_of (seg_items tail) = turns_of items"
    using s(4) by (metis concat_append map_append turns_of_append)
  then have hd: "turns_of (seg_items heads) = []" using turns_of_segments [OF s(3)] by simp
  have "cursor_at (turns_of items) (length (turns_of items)) None" by (simp add: cursor_at_def)
  from read_backwards_from [OF s(1-3) assms hd refl this] s(4) list_all2_lengthD [OF s(3)]
  show ?thesis by fastforce
qed

definition example_items :: "nat transcript_item list" where
  "example_items = [ItemMarker \<lparr> mk_marker_id = lit ''m'', mk_marker = lit ''goal'', mk_payload = None, mk_at = None \<rparr>,
     ItemTurn (skeleton_turn (lit ''t1'')), ItemTurn (skeleton_turn (lit ''t2'')), ItemTurn (skeleton_turn (lit ''t10''))]"

theorem read_backwards_covers_witness:
  "\<exists>pages. read_backwards 4 example_items 2 None = Some pages \<and> concat pages = example_items"
proof -
  have "map turn_ordinal (map tt_turn_id (turns_of example_items)) = [1, 2, 10]"
    by (simp add: example_items_def skeleton_turn_def lit_def trim_def is_space_def parse_i64_def is_i64_def)
  then have "ids_ascending example_items" by (auto simp: ids_ascending_def example_items_def)
  from read_backwards_covers [OF this, of 2] show ?thesis by (auto simp: example_items_def numeral_eq_Suc)
qed

end
