(* ===== verification/ToolScheduler.thy ===== *)
theory ToolScheduler
  imports Prelude "HOL-Library.Multiset"
begin

text \<open>
  The tool calls of one step: what resources a call declares (\<open>tool/tool_contract.rs\<close>), when two calls
  conflict, and the scheduler that starts calls as early as their conflicts allow
  (\<open>agent/tool_executor/tool_scheduler.rs\<close>). A running call is its number in the set of spawned tasks;
  which of them ends next, and whether it panics, is an argument of \<open>next_task\<close>. Unicode lower case is
  the parameter \<open>lower\<close>.
\<close>

section \<open>Accesses\<close>

datatype tool_file_access_operation = OpRead | OpWrite | OpReadWrite | OpSearch

record tool_file_access =
  fa_operation :: tool_file_access_operation
  fa_path :: str
  fa_recursive :: bool

datatype tool_resource_access = AccessFile tool_file_access | AccessAll

type_synonym tool_accesses = "tool_resource_access list"

definition access_none :: tool_accesses where
  "access_none = []"

definition access_all :: tool_accesses where
  "access_all = [AccessAll]"

definition access_file :: "tool_file_access_operation \<Rightarrow> str \<Rightarrow> bool \<Rightarrow> tool_accesses" where
  "access_file operation path recursive =
     [AccessFile \<lparr> fa_operation = operation, fa_path = path, fa_recursive = recursive \<rparr>]"

definition read_file :: "str \<Rightarrow> tool_accesses" where "read_file path = access_file OpRead path False"
definition read_tree :: "str \<Rightarrow> tool_accesses" where "read_tree path = access_file OpRead path True"
definition write_file :: "str \<Rightarrow> tool_accesses" where "write_file path = access_file OpWrite path False"
definition write_tree :: "str \<Rightarrow> tool_accesses" where "write_tree path = access_file OpWrite path True"
definition read_write_file :: "str \<Rightarrow> tool_accesses" where "read_write_file path = access_file OpReadWrite path False"
definition read_write_tree :: "str \<Rightarrow> tool_accesses" where "read_write_tree path = access_file OpReadWrite path True"
definition search_tree :: "str \<Rightarrow> tool_accesses" where "search_tree path = access_file OpSearch path True"

definition operation_writes :: "tool_file_access_operation \<Rightarrow> bool" where
  "operation_writes operation \<longleftrightarrow> operation = OpWrite \<or> operation = OpReadWrite"

fun normalize_loop :: "(nat \<Rightarrow> str) \<Rightarrow> str \<Rightarrow> str \<Rightarrow> bool \<Rightarrow> str" where
  "normalize_loop lower [] normalized previous_slash = normalized"
| "normalize_loop lower (c # cs) normalized previous_slash =
     (let c = (if c = 92 then 47 else c) in
      if c = 47 then
        (if previous_slash then normalize_loop lower cs normalized previous_slash
         else normalize_loop lower cs (normalized @ lower c) True)
      else normalize_loop lower cs (normalized @ lower c) False)"

definition normalize_path :: "(nat \<Rightarrow> str) \<Rightarrow> str \<Rightarrow> str" where
  "normalize_path lower path =
     (let normalized = normalize_loop lower path [] False in
      if length normalized > 1 \<and> last normalized = 47 then butlast normalized else normalized)"

definition path_is_within :: "str \<Rightarrow> str \<Rightarrow> bool" where
  "path_is_within path parent \<longleftrightarrow>
     take (length parent) path = parent \<and> take 1 (drop (length parent) path) = [47]"

definition file_accesses_overlap :: "(nat \<Rightarrow> str) \<Rightarrow> tool_file_access \<Rightarrow> tool_file_access \<Rightarrow> bool" where
  "file_accesses_overlap lower left right \<longleftrightarrow>
     (let left_path = normalize_path lower (fa_path left); right_path = normalize_path lower (fa_path right) in
      left_path = right_path
      \<or> fa_recursive left \<and> path_is_within right_path left_path
      \<or> fa_recursive right \<and> path_is_within left_path right_path)"

fun resource_accesses_conflict :: "(nat \<Rightarrow> str) \<Rightarrow> tool_resource_access \<Rightarrow> tool_resource_access \<Rightarrow> bool" where
  "resource_accesses_conflict lower AccessAll _ \<longleftrightarrow> True"
| "resource_accesses_conflict lower _ AccessAll \<longleftrightarrow> True"
| "resource_accesses_conflict lower (AccessFile left) (AccessFile right) \<longleftrightarrow>
     (if \<not> operation_writes (fa_operation left) \<and> \<not> operation_writes (fa_operation right) then False
      else file_accesses_overlap lower left right)"

definition conflict :: "(nat \<Rightarrow> str) \<Rightarrow> tool_accesses \<Rightarrow> tool_accesses \<Rightarrow> bool" where
  "conflict lower left right \<longleftrightarrow> list_ex (\<lambda>l. list_ex (resource_accesses_conflict lower l) right) left"

section \<open>The scheduler\<close>

record scheduled_task =
  sk_id :: nat
  sk_accesses :: tool_accesses

record scheduler =
  sc_next_id :: nat
  sc_active :: "scheduled_task list"
  sc_queued :: "scheduled_task list"
  sc_running :: "nat list"

definition scheduler_new :: scheduler where
  "scheduler_new = \<lparr> sc_next_id = 1, sc_active = [], sc_queued = [], sc_running = [] \<rparr>"

text \<open>\<open>JoinSet::spawn\<close>.\<close>

definition start_task :: "scheduled_task \<Rightarrow> scheduler \<Rightarrow> scheduler" where
  "start_task t s = s\<lparr> sc_running := sc_running s @ [sk_id t] \<rparr>"

definition is_blocked :: "(nat \<Rightarrow> str) \<Rightarrow> scheduled_task \<Rightarrow> scheduled_task list \<Rightarrow> scheduled_task list \<Rightarrow> bool" where
  "is_blocked lower t active queued \<longleftrightarrow>
     list_ex (\<lambda>c. conflict lower (sk_accesses t) (sk_accesses c)) active
     \<or> list_ex (\<lambda>c. conflict lower (sk_accesses t) (sk_accesses c)) queued"

definition add_task :: "(nat \<Rightarrow> str) \<Rightarrow> tool_accesses \<Rightarrow> scheduler \<Rightarrow> scheduler" where
  "add_task lower accesses s =
     (let t = \<lparr> sk_id = sc_next_id s, sk_accesses = accesses \<rparr>;
          s = s\<lparr> sc_next_id := sc_next_id s + 1 \<rparr> in
      if is_blocked lower t (sc_active s) (sc_queued s) then s\<lparr> sc_queued := sc_queued s @ [t] \<rparr>
      else start_task t (s\<lparr> sc_active := sc_active s @ [t] \<rparr>))"

definition has_pending :: "scheduler \<Rightarrow> bool" where
  "has_pending s \<longleftrightarrow> sc_running s \<noteq> [] \<or> sc_queued s \<noteq> []"

fun take_ready_loop ::
  "(nat \<Rightarrow> str) \<Rightarrow> scheduled_task list \<Rightarrow> scheduled_task list \<Rightarrow> scheduled_task list \<Rightarrow> scheduled_task list
   \<Rightarrow> scheduled_task list \<times> scheduled_task list \<times> scheduled_task list" where
  "take_ready_loop lower [] active still_queued ready = (ready, active, still_queued)"
| "take_ready_loop lower (t # queue) active still_queued ready =
     (if is_blocked lower t active still_queued
      then take_ready_loop lower queue active (still_queued @ [t]) ready
      else take_ready_loop lower queue (active @ [t]) still_queued (ready @ [t]))"

definition take_ready_tasks :: "(nat \<Rightarrow> str) \<Rightarrow> scheduler \<Rightarrow> scheduled_task list \<times> scheduler" where
  "take_ready_tasks lower s =
     (let (ready, active, queued) = take_ready_loop lower (sc_queued s) (sc_active s) [] []
      in (ready, s\<lparr> sc_active := active, sc_queued := queued \<rparr>))"

fun remove_first :: "nat \<Rightarrow> scheduled_task list \<Rightarrow> scheduled_task list" where
  "remove_first tid [] = []"
| "remove_first tid (t # ts) = (if sk_id t = tid then ts else t # remove_first tid ts)"

definition finish_task :: "(nat \<Rightarrow> str) \<Rightarrow> nat \<Rightarrow> scheduler \<Rightarrow> scheduled_task list \<times> scheduler" where
  "finish_task lower tid s = take_ready_tasks lower (s\<lparr> sc_active := remove_first tid (sc_active s) \<rparr>)"

text \<open>What \<open>join_next\<close> yields for a task of the set: its result, or that it panicked or was cancelled.\<close>

datatype 'r joined = JoinOk nat 'r | JoinError nat

definition next_task :: "(nat \<Rightarrow> str) \<Rightarrow> 'r joined \<Rightarrow> scheduler \<Rightarrow> 'r option \<times> scheduler" where
  "next_task lower j s =
     (case j of
        JoinOk tid result \<Rightarrow>
          (let (ready, s) = finish_task lower tid (s\<lparr> sc_running := remove1 tid (sc_running s) \<rparr>)
           in (Some result, fold start_task ready s))
      | JoinError tid \<Rightarrow> (None, s\<lparr> sc_running := [], sc_active := [], sc_queued := [] \<rparr>))"

text \<open>
  The runs of a scheduler: calls are added, and a running task ends one way or the other.
\<close>

inductive sched_step :: "(nat \<Rightarrow> str) \<Rightarrow> scheduler \<Rightarrow> scheduler \<Rightarrow> bool" for lower where
  step_add: "sched_step lower s (add_task lower accesses s)"
| step_done: "tid \<in> set (sc_running s) \<Longrightarrow> sched_step lower s (snd (next_task lower (JoinOk tid ()) s))"
| step_panic: "tid \<in> set (sc_running s) \<Longrightarrow> sched_step lower s (snd (next_task lower (JoinError tid :: unit joined) s))"

definition sched_reachable :: "(nat \<Rightarrow> str) \<Rightarrow> scheduler \<Rightarrow> bool" where
  "sched_reachable lower s \<longleftrightarrow> (sched_step lower)\<^sup>*\<^sup>* scheduler_new s"

inductive_cases sched_stepE: "sched_step lower s s'"


section \<open>When two accesses conflict\<close>

lemma overlap_sym: "file_accesses_overlap lower l r = file_accesses_overlap lower r l"
  by (auto simp: file_accesses_overlap_def Let_def)

lemma resource_conflict_sym: "resource_accesses_conflict lower l r = resource_accesses_conflict lower r l"
  by (cases l; cases r) (auto simp: overlap_sym)

lemma conflict_sym: "conflict lower l r = conflict lower r l"
  using resource_conflict_sym [of lower] by (auto simp: conflict_def list_ex_iff)

text \<open>
  The files an access stands for, over normalized paths: the path itself and, for a recursive access,
  everything below it; below the root is every absolute path.
\<close>

definition below :: "str \<Rightarrow> str \<Rightarrow> bool" where
  "below path parent \<longleftrightarrow> (if parent = [47] then path \<noteq> [47] \<and> take 1 path = [47] else \<exists>rest. path = parent @ 47 # rest)"

definition covers :: "(nat \<Rightarrow> str) \<Rightarrow> tool_file_access \<Rightarrow> str \<Rightarrow> bool" where
  "covers lower a path \<longleftrightarrow> path = normalize_path lower (fa_path a)
     \<or> fa_recursive a \<and> below path (normalize_path lower (fa_path a))"

lemma path_is_within_iff: "path_is_within path parent \<longleftrightarrow> (\<exists>rest. path = parent @ 47 # rest)"
proof
  assume w: "path_is_within path parent"
  then have "path = parent @ drop (length parent) path" unfolding path_is_within_def by (metis append_take_drop_id)
  moreover obtain rest where "drop (length parent) path = 47 # rest"
    using w by (cases "drop (length parent) path") (auto simp: path_is_within_def)
  ultimately show "\<exists>rest. path = parent @ 47 # rest" by metis
qed (auto simp: path_is_within_def)

lemma below_both:
  assumes "p = a @ 47 # x" and "p = b @ 47 # y" and "a \<noteq> b"
  shows "path_is_within a b \<or> path_is_within b a"
proof -
  from assms(1,2) obtain us where "a = b @ us \<and> us @ 47 # x = 47 # y \<or> a @ us = b \<and> 47 # x = us @ 47 # y"
    using append_eq_append_conv2 [of a "47 # x" b "47 # y"] by auto
  then show ?thesis
    using assms(3) unfolding path_is_within_iff by (cases us) auto
qed

text \<open>
  Two file accesses overlap exactly when there is a file both stand for. The recursive access to the
  root is left out: for it the code compares the wrong prefix.
\<close>

lemma overlap_iff_common_file:
  assumes "fa_recursive l \<Longrightarrow> normalize_path lower (fa_path l) \<noteq> [47]"
    and "fa_recursive r \<Longrightarrow> normalize_path lower (fa_path r) \<noteq> [47]"
  shows "file_accesses_overlap lower l r \<longleftrightarrow> (\<exists>path. covers lower l path \<and> covers lower r path)"
proof -
  let ?l = "normalize_path lower (fa_path l)" and ?r = "normalize_path lower (fa_path r)"
  have l: "covers lower l path \<longleftrightarrow> path = ?l \<or> fa_recursive l \<and> path_is_within path ?l" for path
    using assms(1) by (auto simp: covers_def below_def path_is_within_iff)
  have r: "covers lower r path \<longleftrightarrow> path = ?r \<or> fa_recursive r \<and> path_is_within path ?r" for path
    using assms(2) by (auto simp: covers_def below_def path_is_within_iff)
  have both: "?l = ?r \<or> path_is_within ?l ?r \<or> path_is_within ?r ?l" if "path_is_within path ?l" "path_is_within path ?r" for path
    using that below_both [of path ?l _ ?r] unfolding path_is_within_iff by metis
  have down: "path_is_within a c" if "path_is_within a b" "path_is_within b c" for a b c
    using that unfolding path_is_within_iff by fastforce
  show ?thesis
  proof
    assume "file_accesses_overlap lower l r"
    then show "\<exists>path. covers lower l path \<and> covers lower r path"
      unfolding file_accesses_overlap_def Let_def l r by blast
  next
    assume "\<exists>path. covers lower l path \<and> covers lower r path"
    then obtain path where "covers lower l path" "covers lower r path" by blast
    then show "file_accesses_overlap lower l r"
      unfolding file_accesses_overlap_def Let_def l r using both [of path] down by blast
  qed
qed

section \<open>The invariant of the scheduler\<close>

abbreviation clash :: "(nat \<Rightarrow> str) \<Rightarrow> scheduled_task \<Rightarrow> scheduled_task \<Rightarrow> bool" where
  "clash lower a b \<equiv> conflict lower (sk_accesses a) (sk_accesses b)"

definition plan_ok :: "(nat \<Rightarrow> str) \<Rightarrow> scheduled_task list \<Rightarrow> scheduled_task list \<Rightarrow> bool" where
  "plan_ok lower active queued \<longleftrightarrow>
     distinct (map sk_id (active @ queued)) \<and> sorted_wrt (<) (map sk_id queued)
     \<and> (\<forall>a\<in>set active. \<forall>b\<in>set active. sk_id a \<noteq> sk_id b \<longrightarrow> \<not> clash lower a b)
     \<and> (\<forall>a\<in>set active. \<forall>q\<in>set queued. sk_id q < sk_id a \<longrightarrow> \<not> clash lower a q)"

fun all_wait :: "(nat \<Rightarrow> str) \<Rightarrow> scheduled_task list \<Rightarrow> scheduled_task list \<Rightarrow> scheduled_task list \<Rightarrow> bool" where
  "all_wait lower active before [] \<longleftrightarrow> True"
| "all_wait lower active before (t # ts) \<longleftrightarrow>
     is_blocked lower t active before \<and> all_wait lower active (before @ [t]) ts"

definition sched_inv :: "(nat \<Rightarrow> str) \<Rightarrow> scheduler \<Rightarrow> bool" where
  "sched_inv lower s \<longleftrightarrow> plan_ok lower (sc_active s) (sc_queued s) \<and> all_wait lower (sc_active s) [] (sc_queued s)
     \<and> (\<forall>t\<in>set (sc_active s @ sc_queued s). sk_id t < sc_next_id s)
     \<and> distinct (sc_running s) \<and> set (sc_running s) = sk_id ` set (sc_active s)"

lemma is_blocked_mono: "is_blocked lower t active before \<Longrightarrow> is_blocked lower t (active @ extra) before"
  by (auto simp: is_blocked_def)

lemma all_wait_mono: "all_wait lower active before ts \<Longrightarrow> all_wait lower (active @ extra) before ts"
  by (induction ts arbitrary: before) (auto simp: is_blocked_mono)

lemma all_wait_snoc:
  "all_wait lower active before (ts @ [t]) \<longleftrightarrow> all_wait lower active before ts \<and> is_blocked lower t active (before @ ts)"
  by (induction ts arbitrary: before) auto

lemma take_ready_loop_ok:
  assumes "plan_ok lower active (still @ queue)" and "all_wait lower active [] still"
    and "take_ready_loop lower queue active still ready = (ready', active', queued')"
  shows "\<exists>extra. ready' = ready @ extra \<and> active' = active @ extra \<and> plan_ok lower active' queued' \<and> all_wait lower active' [] queued'
    \<and> mset (active' @ queued') = mset (active @ still @ queue)"
  using assms
proof (induction queue arbitrary: active still ready)
  case Nil
  then show ?case by auto
next
  case (Cons t queue)
  show ?case
  proof (cases "is_blocked lower t active still")
    case True
    then have "all_wait lower active [] (still @ [t])" using Cons.prems(2) by (simp add: all_wait_snoc)
    then show ?thesis using Cons.IH [of active "still @ [t]" ready] Cons.prems True by auto
  next
    case False
    have free: "\<not> clash lower t a" "\<not> clash lower a t" if "a \<in> set active \<or> a \<in> set still" for a
      using False that conflict_sym by (auto simp: is_blocked_def list_ex_iff)
    have late: "sk_id t < sk_id q" if "q \<in> set queue" for q
      using Cons.prems(1) that by (auto simp: plan_ok_def sorted_wrt_append)
    have "plan_ok lower (active @ [t]) (still @ queue)"
      using Cons.prems(1) free late unfolding plan_ok_def by (auto simp: sorted_wrt_append) (meson less_asym)+
    moreover have "all_wait lower (active @ [t]) [] still" using Cons.prems(2) by (rule all_wait_mono)
    ultimately show ?thesis using Cons.IH [of "active @ [t]" still "ready @ [t]"] Cons.prems(3) False by fastforce
  qed
qed


lemma remove_first_filter: "distinct (map sk_id ts) \<Longrightarrow> remove_first tid ts = filter (\<lambda>t. sk_id t \<noteq> tid) ts"
proof (induction ts)
  case (Cons t ts)
  have "filter (\<lambda>u. sk_id u \<noteq> sk_id t) ts = ts" using Cons.prems by (intro filter_True) (auto simp: image_iff)
  then show ?case using Cons by (cases "sk_id t = tid") auto
qed simp

lemma fold_start: "fold start_task ready s = s\<lparr> sc_running := sc_running s @ map sk_id ready \<rparr>"
  by (induction ready arbitrary: s) (auto simp: start_task_def)

lemma plan_ok_filter: "plan_ok lower active queued \<Longrightarrow> plan_ok lower (filter P active) queued"
  by (auto simp: plan_ok_def distinct_map_filter)

lemma plan_ok_enqueue:
  assumes "plan_ok lower active queued" and "\<And>t. t \<in> set active \<or> t \<in> set queued \<Longrightarrow> sk_id t < sk_id u"
  shows "plan_ok lower active (queued @ [u])"
proof -
  have u: "sk_id u \<notin> sk_id ` set active" "sk_id u \<notin> sk_id ` set queued" using assms(2) by fastforce+
  have "\<not> sk_id u < sk_id a" if "a \<in> set active" for a using assms(2) [of a] that by simp
  moreover have "sorted_wrt (<) (map sk_id (queued @ [u]))" using assms by (auto simp: plan_ok_def sorted_wrt_append)
  ultimately show ?thesis using assms(1) u unfolding plan_ok_def by auto
qed

lemma inv_add:
  assumes "sched_inv lower s"
  shows "sched_inv lower (add_task lower accesses s)"
proof -
  let ?t = "\<lparr> sk_id = sc_next_id s, sk_accesses = accesses \<rparr>"
  note inv = assms [unfolded sched_inv_def]
  have new: "sk_id t < sk_id ?t" if "t \<in> set (sc_active s) \<or> t \<in> set (sc_queued s)" for t using inv that by auto
  show ?thesis
  proof (cases "is_blocked lower ?t (sc_active s) (sc_queued s)")
    case True
    have "plan_ok lower (sc_active s) (sc_queued s @ [?t])" using inv new by (intro plan_ok_enqueue) auto
    then show ?thesis using True inv
      by (auto simp: add_task_def sched_inv_def all_wait_snoc less_SucI)
  next
    case False
    have free: "\<not> clash lower ?t a \<and> \<not> clash lower a ?t" if "a \<in> set (sc_active s) \<or> a \<in> set (sc_queued s)" for a
      using False that conflict_sym by (auto simp: is_blocked_def list_ex_iff)
    have "plan_ok lower (sc_active s @ [?t]) (sc_queued s)"
      using inv new free unfolding plan_ok_def by (auto dest: less_not_refl2)
    moreover have "sc_next_id s \<notin> set (sc_running s)" using inv new by fastforce
    ultimately show ?thesis using False inv
      by (auto simp: add_task_def sched_inv_def start_task_def all_wait_mono less_SucI)
  qed
qed

lemma finish_ok:
  assumes "sched_inv lower s" and "tid \<in> set (sc_running s)"
  obtains extra queued where
    "snd (next_task lower (JoinOk tid r) s) = s\<lparr> sc_active := filter (\<lambda>t. sk_id t \<noteq> tid) (sc_active s) @ extra, sc_queued := queued,
       sc_running := remove1 tid (sc_running s) @ map sk_id extra \<rparr>"
    and "plan_ok lower (filter (\<lambda>t. sk_id t \<noteq> tid) (sc_active s) @ extra) queued"
    and "all_wait lower (filter (\<lambda>t. sk_id t \<noteq> tid) (sc_active s) @ extra) [] queued"
    and "mset (extra @ queued) = mset (sc_queued s)"
proof -
  let ?active = "filter (\<lambda>t. sk_id t \<noteq> tid) (sc_active s)"
  note inv = assms(1) [unfolded sched_inv_def]
  have rf: "remove_first tid (sc_active s) = ?active" using inv by (intro remove_first_filter) (simp add: plan_ok_def)
  have plan: "plan_ok lower ?active ([] @ sc_queued s)" using inv plan_ok_filter by auto
  obtain ready active queued where l: "take_ready_loop lower (sc_queued s) ?active [] [] = (ready, active, queued)"
    by (cases "take_ready_loop lower (sc_queued s) ?active [] []") auto
  from take_ready_loop_ok [OF plan _ l] obtain extra where e: "ready = extra" "active = ?active @ extra"
    "plan_ok lower active queued" "all_wait lower active [] queued" "mset (active @ queued) = mset (?active @ sc_queued s)" by auto
  have "snd (next_task lower (JoinOk tid r) s) = s\<lparr> sc_active := ?active @ extra, sc_queued := queued,
      sc_running := remove1 tid (sc_running s) @ map sk_id extra \<rparr>"
    using l e(1,2) by (simp add: next_task_def finish_task_def take_ready_tasks_def rf fold_start)
  moreover have "mset (extra @ queued) = mset (sc_queued s)" using e(2,5) by simp
  ultimately show thesis using that e by simp
qed

lemma inv_done:
  assumes "sched_inv lower s" and "tid \<in> set (sc_running s)"
  shows "sched_inv lower (snd (next_task lower (JoinOk tid r) s))"
proof -
  obtain extra queued where f:
    "snd (next_task lower (JoinOk tid r) s) = s\<lparr> sc_active := filter (\<lambda>t. sk_id t \<noteq> tid) (sc_active s) @ extra, sc_queued := queued,
       sc_running := remove1 tid (sc_running s) @ map sk_id extra \<rparr>"
    "plan_ok lower (filter (\<lambda>t. sk_id t \<noteq> tid) (sc_active s) @ extra) queued"
    "all_wait lower (filter (\<lambda>t. sk_id t \<noteq> tid) (sc_active s) @ extra) [] queued"
    "mset (extra @ queued) = mset (sc_queued s)" by (rule finish_ok [OF assms])
  note inv = assms(1) [unfolded sched_inv_def]
  have sub: "set extra \<union> set queued = set (sc_queued s)" using arg_cong [OF f(4), of set_mset] by simp
  have run: "set (remove1 tid (sc_running s)) = sk_id ` set (filter (\<lambda>t. sk_id t \<noteq> tid) (sc_active s))"
    using inv by auto
  have "distinct (map sk_id (filter (\<lambda>t. sk_id t \<noteq> tid) (sc_active s) @ extra))" using f(2) by (auto simp: plan_ok_def)
  then have "distinct (remove1 tid (sc_running s) @ map sk_id extra)" using inv run by (auto simp: distinct_remove1)
  moreover have "\<forall>t\<in>set (filter (\<lambda>t. sk_id t \<noteq> tid) (sc_active s) @ extra @ queued). sk_id t < sc_next_id s"
    using inv sub by auto
  ultimately show ?thesis using f(1-3) run by (simp add: sched_inv_def image_Un)
qed

lemma reachable_inv: "sched_reachable lower s \<Longrightarrow> sched_inv lower s"
  unfolding sched_reachable_def
proof (induction rule: rtranclp_induct)
  case base
  show ?case by (simp add: sched_inv_def scheduler_new_def plan_ok_def)
next
  case (step s s')
  from step(2) show ?case
  proof (cases rule: sched_step.cases)
    case (step_add accesses)
    then show ?thesis using inv_add step(3) by simp
  next
    case (step_done tid)
    then show ?thesis using inv_done step(3) by simp
  next
    case (step_panic tid)
    then show ?thesis by (simp add: next_task_def sched_inv_def plan_ok_def)
  qed
qed


section \<open>What the scheduler guarantees\<close>

text \<open>
  C9. Calls that conflict never run together, and they run in the order they were made. In every state
  that adding calls and ending or panicking tasks leads to: what runs are exactly the active calls,
  each once; no two of them conflict; and no active call conflicts with a call that was added before it
  and still waits. Calls conflict when one of them may use everything and the other anything, or when
  they touch a common file and one of them writes it.
\<close>

theorem scheduler_exclusive:
  assumes "sched_reachable lower s"
  shows "distinct (sc_running s) \<and> set (sc_running s) = sk_id ` set (sc_active s)
    \<and> (\<forall>a\<in>set (sc_active s). \<forall>b\<in>set (sc_active s). sk_id a \<noteq> sk_id b \<longrightarrow> \<not> conflict lower (sk_accesses a) (sk_accesses b))
    \<and> (\<forall>a\<in>set (sc_active s). \<forall>q\<in>set (sc_queued s). sk_id q < sk_id a \<longrightarrow> \<not> conflict lower (sk_accesses a) (sk_accesses q))
    \<and> (\<forall>l r. resource_accesses_conflict lower l r \<longleftrightarrow>
         (case (l, r) of
            (AccessFile f, AccessFile g) \<Rightarrow>
              (operation_writes (fa_operation f) \<or> operation_writes (fa_operation g))
              \<and> (if fa_recursive f \<and> normalize_path lower (fa_path f) = [47] \<or> fa_recursive g \<and> normalize_path lower (fa_path g) = [47]
                 then file_accesses_overlap lower f g
                 else \<exists>path. covers lower f path \<and> covers lower g path)
          | _ \<Rightarrow> True))"
proof -
  have "resource_accesses_conflict lower l r \<longleftrightarrow>
         (case (l, r) of
            (AccessFile f, AccessFile g) \<Rightarrow>
              (operation_writes (fa_operation f) \<or> operation_writes (fa_operation g))
              \<and> (if fa_recursive f \<and> normalize_path lower (fa_path f) = [47] \<or> fa_recursive g \<and> normalize_path lower (fa_path g) = [47]
                 then file_accesses_overlap lower f g
                 else \<exists>path. covers lower f path \<and> covers lower g path)
          | _ \<Rightarrow> True)" for l r
    using overlap_iff_common_file [of _ lower] by (cases l; cases r) auto
  then show ?thesis using reachable_inv [OF assms] by (simp add: sched_inv_def plan_ok_def)
qed

lemma inv_pending_runs:
  assumes "sched_inv lower s" and "has_pending s"
  shows "sc_running s \<noteq> []"
proof
  assume r: "sc_running s = []"
  then obtain q qs where q: "sc_queued s = q # qs" using assms(2) by (cases "sc_queued s") (auto simp: has_pending_def)
  have "sc_active s = []" using assms(1) r by (auto simp: sched_inv_def)
  then show False using assms(1) q by (simp add: sched_inv_def is_blocked_def)
qed

definition pending_count :: "scheduler \<Rightarrow> nat" where
  "pending_count s = length (sc_active s) + length (sc_queued s)"

lemma done_decreases:
  assumes "sched_inv lower s" and "tid \<in> set (sc_running s)"
  shows "pending_count s = pending_count (snd (next_task lower (JoinOk tid r) s)) + 1"
proof -
  obtain extra queued where f:
    "snd (next_task lower (JoinOk tid r) s) = s\<lparr> sc_active := filter (\<lambda>t. sk_id t \<noteq> tid) (sc_active s) @ extra, sc_queued := queued,
       sc_running := remove1 tid (sc_running s) @ map sk_id extra \<rparr>"
    "mset (extra @ queued) = mset (sc_queued s)" by (rule finish_ok [OF assms])
  have d: "distinct (map sk_id (sc_active s))" "tid \<in> sk_id ` set (sc_active s)"
    using assms by (auto simp: sched_inv_def plan_ok_def)
  then have "length (filter (\<lambda>t. sk_id t \<noteq> tid) (sc_active s)) + 1 = length (sc_active s)"
  proof (induction "sc_active s" arbitrary: s)
    case (Cons a as)
    show ?case
    proof (cases "sk_id a = tid")
      case True
      then have "filter (\<lambda>t. sk_id t \<noteq> tid) as = as"
        using Cons.prems(1) Cons.hyps(2) [symmetric] by (intro filter_True) (auto simp: image_iff)
      then show ?thesis using True Cons.hyps(2) [symmetric] by simp
    next
      case False
      then show ?thesis using Cons.hyps(1) [of "s\<lparr> sc_active := as \<rparr>"] Cons.prems Cons.hyps(2) [symmetric] by auto
    qed
  qed simp
  moreover have "length extra + length queued = length (sc_queued s)" using arg_cong [OF f(2), of size] by simp
  ultimately show ?thesis using f(1) by (simp add: pending_count_def)
qed

text \<open>A run in which tasks only end; \<open>pick\<close> says which of the running tasks ends next.\<close>

fun drain :: "(nat \<Rightarrow> str) \<Rightarrow> (scheduler \<Rightarrow> nat) \<Rightarrow> nat \<Rightarrow> scheduler \<Rightarrow> scheduler" where
  "drain lower pick 0 s = s"
| "drain lower pick (Suc n) s =
     (if has_pending s then drain lower pick n (snd (next_task lower (JoinOk (pick s) ()) s)) else s)"

lemma drain_done:
  assumes "\<And>s. sc_running s \<noteq> [] \<Longrightarrow> pick s \<in> set (sc_running s)"
  shows "sched_inv lower s \<Longrightarrow> pending_count s \<le> n \<Longrightarrow> \<not> has_pending (drain lower pick n s)"
proof (induction n arbitrary: s)
  case 0
  then have "sc_active s = []" "sc_queued s = []" by (simp_all add: pending_count_def)
  then show ?case using 0(1) by (simp add: has_pending_def sched_inv_def)
next
  case (Suc n)
  show ?case
  proof (cases "has_pending s")
    case True
    then have p: "pick s \<in> set (sc_running s)" using inv_pending_runs [OF Suc.prems(1)] assms by blast
    show ?thesis
      using Suc.IH [OF inv_done [OF Suc.prems(1) p, of "()"]] done_decreases [OF Suc.prems(1) p, of "()"] Suc.prems(2) True by simp
  qed simp
qed


text \<open>
  A recursive access to the root does not conflict with an access below it: the prefix is \<open>/\<close>, the
  rest of the path does not start with a slash any more.
\<close>

lemma root_tree_unprotected:
  assumes "lower 47 = [47]" and "lower 97 = [97]"
  shows "\<not> conflict lower (write_tree [47]) (write_file [47, 97])"
    and "covers lower \<lparr> fa_operation = OpWrite, fa_path = [47], fa_recursive = True \<rparr> [47, 97]"
  using assms
  by (simp_all add: conflict_def write_tree_def write_file_def access_file_def operation_writes_def file_accesses_overlap_def
      normalize_path_def path_is_within_def covers_def below_def)

section \<open>Examples\<close>

definition two_writers :: scheduler where
  "two_writers = add_task (\<lambda>c. [c]) (write_file [47, 97]) (add_task (\<lambda>c. [c]) (write_file [47, 97]) scheduler_new)"

lemma reachable_add: "sched_reachable lower s \<Longrightarrow> sched_reachable lower (add_task lower accesses s)"
  unfolding sched_reachable_def by (erule rtranclp.rtrancl_into_rtrancl) (rule step_add)

lemma two_writers_reachable: "sched_reachable (\<lambda>c. [c]) two_writers"
  unfolding two_writers_def by (intro reachable_add) (simp add: sched_reachable_def)

lemma two_writers_value:
  "sc_active two_writers = [\<lparr> sk_id = 1, sk_accesses = write_file [47, 97] \<rparr>] \<and> sc_queued two_writers = [\<lparr> sk_id = 2, sk_accesses = write_file [47, 97] \<rparr>]"
  by code_simp

theorem scheduler_exclusive_witness: "set (sc_running two_writers) = {1} \<and> length (sc_queued two_writers) = 1"
  using scheduler_exclusive [OF two_writers_reachable] two_writers_value by simp


end
