(* ===== verification/ContextModel.thy ===== *)
theory ContextModel
  imports Query
begin

text \<open>
  The messages of an agent's context (\<open>kosong/contract/message.rs\<close>, \<open>agent/context_memory/types.rs\<close>), the
  events of the agent loop that build them (\<open>loop_event_fold.rs\<close>) and the token estimate
  (\<open>kosong/contract/tokens.rs\<close>). The parameter \<open>'j\<close> is the type of JSON values and of tool
  definitions; \<open>arg_text\<close> is the JSON text of the optional arguments of a tool call. The estimate is
  computed anew each time: the cache of a message is left out.
\<close>

section \<open>Messages\<close>

datatype role = System | User | Assistant | Tool

fun role_str :: "role \<Rightarrow> str" where
  "role_str System = lit ''system''"
| "role_str User = lit ''user''"
| "role_str Assistant = lit ''assistant''"
| "role_str Tool = lit ''tool''"

record media_url =
  mu_url :: str
  mu_id :: "str option"

datatype content_part =
    TextPart str
  | ThinkPart str "str option"
  | ImageUrlPart media_url
  | AudioUrlPart media_url
  | VideoUrlPart media_url

datatype stream_index = IndexNumber int | IndexString str

record 'j tool_call =
  tl_id :: str
  tl_name :: str
  tl_arguments :: "str option"
  tl_extras :: "'j option"
  tl_stream_index :: "stream_index option"

record 'j message =
  ms_role :: role
  ms_name :: "str option"
  ms_content :: "content_part list"
  ms_tool_calls :: "'j tool_call list"
  ms_tool_call_id :: "str option"
  ms_partial :: "bool option"
  ms_tools :: "'j list option"

definition message_new :: "role \<Rightarrow> content_part list \<Rightarrow> 'j tool_call list \<Rightarrow> 'j message" where
  "message_new r content calls = \<lparr> ms_role = r, ms_name = None, ms_content = content, ms_tool_calls = calls,
     ms_tool_call_id = None, ms_partial = None, ms_tools = None \<rparr>"

definition content_text_parts :: "content_part list \<Rightarrow> str" where
  "content_text_parts content = concat (map (\<lambda>p. case p of TextPart s \<Rightarrow> s | _ \<Rightarrow> []) content)"

datatype tool_output = OutputText str | OutputParts "content_part list"

definition create_tool_message :: "str \<Rightarrow> tool_output \<Rightarrow> 'j message" where
  "create_tool_message call_id out =
     (message_new Tool (case out of OutputText s \<Rightarrow> [TextPart s] | OutputParts ps \<Rightarrow> ps) [])\<lparr> ms_tool_call_id := Some call_id \<rparr>"

section \<open>Origins\<close>

datatype skill_source = SkillProject | SkillUser | SkillExtra | SkillBuiltin

datatype skill_activation_trigger = UserSlash | ModelTool | NestedSkill

record prompt_skill_activation =
  ps_activation_id :: str
  ps_skill_name :: str
  ps_skill_args :: "str option"
  ps_skill_type :: "str option"
  ps_skill_path :: "str option"
  ps_skill_source :: "skill_source option"

datatype plugin_command_trigger = PluginUserSlash

datatype shell_command_phase = PhaseInput | PhaseOutput

datatype agent_task_status = StatusRunning | StatusCompleted | StatusFailed | StatusTimedOut | StatusKilled | StatusLost

datatype prompt_origin =
    OriginUserPrompt
  | OriginSkillActivation prompt_skill_activation skill_activation_trigger "prompt_skill_activation list"
  | OriginPluginCommand str str str "str option" plugin_command_trigger
  | OriginInjection str
  | OriginShellCommand shell_command_phase "bool option"
  | OriginCompactionSummary
  | OriginSystemTrigger str
  | OriginTaskNotification str agent_task_status str
  | OriginCronJob str str bool nat bool
  | OriginCronMissed nat
  | OriginHookResult str "bool option"
  | OriginRetry "str option"

record context_file_attachment =
  fa_file_id :: str
  fa_name :: str
  fa_media_type :: str
  fa_size :: nat
  fa_model_text :: str

record 'j context_message =
  cm_message :: "'j message"
  cm_id :: "str option"
  cm_provider_message_id :: "str option"
  cm_origin :: "prompt_origin option"
  cm_is_error :: "bool option"
  cm_note :: "str option"
  cm_attachments :: "context_file_attachment list"

definition context_message :: "'j message \<Rightarrow> 'j context_message" where
  "context_message m = \<lparr> cm_message = m, cm_id = None, cm_provider_message_id = None, cm_origin = None,
     cm_is_error = None, cm_note = None, cm_attachments = [] \<rparr>"

definition context_user_message :: "str \<Rightarrow> prompt_origin \<Rightarrow> 'j context_message" where
  "context_user_message s origin = (context_message (message_new User [TextPart s] []))\<lparr> cm_origin := Some origin \<rparr>"

section \<open>Events of the loop\<close>

record loop_tool_result =
  lr_output :: tool_output
  lr_is_error :: "bool option"
  lr_note :: "str option"

datatype finish_reason = FinishCompleted | FinishToolCalls | FinishTruncated | FinishFiltered | FinishPaused | FinishOther

record token_usage =
  tu_input_other :: nat
  tu_output :: nat
  tu_input_cache_read :: nat
  tu_input_cache_creation :: nat

text \<open>The position of an event: its own id, the turn and the step. The fold reads none of these.\<close>

record event_position =
  ep_uuid :: "str option"
  ep_turn_id :: "nat option"
  ep_step :: "nat option"

record step_end =
  sd_turn_id :: "nat option"
  sd_step :: "nat option"
  sd_finish_reason :: "str option"
  sd_usage :: "token_usage option"
  sd_llm_first_token_latency_ms :: "nat option"
  sd_llm_stream_duration_ms :: "nat option"
  sd_llm_request_build_ms :: "nat option"
  sd_llm_server_first_token_ms :: "nat option"
  sd_llm_server_decode_ms :: "nat option"
  sd_llm_client_consume_ms :: "nat option"
  sd_message_id :: "str option"
  sd_provider_finish_reason :: "finish_reason option"
  sd_raw_finish_reason :: "str option"

datatype 'j loop_recorded_event =
    StepBegin str event_position
  | StepEnd str step_end
  | ContentPartEvent str content_part event_position
  | ToolCallEvent str str str "'j option" "'j option" event_position
  | ToolResultEvent str loop_tool_result "str option"

definition is_vacuous_content_part :: "content_part \<Rightarrow> bool" where
  "is_vacuous_content_part part =
     (case part of
        TextPart s \<Rightarrow> trim s = []
      | ThinkPart s encrypted \<Rightarrow> encrypted = None \<and> trim s = []
      | _ \<Rightarrow> False)"

section \<open>Tokens\<close>

definition div_ceil :: "nat \<Rightarrow> nat \<Rightarrow> nat" where
  "div_ceil a b = (a + b - 1) div b"

definition is_ascii :: "nat \<Rightarrow> bool" where
  "is_ascii c \<longleftrightarrow> c < 128"

definition estimate_tokens :: "str \<Rightarrow> nat" where
  "estimate_tokens s =
     (let (ascii_count, non_ascii_count) =
            foldl (\<lambda>(a, n) c. if is_ascii c then (a + 1, n) else (a, n + 1)) (0, 0) s
      in div_ceil ascii_count 4 + non_ascii_count)"

definition MEDIA_TOKEN_ESTIMATE :: nat where "MEDIA_TOKEN_ESTIMATE = 2000"

definition estimate_tokens_for_content_part :: "content_part \<Rightarrow> nat" where
  "estimate_tokens_for_content_part part =
     (case part of
        TextPart s \<Rightarrow> estimate_tokens s
      | ThinkPart s _ \<Rightarrow> estimate_tokens s
      | _ \<Rightarrow> MEDIA_TOKEN_ESTIMATE)"

definition estimate_tokens_for_content_parts :: "content_part list \<Rightarrow> nat" where
  "estimate_tokens_for_content_parts parts = sum_list (map estimate_tokens_for_content_part parts)"

definition estimate_tokens_for_tool_call :: "(str option \<Rightarrow> str) \<Rightarrow> 'j tool_call \<Rightarrow> nat" where
  "estimate_tokens_for_tool_call arg_text call = estimate_tokens (tl_name call) + estimate_tokens (arg_text (tl_arguments call))"

definition estimate_tokens_for_message :: "(str option \<Rightarrow> str) \<Rightarrow> 'j message \<Rightarrow> nat" where
  "estimate_tokens_for_message arg_text m =
     estimate_tokens (role_str (ms_role m)) + estimate_tokens_for_content_parts (ms_content m)
     + sum_list (map (estimate_tokens_for_tool_call arg_text) (ms_tool_calls m))"

definition estimate_tokens_for_messages :: "(str option \<Rightarrow> str) \<Rightarrow> 'j message list \<Rightarrow> nat" where
  "estimate_tokens_for_messages arg_text ms = sum_list (map (estimate_tokens_for_message arg_text) ms)"

lemma estimate_tokens_counts:
  "estimate_tokens s = div_ceil (length (filter is_ascii s)) 4 + length (filter (\<lambda>c. \<not> is_ascii c) s)"
proof -
  have "foldl (\<lambda>(a, n) c. if is_ascii c then (a + 1, n) else (a, n + 1)) (x, y) s
      = (x + length (filter is_ascii s), y + length (filter (\<lambda>c. \<not> is_ascii c) s))" for x y
    by (induction s arbitrary: x y) auto
  from this [of 0 0] show ?thesis by (simp add: estimate_tokens_def)
qed

lemma estimate_tokens_empty [simp]: "estimate_tokens [] = 0"
  by (simp add: estimate_tokens_def div_ceil_def)

lemma estimate_tokens_user: "estimate_tokens (role_str User) = 1"
  by (simp add: estimate_tokens_counts lit_def is_ascii_def div_ceil_def)

end
