(* ===== verification/ContextMemory.thy ===== *)
theory ContextMemory
  imports ContextModel "HOL-Library.Multiset"
begin

text \<open>
  The context of an agent: the fold of loop events into messages (\<open>loop_event_fold.rs\<close>), undo
  (\<open>undo.rs\<close>), and the operations of the context model (\<open>context_ops.rs\<close>). \<open>json_text\<close> is the JSON text
  of the arguments of a call.
\<close>

section \<open>The fold\<close>

record 'j loop_event_fold =
  lf_messages :: "'j context_message list"
  lf_open_step_uuid :: "str option"
  lf_pending :: "str list"
  lf_deferred :: "'j context_message list"

definition fold_new :: "'j context_message list \<Rightarrow> 'j loop_event_fold" where
  "fold_new ms = \<lparr> lf_messages = ms, lf_open_step_uuid = None, lf_pending = [], lf_deferred = [] \<rparr>"

definition TOOL_INTERRUPTED_ON_RESUME_OUTPUT :: str where
  "TOOL_INTERRUPTED_ON_RESUME_OUTPUT = lit ''Tool execution was interrupted before its result was recorded. Do not assume the tool completed successfully.''"

definition interrupted_tool_message :: "str \<Rightarrow> 'j context_message" where
  "interrupted_tool_message call_id =
     (context_message (create_tool_message call_id (OutputText TOOL_INTERRUPTED_ON_RESUME_OUTPUT)))\<lparr> cm_is_error := Some True \<rparr>"

definition is_open :: "'j context_message \<Rightarrow> bool" where
  "is_open m \<longleftrightarrow> ms_partial (cm_message m) = Some True"

text \<open>\<open>rposition\<close>.\<close>

definition find_open_assistant_index :: "'j loop_event_fold \<Rightarrow> nat option" where
  "find_open_assistant_index s =
     (let n = length (takeWhile (\<lambda>m. \<not> is_open m) (rev (lf_messages s)))
      in if n < length (lf_messages s) then Some (length (lf_messages s) - 1 - n) else None)"

definition flush_deferred :: "'j loop_event_fold \<Rightarrow> 'j loop_event_fold" where
  "flush_deferred s =
     (if lf_pending s = [] \<and> lf_deferred s \<noteq> []
      then s\<lparr> lf_messages := lf_messages s @ lf_deferred s, lf_deferred := [] \<rparr> else s)"

definition close_pending :: "'j loop_event_fold \<Rightarrow> 'j loop_event_fold" where
  "close_pending s =
     (if lf_pending s = [] then s
      else flush_deferred (s\<lparr> lf_messages := lf_messages s @ map interrupted_tool_message (lf_pending s), lf_pending := [] \<rparr>))"

definition settle_open_step :: "'j loop_event_fold \<Rightarrow> 'j loop_event_fold" where
  "settle_open_step s =
     (let s = close_pending s in
      case find_open_assistant_index s of
        None \<Rightarrow> s
      | Some i \<Rightarrow>
          (let open_m = cm_message (lf_messages s ! i) in
           if ms_tool_calls open_m = [] \<and> list_all is_vacuous_content_part (ms_content open_m)
           then s\<lparr> lf_messages := take i (lf_messages s) @ drop (Suc i) (lf_messages s) \<rparr>
           else s\<lparr> lf_messages := (lf_messages s)[i := (lf_messages s ! i)\<lparr> cm_message := open_m\<lparr> ms_partial := None \<rparr> \<rparr>] \<rparr>))"

definition update_open_assistant :: "('j message \<Rightarrow> 'j message) \<Rightarrow> 'j loop_event_fold \<Rightarrow> 'j loop_event_fold" where
  "update_open_assistant f s =
     (case find_open_assistant_index s of
        None \<Rightarrow> s
      | Some i \<Rightarrow> s\<lparr> lf_messages := (lf_messages s)[i := (lf_messages s ! i)\<lparr> cm_message := f (cm_message (lf_messages s ! i)) \<rparr>] \<rparr>)"

definition fold_append_message :: "'j context_message \<Rightarrow> 'j loop_event_fold \<Rightarrow> 'j loop_event_fold" where
  "fold_append_message m s =
     (if lf_pending s = [] then s\<lparr> lf_messages := lf_messages s @ [m] \<rparr>
      else s\<lparr> lf_deferred := lf_deferred s @ [m] \<rparr>)"

fun fold_loop_event :: "('j \<Rightarrow> str) \<Rightarrow> 'j loop_recorded_event \<Rightarrow> 'j loop_event_fold \<Rightarrow> 'j loop_event_fold" where
  "fold_loop_event json_text (StepBegin uuid _) s =
     (let s = settle_open_step s;
          assistant = context_message ((message_new Assistant [] [])\<lparr> ms_partial := Some True \<rparr>)
      in s\<lparr> lf_open_step_uuid := Some uuid, lf_messages := lf_messages s @ [assistant] \<rparr>)"
| "fold_loop_event json_text (StepEnd _ _) s =
     flush_deferred (settle_open_step (s\<lparr> lf_open_step_uuid := None \<rparr>))"
| "fold_loop_event json_text (ContentPartEvent _ part _) s =
     update_open_assistant (\<lambda>m. m\<lparr> ms_content := ms_content m @ [part] \<rparr>) s"
| "fold_loop_event json_text (ToolCallEvent _ call_id name args extras _) s =
     (let call = \<lparr> tl_id = call_id, tl_name = name, tl_arguments = map_option json_text args, tl_extras = extras,
                   tl_stream_index = None \<rparr>
      in update_open_assistant (\<lambda>m. m\<lparr> ms_tool_calls := ms_tool_calls m @ [call] \<rparr>)
           (s\<lparr> lf_pending := iset_insert call_id (lf_pending s) \<rparr>))"
| "fold_loop_event json_text (ToolResultEvent call_id result _) s =
     (if call_id \<notin> set (lf_pending s) then s
      else
        (let m = (context_message (create_tool_message call_id (lr_output result)))
                   \<lparr> cm_is_error := lr_is_error result, cm_note := lr_note result \<rparr>
         in flush_deferred (s\<lparr> lf_pending := iset_remove call_id (lf_pending s), lf_messages := lf_messages s @ [m] \<rparr>)))"

definition reset_fold :: "'j loop_event_fold \<Rightarrow> 'j loop_event_fold" where
  "reset_fold s = s\<lparr> lf_open_step_uuid := None, lf_pending := [], lf_deferred := [] \<rparr>"

section \<open>Which messages are the user's\<close>

datatype disposition = Keep | Drop

fun compaction_user_message_disposition :: "prompt_origin option \<Rightarrow> disposition" where
  "compaction_user_message_disposition None = Keep"
| "compaction_user_message_disposition (Some OriginUserPrompt) = Keep"
| "compaction_user_message_disposition (Some (OriginSkillActivation _ trigger _)) = (if trigger = UserSlash then Keep else Drop)"
| "compaction_user_message_disposition (Some (OriginPluginCommand _ _ _ _ trigger)) = (if trigger = PluginUserSlash then Keep else Drop)"
| "compaction_user_message_disposition (Some _) = Drop"

definition is_real_user_input :: "'j context_message \<Rightarrow> bool" where
  "is_real_user_input m \<longleftrightarrow> ms_role (cm_message m) = User \<and> compaction_user_message_disposition (cm_origin m) = Keep"

definition is_compaction_summary_message :: "'j context_message \<Rightarrow> bool" where
  "is_compaction_summary_message m \<longleftrightarrow> cm_origin m = Some OriginCompactionSummary"

definition is_injection :: "'j context_message \<Rightarrow> bool" where
  "is_injection m \<longleftrightarrow> (case cm_origin m of Some (OriginInjection _) \<Rightarrow> True | _ \<Rightarrow> False)"

section \<open>Undo\<close>

record undo_cut =
  uc_cut_index :: int
  uc_removed_count :: nat
  uc_stopped_at_compaction :: bool

text \<open>The loop over the history from its end: the rest in front, the requests left, the cut so far.\<close>

fun undo_loop :: "'j context_message list \<Rightarrow> nat \<Rightarrow> int \<Rightarrow> nat \<Rightarrow> undo_cut" where
  "undo_loop [] remaining cut_index removed =
     \<lparr> uc_cut_index = cut_index, uc_removed_count = removed, uc_stopped_at_compaction = False \<rparr>"
| "undo_loop (m # before) remaining cut_index removed =
     (if remaining = 0 then \<lparr> uc_cut_index = cut_index, uc_removed_count = removed, uc_stopped_at_compaction = False \<rparr>
      else if is_injection m then undo_loop before remaining cut_index removed
      else if is_compaction_summary_message m
      then \<lparr> uc_cut_index = cut_index, uc_removed_count = removed, uc_stopped_at_compaction = True \<rparr>
      else if is_real_user_input m then undo_loop before (remaining - 1) (int (length before)) (removed + 1)
      else undo_loop before remaining cut_index removed)"

definition compute_undo_cut :: "'j context_message list \<Rightarrow> nat \<Rightarrow> undo_cut" where
  "compute_undo_cut history cnt = undo_loop (rev history) cnt (- 1) 0"

definition is_fully_undoable :: "undo_cut \<Rightarrow> nat \<Rightarrow> bool" where
  "is_fully_undoable uc cnt \<longleftrightarrow> uc_cut_index uc \<ge> 0 \<and> uc_removed_count uc mod 2 ^ 32 \<ge> cnt"

datatype undo_unavailable_reason = UndoEmpty | UndoCompactionBoundary | UndoInsufficient

datatype undo_precheck = UndoOk | UndoUnavailable undo_unavailable_reason nat nat

definition precheck_undo :: "'j context_message list \<Rightarrow> nat \<Rightarrow> undo_precheck" where
  "precheck_undo history cnt =
     (let uc = compute_undo_cut history cnt in
      if is_fully_undoable uc cnt then UndoOk
      else UndoUnavailable
        (if uc_stopped_at_compaction uc then UndoCompactionBoundary
         else if uc_removed_count uc = 0 then UndoEmpty
         else UndoInsufficient) cnt (uc_removed_count uc))"

definition format_undo_unavailable_message :: "undo_precheck \<Rightarrow> str option" where
  "format_undo_unavailable_message p =
     (case p of
        UndoOk \<Rightarrow> None
      | UndoUnavailable reason requested undoable \<Rightarrow>
          Some (case reason of
                  UndoEmpty \<Rightarrow> lit ''Nothing to undo: no user message to undo''
                | UndoCompactionBoundary \<Rightarrow> lit ''Nothing to undo: would cross a compaction boundary''
                | UndoInsufficient \<Rightarrow> lit ''Nothing to undo: only '' @ digits undoable @ lit '' of '' @ digits requested
                    @ lit '' requested turn(s) available''))"

section \<open>Compaction\<close>

definition COMPACT_USER_MESSAGE_MAX_TOKENS :: nat where "COMPACT_USER_MESSAGE_MAX_TOKENS = 20000"
definition COMPACT_USER_MESSAGE_HEAD_TOKENS :: nat where "COMPACT_USER_MESSAGE_HEAD_TOKENS = 2000"
definition COMPACTION_ELISION_VARIANT :: str where "COMPACTION_ELISION_VARIANT = lit ''compaction_elision''"

definition normalize_slice_start :: "nat \<Rightarrow> nat \<Rightarrow> nat" where
  "normalize_slice_start index len = min index len"

definition build_compaction_summary_text :: "str \<Rightarrow> str \<Rightarrow> str" where
  "build_compaction_summary_text prefix summary =
     prefix @ [10] @ (if trim summary = [] then lit ''(no summary available)'' else trim summary)"

definition create_compaction_summary_message :: "str \<Rightarrow> 'j context_message" where
  "create_compaction_summary_message s = context_user_message s OriginCompactionSummary"

definition build_compaction_elision_text :: "nat \<Rightarrow> str" where
  "build_compaction_elision_text omitted_tokens =
     lit ''<system-reminder>'' @ [10]
     @ lit ''Some of this conversation'' @ [39]
     @ lit ''s user messages were omitted here during compaction: the messages above this note are the oldest user input, the messages below are the most recent, and roughly ''
     @ digits omitted_tokens
     @ lit '' tokens in between were dropped. The omitted content is covered by the compaction summary at the end of the conversation.''
     @ [10] @ lit ''</system-reminder>''"

definition create_compaction_elision_message :: "nat \<Rightarrow> 'j context_message" where
  "create_compaction_elision_message omitted_tokens =
     context_user_message (build_compaction_elision_text omitted_tokens) (OriginInjection COMPACTION_ELISION_VARIANT)"

definition collect_compactable_user_messages :: "'j context_message list \<Rightarrow> 'j context_message list" where
  "collect_compactable_user_messages ms = filter (\<lambda>m. is_real_user_input m \<and> \<not> is_compaction_summary_message m) ms"

text \<open>The longest prefix of a text within a budget of tokens: \<open>taken\<close> is what was accepted so far.\<close>

fun truncate_loop :: "str \<Rightarrow> nat \<Rightarrow> nat \<Rightarrow> nat \<Rightarrow> str \<Rightarrow> str" where
  "truncate_loop [] max_tokens ascii_count non_ascii_count taken = taken"
| "truncate_loop (c # cs) max_tokens ascii_count non_ascii_count taken =
     (let ascii_count = (if is_ascii c then ascii_count + 1 else ascii_count);
          non_ascii_count = (if is_ascii c then non_ascii_count else non_ascii_count + 1) in
      if div_ceil ascii_count 4 + non_ascii_count > max_tokens then taken
      else truncate_loop cs max_tokens ascii_count non_ascii_count (taken @ [c]))"

definition truncate_text_to_tokens :: "str \<Rightarrow> nat \<Rightarrow> str" where
  "truncate_text_to_tokens s max_tokens = (if max_tokens = 0 then [] else truncate_loop s max_tokens 0 0 [])"

definition truncate_text_to_tokens_from_end :: "str \<Rightarrow> nat \<Rightarrow> str" where
  "truncate_text_to_tokens_from_end s max_tokens =
     (if max_tokens = 0 then [] else rev (truncate_loop (rev s) max_tokens 0 0 []))"

definition replace_message_text :: "'j context_message \<Rightarrow> str \<Rightarrow> 'j context_message" where
  "replace_message_text m s =
     m\<lparr> cm_message := (cm_message m)\<lparr> ms_content := [TextPart s], ms_tool_calls := [] \<rparr>, cm_attachments := [] \<rparr>"

definition truncate_user_message :: "'j context_message \<Rightarrow> nat \<Rightarrow> 'j context_message" where
  "truncate_user_message m max_tokens =
     replace_message_text m (truncate_text_to_tokens (content_text_parts (ms_content (cm_message m))) max_tokens)"

abbreviation tokens_of :: "(str option \<Rightarrow> str) \<Rightarrow> 'j context_message \<Rightarrow> nat" where
  "tokens_of arg_text m \<equiv> estimate_tokens_for_message arg_text (cm_message m)"

text \<open>The loop over messages while the budget lasts; the last message that does not fit is cut.\<close>

fun take_within :: "(str option \<Rightarrow> str) \<Rightarrow> 'j context_message list \<Rightarrow> nat \<Rightarrow> 'j context_message list" where
  "take_within arg_text [] remaining = []"
| "take_within arg_text (m # ms) remaining =
     (if remaining = 0 then []
      else if tokens_of arg_text m \<le> remaining then m # take_within arg_text ms (remaining - tokens_of arg_text m)
      else [truncate_user_message m remaining])"

definition select_recent_user_messages :: "(str option \<Rightarrow> str) \<Rightarrow> 'j context_message list \<Rightarrow> nat \<Rightarrow> 'j context_message list" where
  "select_recent_user_messages arg_text ms max_tokens = rev (take_within arg_text (rev ms) max_tokens)"

record 'j compaction_user_selection =
  cs_head :: "'j context_message list"
  cs_tail :: "'j context_message list"
  cs_elided :: bool
  cs_omitted_tokens :: nat

text \<open>
  The loop from the end: the messages still in front (reversed), the budget, the tail so far; it gives
  the tail, the messages in front of it and what was cut off its first message.
\<close>

fun tail_loop ::
  "(str option \<Rightarrow> str) \<Rightarrow> 'j context_message list \<Rightarrow> nat \<Rightarrow> 'j context_message list
   \<Rightarrow> 'j context_message list \<times> 'j context_message list \<times> 'j context_message option" where
  "tail_loop arg_text [] remaining tail = (tail, [], None)"
| "tail_loop arg_text (m # before) remaining tail =
     (if remaining = 0 then (tail, rev (m # before), None)
      else if tokens_of arg_text m \<le> remaining
      then tail_loop arg_text before (remaining - tokens_of arg_text m) (m # tail)
      else
        (let full_text = content_text_parts (ms_content (cm_message m));
             kept_suffix = truncate_text_to_tokens_from_end full_text remaining;
             dropped_prefix = take (length full_text - length kept_suffix) full_text
         in (replace_message_text m kept_suffix # tail, rev before,
             if dropped_prefix = [] then None else Some (replace_message_text m dropped_prefix))))"

definition select_compaction_user_messages ::
  "(str option \<Rightarrow> str) \<Rightarrow> 'j context_message list \<Rightarrow> nat \<Rightarrow> nat \<Rightarrow> 'j compaction_user_selection" where
  "select_compaction_user_messages arg_text ms max_tokens head_tokens =
     (let total_tokens = sum_list (map (tokens_of arg_text) ms) in
      if total_tokens \<le> max_tokens
      then \<lparr> cs_head = [], cs_tail = ms, cs_elided = False, cs_omitted_tokens = 0 \<rparr>
      else
        (let head_budget = min head_tokens max_tokens;
             tail_budget = max_tokens - head_budget;
             (tail, front, dropped_prefix) = tail_loop arg_text (rev ms) tail_budget [];
             head_candidates = front @ (case dropped_prefix of None \<Rightarrow> [] | Some m \<Rightarrow> [m]);
             head = take_within arg_text head_candidates head_budget;
             kept_tokens = sum_list (map (tokens_of arg_text) (head @ tail))
         in \<lparr> cs_head = head, cs_tail = tail, cs_elided = True, cs_omitted_tokens = total_tokens - kept_tokens \<rparr>))"

record 'j compaction_shape_input =
  si_summary :: str
  si_legacy_summary_message :: "'j context_message option"
  si_context_summary :: "str option"
  si_compacted_count :: nat
  si_tokens_before :: nat
  si_tokens_after :: "nat option"
  si_kept_user_message_count :: "nat option"
  si_kept_head_user_message_count :: "nat option"
  si_dropped_count :: "nat option"
  si_legacy_tail :: "bool option"

record 'j compaction_shape =
  so_summary :: str
  so_context_summary :: str
  so_compacted_count :: nat
  so_tokens_before :: nat
  so_tokens_after :: nat
  so_kept_user_message_count :: nat
  so_kept_head_user_message_count :: "nat option"
  so_dropped_count :: "nat option"
  so_messages :: "'j context_message list"

definition unwrap_or :: "'a option \<Rightarrow> 'a \<Rightarrow> 'a" where
  "unwrap_or x d = (case x of None \<Rightarrow> d | Some v \<Rightarrow> v)"

definition build_context_compaction_shape ::
  "(str option \<Rightarrow> str) \<Rightarrow> 'j context_message list \<Rightarrow> 'j compaction_shape_input \<Rightarrow> 'j compaction_shape" where
  "build_context_compaction_shape arg_text history inp =
     (let context_summary = unwrap_or (si_context_summary inp) (si_summary inp) in
      if si_legacy_tail inp = Some True then
        (let ms = unwrap_or (si_legacy_summary_message inp) (create_compaction_summary_message context_summary)
                  # drop (normalize_slice_start (si_compacted_count inp) (length history)) history
         in \<lparr> so_summary = si_summary inp, so_context_summary = context_summary,
              so_compacted_count = si_compacted_count inp, so_tokens_before = si_tokens_before inp,
              so_tokens_after = unwrap_or (si_tokens_after inp) (estimate_tokens_for_messages arg_text (map cm_message ms)),
              so_kept_user_message_count = 0, so_kept_head_user_message_count = None,
              so_dropped_count = si_dropped_count inp, so_messages = ms \<rparr>)
      else
        (let selection = select_compaction_user_messages arg_text (collect_compactable_user_messages history)
               COMPACT_USER_MESSAGE_MAX_TOKENS COMPACT_USER_MESSAGE_HEAD_TOKENS;
             kept = cs_head selection
                    @ (if cs_elided selection then [create_compaction_elision_message (cs_omitted_tokens selection)] else [])
                    @ cs_tail selection
         in \<lparr> so_summary = si_summary inp, so_context_summary = context_summary,
              so_compacted_count = si_compacted_count inp, so_tokens_before = si_tokens_before inp,
              so_tokens_after = unwrap_or (si_tokens_after inp)
                (estimate_tokens context_summary + estimate_tokens_for_messages arg_text (map cm_message kept)),
              so_kept_user_message_count = unwrap_or (si_kept_user_message_count inp)
                (length (cs_head selection) + length (cs_tail selection)),
              so_kept_head_user_message_count =
                (case si_kept_head_user_message_count inp of
                   Some n \<Rightarrow> Some n
                 | None \<Rightarrow> if cs_elided selection then Some (length (cs_head selection)) else None),
              so_dropped_count = si_dropped_count inp,
              so_messages = kept @ [create_compaction_summary_message context_summary] \<rparr>))"

section \<open>The operations of the context\<close>

datatype 'j context_op =
    AppendMessage "'j context_message"
  | AppendLoopEvent "'j loop_recorded_event"
  | ClearContext
  | ApplyCompaction "'j compaction_shape_input"
  | UndoContext nat
  | SwarmModeExit

definition context_clear :: "'j loop_event_fold \<Rightarrow> 'j loop_event_fold" where
  "context_clear s = (if lf_messages s = [] then s else fold_new [])"

definition context_undo :: "nat \<Rightarrow> 'j loop_event_fold \<Rightarrow> 'j loop_event_fold" where
  "context_undo cnt s =
     (if cnt = 0 \<or> lf_messages s = [] then s
      else
        (let uc = compute_undo_cut (lf_messages s) cnt in
         if \<not> is_fully_undoable uc cnt then s
         else fold_new (take (nat (uc_cut_index uc)) (lf_messages s))))"

definition context_apply_compaction ::
  "(str option \<Rightarrow> str) \<Rightarrow> 'j compaction_shape_input \<Rightarrow> 'j loop_event_fold \<Rightarrow> 'j loop_event_fold" where
  "context_apply_compaction arg_text inp s = fold_new (so_messages (build_context_compaction_shape arg_text (lf_messages s) inp))"

definition pop_swarm_mode_reminder :: "'j loop_event_fold \<Rightarrow> 'j loop_event_fold" where
  "pop_swarm_mode_reminder s =
     (if lf_messages s \<noteq> [] \<and> cm_origin (last (lf_messages s)) = Some (OriginInjection (lit ''swarm_mode''))
      then reset_fold (s\<lparr> lf_messages := butlast (lf_messages s) \<rparr>) else s)"

fun context_apply ::
  "('j \<Rightarrow> str) \<Rightarrow> (str option \<Rightarrow> str) \<Rightarrow> 'j context_op \<Rightarrow> 'j loop_event_fold \<Rightarrow> 'j loop_event_fold" where
  "context_apply json_text arg_text (AppendMessage m) s = fold_append_message m s"
| "context_apply json_text arg_text (AppendLoopEvent e) s = fold_loop_event json_text e s"
| "context_apply json_text arg_text ClearContext s = context_clear s"
| "context_apply json_text arg_text (ApplyCompaction inp) s = context_apply_compaction arg_text inp s"
| "context_apply json_text arg_text (UndoContext cnt) s = context_undo cnt s"
| "context_apply json_text arg_text SwarmModeExit s = pop_swarm_mode_reminder s"

end
