(* ===== verification/ContextSafety.thy ===== *)
theory ContextSafety
  imports ContextMemory
begin

text \<open>
  What the context of an agent guarantees: the messages are always such that a model accepts them, with
  every tool call answered right behind it; what the user says is never lost; and undo removes exactly
  the last prompts.
\<close>

section \<open>Answered tool calls\<close>

text \<open>
  The calls that wait for their answer after a list of messages; \<open>None\<close> when a tool message answers
  nothing that was asked, or another message comes before all answers.
\<close>

fun scan_calls :: "str list \<Rightarrow> 'j context_message list \<Rightarrow> str list option" where
  "scan_calls waiting [] = Some waiting"
| "scan_calls waiting (m # ms) =
     (if ms_role (cm_message m) = Tool then
        (case ms_tool_call_id (cm_message m) of
           None \<Rightarrow> None
         | Some i \<Rightarrow> if i \<in> set waiting then scan_calls (remove1 i waiting) ms else None)
      else if waiting \<noteq> [] then None
      else scan_calls (map tl_id (ms_tool_calls (cm_message m))) ms)"

abbreviation role_of :: "'j context_message \<Rightarrow> role" where
  "role_of m \<equiv> ms_role (cm_message m)"

definition plain :: "'j context_message \<Rightarrow> bool" where
  "plain m \<longleftrightarrow> role_of m \<noteq> Tool \<and> ms_tool_calls (cm_message m) = [] \<and> \<not> is_open m"

definition message_ok :: "'j context_message \<Rightarrow> bool" where
  "message_ok m \<longleftrightarrow> (is_open m \<longrightarrow> role_of m = Assistant) \<and> (role_of m = User \<or> cm_origin m \<noteq> None \<longrightarrow> plain m)"

definition open_count :: "'j context_message list \<Rightarrow> nat" where
  "open_count ms = length (filter is_open ms)"

definition fold_inv :: "'j loop_event_fold \<Rightarrow> bool" where
  "fold_inv s \<longleftrightarrow> (\<exists>waiting. scan_calls [] (lf_messages s) = Some waiting \<and> mset waiting = mset (lf_pending s))
     \<and> distinct (lf_pending s) \<and> list_all plain (lf_deferred s) \<and> list_all message_ok (lf_deferred s)
     \<and> (lf_pending s = [] \<longrightarrow> lf_deferred s = []) \<and> list_all message_ok (lf_messages s)
     \<and> open_count (lf_messages s) \<le> 1"

definition view :: "'j context_message \<Rightarrow> role \<times> str option \<times> str list" where
  "view m = (role_of m, ms_tool_call_id (cm_message m), map tl_id (ms_tool_calls (cm_message m)))"

lemma scan_append: "scan_calls w (xs @ ys) = Option.bind (scan_calls w xs) (\<lambda>w'. scan_calls w' ys)"
  by (induction w xs rule: scan_calls.induct) (auto split: option.splits)

lemma scan_view: "map view xs = map view ys \<Longrightarrow> scan_calls w xs = scan_calls w ys"
proof (induction xs arbitrary: ys w)
  case (Cons x xs)
  then obtain y zs where ys: "ys = y # zs" and v: "view x = view y" and "map view xs = map view zs" by (cases ys) auto
  then have "scan_calls u xs = scan_calls u zs" for u using Cons.IH by blast
  moreover have "role_of x = role_of y" "ms_tool_call_id (cm_message x) = ms_tool_call_id (cm_message y)"
    "map tl_id (ms_tool_calls (cm_message x)) = map tl_id (ms_tool_calls (cm_message y))"
    using v by (simp_all add: view_def)
  ultimately show ?case by (simp add: ys split: option.split)
qed simp

lemma scan_plain: "list_all plain ms \<Longrightarrow> scan_calls [] ms = Some []"
  by (induction ms) (auto simp: plain_def)

lemma scan_before:
  assumes "scan_calls [] (xs @ m # ys) = Some w" and "role_of m \<noteq> Tool"
  shows "scan_calls [] xs = Some []" and "scan_calls (map tl_id (ms_tool_calls (cm_message m))) ys = Some w"
  using assms by (auto simp: scan_append bind_eq_Some_conv split: if_splits)

lemma tool_message_view [simp]:
  "role_of (interrupted_tool_message i) = Tool" "ms_tool_call_id (cm_message (interrupted_tool_message i)) = Some i"
  "\<not> is_open (interrupted_tool_message i)" "cm_origin (interrupted_tool_message i) = None"
  by (simp_all add: interrupted_tool_message_def context_message_def create_tool_message_def message_new_def is_open_def)

lemma scan_interrupted: "mset w = mset is \<Longrightarrow> scan_calls w (map interrupted_tool_message is) = Some []"
proof (induction "is" arbitrary: w)
  case (Cons i "is")
  then have "i \<in> set w" by (metis list.set_intros(1) mset_eq_setD)
  moreover have "mset (remove1 i w) = mset is" using Cons.prems by simp
  ultimately show ?case using Cons.IH by simp
qed simp

lemma scan_more_calls:
  "scan_calls w ms = Some w' \<Longrightarrow> list_all (\<lambda>m. role_of m = Tool) ms \<Longrightarrow> scan_calls (w @ [x]) ms = Some (w' @ [x])"
proof (induction w ms rule: scan_calls.induct)
  case (2 w m ms)
  then obtain i where "ms_tool_call_id (cm_message m) = Some i" "i \<in> set w" "scan_calls (remove1 i w) ms = Some w'"
    by (auto split: option.splits if_splits)
  then show ?case using 2(1) [of i] 2(4) by (simp add: remove1_append)
qed simp

lemma open_index:
  assumes "find_open_assistant_index s = Some i"
  shows "i < length (lf_messages s)" and "is_open (lf_messages s ! i)"
proof -
  let ?n = "length (takeWhile (\<lambda>m. \<not> is_open m) (rev (lf_messages s)))"
  have n: "?n < length (rev (lf_messages s))" "i = length (lf_messages s) - 1 - ?n"
    using assms by (auto simp: find_open_assistant_index_def Let_def split: if_splits)
  then show "i < length (lf_messages s)" by simp
  have "is_open (rev (lf_messages s) ! ?n)" using nth_length_takeWhile [OF n(1)] by simp
  then show "is_open (lf_messages s ! i)" using n by (simp add: rev_nth)
qed

lemma inv_flush: "fold_inv s \<Longrightarrow> flush_deferred s = s"
  by (auto simp: fold_inv_def flush_deferred_def)

lemma open_count_simps [simp]:
  "open_count [] = 0" "open_count (xs @ ys) = open_count xs + open_count ys"
  "open_count (m # ms) = (if is_open m then 1 else 0) + open_count ms"
  by (simp_all add: open_count_def)

lemma open_count_plain [simp]: "list_all plain ms \<Longrightarrow> open_count ms = 0"
  by (induction ms) (auto simp: plain_def)

lemma open_count_interrupted [simp]: "open_count (map interrupted_tool_message ids) = 0"
  by (induction ids) auto

lemma inv_close:
  assumes "fold_inv s"
  shows "fold_inv (close_pending s)" and "lf_pending (close_pending s) = []"
proof -
  obtain w where w: "scan_calls [] (lf_messages s) = Some w" "mset w = mset (lf_pending s)" using assms by (auto simp: fold_inv_def)
  have "scan_calls w (map interrupted_tool_message (lf_pending s) @ lf_deferred s) = Some []"
    using assms by (simp add: scan_append scan_interrupted [OF w(2)] scan_plain fold_inv_def)
  then have "scan_calls [] (lf_messages s @ map interrupted_tool_message (lf_pending s) @ lf_deferred s) = Some []"
    using w by (subst scan_append) simp
  moreover have "list_all message_ok (map interrupted_tool_message (lf_pending s))"
    by (auto simp: list_all_iff message_ok_def plain_def)
  ultimately have "lf_pending s \<noteq> [] \<Longrightarrow> fold_inv (close_pending s) \<and> lf_pending (close_pending s) = []"
    using assms by (auto simp: close_pending_def flush_deferred_def fold_inv_def)
  then show "fold_inv (close_pending s)" "lf_pending (close_pending s) = []"
    using assms by (cases "lf_pending s = []"; simp add: close_pending_def)+
qed

text \<open>The list around the open message.\<close>

lemma open_split:
  assumes "find_open_assistant_index s = Some i"
  obtains xs m ys where "lf_messages s = xs @ m # ys" "i = length xs" "is_open m"
proof -
  have "lf_messages s = take i (lf_messages s) @ lf_messages s ! i # drop (Suc i) (lf_messages s)" "length (take i (lf_messages s)) = i"
    using open_index(1) [OF assms] by (simp_all add: id_take_nth_drop [symmetric])
  then show ?thesis using that open_index(2) [OF assms] by metis
qed

lemma open_none: "find_open_assistant_index s = None \<Longrightarrow> open_count (lf_messages s) = 0"
proof -
  let ?t = "takeWhile (\<lambda>m. \<not> is_open m) (rev (lf_messages s))"
  assume "find_open_assistant_index s = None"
  then have "length (rev (lf_messages s)) \<le> length ?t"
    by (simp add: find_open_assistant_index_def Let_def split: if_splits)
  then have "?t = rev (lf_messages s)" by (subst takeWhile_eq_take) simp
  then have "\<forall>m\<in>set (lf_messages s). \<not> is_open m" by (simp add: takeWhile_eq_all_conv)
  then show ?thesis by (simp add: open_count_def)
qed

lemma open_message: "message_ok m \<Longrightarrow> is_open m \<Longrightarrow> role_of m = Assistant \<and> cm_origin m = None"
  by (auto simp: message_ok_def plain_def)

lemma update_open_eq:
  assumes "lf_messages s = xs @ m # ys" "find_open_assistant_index s = Some (length xs)"
  shows "update_open_assistant f s = s\<lparr> lf_messages := xs @ m\<lparr> cm_message := f (cm_message m) \<rparr> # ys \<rparr>"
  using assms by (simp add: update_open_assistant_def)

definition settled :: "'j loop_event_fold \<Rightarrow> bool" where
  "settled s \<longleftrightarrow> lf_pending s = [] \<and> lf_deferred s = [] \<and> open_count (lf_messages s) = 0"

lemma inv_settle:
  assumes "fold_inv s"
  shows "fold_inv (settle_open_step s)" and "settled (settle_open_step s)"
proof -
  let ?c = "close_pending s"
  have inv: "fold_inv ?c" and pend: "lf_pending ?c = []" using inv_close [OF assms] by auto
  have "fold_inv (settle_open_step s) \<and> settled (settle_open_step s)"
  proof (cases "find_open_assistant_index ?c")
    case None
    then show ?thesis using inv pend open_none [OF None] by (simp add: settle_open_step_def settled_def fold_inv_def Let_def)
  next
    case (Some i)
    then obtain xs m ys where msgs: "lf_messages ?c = xs @ m # ys" and i: "i = length xs" and m: "is_open m" by (rule open_split)
    have ok: "message_ok m" using inv msgs by (simp add: fold_inv_def)
    note om = open_message [OF ok m]
    have sc: "scan_calls [] (xs @ m # ys) = Some []" using inv pend msgs by (auto simp: fold_inv_def)
    let ?m = "m\<lparr> cm_message := (cm_message m)\<lparr> ms_partial := None \<rparr> \<rparr>"
    have v: "scan_calls [] (xs @ ?m # ys) = Some []"
      using sc scan_view [of "xs @ ?m # ys" "xs @ m # ys" "[]"] by (simp add: view_def)
    have e: "scan_calls [] (xs @ ys) = Some []" if "ms_tool_calls (cm_message m) = []"
      using scan_before [OF sc] om that by (simp add: scan_append)
    have okm: "message_ok ?m" using om by (simp add: message_ok_def is_open_def)
    have "open_count xs = 0" "open_count ys = 0" using inv msgs m by (simp_all add: fold_inv_def)
    then show ?thesis
      using inv pend msgs i Some v e okm by (simp add: settle_open_step_def settled_def fold_inv_def Let_def is_open_def)
  qed
  then show "fold_inv (settle_open_step s)" "settled (settle_open_step s)" by auto
qed


lemma inv_fold_new: "list_all plain ms \<Longrightarrow> list_all message_ok ms \<Longrightarrow> fold_inv (fold_new ms)"
  by (simp add: fold_inv_def fold_new_def scan_plain)

lemma inv_append: "fold_inv s \<Longrightarrow> plain m \<Longrightarrow> message_ok m \<Longrightarrow> fold_inv (fold_append_message m s)"
  by (auto simp: fold_inv_def fold_append_message_def scan_append plain_def)

lemma inv_step_begin: "fold_inv s \<Longrightarrow> fold_inv (fold_loop_event json_text (StepBegin uuid x) s)"
  using inv_settle [of s]
  by (auto simp: fold_inv_def settled_def Let_def scan_append context_message_def message_new_def message_ok_def plain_def is_open_def)

lemma inv_step_end:
  assumes "fold_inv s"
  shows "fold_inv (fold_loop_event json_text (StepEnd uuid x) s)" and "settled (fold_loop_event json_text (StepEnd uuid x) s)"
proof -
  have "fold_inv (s\<lparr> lf_open_step_uuid := None \<rparr>)" using assms by (simp add: fold_inv_def)
  note settle = inv_settle [OF this]
  show "fold_inv (fold_loop_event json_text (StepEnd uuid x) s)" "settled (fold_loop_event json_text (StepEnd uuid x) s)"
    using settle inv_flush [OF settle(1)] by simp_all
qed

lemma inv_content: "fold_inv s \<Longrightarrow> fold_inv (fold_loop_event json_text (ContentPartEvent uuid part x) s)"
proof (cases "find_open_assistant_index s")
  case None
  then show "fold_inv s \<Longrightarrow> ?thesis" by (simp add: update_open_assistant_def)
next
  case (Some i)
  assume inv: "fold_inv s"
  from Some obtain xs m ys where msgs: "lf_messages s = xs @ m # ys" and i: "i = length xs" and m: "is_open m" by (rule open_split)
  let ?m = "m\<lparr> cm_message := (cm_message m)\<lparr> ms_content := ms_content (cm_message m) @ [part] \<rparr> \<rparr>"
  have "scan_calls [] (xs @ ?m # ys) = scan_calls [] (xs @ m # ys)" by (rule scan_view) (simp add: view_def)
  moreover have "message_ok ?m" "is_open ?m"
    using inv msgs m by (auto simp: fold_inv_def message_ok_def is_open_def plain_def)
  ultimately show ?thesis
    using inv msgs m update_open_eq [OF msgs, of "\<lambda>m. m\<lparr> ms_content := ms_content m @ [part] \<rparr>"] Some i by (simp add: fold_inv_def)
qed

definition call_in_place :: "'j loop_event_fold \<Rightarrow> bool" where
  "call_in_place s \<longleftrightarrow>
     (case find_open_assistant_index s of None \<Rightarrow> False
      | Some i \<Rightarrow> list_all (\<lambda>m. role_of m = Tool) (drop (Suc i) (lf_messages s)))"

lemma inv_tool_call:
  fixes s :: "'j loop_event_fold"
  assumes inv: "fold_inv s" and place: "call_in_place s" and fresh: "call_id \<notin> set (lf_pending s)"
  shows "fold_inv (fold_loop_event json_text (ToolCallEvent uuid call_id name args extras x) s)"
proof -
  obtain i where i: "find_open_assistant_index s = Some i" "list_all (\<lambda>m. role_of m = Tool) (drop (Suc i) (lf_messages s))"
    using place by (auto simp: call_in_place_def split: option.splits)
  then obtain xs m ys where msgs: "lf_messages s = xs @ m # ys" and l: "i = length xs" and m: "is_open m"
    by (meson open_split)
  define call where "call = \<lparr> tl_id = call_id, tl_name = name, tl_arguments = map_option json_text args, tl_extras = extras, tl_stream_index = None \<rparr>"
  define f :: "'j message \<Rightarrow> 'j message" where "f = (\<lambda>m. m\<lparr> ms_tool_calls := ms_tool_calls m @ [call] \<rparr>)"
  let ?m = "m\<lparr> cm_message := f (cm_message m) \<rparr>"
  let ?s = "s\<lparr> lf_pending := lf_pending s @ [call_id] \<rparr>"
  have ok: "message_ok m" using inv msgs by (simp add: fold_inv_def)
  note om = open_message [OF ok m]
  obtain w where w: "scan_calls [] (xs @ m # ys) = Some w" "mset w = mset (lf_pending s)" using inv msgs by (auto simp: fold_inv_def)
  have not_tool: "role_of m \<noteq> Tool" using om by simp
  note before = scan_before [OF w(1) not_tool]
  have "list_all (\<lambda>m. role_of m = Tool) ys" using i(2) msgs l by simp
  then have "scan_calls (map tl_id (ms_tool_calls (cm_message m)) @ [call_id]) ys = Some (w @ [call_id])"
    using scan_more_calls [OF before(2)] by simp
  then have sc: "scan_calls [] (xs @ ?m # ys) = Some (w @ [call_id])"
    using before(1) not_tool by (simp add: scan_append f_def call_def)
  have okm: "message_ok ?m" "is_open ?m" using om m by (auto simp: message_ok_def is_open_def f_def)
  have idx: "find_open_assistant_index ?s = Some (length xs)"
    using i(1) l by (simp add: find_open_assistant_index_def Let_def split: if_splits)
  have e: "fold_loop_event json_text (ToolCallEvent uuid call_id name args extras x) s = ?s\<lparr> lf_messages := xs @ ?m # ys \<rparr>"
    using update_open_eq [of ?s xs m ys f] msgs idx fresh
    by (simp add: iset_insert_def f_def call_def)
  show ?thesis unfolding e using inv msgs sc w okm fresh m by (simp add: fold_inv_def)
qed

lemma inv_tool_result:
  fixes s :: "'j loop_event_fold"
  assumes inv: "fold_inv s"
  shows "fold_inv (fold_loop_event json_text (ToolResultEvent call_id result x) s)"
proof (cases "call_id \<in> set (lf_pending s)")
  case True
  define m :: "'j context_message" where "m = (context_message (create_tool_message call_id (lr_output result)))
    \<lparr> cm_is_error := lr_is_error result, cm_note := lr_note result \<rparr>"
  have m: "role_of m = Tool" "ms_tool_call_id (cm_message m) = Some call_id" "cm_origin m = None" "\<not> is_open m"
    by (simp_all add: m_def context_message_def create_tool_message_def message_new_def is_open_def)
  obtain w where w: "scan_calls [] (lf_messages s) = Some w" "mset w = mset (lf_pending s)" using inv by (auto simp: fold_inv_def)
  have "call_id \<in> set w" using True w(2) by (metis mset_eq_setD)
  then have sc: "scan_calls [] (lf_messages s @ [m]) = Some (remove1 call_id w)" using w(1) m by (simp add: scan_append)
  have rm: "removeAll call_id (lf_pending s) = remove1 call_id (lf_pending s)"
    using inv by (simp add: fold_inv_def distinct_remove1_removeAll)
  have ms: "mset (remove1 call_id w) = mset (remove1 call_id (lf_pending s))" using w(2) by simp
  have ok: "message_ok m" using m by (simp add: message_ok_def)
  show ?thesis
  proof (cases "remove1 call_id (lf_pending s) = []")
    case empty: True
    then have "remove1 call_id w = []" using ms by (metis mset_zero_iff_right)
    then have "scan_calls [] ((lf_messages s @ [m]) @ lf_deferred s) = Some []"
      using sc inv by (simp add: scan_append [of _ "lf_messages s @ [_]"] scan_plain fold_inv_def del: append_assoc)
    then show ?thesis using True inv rm empty ok m sc \<open>remove1 call_id w = []\<close> by (simp add: fold_inv_def flush_deferred_def Let_def m_def [symmetric])
  next
    case False
    then show ?thesis using True inv rm sc ms ok m by (simp add: fold_inv_def flush_deferred_def Let_def m_def [symmetric])
  qed
qed (use inv in simp)


section \<open>Undo\<close>

lemma real_not_others: "is_real_user_input m \<Longrightarrow> \<not> is_injection m \<and> \<not> is_compaction_summary_message m"
  by (auto simp: is_real_user_input_def is_injection_def is_compaction_summary_message_def split: option.splits prompt_origin.splits)

lemma summary_not_injection: "is_compaction_summary_message m \<Longrightarrow> \<not> is_injection m \<and> \<not> is_real_user_input m"
  by (auto simp: is_compaction_summary_message_def is_injection_def is_real_user_input_def)

abbreviation since_summary :: "'j context_message list \<Rightarrow> 'j context_message list" where
  "since_summary ms \<equiv> takeWhile (\<lambda>m. \<not> is_compaction_summary_message m) ms"

lemma undo_loop_found:
  assumes "0 < remaining" "remaining \<le> length (filter is_real_user_input (since_summary ms))"
  shows "\<exists>a p b. ms = a @ p # b \<and> is_real_user_input p \<and> list_all (\<lambda>m. \<not> is_compaction_summary_message m) a
    \<and> Suc (length (filter is_real_user_input a)) = remaining
    \<and> undo_loop ms remaining c removed =
        \<lparr> uc_cut_index = int (length b), uc_removed_count = removed + remaining, uc_stopped_at_compaction = False \<rparr>"
  using assms
proof (induction ms remaining c removed rule: undo_loop.induct)
  case (2 m before remaining c removed)
  have nsum: "\<not> is_compaction_summary_message m" using 2(4) 2(5) by (auto split: if_splits)
  show ?case
  proof (cases "is_real_user_input m")
    case True
    note m = real_not_others [OF True]
    show ?thesis
    proof (cases "remaining = 1")
      case True
      have "undo_loop (m # before) remaining c removed
          = \<lparr> uc_cut_index = int (length before), uc_removed_count = removed + remaining, uc_stopped_at_compaction = False \<rparr>"
        using m \<open>is_real_user_input m\<close> True by (cases before) simp_all
      then show ?thesis using \<open>is_real_user_input m\<close> True by (intro exI [of _ "[]"] exI [of _ m] exI [of _ before]) simp
    next
      case False
      have "\<exists>a p b. before = a @ p # b \<and> is_real_user_input p \<and> list_all (\<lambda>m. \<not> is_compaction_summary_message m) a
          \<and> Suc (length (filter is_real_user_input a)) = remaining - 1
          \<and> undo_loop before (remaining - 1) (int (length before)) (removed + 1) =
              \<lparr> uc_cut_index = int (length b), uc_removed_count = removed + 1 + (remaining - 1), uc_stopped_at_compaction = False \<rparr>"
        using False 2(4,5) m True by (intro 2(2)) auto
      then obtain a p b where "before = a @ p # b" "is_real_user_input p" "list_all (\<lambda>m. \<not> is_compaction_summary_message m) a"
          "Suc (length (filter is_real_user_input a)) = remaining - 1"
          "undo_loop before (remaining - 1) (int (length before)) (removed + 1) =
              \<lparr> uc_cut_index = int (length b), uc_removed_count = removed + 1 + (remaining - 1), uc_stopped_at_compaction = False \<rparr>"
        by blast
      then show ?thesis using m True False 2(4) by (intro exI [of _ "m # a"] exI [of _ p] exI [of _ b]) simp
    qed
  next
    case False
    then have step: "undo_loop (m # before) remaining c removed = undo_loop before remaining c removed" using nsum 2(4) by simp
    have "\<exists>a p b. before = a @ p # b \<and> is_real_user_input p \<and> list_all (\<lambda>m. \<not> is_compaction_summary_message m) a
        \<and> Suc (length (filter is_real_user_input a)) = remaining
        \<and> undo_loop before remaining c removed =
            \<lparr> uc_cut_index = int (length b), uc_removed_count = removed + remaining, uc_stopped_at_compaction = False \<rparr>"
      using False nsum 2(4,5) by (cases "is_injection m") (intro 2(1), simp_all, intro 2(3), simp_all)
    then obtain a p b where "before = a @ p # b" "is_real_user_input p" "list_all (\<lambda>m. \<not> is_compaction_summary_message m) a"
        "Suc (length (filter is_real_user_input a)) = remaining"
        "undo_loop before remaining c removed =
            \<lparr> uc_cut_index = int (length b), uc_removed_count = removed + remaining, uc_stopped_at_compaction = False \<rparr>"
      by blast
    then show ?thesis unfolding step using nsum False by (intro exI [of _ "m # a"] exI [of _ p] exI [of _ b]) simp
  qed
qed simp

lemma undo_loop_short:
  "length (filter is_real_user_input (since_summary ms)) < remaining
   \<Longrightarrow> uc_removed_count (undo_loop ms remaining c removed) = removed + length (filter is_real_user_input (since_summary ms))
     \<and> uc_stopped_at_compaction (undo_loop ms remaining c removed) = list_ex is_compaction_summary_message ms"
proof (induction ms remaining c removed rule: undo_loop.induct)
  case (2 m before remaining c removed)
  then show ?case
    using real_not_others [of m] summary_not_injection [of m]
    by (cases "is_injection m"; cases "is_compaction_summary_message m"; cases "is_real_user_input m"; simp)
qed simp

text \<open>The prompts of the user behind the last compaction summary: what undo may remove.\<close>

definition undoable_prompts :: "'j context_message list \<Rightarrow> nat" where
  "undoable_prompts history = length (filter is_real_user_input (since_summary (rev history)))"

lemma undo_cut_found:
  assumes "0 < cnt" "cnt \<le> undoable_prompts history"
  obtains kept p removed where "history = kept @ p # removed" "is_real_user_input p"
    "list_all (\<lambda>m. \<not> is_compaction_summary_message m) (p # removed)" "length (filter is_real_user_input (p # removed)) = cnt"
    "compute_undo_cut history cnt = \<lparr> uc_cut_index = int (length kept), uc_removed_count = cnt, uc_stopped_at_compaction = False \<rparr>"
proof -
  obtain a p b where ab: "rev history = a @ p # b" "is_real_user_input p" "list_all (\<lambda>m. \<not> is_compaction_summary_message m) a"
    "Suc (length (filter is_real_user_input a)) = cnt"
    "undo_loop (rev history) cnt (- 1) 0 = \<lparr> uc_cut_index = int (length b), uc_removed_count = 0 + cnt, uc_stopped_at_compaction = False \<rparr>"
    using undo_loop_found [of cnt "rev history" "- 1" 0] assms by (auto simp: undoable_prompts_def)
  have h: "history = rev b @ p # rev a" using arg_cong [OF ab(1), of rev] by simp
  show ?thesis
    by (rule that [of "rev b" p "rev a"]) (use h ab real_not_others [OF ab(2)] in \<open>simp_all add: compute_undo_cut_def rev_filter [symmetric]\<close>)
qed

lemma undo_cut_short:
  assumes "undoable_prompts history < cnt"
  shows "uc_removed_count (compute_undo_cut history cnt) = undoable_prompts history"
    and "uc_stopped_at_compaction (compute_undo_cut history cnt) = list_ex is_compaction_summary_message history"
  using undo_loop_short [of "rev history" cnt "- 1" 0] assms by (simp_all add: undoable_prompts_def compute_undo_cut_def)

lemma undo_enough:
  assumes "0 < cnt" "cnt < 2 ^ 32" "cnt \<le> undoable_prompts (lf_messages s)"
  obtains kept p removed where "lf_messages s = kept @ p # removed" "is_real_user_input p"
    "list_all (\<lambda>m. \<not> is_compaction_summary_message m) (p # removed)" "length (filter is_real_user_input (p # removed)) = cnt"
    "precheck_undo (lf_messages s) cnt = UndoOk" "context_undo cnt s = fold_new kept"
proof -
  obtain kept p removed where u: "lf_messages s = kept @ p # removed" "is_real_user_input p"
      "list_all (\<lambda>m. \<not> is_compaction_summary_message m) (p # removed)" "length (filter is_real_user_input (p # removed)) = cnt"
      "compute_undo_cut (lf_messages s) cnt = \<lparr> uc_cut_index = int (length kept), uc_removed_count = cnt, uc_stopped_at_compaction = False \<rparr>"
    using undo_cut_found [OF assms(1,3)] .
  have full: "is_fully_undoable (compute_undo_cut (lf_messages s) cnt) cnt" using u(5) assms by (simp add: is_fully_undoable_def)
  have t: "take (length kept) (lf_messages s) = kept" "lf_messages s \<noteq> []" using u(1) by simp_all
  have "context_undo cnt s = fold_new kept"
    using full assms(1) t by (simp add: context_undo_def Let_def u(5))
  moreover have "precheck_undo (lf_messages s) cnt = UndoOk" using full by (simp add: precheck_undo_def Let_def)
  ultimately show ?thesis by (intro that [OF u(1-4)])
qed

lemma undo_too_few:
  assumes "cnt < 2 ^ 32" "undoable_prompts (lf_messages s) < cnt"
  shows "\<not> is_fully_undoable (compute_undo_cut (lf_messages s) cnt) cnt" and "context_undo cnt s = s"
proof -
  show "\<not> is_fully_undoable (compute_undo_cut (lf_messages s) cnt) cnt"
    using assms by (simp add: is_fully_undoable_def undo_cut_short)
  then show "context_undo cnt s = s" by (simp add: context_undo_def Let_def)
qed

text \<open>
  C23. Undo is exact: with as many prompts of the user behind the last compaction summary as asked for,
  the precheck accepts and the context keeps the messages in front of the prompt from which on there
  are exactly that many prompts and no summary; with fewer, the context is unchanged and the precheck
  says how many there are and why: a summary is in the way, there is no prompt, or there are too few.
\<close>

theorem undo_exact:
  assumes "0 < cnt" and "cnt < 2 ^ 32"
  shows "if cnt \<le> undoable_prompts (lf_messages s)
    then precheck_undo (lf_messages s) cnt = UndoOk
      \<and> (\<exists>kept p removed. lf_messages s = kept @ p # removed \<and> is_real_user_input p
            \<and> list_all (\<lambda>m. \<not> is_compaction_summary_message m) (p # removed)
            \<and> length (filter is_real_user_input (p # removed)) = cnt \<and> context_undo cnt s = fold_new kept)
    else precheck_undo (lf_messages s) cnt =
        UndoUnavailable (if list_ex is_compaction_summary_message (lf_messages s) then UndoCompactionBoundary
                         else if undoable_prompts (lf_messages s) = 0 then UndoEmpty else UndoInsufficient)
          cnt (undoable_prompts (lf_messages s))
      \<and> context_undo cnt s = s"
proof (cases "cnt \<le> undoable_prompts (lf_messages s)")
  case True
  then show ?thesis by (simp only: if_True) (metis undo_enough [OF assms True])
next
  case False
  then show ?thesis
    using undo_too_few [OF assms(2), of s] undo_cut_short [of "lf_messages s" cnt] by (simp add: precheck_undo_def Let_def)
qed

definition sample_prompt :: "nat \<Rightarrow> unit context_message" where
  "sample_prompt c = context_user_message [c] OriginUserPrompt"

theorem undo_exact_witness:
  "context_undo 1 (fold_new [sample_prompt 97, sample_prompt 98]) = fold_new [sample_prompt 97]"
proof -
  have n: "undoable_prompts (lf_messages (fold_new [sample_prompt 97, sample_prompt 98])) = 2"
    by (simp add: undoable_prompts_def fold_new_def sample_prompt_def context_user_message_def context_message_def message_new_def
        is_compaction_summary_message_def is_real_user_input_def)
  obtain kept p removed where k: "[sample_prompt 97, sample_prompt 98] = kept @ p # removed"
      "length (filter is_real_user_input (p # removed)) = 1"
      "context_undo 1 (fold_new [sample_prompt 97, sample_prompt 98]) = fold_new kept"
    using undo_exact [of 1 "fold_new [sample_prompt 97, sample_prompt 98]"] n by (auto simp: fold_new_def)
  have "is_real_user_input (sample_prompt c)" for c
    by (simp add: sample_prompt_def context_user_message_def context_message_def message_new_def is_real_user_input_def)
  then have "removed = []" using k(1,2) by (cases kept; cases removed) auto
  then show ?thesis using k(1,3) by (cases kept; cases "tl kept") auto
qed

section \<open>Every reachable context\<close>

lemma inv_undo:
  assumes "fold_inv s" "cnt < 2 ^ 32"
  shows "fold_inv (context_undo cnt s)"
proof (cases "0 < cnt \<and> cnt \<le> undoable_prompts (lf_messages s)")
  case True
  then obtain kept p removed where u: "lf_messages s = kept @ p # removed" "is_real_user_input p" "context_undo cnt s = fold_new kept"
    using undo_enough [of cnt s] assms(2) by metis
  obtain w where "scan_calls [] (kept @ p # removed) = Some w" using assms u by (auto simp: fold_inv_def)
  then have "scan_calls [] kept = Some []" using u(2) by (intro scan_before(1)) (auto simp: is_real_user_input_def)
  then show ?thesis using assms u by (auto simp: fold_inv_def fold_new_def split: if_splits)
next
  case False
  then show ?thesis using assms undo_too_few [of cnt s] by (cases "cnt = 0") (auto simp: context_undo_def)
qed

lemma take_within_all:
  assumes "list_all P ms" and "\<And>m t. P m \<Longrightarrow> P (replace_message_text m t)"
  shows "list_all P (take_within arg_text ms n)"
  using assms(1) by (induction arg_text ms n rule: take_within.induct) (auto simp: truncate_user_message_def assms(2))

lemma tail_loop_all:
  assumes "list_all P ms" "list_all P tail" and "\<And>m t. P m \<Longrightarrow> P (replace_message_text m t)"
  shows "case tail_loop arg_text ms n tail of (tail', front, dropped) \<Rightarrow>
    list_all P tail' \<and> list_all P front \<and> (\<forall>m. dropped = Some m \<longrightarrow> P m)"
  using assms(1,2)
  by (induction arg_text ms n tail rule: tail_loop.induct) (auto simp: Let_def assms(3) list_all_rev)

lemma selection_all:
  assumes ms: "list_all P ms" and rep: "\<And>m t. P m \<Longrightarrow> P (replace_message_text m t)"
  shows "list_all P (cs_head (select_compaction_user_messages arg_text ms mx hb))"
    and "list_all P (cs_tail (select_compaction_user_messages arg_text ms mx hb))"
proof -
  obtain tail front dropped where t: "tail_loop arg_text (rev ms) (mx - min hb mx) [] = (tail, front, dropped)"
    by (cases "tail_loop arg_text (rev ms) (mx - min hb mx) []") auto
  have a: "list_all P tail" "list_all P front" "\<forall>m. dropped = Some m \<longrightarrow> P m"
    using tail_loop_all [of P "rev ms" "[]" arg_text "mx - min hb mx"] ms rep unfolding t by (auto simp: list_all_rev)
  then have "list_all P (front @ (case dropped of None \<Rightarrow> [] | Some m \<Rightarrow> [m]))" by (auto split: option.split)
  note take_within_all [OF this rep]
  then show "list_all P (cs_head (select_compaction_user_messages arg_text ms mx hb))"
    and "list_all P (cs_tail (select_compaction_user_messages arg_text ms mx hb))"
    using a ms by (simp_all add: select_compaction_user_messages_def Let_def t)
qed

definition user_plain :: "'j context_message \<Rightarrow> bool" where
  "user_plain m \<longleftrightarrow> role_of m = User \<and> plain m"

lemma user_plain_replace: "user_plain m \<Longrightarrow> user_plain (replace_message_text m t)"
  by (simp add: user_plain_def replace_message_text_def plain_def is_open_def)

lemma user_plain_ok: "user_plain m \<Longrightarrow> plain m \<and> message_ok m"
  by (auto simp: user_plain_def message_ok_def plain_def)

lemma user_plain_message: "user_plain (context_user_message s origin)"
  by (simp add: user_plain_def context_user_message_def context_message_def message_new_def plain_def is_open_def)

lemma inv_compaction:
  assumes "fold_inv s" "si_legacy_tail inp \<noteq> Some True"
  shows "fold_inv (context_apply_compaction arg_text inp s)"
proof -
  have c: "list_all user_plain (collect_compactable_user_messages (lf_messages s))"
    using assms(1)
    by (auto simp: fold_inv_def collect_compactable_user_messages_def list_all_iff user_plain_def is_real_user_input_def message_ok_def)
  note sel = selection_all [of user_plain, OF c user_plain_replace, of arg_text COMPACT_USER_MESSAGE_MAX_TOKENS COMPACT_USER_MESSAGE_HEAD_TOKENS]
  have "list_all user_plain (so_messages (build_context_compaction_shape arg_text (lf_messages s) inp))"
    using assms(2) sel
    by (simp add: build_context_compaction_shape_def Let_def user_plain_message create_compaction_elision_message_def
        create_compaction_summary_message_def)
  then have "list_all plain (so_messages (build_context_compaction_shape arg_text (lf_messages s) inp))"
    "list_all message_ok (so_messages (build_context_compaction_shape arg_text (lf_messages s) inp))"
    by (auto simp: list_all_iff dest: user_plain_ok)
  then show ?thesis by (simp add: context_apply_compaction_def inv_fold_new)
qed

lemma inv_swarm:
  assumes "fold_inv s"
  shows "fold_inv (pop_swarm_mode_reminder s)"
proof (cases "lf_messages s \<noteq> [] \<and> cm_origin (last (lf_messages s)) = Some (OriginInjection (lit ''swarm_mode''))")
  case True
  then obtain xs m where m: "lf_messages s = xs @ [m]" "cm_origin m \<noteq> None" by (cases "lf_messages s" rule: rev_cases) auto
  then have "plain m" using assms by (auto simp: fold_inv_def message_ok_def)
  moreover obtain w where "scan_calls [] (xs @ [m]) = Some w" using assms m by (auto simp: fold_inv_def)
  ultimately have "scan_calls [] xs = Some []" by (intro scan_before(1)) (auto simp: plain_def)
  then show ?thesis using True assms m by (auto simp: pop_swarm_mode_reminder_def fold_inv_def reset_fold_def)
qed (use assms in \<open>auto simp: pop_swarm_mode_reminder_def\<close>)

text \<open>
  What the callers keep to: a message they append is plain, a tool call is new and comes while only
  answers stand behind the open assistant message, a compaction is not a record of the legacy format,
  and the count of an undo is 32 bits wide.
\<close>

fun legal :: "'j loop_event_fold \<Rightarrow> 'j context_op \<Rightarrow> bool" where
  "legal s (AppendMessage m) \<longleftrightarrow> plain m"
| "legal s (AppendLoopEvent (ToolCallEvent _ call_id _ _ _ _)) \<longleftrightarrow> call_in_place s \<and> call_id \<notin> set (lf_pending s)"
| "legal s (ApplyCompaction inp) \<longleftrightarrow> si_legacy_tail inp \<noteq> Some True"
| "legal s (UndoContext cnt) \<longleftrightarrow> cnt < 2 ^ 32"
| "legal s _ \<longleftrightarrow> True"

inductive context_reachable :: "('j \<Rightarrow> str) \<Rightarrow> (str option \<Rightarrow> str) \<Rightarrow> 'j loop_event_fold \<Rightarrow> bool"
  for json_text :: "'j \<Rightarrow> str" and arg_text :: "str option \<Rightarrow> str" where
  start: "context_reachable json_text arg_text (fold_new [])"
| step: "context_reachable json_text arg_text s \<Longrightarrow> legal s op
    \<Longrightarrow> context_reachable json_text arg_text (context_apply json_text arg_text op s)"

lemma plain_ok: "plain m \<Longrightarrow> message_ok m"
  by (auto simp: message_ok_def plain_def)

lemma inv_loop_event: "fold_inv s \<Longrightarrow> legal s (AppendLoopEvent e) \<Longrightarrow> fold_inv (fold_loop_event json_text e s)"
  by (cases e) (auto simp del: fold_loop_event.simps intro: inv_step_begin inv_step_end inv_content inv_tool_call inv_tool_result)

lemma inv_apply: "fold_inv s \<Longrightarrow> legal s op \<Longrightarrow> fold_inv (context_apply json_text arg_text op s)"
  by (cases op)
    (simp_all add: inv_append plain_ok inv_loop_event inv_compaction inv_undo inv_swarm context_clear_def inv_fold_new)

lemma context_reachable_inv: "context_reachable json_text arg_text s \<Longrightarrow> fold_inv s"
  by (induction rule: context_reachable.induct) (simp_all add: inv_fold_new inv_apply)


definition sample_position :: event_position where
  "sample_position = \<lparr> ep_uuid = None, ep_turn_id = None, ep_step = None \<rparr>"

definition sample_end :: step_end where
  "sample_end = \<lparr> sd_turn_id = None, sd_step = None, sd_finish_reason = None, sd_usage = None, sd_llm_first_token_latency_ms = None,
     sd_llm_stream_duration_ms = None, sd_llm_request_build_ms = None, sd_llm_server_first_token_ms = None,
     sd_llm_server_decode_ms = None, sd_llm_client_consume_ms = None, sd_message_id = None, sd_provider_finish_reason = None,
     sd_raw_finish_reason = None \<rparr>"

lemma sample_reachable:
  "context_reachable (\<lambda>_ :: unit. []) (\<lambda>_. [])
     (fold_loop_event (\<lambda>_. []) (ToolCallEvent [1] [7] [9] None None sample_position) (fold_loop_event (\<lambda>_. []) (StepBegin [1] sample_position) (fold_new [])))"
proof -
  let ?j = "\<lambda>_ :: unit. [] :: str" and ?a = "\<lambda>_ :: str option. [] :: str"
  have "context_reachable ?j ?a (context_apply ?j ?a (AppendLoopEvent (StepBegin [1] sample_position)) (fold_new []))"
    by (rule context_reachable.step [OF context_reachable.start]) simp
  from context_reachable.step [OF this, of "AppendLoopEvent (ToolCallEvent [1] [7] [9] None None sample_position)"]
  show ?thesis
    by (simp add: call_in_place_def find_open_assistant_index_def fold_new_def Let_def settle_open_step_def close_pending_def
        is_open_def context_message_def message_new_def)
qed


text \<open>The messages of the user and of the system, also those still deferred.\<close>

definition said :: "'j loop_event_fold \<Rightarrow> 'j context_message list" where
  "said s = filter (\<lambda>m. role_of m = User \<or> role_of m = System) (lf_messages s @ lf_deferred s)"

lemma said_interrupted [simp]: "filter (\<lambda>m. role_of m = User \<or> role_of m = System) (map interrupted_tool_message ids) = []"
  by (induction ids) auto

lemma said_flush: "said (flush_deferred s) = said s"
  by (simp add: said_def flush_deferred_def)

lemma said_close: "said (close_pending s) = said s"
proof (cases "lf_pending s = []")
  case False
  have "said (s\<lparr> lf_messages := lf_messages s @ map interrupted_tool_message (lf_pending s), lf_pending := [] \<rparr>) = said s"
    by (simp add: said_def)
  then show ?thesis using False by (simp add: close_pending_def said_flush)
qed (simp add: close_pending_def)

lemma said_settle:
  assumes "fold_inv s"
  shows "said (settle_open_step s) = said s"
proof (cases "find_open_assistant_index (close_pending s)")
  case None
  then show ?thesis by (simp add: settle_open_step_def said_close Let_def)
next
  case (Some i)
  then obtain xs m ys where msgs: "lf_messages (close_pending s) = xs @ m # ys" and i: "i = length xs" and m: "is_open m" by (rule open_split)
  have "role_of m = Assistant" using open_message [OF _ m] inv_close(1) [OF assms] msgs by (simp add: fold_inv_def)
  then have "said (settle_open_step s) = said (close_pending s)"
    using msgs i Some by (simp add: settle_open_step_def Let_def said_def)
  then show ?thesis by (simp add: said_close)
qed

lemma said_update:
  assumes "fold_inv s" "\<And>m. ms_role (f m) = ms_role m"
  shows "said (update_open_assistant f s) = said s"
proof (cases "find_open_assistant_index s")
  case (Some i)
  then obtain xs m ys where msgs: "lf_messages s = xs @ m # ys" and i: "i = length xs" and m: "is_open m" by (rule open_split)
  have "role_of m = Assistant" using open_message [OF _ m] assms(1) msgs by (simp add: fold_inv_def)
  then show ?thesis using update_open_eq [OF msgs, of f] Some i msgs assms(2) by (simp add: said_def)
qed (simp add: update_open_assistant_def)

lemma said_pending: "said (s\<lparr> lf_pending := p \<rparr>) = said s" "said (s\<lparr> lf_open_step_uuid := u \<rparr>) = said s"
  by (simp_all add: said_def)

lemma said_event:
  assumes "fold_inv s"
  shows "said (fold_loop_event json_text e s) = said s"
proof (cases e)
  case (StepBegin uuid x)
  have "said (fold_loop_event json_text e s) = said (settle_open_step s)"
    using inv_settle [OF assms] StepBegin by (simp add: said_def Let_def settled_def context_message_def message_new_def)
  then show ?thesis by (simp add: said_settle [OF assms])
next
  case (StepEnd uuid x)
  have "fold_inv (s\<lparr> lf_open_step_uuid := None \<rparr>)" using assms by (simp add: fold_inv_def)
  from said_settle [OF this] show ?thesis using StepEnd by (simp add: said_flush said_pending)
next
  case (ContentPartEvent uuid part x)
  then show ?thesis by (simp add: said_update [OF assms])
next
  case (ToolCallEvent uuid call_id name args extras x)
  let ?s = "s\<lparr> lf_pending := iset_insert call_id (lf_pending s) \<rparr>"
  have "find_open_assistant_index ?s = find_open_assistant_index s" by (simp add: find_open_assistant_index_def Let_def)
  then have "update_open_assistant f ?s = (update_open_assistant f s)\<lparr> lf_pending := iset_insert call_id (lf_pending s) \<rparr>" for f
    by (simp add: update_open_assistant_def split: option.split)
  then show ?thesis using ToolCallEvent by (simp add: said_pending said_update [OF assms])
next
  case (ToolResultEvent call_id result x)
  then show ?thesis
    by (simp add: said_flush Let_def) (simp add: said_def create_tool_message_def context_message_def message_new_def)
qed

text \<open>
  C38. What the user and the system say is never lost or reordered: an event of the loop keeps these
  messages, those deferred behind pending calls included, as they are, and appending a message adds it
  at the end, whether calls are pending or not.
\<close>

theorem context_keeps_said:
  assumes "context_reachable json_text arg_text s"
  shows "said (context_apply json_text arg_text (AppendLoopEvent e) s) = said s
    \<and> said (context_apply json_text arg_text (AppendMessage m) s)
        = said s @ (if role_of m = User \<or> role_of m = System then [m] else [])"
proof -
  have inv: "fold_inv s" using context_reachable_inv [OF assms] .
  then have "lf_pending s = [] \<Longrightarrow> lf_deferred s = []" by (simp add: fold_inv_def)
  then have "said (fold_append_message m s) = said s @ (if role_of m = User \<or> role_of m = System then [m] else [])"
    by (auto simp: said_def fold_append_message_def)
  then show ?thesis by (simp add: said_event [OF inv])
qed

theorem context_keeps_said_witness:
  "said (context_apply (\<lambda>_ :: unit. []) (\<lambda>_. []) (AppendMessage (sample_prompt 97))
      (fold_loop_event (\<lambda>_. []) (ToolCallEvent [1] [7] [9] None None sample_position) (fold_loop_event (\<lambda>_. []) (StepBegin [1] sample_position) (fold_new []))))
   = [sample_prompt 97]"
proof -
  let ?s = "fold_loop_event (\<lambda>_ :: unit. []) (ToolCallEvent [1] [7] [9] None None sample_position) (fold_loop_event (\<lambda>_. []) (StepBegin [1] sample_position) (fold_new []))"
  have "said ?s = []" using said_event [of "fold_loop_event (\<lambda>_. []) (StepBegin [1] sample_position) (fold_new [])"]
    by (simp add: said_def fold_new_def settle_open_step_def close_pending_def find_open_assistant_index_def Let_def
        update_open_assistant_def is_open_def context_message_def message_new_def)
  then show ?thesis
    using context_keeps_said [OF sample_reachable, of "StepEnd [1] sample_end" "sample_prompt 97"]
    by (simp add: sample_prompt_def context_user_message_def context_message_def message_new_def)
qed

end
