(* ===== verification/ContextCompaction.thy ===== *)
theory ContextCompaction
  imports ContextSafety
begin

text \<open>
  What compaction keeps of the user's messages (\<open>compaction_handoff.rs\<close>): how many tokens at most, and
  which texts. A message cut to the rest of a budget still costs the token of its role, so each
  of the two budgets may be exceeded by one.
\<close>

section \<open>Truncated texts\<close>

lemma div_ceil_zero: "div_ceil 0 4 = 0"
  by (simp add: div_ceil_def)

lemma truncate_loop_prefix:
  "div_ceil a 4 + n \<le> mx \<Longrightarrow> \<exists>pre rest. truncate_loop cs mx a n taken = taken @ pre \<and> cs = pre @ rest
     \<and> div_ceil (a + length (filter is_ascii pre)) 4 + (n + length (filter (\<lambda>c. \<not> is_ascii c) pre)) \<le> mx"
proof (induction cs mx a n taken rule: truncate_loop.induct)
  case (2 c cs mx a n taken)
  let ?a = "if is_ascii c then a + 1 else a" and ?n = "if is_ascii c then n else n + 1"
  show ?case
  proof (cases "div_ceil ?a 4 + ?n > mx")
    case False
    then obtain pre rest where "truncate_loop cs mx ?a ?n (taken @ [c]) = (taken @ [c]) @ pre" "cs = pre @ rest"
      "div_ceil (?a + length (filter is_ascii pre)) 4 + (?n + length (filter (\<lambda>c. \<not> is_ascii c) pre)) \<le> mx"
      using 2(1) [OF refl refl] by auto
    then show ?thesis using False by (intro exI [of _ "c # pre"] exI [of _ rest]) (auto simp: Let_def)
  qed (use 2(2) in \<open>auto simp: Let_def\<close>)
qed auto

lemma truncate_prefix:
  obtains rest where "s = truncate_text_to_tokens s mx @ rest" "estimate_tokens (truncate_text_to_tokens s mx) \<le> mx"
proof (cases "mx = 0")
  case False
  have "div_ceil 0 4 + 0 \<le> mx" by (simp add: div_ceil_zero)
  from truncate_loop_prefix [OF this, of s "[]"]
  obtain pre rest where "truncate_loop s mx 0 0 [] = [] @ pre" "s = pre @ rest"
    "div_ceil (0 + length (filter is_ascii pre)) 4 + (0 + length (filter (\<lambda>c. \<not> is_ascii c) pre)) \<le> mx"
    by blast
  then show ?thesis using that False by (simp add: truncate_text_to_tokens_def estimate_tokens_counts)
qed (use that in \<open>simp add: truncate_text_to_tokens_def\<close>)

lemma truncate_suffix:
  obtains rest where "s = rest @ truncate_text_to_tokens_from_end s mx" "estimate_tokens (truncate_text_to_tokens_from_end s mx) \<le> mx"
proof -
  have e: "truncate_text_to_tokens_from_end s mx = rev (truncate_text_to_tokens (rev s) mx)"
    by (simp add: truncate_text_to_tokens_from_end_def truncate_text_to_tokens_def)
  obtain rest where r: "rev s = truncate_text_to_tokens (rev s) mx @ rest" "estimate_tokens (truncate_text_to_tokens (rev s) mx) \<le> mx"
    by (rule truncate_prefix)
  have "s = rev rest @ truncate_text_to_tokens_from_end s mx" using arg_cong [OF r(1), of rev] by (simp add: e)
  moreover have "estimate_tokens (truncate_text_to_tokens_from_end s mx) \<le> mx"
    using r(2) by (simp add: e estimate_tokens_counts rev_filter [symmetric])
  ultimately show ?thesis by (rule that)
qed

section \<open>The messages kept\<close>

abbreviation text_of :: "'j context_message \<Rightarrow> str" where
  "text_of m \<equiv> content_text_parts (ms_content (cm_message m))"

definition texts :: "'j context_message list \<Rightarrow> str" where
  "texts ms = concat (map text_of ms)"

abbreviation total_tokens :: "(str option \<Rightarrow> str) \<Rightarrow> 'j context_message list \<Rightarrow> nat" where
  "total_tokens arg_text ms \<equiv> sum_list (map (tokens_of arg_text) ms)"

lemma texts_simps [simp]: "texts [] = []" "texts (m # ms) = text_of m @ texts ms" "texts (xs @ ys) = texts xs @ texts ys"
  by (simp_all add: texts_def)

lemma text_of_replace [simp]: "text_of (replace_message_text m s) = s"
  by (simp add: replace_message_text_def content_text_parts_def)

lemma tokens_of_replace: "role_of m = User \<Longrightarrow> tokens_of arg_text (replace_message_text m s) = 1 + estimate_tokens s"
  using estimate_tokens_user
  by (simp add: replace_message_text_def estimate_tokens_for_message_def
      estimate_tokens_for_content_parts_def estimate_tokens_for_content_part_def)

lemma take_within_texts: "\<exists>rest. texts ms = texts (take_within arg_text ms n) @ rest"
proof (induction arg_text ms n rule: take_within.induct)
  case (2 arg_text m ms n)
  obtain rest where "text_of m = truncate_text_to_tokens (text_of m) n @ rest" by (rule truncate_prefix)
  then have "texts (m # ms) = texts [truncate_user_message m n] @ rest @ texts ms" by (simp add: truncate_user_message_def)
  then show ?case using 2 by auto
qed simp

lemma take_within_tokens: "list_all (\<lambda>m. role_of m = User) ms \<Longrightarrow> total_tokens arg_text (take_within arg_text ms n) \<le> n + 1"
proof (induction arg_text ms n rule: take_within.induct)
  case (2 arg_text m ms n)
  have "estimate_tokens (truncate_text_to_tokens (text_of m) n) \<le> n" by (rule truncate_prefix)
  then have "tokens_of arg_text (truncate_user_message m n) \<le> n + 1" using 2 by (simp add: truncate_user_message_def tokens_of_replace)
  then show ?case using 2 by auto
qed simp

lemma tail_loop_texts:
  "tail_loop arg_text ms n tail = (tail', front, dropped)
   \<Longrightarrow> texts (rev ms) @ texts tail = texts front @ (case dropped of None \<Rightarrow> [] | Some m \<Rightarrow> text_of m) @ texts tail'"
proof (induction arg_text ms n tail rule: tail_loop.induct)
  case (2 arg_text m before n tail)
  show ?case
  proof (cases "n \<noteq> 0 \<and> n < tokens_of arg_text m")
    case True
    let ?k = "truncate_text_to_tokens_from_end (text_of m) n"
    obtain rest where rest: "text_of m = rest @ ?k" by (rule truncate_suffix)
    have "take (length (text_of m) - length ?k) (text_of m) = rest"
      using arg_cong [OF rest, of length] arg_cong [OF rest, of "take (length rest)"] by simp
    then show ?thesis using 2(2) True rest by (auto simp: Let_def)
  next
    case False
    show ?thesis using 2 False by (cases "n = 0") (auto split: if_splits)
  qed
qed auto

lemma tail_loop_tokens:
  "list_all (\<lambda>m. role_of m = User) ms \<Longrightarrow> tail_loop arg_text ms n tail = (tail', front, dropped)
   \<Longrightarrow> total_tokens arg_text tail' \<le> total_tokens arg_text tail + n + 1"
proof (induction arg_text ms n tail rule: tail_loop.induct)
  case (2 arg_text m before n tail)
  have "estimate_tokens (truncate_text_to_tokens_from_end (text_of m) n) \<le> n" by (rule truncate_suffix)
  then have "tokens_of arg_text (replace_message_text m (truncate_text_to_tokens_from_end (text_of m) n)) \<le> n + 1"
    using 2(2) by (simp add: tokens_of_replace)
  then show ?case using 2 by (auto simp: Let_def split: if_splits)
qed auto

lemma selection_elided:
  fixes hb :: nat
  assumes "mx < total_tokens arg_text ms" "list_all (\<lambda>m. role_of m = User) ms"
  defines "sel \<equiv> select_compaction_user_messages arg_text ms mx hb"
  shows "total_tokens arg_text (cs_head sel) \<le> min hb mx + 1" and "total_tokens arg_text (cs_tail sel) \<le> mx - min hb mx + 1"
    and "\<exists>middle. texts ms = texts (cs_head sel) @ middle @ texts (cs_tail sel)" and "cs_elided sel"
    and "cs_omitted_tokens sel = total_tokens arg_text ms - total_tokens arg_text (cs_head sel @ cs_tail sel)"
proof -
  obtain tail front dropped where t: "tail_loop arg_text (rev ms) (mx - min hb mx) [] = (tail, front, dropped)"
    by (cases "tail_loop arg_text (rev ms) (mx - min hb mx) []") auto
  define cand where "cand = front @ (case dropped of None \<Rightarrow> [] | Some m \<Rightarrow> [m])"
  have sel: "sel = \<lparr> cs_head = take_within arg_text cand (min hb mx), cs_tail = tail, cs_elided = True,
      cs_omitted_tokens = total_tokens arg_text ms - total_tokens arg_text (take_within arg_text cand (min hb mx) @ tail) \<rparr>"
    using assms(1) by (simp add: sel_def select_compaction_user_messages_def Let_def t cand_def)
  have "role_of (replace_message_text m s) = role_of m" for m :: "'a context_message" and s by (simp add: replace_message_text_def)
  then have users: "list_all (\<lambda>m. role_of m = User) cand"
    using tail_loop_all [of "\<lambda>m. role_of m = User" "rev ms" "[]" arg_text "mx - min hb mx"] assms(2)
    by (auto simp: t cand_def list_all_rev split: option.split)
  obtain rest where "texts cand = texts (take_within arg_text cand (min hb mx)) @ rest" using take_within_texts by blast
  moreover have "texts ms = texts cand @ texts tail"
    using tail_loop_texts [OF t] by (auto simp: cand_def split: option.splits)
  ultimately show "\<exists>middle. texts ms = texts (cs_head sel) @ middle @ texts (cs_tail sel)" by (simp add: sel)
  show "total_tokens arg_text (cs_head sel) \<le> min hb mx + 1" using take_within_tokens [OF users] by (simp add: sel)
  show "total_tokens arg_text (cs_tail sel) \<le> mx - min hb mx + 1"
    using tail_loop_tokens [OF _ t] assms(2) by (simp add: sel list_all_rev)
  show "cs_elided sel" "cs_omitted_tokens sel = total_tokens arg_text ms - total_tokens arg_text (cs_head sel @ cs_tail sel)"
    by (simp_all add: sel)
qed

lemma selection_all_kept:
  "total_tokens arg_text ms \<le> mx \<Longrightarrow> select_compaction_user_messages arg_text ms mx hb
     = \<lparr> cs_head = [], cs_tail = ms, cs_elided = False, cs_omitted_tokens = 0 \<rparr>"
  by (simp add: select_compaction_user_messages_def)

lemma collected_users: "list_all (\<lambda>m. role_of m = User) (collect_compactable_user_messages history)"
  by (simp add: collect_compactable_user_messages_def list_all_iff is_real_user_input_def)

text \<open>
  C22. Compaction bounds the user's messages it keeps: those of the front by 2000 tokens and those of
  the end by 18000, each exceeded by at most the one token that the role of a cut message costs; when all of
  them take at most 20000 tokens they are kept unchanged and nothing is elided.
\<close>

theorem compaction_budget:
  "let ms = collect_compactable_user_messages history;
       sel = select_compaction_user_messages arg_text ms COMPACT_USER_MESSAGE_MAX_TOKENS COMPACT_USER_MESSAGE_HEAD_TOKENS
   in if total_tokens arg_text ms \<le> 20000
      then cs_head sel = [] \<and> cs_tail sel = ms \<and> \<not> cs_elided sel \<and> cs_omitted_tokens sel = 0
      else cs_elided sel \<and> total_tokens arg_text (cs_head sel) \<le> 2001 \<and> total_tokens arg_text (cs_tail sel) \<le> 18001
        \<and> cs_omitted_tokens sel = total_tokens arg_text ms - total_tokens arg_text (cs_head sel @ cs_tail sel)"
proof (cases "total_tokens arg_text (collect_compactable_user_messages history) \<le> 20000")
  case True
  then show ?thesis
    by (simp add: Let_def selection_all_kept COMPACT_USER_MESSAGE_MAX_TOKENS_def)
next
  case False
  then have "COMPACT_USER_MESSAGE_MAX_TOKENS < total_tokens arg_text (collect_compactable_user_messages history)"
    by (simp add: COMPACT_USER_MESSAGE_MAX_TOKENS_def)
  note sel = selection_elided [OF this collected_users, of COMPACT_USER_MESSAGE_HEAD_TOKENS]
  have mn: "min COMPACT_USER_MESSAGE_HEAD_TOKENS COMPACT_USER_MESSAGE_MAX_TOKENS = 2000"
    "COMPACT_USER_MESSAGE_MAX_TOKENS - 2000 = 18000"
    by (simp_all add: COMPACT_USER_MESSAGE_HEAD_TOKENS_def COMPACT_USER_MESSAGE_MAX_TOKENS_def)
  show ?thesis using False sel(1,2,4,5) unfolding Let_def mn by simp
qed


definition sample_shape_input :: "unit compaction_shape_input" where
  "sample_shape_input = \<lparr> si_summary = [115], si_legacy_summary_message = None, si_context_summary = None, si_compacted_count = 1,
     si_tokens_before = 9, si_tokens_after = None, si_kept_user_message_count = None, si_kept_head_user_message_count = None,
     si_dropped_count = None, si_legacy_tail = None \<rparr>"


text \<open>A cut message can exceed the budget: the texts fit, the role is not counted.\<close>

lemma cut_message_exceeds:
  "total_tokens (\<lambda>_. []) (take_within (\<lambda>_. []) [context_user_message [97, 97, 97, 97, 97] OriginUserPrompt :: unit context_message] 1) = 2"
  using estimate_tokens_user
  by (simp add: context_user_message_def context_message_def message_new_def truncate_user_message_def replace_message_text_def
      estimate_tokens_for_message_def estimate_tokens_for_content_parts_def estimate_tokens_for_content_part_def
      content_text_parts_def truncate_text_to_tokens_def estimate_tokens_counts is_ascii_def div_ceil_def)

end
