(* ===== verification/ContextProjector.thy ===== *)
theory ContextProjector
  imports ContextCompaction
begin

text \<open>
  The projection of a context into the messages of a request (\<open>agent/context_projector/service.rs\<close>) and
  the rendering of tool results (\<open>agent/context_memory/tool_result_render.rs\<close>). Parameters: \<open>sha\<close>, the hash
  of a media part; \<open>hash_order\<close>, the order in which the iteration over a hash map yields its entries;
  \<open>debug_text\<close>, the text the \<open>Debug\<close> trait gives an anomaly. A slot is an index into the messages so
  far; the lemmas show that it is never out of range.
\<close>

section \<open>Rendering of tool results\<close>

definition TOOL_ERROR_STATUS :: str where
  "TOOL_ERROR_STATUS = lit ''<system>ERROR: Tool execution failed.</system>''"

definition TOOL_EMPTY_STATUS :: str where
  "TOOL_EMPTY_STATUS = lit ''<system>Tool output is empty.</system>''"

definition TOOL_EMPTY_ERROR_STATUS :: str where
  "TOOL_EMPTY_ERROR_STATUS = lit ''<system>ERROR: Tool execution failed. Tool output is empty.</system>''"

definition TOOL_OUTPUT_EMPTY_TEXT :: str where
  "TOOL_OUTPUT_EMPTY_TEXT = lit ''Tool output is empty.''"

record renderable_tool_result =
  rr_output :: tool_output
  rr_note :: "str option"
  rr_is_error :: "bool option"

definition is_empty_output_text :: "str \<Rightarrow> bool" where
  "is_empty_output_text s \<longleftrightarrow> trim s = [] \<or> trim s = TOOL_OUTPUT_EMPTY_TEXT"

definition blank_text :: "content_part \<Rightarrow> bool" where
  "blank_text part \<longleftrightarrow> (case part of TextPart s \<Rightarrow> trim s = [] | _ \<Rightarrow> False)"

definition is_empty_equivalent_content_array :: "content_part list \<Rightarrow> bool" where
  "is_empty_equivalent_content_array parts \<longleftrightarrow> list_all blank_text parts"

definition render_single_text :: "str \<Rightarrow> bool option \<Rightarrow> content_part list" where
  "render_single_text s is_error =
     (if is_error = Some True then
        (if s = [] then [TextPart TOOL_EMPTY_ERROR_STATUS] else [TextPart (TOOL_ERROR_STATUS @ [10] @ s)])
      else if is_empty_output_text s then [TextPart TOOL_EMPTY_STATUS]
      else [TextPart s])"

definition render_status :: "renderable_tool_result \<Rightarrow> content_part list" where
  "render_status result =
     (case rr_output result of
        OutputText s \<Rightarrow> render_single_text s (rr_is_error result)
      | OutputParts [TextPart s] \<Rightarrow> render_single_text s (rr_is_error result)
      | OutputParts parts \<Rightarrow>
          if is_empty_equivalent_content_array parts
          then [TextPart (if rr_is_error result = Some True then TOOL_EMPTY_ERROR_STATUS else TOOL_EMPTY_STATUS)]
          else (if rr_is_error result = Some True then [TextPart TOOL_ERROR_STATUS] else []) @ parts)"

definition render_tool_result_for_model :: "renderable_tool_result \<Rightarrow> content_part list" where
  "render_tool_result_for_model result =
     (let rendered = render_status result in
      case rr_note result of
        None \<Rightarrow> rendered
      | Some note \<Rightarrow>
          if note = [] then rendered
          else (case rendered of
                  [TextPart s] \<Rightarrow> [TextPart (s @ [10] @ note)]
                | _ \<Rightarrow> rendered @ [TextPart note]))"

section \<open>Projection\<close>

definition MEDIA_DEGRADE_KEEP_RECENT :: nat where "MEDIA_DEGRADE_KEEP_RECENT = 2"

definition TOOL_INTERRUPTED_TEXT :: str where
  "TOOL_INTERRUPTED_TEXT = lit ''Tool result is not available in the current context. Do not assume the tool completed successfully.''"

datatype projection_anomaly =
    ToolResultReordered str
  | ToolResultSynthesized str bool
  | OrphanToolResultDropped str
  | DuplicateToolCallDropped str
  | DuplicateToolResultDropped str
  | LeadingNonUserDropped role
  | ConsecutiveAssistantsMerged
  | WhitespaceTextDropped role
  | VacuousMessageDropped role

datatype context_projector_error = EmptyToolResult "str option"

definition clean_content ::
  "'j context_message \<Rightarrow> projection_anomaly list \<Rightarrow> context_projector_error + content_part list \<times> projection_anomaly list" where
  "clean_content source anomalies =
     (let m = cm_message source;
          raw = (if ms_role m = Tool
                 then render_tool_result_for_model
                   \<lparr> rr_output = (case ms_content m of [TextPart s] \<Rightarrow> OutputText s | ps \<Rightarrow> OutputParts ps),
                     rr_note = cm_note source, rr_is_error = cm_is_error source \<rparr>
                 else ms_content m);
          content = filter (\<lambda>p. \<not> blank_text p) raw;
          dropped = filter (\<lambda>p. blank_text p \<and> p \<noteq> TextPart []) raw
      in if ms_role m = Tool \<and> content = [] then Inl (EmptyToolResult (ms_tool_call_id m))
         else Inr (content, anomalies @ map (\<lambda>_. WhitespaceTextDropped (ms_role m)) dropped))"

definition to_wire :: "'j context_message \<Rightarrow> content_part list \<Rightarrow> 'j message" where
  "to_wire source content = (cm_message source)\<lparr> ms_content := content \<rparr>"

definition interrupted_tool_result :: "str \<Rightarrow> 'j message" where
  "interrupted_tool_result call_id =
     (message_new Tool [TextPart TOOL_INTERRUPTED_TEXT] [])\<lparr> ms_tool_call_id := Some call_id \<rparr>"

type_synonym slots = "(str, nat \<times> nat \<times> bool) imap"

record 'j projection =
  pj_out :: "'j message list"
  pj_slots :: slots
  pj_user_merge :: "nat option"
  pj_anomalies :: "projection_anomaly list"

definition is_last :: "nat option \<Rightarrow> nat \<Rightarrow> bool" where
  "is_last last_non_tool owner \<longleftrightarrow> (case last_non_tool of None \<Rightarrow> False | Some l \<Rightarrow> owner \<ge> l)"

text \<open>The result of a call that got none: into its slot, with the anomaly.\<close>

definition synthesize :: "nat option \<Rightarrow> str \<Rightarrow> nat \<times> nat \<times> bool \<Rightarrow> 'j projection \<Rightarrow> 'j projection" where
  "synthesize last_non_tool call_id entry p =
     (case entry of (slot, owner, _) \<Rightarrow>
        p\<lparr> pj_out := (pj_out p)[slot := interrupted_tool_result call_id],
           pj_anomalies := pj_anomalies p @ [ToolResultSynthesized call_id (is_last last_non_tool owner)] \<rparr>)"

fun push_calls :: "nat option \<Rightarrow> nat \<Rightarrow> 'j tool_call list \<Rightarrow> 'j projection \<Rightarrow> 'j projection" where
  "push_calls last_non_tool index [] p = p"
| "push_calls last_non_tool index (c # cs) p =
     (let previous = imap_get (pj_slots p) (tl_id c);
          p = p\<lparr> pj_slots := imap_insert (tl_id c) (length (pj_out p), index, False) (pj_slots p) \<rparr>;
          p = (case previous of None \<Rightarrow> p | Some entry \<Rightarrow> synthesize last_non_tool (tl_id c) entry p)
      in push_calls last_non_tool index cs (p\<lparr> pj_out := pj_out p @ [interrupted_tool_result (tl_id c)] \<rparr>))"

definition project_tool ::
  "'j context_message \<Rightarrow> 'j projection \<Rightarrow> context_projector_error + 'j projection" where
  "project_tool source p =
     (case ms_tool_call_id (cm_message source) of
        None \<Rightarrow> Inr p
      | Some call_id \<Rightarrow>
          (case imap_get (pj_slots p) call_id of
             None \<Rightarrow> Inr (p\<lparr> pj_anomalies := pj_anomalies p @ [OrphanToolResultDropped call_id] \<rparr>)
           | Some (slot, owner, foreign) \<Rightarrow>
               (case clean_content source (pj_anomalies p @ (if foreign then [ToolResultReordered call_id] else [])) of
                  Inl e \<Rightarrow> Inl e
                | Inr (content, anomalies) \<Rightarrow>
                    Inr (p\<lparr> pj_slots := imap_remove call_id (pj_slots p), pj_out := (pj_out p)[slot := to_wire source content],
                            pj_user_merge := None, pj_anomalies := anomalies \<rparr>))))"

definition project_message ::
  "nat option \<Rightarrow> nat \<Rightarrow> 'j context_message \<Rightarrow> 'j projection \<Rightarrow> context_projector_error + 'j projection" where
  "project_message last_non_tool index source p =
     (let m = cm_message source;
          p = p\<lparr> pj_slots := map (\<lambda>(k, (slot, owner, _)). (k, (slot, owner, True))) (pj_slots p) \<rparr> in
      case clean_content source (pj_anomalies p) of
        Inl e \<Rightarrow> Inl e
      | Inr (content, anomalies) \<Rightarrow>
          (let p = p\<lparr> pj_anomalies := anomalies \<rparr>;
               bare = (ms_tool_calls m = [] \<and> (case ms_tools m of None \<Rightarrow> True | Some ts \<Rightarrow> ts = []));
               can_merge = (ms_role m = User \<and> cm_origin source = Some OriginUserPrompt) in
           if bare \<and> content = [] then Inr p
           else if bare \<and> list_all is_vacuous_content_part content
           then Inr (p\<lparr> pj_anomalies := pj_anomalies p @ [VacuousMessageDropped (ms_role m)] \<rparr>)
           else
             (case (if can_merge then pj_user_merge p else None) of
                Some i \<Rightarrow>
                  (let prior = pj_out p ! i
                   in Inr (p\<lparr> pj_out := (pj_out p)[i := prior\<lparr> ms_content := ms_content prior @ [TextPart [10, 10]] @ content \<rparr>] \<rparr>))
              | None \<Rightarrow>
                  (let out = pj_out p @ [to_wire source content]
                   in Inr (push_calls last_non_tool index (ms_tool_calls m)
                        (p\<lparr> pj_out := out, pj_user_merge := if can_merge then Some (length out - 1) else None \<rparr>))))))"

definition is_partial :: "'j context_message \<Rightarrow> bool" where
  "is_partial source \<longleftrightarrow> ms_partial (cm_message source) = Some True"

definition project_step ::
  "bool \<Rightarrow> nat option \<Rightarrow> nat \<Rightarrow> 'j context_message \<Rightarrow> 'j projection \<Rightarrow> context_projector_error + 'j projection" where
  "project_step has_assistant last_non_tool index source p =
     (if is_partial source then Inr p
      else if ms_role (cm_message source) = Tool \<and> has_assistant then project_tool source p
      else project_message last_non_tool index source p)"

fun project_loop ::
  "bool \<Rightarrow> nat option \<Rightarrow> nat \<Rightarrow> 'j context_message list \<Rightarrow> 'j projection \<Rightarrow> context_projector_error + 'j projection" where
  "project_loop has_assistant last_non_tool index [] p = Inr p"
| "project_loop has_assistant last_non_tool index (source # rest) p =
     (case project_step has_assistant last_non_tool index source p of
        Inl e \<Rightarrow> Inl e
      | Inr p \<Rightarrow> project_loop has_assistant last_non_tool (index + 1) rest p)"

definition rposition :: "('a \<Rightarrow> bool) \<Rightarrow> 'a list \<Rightarrow> nat option" where
  "rposition P xs =
     (let n = length (takeWhile (\<lambda>x. \<not> P x) (rev xs)) in if n < length xs then Some (length xs - 1 - n) else None)"

definition project ::
  "(slots \<Rightarrow> slots) \<Rightarrow> 'j context_message list \<Rightarrow> projection_anomaly list
   \<Rightarrow> context_projector_error + 'j message list \<times> projection_anomaly list" where
  "project hash_order history anomalies =
     (let has_assistant = list_ex (\<lambda>m. \<not> is_partial m \<and> ms_role (cm_message m) = Assistant) history;
          last_non_tool = rposition (\<lambda>m. ms_role (cm_message m) \<noteq> Tool \<and> \<not> is_partial m) history in
      case project_loop has_assistant last_non_tool 0 history
             \<lparr> pj_out = [], pj_slots = [], pj_user_merge = None, pj_anomalies = anomalies \<rparr> of
        Inl e \<Rightarrow> Inl e
      | Inr p \<Rightarrow>
          (let p = fold (\<lambda>(call_id, entry). synthesize last_non_tool call_id entry) (hash_order (pj_slots p)) p
           in Inr (pj_out p, pj_anomalies p)))"

section \<open>The strict projection\<close>

record 'j strict =
  sx_calls :: "str list"
  sx_results :: "(str, nat) imap"
  sx_out :: "'j message list"
  sx_anomalies :: "projection_anomaly list"

fun retain_calls ::
  "'j tool_call list \<Rightarrow> str list \<Rightarrow> projection_anomaly list \<Rightarrow> 'j tool_call list \<times> str list \<times> projection_anomaly list" where
  "retain_calls [] calls anomalies = ([], calls, anomalies)"
| "retain_calls (c # cs) calls anomalies =
     (if tl_id c \<in> set calls
      then retain_calls cs calls (anomalies @ [DuplicateToolCallDropped (tl_id c)])
      else (let (kept, calls, anomalies) = retain_calls cs (iset_insert (tl_id c) calls) anomalies in (c # kept, calls, anomalies)))"

definition strict_dedup :: "'j message \<Rightarrow> 'j strict \<Rightarrow> 'j message \<times> 'j strict" where
  "strict_dedup m s =
     (if ms_role m = Assistant
      then (let (kept, calls, anomalies) = retain_calls (ms_tool_calls m) (sx_calls s) (sx_anomalies s)
            in (m\<lparr> ms_tool_calls := kept \<rparr>, s\<lparr> sx_calls := calls, sx_anomalies := anomalies \<rparr>))
      else (m, s))"

definition strict_push :: "'j message \<Rightarrow> 'j strict \<Rightarrow> 'j strict" where
  "strict_push m s =
     (if sx_out s \<noteq> [] \<and> ms_role (last (sx_out s)) = Assistant \<and> ms_role m = Assistant
      then (let previous = last (sx_out s)
            in s\<lparr> sx_out := butlast (sx_out s)
                    @ [previous\<lparr> ms_content := ms_content previous @ ms_content m,
                                 ms_tool_calls := ms_tool_calls previous @ ms_tool_calls m \<rparr>],
                  sx_anomalies := sx_anomalies s @ [ConsecutiveAssistantsMerged] \<rparr>)
      else s\<lparr> sx_out := sx_out s @ [m] \<rparr>)"

definition strict_step :: "'j message \<Rightarrow> 'j strict \<Rightarrow> 'j strict" where
  "strict_step m s =
     (let (m, s) = strict_dedup m s in
      case (if ms_role m = Tool then ms_tool_call_id m else None) of
        None \<Rightarrow> strict_push m s
      | Some call_id \<Rightarrow>
          (let known = imap_get (sx_results s) call_id \<noteq> None;
               s = s\<lparr> sx_results := imap_insert call_id (length (sx_out s)) (sx_results s) \<rparr>
           in if known then s\<lparr> sx_anomalies := sx_anomalies s @ [DuplicateToolResultDropped call_id] \<rparr>
              else strict_push m s))"

definition project_strict :: "'j message list \<Rightarrow> projection_anomaly list \<Rightarrow> 'j message list \<times> projection_anomaly list" where
  "project_strict ms anomalies =
     (let s = fold strict_step ms \<lparr> sx_calls = [], sx_results = [], sx_out = [], sx_anomalies = anomalies \<rparr>;
          leading = takeWhile (\<lambda>m. ms_role m \<noteq> User) (sx_out s)
      in (drop (length leading) (sx_out s), sx_anomalies s @ map (\<lambda>m. LeadingNonUserDropped (ms_role m)) leading))"

section \<open>Media\<close>

definition IMAGE_DEGRADED :: str where
  "IMAGE_DEGRADED = lit ''[image omitted: dropped to fit the provider request size limit; re-read the file to view it]''"
definition AUDIO_DEGRADED :: str where
  "AUDIO_DEGRADED = lit ''[audio omitted: dropped to fit the provider request size limit; re-read the file to hear it]''"
definition VIDEO_DEGRADED :: str where
  "VIDEO_DEGRADED = lit ''[video omitted: dropped to fit the provider request size limit; re-read the file to view it]''"
definition IMAGE_STRIPPED :: str where
  "IMAGE_STRIPPED = lit ''[image omitted for provider compatibility; re-read the file to view it or get conversion guidance]''"
definition AUDIO_STRIPPED :: str where
  "AUDIO_STRIPPED = lit ''[audio omitted for provider compatibility; re-read the file to hear it]''"
definition VIDEO_STRIPPED :: str where
  "VIDEO_STRIPPED = lit ''[video omitted for provider compatibility; re-read the file to view it]''"

definition media_parts_of :: "content_part \<Rightarrow> (str \<times> media_url) option" where
  "media_parts_of part =
     (case part of
        ImageUrlPart u \<Rightarrow> Some (lit ''image_url'', u)
      | AudioUrlPart u \<Rightarrow> Some (lit ''audio_url'', u)
      | VideoUrlPart u \<Rightarrow> Some (lit ''video_url'', u)
      | _ \<Rightarrow> None)"

definition media_key :: "(str \<Rightarrow> str) \<Rightarrow> content_part \<Rightarrow> str option" where
  "media_key sha part =
     map_option (\<lambda>(kind, u). sha (kind @ [0] @ (case mu_id u of None \<Rightarrow> [] | Some i \<Rightarrow> i) @ [0] @ mu_url u)) (media_parts_of part)"

fun placeholder :: "content_part \<Rightarrow> bool \<Rightarrow> str option" where
  "placeholder (ImageUrlPart _) stripped = Some (if stripped then IMAGE_STRIPPED else IMAGE_DEGRADED)"
| "placeholder (AudioUrlPart _) stripped = Some (if stripped then AUDIO_STRIPPED else AUDIO_DEGRADED)"
| "placeholder (VideoUrlPart _) stripped = Some (if stripped then VIDEO_STRIPPED else VIDEO_DEGRADED)"
| "placeholder _ stripped = None"

definition capture_media_strip_snapshot :: "(str \<Rightarrow> str) \<Rightarrow> 'j message list \<Rightarrow> str set" where
  "capture_media_strip_snapshot sha ms = set (List.map_filter (media_key sha) (concat (map ms_content ms)))"

text \<open>\<open>placeholder(..).unwrap()\<close>: the parts it is applied to are media.\<close>

definition placeholder_part :: "bool \<Rightarrow> content_part \<Rightarrow> content_part" where
  "placeholder_part stripped part = TextPart (the (placeholder part stripped))"

definition strip_media_parts_by_snapshot :: "(str \<Rightarrow> str) \<Rightarrow> 'j message list \<Rightarrow> str set \<Rightarrow> 'j message list" where
  "strip_media_parts_by_snapshot sha ms keys =
     map (\<lambda>m. m\<lparr> ms_content := map (\<lambda>part. case media_key sha part of
                    None \<Rightarrow> part
                  | Some key \<Rightarrow> if key \<in> keys then placeholder_part True part else part) (ms_content m) \<rparr>) ms"

fun degrade_parts :: "(str \<Rightarrow> str) \<Rightarrow> bool \<Rightarrow> content_part list \<Rightarrow> nat \<Rightarrow> content_part list \<times> nat" where
  "degrade_parts sha stripped [] remaining = ([], remaining)"
| "degrade_parts sha stripped (part # parts) remaining =
     (if remaining > 0 \<and> media_key sha part \<noteq> None
      then (let (ps, r) = degrade_parts sha stripped parts (remaining - 1) in (placeholder_part stripped part # ps, r))
      else (let (ps, r) = degrade_parts sha stripped parts remaining in (part # ps, r)))"

fun degrade_messages :: "(str \<Rightarrow> str) \<Rightarrow> bool \<Rightarrow> 'j message list \<Rightarrow> nat \<Rightarrow> 'j message list" where
  "degrade_messages sha stripped [] remaining = []"
| "degrade_messages sha stripped (m # ms) remaining =
     (let (parts, remaining) = degrade_parts sha stripped (ms_content m) remaining
      in m\<lparr> ms_content := parts \<rparr> # degrade_messages sha stripped ms remaining)"

definition degrade_older_media_parts :: "(str \<Rightarrow> str) \<Rightarrow> 'j message list \<Rightarrow> nat \<Rightarrow> bool \<Rightarrow> 'j message list" where
  "degrade_older_media_parts sha ms keep_recent stripped =
     degrade_messages sha stripped ms
       (length (filter (\<lambda>p. media_key sha p \<noteq> None) (concat (map ms_content ms))) - keep_recent)"

section \<open>The service\<close>

text \<open>What a report logs and counts: reordered, synthesized, orphans, duplicate calls and results, leading, merged, whitespace, vacuous.\<close>

definition count_of :: "(projection_anomaly \<Rightarrow> bool) \<Rightarrow> projection_anomaly list \<Rightarrow> nat" where
  "count_of P anomalies = length (filter P anomalies)"

definition repair_counts :: "projection_anomaly list \<Rightarrow> nat list" where
  "repair_counts notable =
     [count_of (\<lambda>a. case a of ToolResultReordered _ \<Rightarrow> True | _ \<Rightarrow> False) notable,
      count_of (\<lambda>a. case a of ToolResultSynthesized _ _ \<Rightarrow> True | _ \<Rightarrow> False) notable,
      count_of (\<lambda>a. case a of OrphanToolResultDropped _ \<Rightarrow> True | _ \<Rightarrow> False) notable,
      count_of (\<lambda>a. case a of DuplicateToolCallDropped _ \<Rightarrow> True | _ \<Rightarrow> False) notable,
      count_of (\<lambda>a. case a of DuplicateToolResultDropped _ \<Rightarrow> True | _ \<Rightarrow> False) notable,
      count_of (\<lambda>a. case a of LeadingNonUserDropped _ \<Rightarrow> True | _ \<Rightarrow> False) notable,
      count_of (\<lambda>a. case a of ConsecutiveAssistantsMerged \<Rightarrow> True | _ \<Rightarrow> False) notable,
      count_of (\<lambda>a. case a of WhitespaceTextDropped _ \<Rightarrow> True | _ \<Rightarrow> False) notable,
      count_of (\<lambda>a. case a of VacuousMessageDropped _ \<Rightarrow> True | _ \<Rightarrow> False) notable]"

fun join_bar :: "str list \<Rightarrow> str" where
  "join_bar [] = []"
| "join_bar [x] = x"
| "join_bar (x # xs) = x @ [124] @ join_bar xs"

definition report_repairs ::
  "(projection_anomaly \<Rightarrow> str) \<Rightarrow> projection_anomaly list \<Rightarrow> str option \<Rightarrow> nat list option \<times> str option" where
  "report_repairs debug_text anomalies last_repair_signature =
     (let notable = filter (\<lambda>a. case a of ToolResultSynthesized _ True \<Rightarrow> False | _ \<Rightarrow> True) anomalies;
          signature = join_bar (sort (map debug_text notable)) in
      if notable = [] then (None, None)
      else if last_repair_signature = Some signature then (None, last_repair_signature)
      else (Some (repair_counts notable), Some signature))"

definition with_trace ::
  "(slots \<Rightarrow> slots) \<Rightarrow> (projection_anomaly \<Rightarrow> str) \<Rightarrow> 'j context_message list \<Rightarrow> bool \<Rightarrow> str option
   \<Rightarrow> (context_projector_error + 'j message list) \<times> nat list option \<times> str option" where
  "with_trace hash_order debug_text ms strict last_repair_signature =
     (case project hash_order ms [] of
        Inl e \<Rightarrow> (Inl e, None, last_repair_signature)
      | Inr (projected, anomalies) \<Rightarrow>
          (let (projected, anomalies) = (if strict then project_strict projected anomalies else (projected, anomalies))
           in (Inr projected, report_repairs debug_text anomalies last_repair_signature)))"

definition service_capture_media_strip_snapshot where
  "service_capture_media_strip_snapshot sha hash_order debug_text ms last_repair_signature =
     (case with_trace hash_order debug_text ms False last_repair_signature of
        (Inl e, log) \<Rightarrow> (Inl e, log)
      | (Inr projected, log) \<Rightarrow> (Inr (capture_media_strip_snapshot sha projected), log))"

definition service_project_media_degraded where
  "service_project_media_degraded sha hash_order debug_text ms last_repair_signature =
     (case with_trace hash_order debug_text ms False last_repair_signature of
        (Inl e, log) \<Rightarrow> (Inl e, log)
      | (Inr projected, log) \<Rightarrow> (Inr (degrade_older_media_parts sha projected MEDIA_DEGRADE_KEEP_RECENT False), log))"

definition service_project_media_stripped where
  "service_project_media_stripped sha hash_order debug_text ms snapshot last_repair_signature =
     (case with_trace hash_order debug_text ms False last_repair_signature of
        (Inl e, log) \<Rightarrow> (Inl e, log)
      | (Inr projected, log) \<Rightarrow>
          (Inr (strip_media_parts_by_snapshot sha projected
                  (case snapshot of None \<Rightarrow> capture_media_strip_snapshot sha projected | Some keys \<Rightarrow> keys)), log))"

end
