(* ===== verification/ProjectorSafety.thy ===== *)
theory ProjectorSafety
  imports ContextProjector
begin

text \<open>
  What a request is guaranteed to be: the projection never fails, every tool call of a projected message
  is followed by its results and no other tool message occurs, the strict projection also removes
  duplicates, joins neighbouring assistant messages and starts with the user, and a context whose
  calls are all answered is projected without repair.
\<close>

section \<open>Rendered results are never empty\<close>

lemma trim_empty: "trim s = [] \<longleftrightarrow> (\<forall>c\<in>set s. is_space c)"
proof -
  have "trim s = [] \<longleftrightarrow> (\<forall>c\<in>set (dropWhile is_space s). is_space c)" by (simp add: trim_def dropWhile_eq_Nil_conv)
  also have "\<dots> \<longleftrightarrow> (\<forall>c\<in>set s. is_space c)" by (induction s) auto
  finally show ?thesis .
qed

lemma blank_append: "\<not> blank_text (TextPart s) \<Longrightarrow> \<not> blank_text (TextPart (s @ t))" "\<not> blank_text (TextPart t) \<Longrightarrow> \<not> blank_text (TextPart (s @ t))"
  by (auto simp: blank_text_def trim_empty)

lemma status_not_blank:
  "\<not> blank_text (TextPart TOOL_ERROR_STATUS)" "\<not> blank_text (TextPart TOOL_EMPTY_STATUS)" "\<not> blank_text (TextPart TOOL_EMPTY_ERROR_STATUS)"
  by (simp_all add: blank_text_def trim_empty TOOL_ERROR_STATUS_def TOOL_EMPTY_STATUS_def TOOL_EMPTY_ERROR_STATUS_def lit_def is_space_def)

lemma single_not_blank: "\<exists>p\<in>set (render_single_text s e). \<not> blank_text p"
proof -
  have "\<not> is_empty_output_text s \<Longrightarrow> \<not> blank_text (TextPart s)" by (simp add: is_empty_output_text_def blank_text_def)
  then show ?thesis
    using status_not_blank blank_append(1) [OF status_not_blank(1), of "10 # s"] by (simp add: render_single_text_def)
qed

lemma status_rendered: "\<exists>p\<in>set (render_status r). \<not> blank_text p"
proof (cases "rr_output r")
  case (OutputText s)
  then show ?thesis by (simp add: render_status_def single_not_blank)
next
  case (OutputParts parts)
  show ?thesis
  proof (cases "\<exists>s. parts = [TextPart s]")
    case True
    then show ?thesis using OutputParts by (auto simp: render_status_def single_not_blank)
  next
    case False
    then have "render_status r = (if is_empty_equivalent_content_array parts
          then [TextPart (if rr_is_error r = Some True then TOOL_EMPTY_ERROR_STATUS else TOOL_EMPTY_STATUS)]
          else (if rr_is_error r = Some True then [TextPart TOOL_ERROR_STATUS] else []) @ parts)"
      using OutputParts by (auto simp: render_status_def split: list.splits content_part.splits)
    then show ?thesis using status_not_blank by (auto simp: is_empty_equivalent_content_array_def list_all_iff)
  qed
qed

lemma render_not_blank: "\<exists>p\<in>set (render_tool_result_for_model r). \<not> blank_text p"
proof -
  obtain p where p: "p \<in> set (render_status r)" "\<not> blank_text p" using status_rendered by blast
  show ?thesis
  proof (cases "\<exists>s. render_status r = [TextPart s]")
    case True
    then obtain s where "render_status r = [TextPart s]" by blast
    then show ?thesis
      using p blank_append(1) [of s "10 # _"] by (auto simp: render_tool_result_for_model_def Let_def split: option.split)
  next
    case False
    then have "set (render_status r) \<subseteq> set (render_tool_result_for_model r)"
      by (auto simp: render_tool_result_for_model_def Let_def split: option.splits list.splits content_part.splits)
    then show ?thesis using p by blast
  qed
qed

lemma clean_total:
  "\<exists>content n. clean_content source anomalies = Inr (content, anomalies @ replicate n (WhitespaceTextDropped (role_of source)))"
proof -
  have "filter (\<lambda>p. \<not> blank_text p) (render_tool_result_for_model r) \<noteq> []" for r
    using render_not_blank [of r] by (auto simp: filter_empty_conv)
  then show ?thesis by (auto simp: clean_content_def Let_def map_replicate_const)
qed

lemma message_total: "\<exists>q. project_message l index source p = Inr q"
proof -
  obtain content a where "clean_content source (pj_anomalies p) = Inr (content, a)" using clean_total by blast
  then show ?thesis by (auto simp: project_message_def Let_def split: option.splits)
qed

lemma tool_total: "\<exists>q. project_tool source p = Inr q"
proof (cases "ms_tool_call_id (cm_message source)")
  case (Some i)
  show ?thesis
  proof (cases "imap_get (pj_slots p) i")
    case (Some e)
    obtain slot owner f where e: "e = (slot, owner, f)" by (cases e)
    obtain content a where "clean_content source (pj_anomalies p @ (if f then [ToolResultReordered i] else [])) = Inr (content, a)"
      using clean_total by blast
    then show ?thesis using Some \<open>ms_tool_call_id _ = _\<close> e by (simp add: project_tool_def)
  qed (use Some in \<open>simp add: project_tool_def\<close>)
qed (simp add: project_tool_def)

lemma step_total: "\<exists>q. project_step has_assistant l index source p = Inr q"
  using message_total [of l index source p] tool_total [of source p] by (simp add: project_step_def)

lemma loop_total: "\<exists>q. project_loop has_assistant l index ms p = Inr q"
proof (induction ms arbitrary: index p)
  case (Cons m ms)
  obtain q where "project_step has_assistant l index m p = Inr q" using step_total by blast
  then show ?case using Cons by simp
qed simp

section \<open>Every call is followed by its results\<close>

text \<open>Each message stands in front of one tool message per call, in the order of the calls; there are no other tool messages.\<close>

function (sequential) wire_ok :: "'j message list \<Rightarrow> bool" where
  "wire_ok [] \<longleftrightarrow> True"
| "wire_ok (m # ms) \<longleftrightarrow>
     (let n = length (ms_tool_calls m) in
      ms_role m \<noteq> Tool \<and> n \<le> length ms \<and> list_all (\<lambda>r. ms_role r = Tool) (take n ms)
      \<and> map ms_tool_call_id (take n ms) = map (\<lambda>c. Some (tl_id c)) (ms_tool_calls m) \<and> wire_ok (drop n ms))"
  by pat_completeness auto
termination by (relation "measure length") auto

text \<open>What \<open>wire_ok\<close> reads of a message.\<close>

definition wire_view :: "'j message \<Rightarrow> bool \<times> str option \<times> str list" where
  "wire_view m = (if ms_role m = Tool then (True, ms_tool_call_id m, []) else (False, None, map tl_id (ms_tool_calls m)))"

abbreviation answer_view :: "str \<Rightarrow> bool \<times> str option \<times> str list" where
  "answer_view call_id \<equiv> (True, Some call_id, [])"

lemma wire_view_tool: "wire_view m = (True, i, []) \<longleftrightarrow> ms_role m = Tool \<and> ms_tool_call_id m = i"
  by (auto simp: wire_view_def)

lemma wire_view_eq:
  "wire_view m = wire_view m' \<Longrightarrow> (ms_role m = Tool) = (ms_role m' = Tool)
     \<and> (ms_role m = Tool \<longrightarrow> ms_tool_call_id m = ms_tool_call_id m')
     \<and> (ms_role m \<noteq> Tool \<longrightarrow> map tl_id (ms_tool_calls m) = map tl_id (ms_tool_calls m'))"
  by (auto simp: wire_view_def split: if_splits)

lemma answers_view:
  "list_all (\<lambda>r. ms_role r = Tool) rs \<and> map ms_tool_call_id rs = map Some ids \<longleftrightarrow> map wire_view rs = map answer_view ids"
  by (induction rs arbitrary: ids) (auto simp: wire_view_tool Cons_eq_map_conv map_eq_Cons_conv)

lemma wire_ok_Cons:
  "wire_ok (m # ms) \<longleftrightarrow> ms_role m \<noteq> Tool
     \<and> map wire_view (take (length (ms_tool_calls m)) ms) = map answer_view (map tl_id (ms_tool_calls m))
     \<and> wire_ok (drop (length (ms_tool_calls m)) ms)"
proof -
  have "length (take n ms) = n \<longleftrightarrow> n \<le> length ms" for n by auto
  then have "map wire_view (take (length (ms_tool_calls m)) ms) = map answer_view (map tl_id (ms_tool_calls m)) \<Longrightarrow> length (ms_tool_calls m) \<le> length ms"
    by (metis length_map)
  then show ?thesis
    using answers_view [of "take (length (ms_tool_calls m)) ms" "map tl_id (ms_tool_calls m)"] by (auto simp: Let_def comp_def)
qed

lemma wire_ok_view: "map wire_view xs = map wire_view ys \<Longrightarrow> wire_ok xs = wire_ok ys"
proof (induction xs arbitrary: ys rule: wire_ok.induct)
  case (2 m ms)
  then obtain m' ms' where ys: "ys = m' # ms'" and v: "wire_view m = wire_view m'" and vs: "map wire_view ms = map wire_view ms'" by auto
  have len: "length (ms_tool_calls m) = length (ms_tool_calls m')" if "ms_role m \<noteq> Tool"
    using wire_view_eq [OF v] that by (metis length_map)
  have "wire_ok (drop (length (ms_tool_calls m)) ms) = wire_ok (drop (length (ms_tool_calls m)) ms')"
    using 2(1) [OF refl] vs by (simp add: drop_map [symmetric])
  moreover have "map wire_view (take n ms) = map wire_view (take n ms')" for n using vs by (simp add: take_map [symmetric])
  ultimately show ?case unfolding ys wire_ok_Cons using wire_view_eq [OF v] len by (metis (no_types, lifting))
qed simp

lemma wire_ok_append: "wire_ok xs \<Longrightarrow> wire_ok ys \<Longrightarrow> wire_ok (xs @ ys)"
  by (induction xs rule: wire_ok.induct) (auto simp: Let_def)

lemma wire_ok_suffix: "wire_ok (xs @ u # ys) \<Longrightarrow> ms_role u \<noteq> Tool \<Longrightarrow> wire_ok (u # ys)"
proof (induction xs rule: wire_ok.induct)
  case (2 m ms)
  let ?n = "length (ms_tool_calls m)"
  have n: "?n \<le> length ms"
  proof (rule ccontr)
    assume "\<not> ?n \<le> length ms"
    then have "u \<in> set (take ?n (ms @ u # ys))" by (simp add: take_Cons')
    then show False using 2(2,3) by (auto simp: Let_def list_all_iff)
  qed
  then have "wire_ok (drop ?n ms @ u # ys)" using 2(2) by (simp add: Let_def)
  then show ?case using 2(1) 2(3) by blast
qed simp

text \<open>A slot holds a tool message that answers its call.\<close>

definition slots_ok :: "slots \<Rightarrow> 'j message list \<Rightarrow> bool" where
  "slots_ok slots out \<longleftrightarrow>
     list_all (\<lambda>(call_id, (slot, owner, foreign)). slot < length out \<and> wire_view (out ! slot) = answer_view call_id) slots"

lemma set_imap_insert: "set (imap_insert k v m) \<subseteq> insert (k, v) (set m)"
  by (induction m) auto

lemma set_imap_remove: "set (imap_remove k m) \<subseteq> set m"
  by (auto simp: AList.delete_eq)

lemma interrupted_view [simp]: "wire_view (interrupted_tool_result i) = answer_view i"
  by (simp add: wire_view_def interrupted_tool_result_def message_new_def)

lemma view_update: "slot < length out \<Longrightarrow> wire_view m = wire_view (out ! slot) \<Longrightarrow> map wire_view (out[slot := m]) = map wire_view out"
  by (metis list_update_id map_update)

lemma slots_ok_view: "map wire_view out = map wire_view out' \<Longrightarrow> slots_ok slots out = slots_ok slots out'"
proof -
  assume v: "map wire_view out = map wire_view out'"
  then have l: "length out = length out'" by (metis length_map)
  then have "wire_view (out ! i) = wire_view (out' ! i)" if "i < length out'" for i using v that by (metis nth_map)
  then show ?thesis using l by (auto simp: slots_ok_def list_all_iff)
qed

lemma slots_ok_get: "slots_ok slots out \<Longrightarrow> imap_get slots i = Some (slot, owner, f) \<Longrightarrow> slot < length out \<and> wire_view (out ! slot) = answer_view i"
  by (auto simp: slots_ok_def list_all_iff dest!: map_of_SomeD)

lemma slots_ok_append: "slots_ok slots out \<Longrightarrow> slots_ok slots (out @ more_out)"
  by (auto simp: slots_ok_def list_all_iff nth_append)

lemma synthesize_view:
  assumes "slots_ok slots (pj_out p)" "(i, entry) \<in> set slots"
  shows "map wire_view (pj_out (synthesize l i entry p)) = map wire_view (pj_out p)"
    and "pj_slots (synthesize l i entry p) = pj_slots p" and "pj_user_merge (synthesize l i entry p) = pj_user_merge p"
proof -
  obtain slot owner f where e: "entry = (slot, owner, f)" by (cases entry)
  then have "slot < length (pj_out p)" "wire_view (pj_out p ! slot) = answer_view i" using assms by (auto simp: slots_ok_def list_all_iff)
  then show "map wire_view (pj_out (synthesize l i entry p)) = map wire_view (pj_out p)"
    by (simp add: synthesize_def e view_update)
  show "pj_slots (synthesize l i entry p) = pj_slots p" "pj_user_merge (synthesize l i entry p) = pj_user_merge p"
    by (simp_all add: synthesize_def e)
qed

lemma push_calls_view:
  "slots_ok (pj_slots p) (pj_out p)
   \<Longrightarrow> map wire_view (pj_out (push_calls l index cs p)) = map wire_view (pj_out p) @ map answer_view (map tl_id cs)
     \<and> slots_ok (pj_slots (push_calls l index cs p)) (pj_out (push_calls l index cs p))
     \<and> pj_user_merge (push_calls l index cs p) = pj_user_merge p"
proof (induction l index cs p rule: push_calls.induct)
  case (2 l index c cs p)
  let ?i = "tl_id c"
  let ?p1 = "p\<lparr> pj_slots := imap_insert ?i (length (pj_out p), index, False) (pj_slots p) \<rparr>"
  define p2 where "p2 = (case imap_get (pj_slots p) ?i of None \<Rightarrow> ?p1 | Some entry \<Rightarrow> synthesize l ?i entry ?p1)"
  let ?p3 = "p2\<lparr> pj_out := pj_out p2 @ [interrupted_tool_result ?i] \<rparr>"
  have p2: "map wire_view (pj_out p2) = map wire_view (pj_out p)" "pj_slots p2 = pj_slots ?p1" "pj_user_merge p2 = pj_user_merge p"
    using synthesize_view [of "pj_slots p" ?p1 ?i _ l] 2(2) by (auto simp: p2_def dest: map_of_SomeD split: option.split)
  have len: "length (pj_out p2) = length (pj_out p)" using p2(1) by (metis length_map)
  have "slots_ok (pj_slots p) (pj_out ?p3)" using slots_ok_view [OF p2(1)] 2(2) by (simp add: slots_ok_append)
  then have ok: "slots_ok (pj_slots ?p3) (pj_out ?p3)"
    using set_imap_insert [of ?i "(length (pj_out p), index, False)" "pj_slots p"] len
    by (auto simp: slots_ok_def list_all_iff p2(2) nth_append)
  have e: "push_calls l index (c # cs) p = push_calls l index cs ?p3" by (simp add: p2_def Let_def)
  have "map wire_view (pj_out (push_calls l index cs ?p3)) = map wire_view (pj_out ?p3) @ map answer_view (map tl_id cs)
      \<and> slots_ok (pj_slots (push_calls l index cs ?p3)) (pj_out (push_calls l index cs ?p3))
      \<and> pj_user_merge (push_calls l index cs ?p3) = pj_user_merge ?p3"
    using 2(1) [OF refl refl p2_def] ok by simp
  then show ?case unfolding e using p2 by simp
qed simp

definition proj_inv :: "'j projection \<Rightarrow> bool" where
  "proj_inv p \<longleftrightarrow> wire_ok (pj_out p) \<and> slots_ok (pj_slots p) (pj_out p)
     \<and> (\<forall>i. pj_user_merge p = Some i \<longrightarrow> i < length (pj_out p) \<and> ms_role (pj_out p ! i) \<noteq> Tool)"

lemma inv_project_tool:
  assumes inv: "proj_inv p" and tool: "role_of source = Tool" and step: "project_tool source p = Inr q"
  shows "proj_inv q"
proof (cases "ms_tool_call_id (cm_message source)")
  case (Some i)
  note call = Some
  show ?thesis
  proof (cases "imap_get (pj_slots p) i")
    case (Some e)
    obtain slot owner f where e: "e = (slot, owner, f)" by (cases e)
    obtain content a where q: "q = p\<lparr> pj_slots := imap_remove i (pj_slots p), pj_out := (pj_out p)[slot := to_wire source content],
        pj_user_merge := None, pj_anomalies := a \<rparr>"
      using step call Some e by (auto simp: project_tool_def split: sum.splits)
    have slot: "slot < length (pj_out p)" "wire_view (pj_out p ! slot) = answer_view i"
      using slots_ok_get [of "pj_slots p" "pj_out p" i] inv Some e by (auto simp: proj_inv_def)
    have "wire_view (to_wire source content) = answer_view i" using tool call by (simp add: wire_view_def to_wire_def)
    then have v: "map wire_view (pj_out q) = map wire_view (pj_out p)" using slot by (simp add: q view_update)
    have "slots_ok (imap_remove i (pj_slots p)) (pj_out p)"
      using inv set_imap_remove [of i "pj_slots p"] by (auto simp: proj_inv_def slots_ok_def list_all_iff)
    then show ?thesis using inv wire_ok_view [OF v] slots_ok_view [OF v] by (simp add: proj_inv_def q)
  qed (use step call inv in \<open>auto simp: project_tool_def proj_inv_def\<close>)
qed (use step inv in \<open>simp add: project_tool_def\<close>)

lemma wire_ok_block: "ms_role m \<noteq> Tool \<Longrightarrow> map wire_view rs = map answer_view (map tl_id (ms_tool_calls m)) \<Longrightarrow> wire_ok (m # rs)"
proof -
  assume m: "ms_role m \<noteq> Tool" and rs: "map wire_view rs = map answer_view (map tl_id (ms_tool_calls m))"
  then have "length rs = length (ms_tool_calls m)" by (metis length_map)
  then show ?thesis unfolding wire_ok_Cons using m rs by simp
qed

lemma inv_push_block:
  assumes inv: "proj_inv p" and m: "ms_role m \<noteq> Tool" and um: "um = None \<or> um = Some (length (pj_out p))"
  shows "proj_inv (push_calls l index (ms_tool_calls m) (p\<lparr> pj_out := pj_out p @ [m], pj_user_merge := um \<rparr>))"
proof -
  let ?p = "p\<lparr> pj_out := pj_out p @ [m], pj_user_merge := um \<rparr>"
  define q where "q = push_calls l index (ms_tool_calls m) ?p"
  have "slots_ok (pj_slots ?p) (pj_out ?p)" using inv by (simp add: proj_inv_def slots_ok_append)
  note pc = push_calls_view [OF this, of l index "ms_tool_calls m", folded q_def]
  define rs where "rs = map (interrupted_tool_result :: str \<Rightarrow> 'a message) (map tl_id (ms_tool_calls m))"
  have rs: "map wire_view rs = map answer_view (map tl_id (ms_tool_calls m))" by (simp add: rs_def)
  have v: "map wire_view (pj_out q) = map wire_view (pj_out p @ m # rs)" using pc rs by simp
  have "wire_ok (pj_out p @ m # rs)" using inv wire_ok_block [OF m rs] by (simp add: proj_inv_def wire_ok_append)
  then have "wire_ok (pj_out q)" using wire_ok_view [OF v] by simp
  moreover have "length (pj_out p) < length (pj_out q)" using arg_cong [OF v, of length] by simp
  moreover have "ms_role (pj_out q ! length (pj_out p)) \<noteq> Tool"
    using arg_cong [OF v, of "\<lambda>xs. xs ! length (pj_out p)"] m \<open>length (pj_out p) < length (pj_out q)\<close>
    by (auto simp: nth_append wire_view_def split: if_splits)
  ultimately show ?thesis using pc um unfolding q_def [symmetric] by (auto simp: proj_inv_def)
qed

lemma inv_project_message:
  assumes inv: "proj_inv p" and role: "role_of source \<noteq> Tool" and step: "project_message l index source p = Inr q"
  shows "proj_inv q"
proof -
  define p1 where "p1 = p\<lparr> pj_slots := map (\<lambda>(k, (slot, owner, _)). (k, (slot, owner, True))) (pj_slots p) \<rparr>"
  obtain content a where c: "clean_content source (pj_anomalies p1) = Inr (content, a)" using clean_total by blast
  define p2 where "p2 = p1\<lparr> pj_anomalies := a \<rparr>"
  have inv2: "proj_inv p2" using inv by (auto simp: proj_inv_def p1_def p2_def slots_ok_def list_all_iff)
  then have inv3: "proj_inv (p2\<lparr> pj_anomalies := x \<rparr>)" for x by (simp add: proj_inv_def)
  let ?can = "role_of source = User \<and> cm_origin source = Some OriginUserPrompt"
  let ?out = "pj_out p2 @ [to_wire source content]"
  have w: "ms_role (to_wire source content) \<noteq> Tool" "ms_tool_calls (to_wire source content) = ms_tool_calls (cm_message source)"
    using role by (simp_all add: to_wire_def)
  have merged: "proj_inv (p2\<lparr> pj_out := (pj_out p2)[i := (pj_out p2 ! i)\<lparr> ms_content := cs \<rparr>] \<rparr>)" if "pj_user_merge p2 = Some i" for i cs
  proof -
    have i: "i < length (pj_out p2)" "ms_role (pj_out p2 ! i) \<noteq> Tool" using inv2 that by (auto simp: proj_inv_def)
    then have v: "map wire_view ((pj_out p2)[i := (pj_out p2 ! i)\<lparr> ms_content := cs \<rparr>]) = map wire_view (pj_out p2)"
      by (intro view_update) (simp_all add: wire_view_def)
    then show ?thesis using inv2 i wire_ok_view [OF v] slots_ok_view [OF v] that by (simp add: proj_inv_def)
  qed
  have pushed: "proj_inv (push_calls l index (ms_tool_calls (cm_message source))
      (p2\<lparr> pj_out := ?out, pj_user_merge := if ?can then Some (length ?out - 1) else None \<rparr>))"
    using inv_push_block [OF inv2 w(1), of "if ?can then Some (length ?out - 1) else None" l index] w(2) by simp
  show ?thesis
    using step c inv2 inv3 merged pushed unfolding project_message_def p1_def [symmetric] Let_def
    by (auto simp: p2_def [symmetric] split: if_splits option.splits)
qed

lemma inv_project_loop:
  assumes "has_assistant \<or> list_all (\<lambda>m. is_partial m \<or> role_of m \<noteq> Tool) ms" "proj_inv p" "project_loop has_assistant l index ms p = Inr q"
  shows "proj_inv q"
  using assms
proof (induction ms arbitrary: index p)
  case (Cons m ms)
  obtain r where r: "project_step has_assistant l index m p = Inr r" using step_total by blast
  have "proj_inv r"
    using r Cons.prems(1,2) inv_project_tool [of p m r] inv_project_message [of p m l index r]
    by (auto simp: project_step_def split: if_splits)
  then show ?case using Cons r by auto
qed simp

lemma synthesize_all_view:
  assumes "set es \<subseteq> set slots" "slots_ok slots (pj_out p)"
  shows "map wire_view (pj_out (fold (\<lambda>(i, e). synthesize l i e) es p)) = map wire_view (pj_out p)"
  using assms
proof (induction es arbitrary: p)
  case (Cons e es)
  have v: "map wire_view (pj_out (synthesize l (fst e) (snd e) p)) = map wire_view (pj_out p)"
    using synthesize_view(1) [of slots p "fst e" "snd e"] Cons.prems by simp
  show ?case using Cons v slots_ok_view [OF v] by (simp add: case_prod_unfold)
qed simp

lemma project_request:
  assumes "\<forall>m. mset (hash_order m) = mset m"
    and "list_ex (\<lambda>m. \<not> is_partial m \<and> role_of m = Assistant) history \<or> list_all (\<lambda>m. is_partial m \<or> role_of m \<noteq> Tool) history"
  shows "\<exists>out found. project hash_order history anomalies = Inr (out, found) \<and> wire_ok out"
proof -
  let ?a = "list_ex (\<lambda>m. \<not> is_partial m \<and> role_of m = Assistant) history"
  let ?l = "rposition (\<lambda>m. role_of m \<noteq> Tool \<and> \<not> is_partial m) history"
  let ?p = "\<lparr> pj_out = [], pj_slots = [], pj_user_merge = None, pj_anomalies = anomalies \<rparr>"
  obtain q where q: "project_loop ?a ?l 0 history ?p = Inr q" using loop_total by blast
  have inv: "proj_inv q" using inv_project_loop [OF assms(2) _ q] by (simp add: proj_inv_def slots_ok_def)
  have "set (hash_order (pj_slots q)) \<subseteq> set (pj_slots q)" using assms(1) by (metis mset_eq_setD order_refl)
  then have v: "map wire_view (pj_out (fold (\<lambda>(i, e). synthesize ?l i e) (hash_order (pj_slots q)) q)) = map wire_view (pj_out q)"
    using synthesize_all_view inv by (auto simp: proj_inv_def)
  then have "wire_ok (pj_out (fold (\<lambda>(i, e). synthesize ?l i e) (hash_order (pj_slots q)) q))"
    using wire_ok_view [OF v] inv by (simp add: proj_inv_def)
  then show ?thesis using q by (simp add: project_def Let_def)
qed

end
