(* ===== verification/ProjectorStrict.thy ===== *)
theory ProjectorStrict
  imports ProjectorSafety
begin

text \<open>
  The strict projection: besides what every request guarantees, no call and no result is repeated, no two
  assistant messages are neighbours, and the first message is the user's.
\<close>

section \<open>Where projected messages come from\<close>

definition from_history :: "'j context_message list \<Rightarrow> 'j message \<Rightarrow> bool" where
  "from_history history m \<longleftrightarrow> ms_role m = Tool
     \<or> (\<exists>source\<in>set history. ms_role m = role_of source \<and> ms_tool_calls m = ms_tool_calls (cm_message source))"

lemma from_tool [simp]: "ms_role m = Tool \<Longrightarrow> from_history history m"
  by (simp add: from_history_def)

lemma from_interrupted [simp]: "from_history history (interrupted_tool_result i)"
  by (simp add: interrupted_tool_result_def message_new_def)

lemma all_update: "list_all P xs \<Longrightarrow> P y \<Longrightarrow> list_all P (xs[i := y])"
  by (auto simp: list_all_iff dest!: set_update_subset_insert [THEN subsetD])

lemma from_synthesize: "list_all (from_history h) (pj_out p) \<Longrightarrow> list_all (from_history h) (pj_out (synthesize l i e p))"
  by (cases e) (simp add: synthesize_def all_update)

lemma from_push: "list_all (from_history h) (pj_out p) \<Longrightarrow> list_all (from_history h) (pj_out (push_calls l index cs p))"
proof (induction l index cs p rule: push_calls.induct)
  case (2 l index c cs p)
  let ?p = "p\<lparr> pj_slots := imap_insert (tl_id c) (length (pj_out p), index, False) (pj_slots p) \<rparr>"
  show ?case
    using 2 from_synthesize [of h ?p] by (auto simp: Let_def split: option.split)
qed simp

lemma from_step:
  assumes out: "list_all (from_history h) (pj_out p)" and source: "source \<in> set h" and step: "project_step b l index source p = Inr q"
  shows "list_all (from_history h) (pj_out q)"
proof -
  have w: "from_history h (to_wire source content)" for content using source by (auto simp: from_history_def to_wire_def)
  have m: "from_history h (m\<lparr> ms_content := c \<rparr>)" if "from_history h m" for m c using that by (simp add: from_history_def)
  have t: "list_all (from_history h) (pj_out q)" if "project_tool source p = Inr q"
    using that out w by (auto simp: project_tool_def all_update split: option.splits sum.splits)
  have "list_all (from_history h) (pj_out q)" if s: "project_message l index source p = Inr q"
  proof -
    have "from_history h (pj_out p ! i)" if "i < length (pj_out p)" for i using out that by (simp add: list_all_length)
    then have "list_all (from_history h) ((pj_out p)[i := (pj_out p ! i)\<lparr> ms_content := c \<rparr>])" for i c
      using out m by (cases "i < length (pj_out p)") (simp_all add: all_update list_update_beyond not_less)
    then show ?thesis
      using s out w by (auto simp: project_message_def Let_def intro!: from_push split: sum.splits if_splits option.splits)
  qed
  then show ?thesis using step t out by (auto simp: project_step_def split: if_splits)
qed

lemma from_loop:
  "list_all (from_history h) (pj_out p) \<Longrightarrow> set ms \<subseteq> set h \<Longrightarrow> project_loop b l index ms p = Inr q \<Longrightarrow> list_all (from_history h) (pj_out q)"
proof (induction ms arbitrary: index p)
  case (Cons m ms)
  then show ?case using from_step [of h p m b l index] by (auto split: sum.splits)
qed simp

lemma from_project: "project ho h anomalies = Inr (out, found) \<Longrightarrow> list_all (from_history h) out"
proof -
  assume "project ho h anomalies = Inr (out, found)"
  then obtain b l q where q: "project_loop b l 0 h \<lparr> pj_out = [], pj_slots = [], pj_user_merge = None, pj_anomalies = anomalies \<rparr> = Inr q"
    and out: "out = pj_out (fold (\<lambda>(i, e). synthesize l i e) (ho (pj_slots q)) q)"
    by (auto simp: project_def Let_def split: sum.splits)
  have "list_all (from_history h) (pj_out q)" using from_loop [OF _ _ q] by simp
  then have "list_all (from_history h) (pj_out (fold (\<lambda>(i, e). synthesize l i e) es q))" for es
    by (induction es arbitrary: q) (auto simp: from_synthesize)
  then show ?thesis by (simp add: out)
qed

section \<open>Repeated calls and results\<close>

fun fresh :: "str list \<Rightarrow> str set \<Rightarrow> str list" where
  "fresh [] known = []"
| "fresh (i # ids) known = (if i \<in> known then fresh ids known else i # fresh ids (insert i known))"

lemma fresh_set: "set (fresh ids known) = set ids - known"
  by (induction ids known rule: fresh.induct) auto

lemma fresh_distinct: "distinct (fresh ids known)"
  by (induction ids known rule: fresh.induct) (auto simp: fresh_set)

lemma retain_fresh:
  "retain_calls cs calls anomalies = (kept, calls', anomalies') \<Longrightarrow> map tl_id kept = fresh (map tl_id cs) (set calls) \<and> set calls' = set calls \<union> tl_id ` set cs"
proof (induction cs calls anomalies arbitrary: kept calls' anomalies' rule: retain_calls.induct)
  case (2 c cs calls anomalies)
  have s: "set (iset_insert (tl_id c) calls) = insert (tl_id c) (set calls)" by (auto simp: iset_insert_def)
  show ?case
  proof (cases "tl_id c \<in> set calls")
    case True
    then show ?thesis using 2(1) [OF True] 2(3) by auto
  next
    case False
    then obtain rest where r: "retain_calls cs (iset_insert (tl_id c) calls) anomalies = (rest, calls', anomalies')" "kept = c # rest"
      using 2(3) by (auto simp: Let_def split: prod.splits)
    show ?thesis using 2(2) [OF False r(1)] r(2) False by (simp add: s)
  qed
qed simp

definition call_ids :: "'j message list \<Rightarrow> str list" where
  "call_ids ms = concat (map (\<lambda>m. if ms_role m = Tool then [] else map tl_id (ms_tool_calls m)) ms)"

lemma call_ids_simps [simp]:
  "call_ids [] = []" "call_ids (m # ms) = (if ms_role m = Tool then [] else map tl_id (ms_tool_calls m)) @ call_ids ms"
  "call_ids (xs @ ys) = call_ids xs @ call_ids ys"
  by (simp_all add: call_ids_def)

abbreviation not_joined :: "'j message \<Rightarrow> 'j message \<Rightarrow> bool" where
  "not_joined a b \<equiv> \<not> (ms_role a = Assistant \<and> ms_role b = Assistant)"

text \<open>The state between two blocks.\<close>

definition strict_inv :: "'j strict \<Rightarrow> bool" where
  "strict_inv s \<longleftrightarrow> wire_ok (sx_out s) \<and> set (sx_calls s) = fst ` set (sx_results s) \<and> distinct (call_ids (sx_out s))
     \<and> set (call_ids (sx_out s)) \<subseteq> set (sx_calls s) \<and> successively not_joined (sx_out s)"

lemma strict_results:
  "map wire_view rs = map answer_view ids
   \<Longrightarrow> \<exists>rs'. sx_out (fold strict_step rs s) = sx_out s @ rs' \<and> map wire_view rs' = map answer_view (fresh ids (fst ` set (sx_results s)))
     \<and> fst ` set (sx_results (fold strict_step rs s)) = fst ` set (sx_results s) \<union> set ids
     \<and> sx_calls (fold strict_step rs s) = sx_calls s"
proof (induction rs arbitrary: ids s)
  case (Cons r rs)
  then obtain i ids' where ids: "ids = i # ids'" and r: "ms_role r = Tool" "ms_tool_call_id r = Some i" and rs: "map wire_view rs = map answer_view ids'"
    by (auto simp: wire_view_tool)
  define s' where "s' = strict_step r s"
  have keys: "fst ` set (sx_results s') = insert i (fst ` set (sx_results s))" "sx_calls s' = sx_calls s"
    and out: "sx_out s' = sx_out s @ (if i \<in> fst ` set (sx_results s) then [] else [r])"
    using r by (auto simp: s'_def strict_step_def strict_dedup_def strict_push_def Let_def imap_keys_insert map_of_eq_None_iff
        split: if_splits)
  obtain rs' where "sx_out (fold strict_step rs s') = sx_out s' @ rs'" "map wire_view rs' = map answer_view (fresh ids' (fst ` set (sx_results s')))"
    "fst ` set (sx_results (fold strict_step rs s')) = fst ` set (sx_results s') \<union> set ids'" "sx_calls (fold strict_step rs s') = sx_calls s'"
    using Cons.IH [OF rs, of s'] by blast
  moreover have "wire_view r = answer_view i" using r by (simp add: wire_view_tool)
  moreover have "insert i (fst ` set (sx_results s)) = fst ` set (sx_results s)" if "i \<in> fst ` set (sx_results s)" using that by auto
  ultimately show ?case
    using ids keys out by (intro exI [of _ "(if i \<in> fst ` set (sx_results s) then [] else [r]) @ rs'"]) (auto simp: s'_def [symmetric])
qed simp

lemma wire_ok_prefix: "wire_ok (xs @ u # ys) \<Longrightarrow> ms_role u \<noteq> Tool \<Longrightarrow> wire_ok xs"
proof (induction xs rule: wire_ok.induct)
  case (2 m ms)
  let ?n = "length (ms_tool_calls m)"
  have n: "?n \<le> length ms"
  proof (rule ccontr)
    assume "\<not> ?n \<le> length ms"
    then have "u \<in> set (take ?n (ms @ u # ys))" by (simp add: take_Cons')
    then show False using 2(2,3) by (auto simp: Let_def list_all_iff)
  qed
  then show ?case using 2 by (simp add: Let_def)
qed simp

lemma wire_ok_last: "wire_ok (xs @ [u]) \<Longrightarrow> ms_role u \<noteq> Tool \<Longrightarrow> ms_tool_calls u = []"
  by (drule (1) wire_ok_suffix) simp

lemma tools_apart: "list_all (\<lambda>r. ms_role r = Tool) rs \<Longrightarrow> successively not_joined rs"
  by (induction rs rule: induct_list012) auto

text \<open>Pushing a message without repeated calls, before its results.\<close>

lemma strict_push_block:
  assumes inv: "wire_ok (sx_out s)" "distinct (call_ids (sx_out s))" "successively not_joined (sx_out s)"
    and m: "ms_role m \<noteq> Tool" and fresh: "distinct (map tl_id (ms_tool_calls m))" "set (map tl_id (ms_tool_calls m)) \<inter> set (call_ids (sx_out s)) = {}"
    and rs: "map wire_view rs = map answer_view (map tl_id (ms_tool_calls m))"
  shows "wire_ok (sx_out (strict_push m s) @ rs)" and "call_ids (sx_out (strict_push m s) @ rs) = call_ids (sx_out s) @ map tl_id (ms_tool_calls m)"
    and "successively not_joined (sx_out (strict_push m s) @ rs)"
proof -
  have tools: "list_all (\<lambda>r. ms_role r = Tool) rs" using answers_view [of rs "map tl_id (ms_tool_calls m)"] rs by simp
  then have ids: "call_ids rs = []" by (induction rs) auto
  have rest: "successively not_joined (x # rs)" if "ms_role x \<noteq> Tool" for x using tools tools_apart [OF tools] by (cases rs) auto
  have "wire_ok (sx_out (strict_push m s) @ rs) \<and> call_ids (sx_out (strict_push m s) @ rs) = call_ids (sx_out s) @ map tl_id (ms_tool_calls m)
      \<and> successively not_joined (sx_out (strict_push m s) @ rs)"
  proof (cases "sx_out s \<noteq> [] \<and> ms_role (last (sx_out s)) = Assistant \<and> ms_role m = Assistant")
    case True
    then obtain xs u where out: "sx_out s = xs @ [u]" and u: "ms_role u = Assistant" by (cases "sx_out s" rule: rev_cases) auto
    have none: "ms_tool_calls u = []" using wire_ok_last [of xs u] inv(1) out u by simp
    let ?u = "u\<lparr> ms_content := ms_content u @ ms_content m, ms_tool_calls := ms_tool_calls u @ ms_tool_calls m \<rparr>"
    have push: "sx_out (strict_push m s) = xs @ [?u]" using True out by (simp add: strict_push_def Let_def)
    have "wire_ok xs" using wire_ok_prefix [of xs u "[]"] inv(1) out u by simp
    moreover have "wire_ok (?u # rs)" by (rule wire_ok_block) (use u none rs in simp_all)
    ultimately have "wire_ok (xs @ ?u # rs)" by (rule wire_ok_append)
    moreover have "successively not_joined (xs @ ?u # rs)"
      using inv(3) out rest [of ?u] u by (auto simp: successively_append_iff)
    ultimately show ?thesis using push out none u ids by simp
  next
    case False
    then have push: "sx_out (strict_push m s) = sx_out s @ [m]" by (auto simp: strict_push_def)
    have "wire_ok (sx_out s @ m # rs)" using wire_ok_append [OF inv(1) wire_ok_block [OF m rs]] .
    moreover have "successively not_joined (sx_out s @ m # rs)"
      using inv(3) False rest [OF m] by (auto simp: successively_append_iff)
    ultimately show ?thesis using push m ids by simp
  qed
  then show "wire_ok (sx_out (strict_push m s) @ rs)" "call_ids (sx_out (strict_push m s) @ rs) = call_ids (sx_out s) @ map tl_id (ms_tool_calls m)"
    "successively not_joined (sx_out (strict_push m s) @ rs)" by auto
qed

lemma strict_block:
  assumes inv: "strict_inv s" and m: "ms_role m \<noteq> Tool" "ms_role m = Assistant \<or> ms_tool_calls m = []"
    and rs: "map wire_view rs = map answer_view (map tl_id (ms_tool_calls m))"
  shows "strict_inv (fold strict_step (m # rs) s)"
proof -
  obtain m' s' where d: "strict_dedup m s = (m', s')" by (cases "strict_dedup m s")
  have role: "ms_role m' = ms_role m" using d by (auto simp: strict_dedup_def split: if_splits prod.splits)
  have kept: "map tl_id (ms_tool_calls m') = fresh (map tl_id (ms_tool_calls m)) (set (sx_calls s))"
    "set (sx_calls s') = set (sx_calls s) \<union> set (map tl_id (ms_tool_calls m))" "sx_out s' = sx_out s" "sx_results s' = sx_results s"
    using d m(2) retain_fresh [of "ms_tool_calls m" "sx_calls s" "sx_anomalies s"]
    by (auto simp: strict_dedup_def split: if_splits prod.splits)
  let ?ids = "map tl_id (ms_tool_calls m)" and ?t = "strict_push m' s'"
  have step: "strict_step m s = ?t" using d m role by (simp add: strict_step_def)
  have t: "sx_results ?t = sx_results s" "sx_calls ?t = sx_calls s'" using kept by (simp_all add: strict_push_def Let_def)
  obtain rs' where rs': "sx_out (fold strict_step rs ?t) = sx_out ?t @ rs'"
      "map wire_view rs' = map answer_view (fresh ?ids (fst ` set (sx_results ?t)))"
      "fst ` set (sx_results (fold strict_step rs ?t)) = fst ` set (sx_results ?t) \<union> set ?ids"
      "sx_calls (fold strict_step rs ?t) = sx_calls ?t"
    using strict_results [OF rs, of ?t] by blast
  have keys: "set (sx_calls s) = fst ` set (sx_results s)" using inv by (simp add: strict_inv_def)
  have block: "map wire_view rs' = map answer_view (map tl_id (ms_tool_calls m'))" using rs'(2) t keys kept(1) by simp
  have "distinct (map tl_id (ms_tool_calls m'))" "set (map tl_id (ms_tool_calls m')) = set ?ids - set (sx_calls s)"
    unfolding kept(1) by (rule fresh_distinct, rule fresh_set)
  moreover then have "set (map tl_id (ms_tool_calls m')) \<inter> set (call_ids (sx_out s')) = {}"
    using inv kept(3) by (auto simp: strict_inv_def)
  moreover have "wire_ok (sx_out s')" "distinct (call_ids (sx_out s'))" "successively not_joined (sx_out s')"
    using inv kept(3) by (simp_all add: strict_inv_def)
  ultimately have p: "wire_ok (sx_out ?t @ rs')" "call_ids (sx_out ?t @ rs') = call_ids (sx_out s) @ map tl_id (ms_tool_calls m')"
      "successively not_joined (sx_out ?t @ rs')" "distinct (map tl_id (ms_tool_calls m'))"
      "set (map tl_id (ms_tool_calls m')) = set ?ids - set (sx_calls s)"
    using strict_push_block [of s' m' rs'] block m(1) role kept(3) by auto
  show ?thesis
    using p rs'(1,3,4) t kept(2) keys inv by (simp add: step strict_inv_def) (auto simp: strict_inv_def)
qed

lemma strict_loop:
  "wire_ok ms \<Longrightarrow> list_all (\<lambda>m. ms_role m = Tool \<or> ms_role m = Assistant \<or> ms_tool_calls m = []) ms \<Longrightarrow> strict_inv s \<Longrightarrow> strict_inv (fold strict_step ms s)"
proof (induction ms arbitrary: s rule: wire_ok.induct)
  case (2 m ms)
  let ?n = "length (ms_tool_calls m)"
  have w: "ms_role m \<noteq> Tool" "map wire_view (take ?n ms) = map answer_view (map tl_id (ms_tool_calls m))" "wire_ok (drop ?n ms)"
    using 2(2) unfolding wire_ok_Cons by auto
  have "strict_inv (fold strict_step (m # take ?n ms) s)" using strict_block [OF 2(4) w(1) _ w(2)] 2(3) w(1) by simp
  moreover have "list_all (\<lambda>m. ms_role m = Tool \<or> ms_role m = Assistant \<or> ms_tool_calls m = []) (drop ?n ms)"
    using 2(3) by (auto simp: list_all_iff dest: in_set_dropD)
  ultimately have "strict_inv (fold strict_step (drop ?n ms) (fold strict_step (m # take ?n ms) s))" using 2(1) [OF refl w(3)] by simp
  moreover have "fold strict_step ms t = fold strict_step (drop ?n ms) (fold strict_step (take ?n ms) t)" for t
    using fold_append [of strict_step "take ?n ms" "drop ?n ms"] by (simp only: append_take_drop_id comp_apply)
  ultimately show ?case by (simp only: fold_simps)
qed simp

lemma drop_leading:
  assumes "wire_ok out" "distinct (call_ids out)" "successively not_joined out"
  defines "rest \<equiv> drop (length (takeWhile (\<lambda>m. ms_role m \<noteq> User) out)) out"
  shows "wire_ok rest \<and> distinct (call_ids rest) \<and> successively not_joined rest \<and> (rest = [] \<or> ms_role (hd rest) = User)"
proof -
  have r: "rest = dropWhile (\<lambda>m. ms_role m \<noteq> User) out" by (simp add: rest_def dropWhile_eq_drop)
  then have split: "out = takeWhile (\<lambda>m. ms_role m \<noteq> User) out @ rest" by simp
  have "rest \<noteq> [] \<Longrightarrow> ms_role (hd rest) = User" unfolding r using hd_dropWhile [of "\<lambda>m. ms_role m \<noteq> User" out] by simp
  moreover have "rest \<noteq> [] \<Longrightarrow> wire_ok rest"
    using wire_ok_suffix [of "takeWhile (\<lambda>m. ms_role m \<noteq> User) out" "hd rest" "tl rest"] assms(1) split calculation by auto
  moreover have "distinct (call_ids rest)" using assms(2) by (subst (asm) split) (simp add: call_ids_def)
  moreover have "successively not_joined rest" using assms(3) by (subst (asm) split) (simp add: successively_append_iff)
  ultimately show ?thesis by (cases "rest = []") auto
qed

text \<open>
  C7. The strict projection of any history in which only assistant messages have calls, and that has an
  assistant message or no tool message, succeeds and gives a request that every provider accepts: each call is
  followed by its result and there are no other results, no call id occurs twice, no two
  assistant messages are neighbours, and the first message is the user's.
\<close>

theorem strict_request_ok:
  assumes "\<forall>m. mset (hash_order m) = mset m"
    and "list_ex (\<lambda>m. \<not> is_partial m \<and> role_of m = Assistant) history \<or> list_all (\<lambda>m. is_partial m \<or> role_of m \<noteq> Tool) history"
    and "list_all (\<lambda>m. role_of m = Assistant \<or> ms_tool_calls (cm_message m) = []) history"
  shows "\<exists>out log. with_trace hash_order debug_text history True last_signature = (Inr out, log)
    \<and> wire_ok out \<and> distinct (call_ids out) \<and> (out = [] \<or> ms_role (hd out) = User)
    \<and> successively (\<lambda>a b. \<not> (ms_role a = Assistant \<and> ms_role b = Assistant)) out"
proof -
  obtain out found where p: "project hash_order history [] = Inr (out, found)" and w: "wire_ok out"
    using project_request [OF assms(1,2)] by blast
  have "list_all (\<lambda>m. ms_role m = Tool \<or> ms_role m = Assistant \<or> ms_tool_calls m = []) out"
    using from_project [OF p] assms(3) by (fastforce simp: list_all_iff from_history_def)
  note inv = strict_loop [OF w this, of "\<lparr> sx_calls = [], sx_results = [], sx_out = [], sx_anomalies = found \<rparr>"]
  define s where "s = fold strict_step out \<lparr> sx_calls = [], sx_results = [], sx_out = [], sx_anomalies = found \<rparr>"
  have "strict_inv s" unfolding s_def by (rule inv) (simp add: strict_inv_def)
  then have "wire_ok (sx_out s)" "distinct (call_ids (sx_out s))" "successively not_joined (sx_out s)" by (simp_all add: strict_inv_def)
  note rest = drop_leading [OF this]
  define kept where "kept = drop (length (takeWhile (\<lambda>m. ms_role m \<noteq> User) (sx_out s))) (sx_out s)"
  have "\<exists>log. with_trace hash_order debug_text history True last_signature = (Inr kept, log)"
    using p by (simp add: with_trace_def project_strict_def Let_def s_def [symmetric] kept_def)
  then show ?thesis using rest unfolding kept_def [symmetric] by blast
qed

theorem strict_request_ok_witness:
  "\<exists>out log. with_trace rev (\<lambda>_. []) [sample_prompt 97] True None = (Inr out, log) \<and> wire_ok out \<and> (out = [] \<or> ms_role (hd out) = User)"
proof -
  have s: "role_of (sample_prompt 97) = User" "ms_tool_calls (cm_message (sample_prompt 97)) = []"
    by (simp_all add: sample_prompt_def context_user_message_def context_message_def message_new_def)
  then show ?thesis using strict_request_ok [of rev "[sample_prompt 97]" "\<lambda>_. []" None] by fastforce
qed

end
