(* ===== verification/ProjectorFaithful.thy ===== *)
theory ProjectorFaithful
  imports ProjectorStrict
begin

text \<open>
  A context whose tool calls are all answered is projected without repair: no result is moved, made up
  or dropped, and each recorded result reaches the request as it is rendered.
\<close>

definition clean_parts :: "'j context_message \<Rightarrow> content_part list" where
  "clean_parts source =
     filter (\<lambda>p. \<not> blank_text p)
       (if role_of source = Tool
        then render_tool_result_for_model
          \<lparr> rr_output = (case ms_content (cm_message source) of [TextPart s] \<Rightarrow> OutputText s | ps \<Rightarrow> OutputParts ps),
            rr_note = cm_note source, rr_is_error = cm_is_error source \<rparr>
        else ms_content (cm_message source))"

definition wire_of :: "'j context_message \<Rightarrow> 'j message" where
  "wire_of source = (cm_message source)\<lparr> ms_content := clean_parts source \<rparr>"

lemma wire_of_role: "ms_role (wire_of source) = role_of source"
  by (simp add: wire_of_def)

lemma clean_result: "\<exists>n. clean_content source xs = Inr (clean_parts source, xs @ replicate n (WhitespaceTextDropped (role_of source)))"
proof -
  have "filter (\<lambda>p. \<not> blank_text p) (render_tool_result_for_model r) \<noteq> []" for r
    using render_not_blank [of r] by (auto simp: filter_empty_conv)
  then show ?thesis unfolding clean_parts_def by (auto simp: clean_content_def Let_def map_replicate_const)
qed

text \<open>Blank text and empty messages are left out of every request; the rest are repairs.\<close>

definition harmless :: "projection_anomaly \<Rightarrow> bool" where
  "harmless a \<longleftrightarrow> (case a of WhitespaceTextDropped _ \<Rightarrow> True | VacuousMessageDropped _ \<Rightarrow> True | _ \<Rightarrow> False)"

lemma harmless_replicate [simp]: "list_all harmless (replicate n (WhitespaceTextDropped r))"
  by (simp add: list_all_iff harmless_def)

lemma push_calls_fresh:
  "distinct (map tl_id cs) \<Longrightarrow> set (map tl_id cs) \<inter> fst ` set (pj_slots p) = {}
   \<Longrightarrow> push_calls l index cs p =
     p\<lparr> pj_slots := pj_slots p @ map2 (\<lambda>c s. (tl_id c, (s, index, False))) cs [length (pj_out p)..<length (pj_out p) + length cs],
        pj_out := pj_out p @ map (\<lambda>c. interrupted_tool_result (tl_id c)) cs \<rparr>"
proof (induction l index cs p rule: push_calls.induct)
  case (2 l index c cs p)
  have new: "tl_id c \<notin> fst ` set (pj_slots p)" using 2(3) by auto
  then have none: "imap_get (pj_slots p) (tl_id c) = None" by (simp add: map_of_eq_None_iff)
  let ?p = "p\<lparr> pj_slots := pj_slots p @ [(tl_id c, (length (pj_out p), index, False))], pj_out := pj_out p @ [interrupted_tool_result (tl_id c)] \<rparr>"
  have "push_calls l index (c # cs) p = push_calls l index cs ?p" using none new by (simp add: imap_insert_new Let_def)
  also have "\<dots> = ?p\<lparr> pj_slots := pj_slots ?p @ map2 (\<lambda>c s. (tl_id c, (s, index, False))) cs [length (pj_out ?p)..<length (pj_out ?p) + length cs],
        pj_out := pj_out ?p @ map (\<lambda>c. interrupted_tool_result (tl_id c)) cs \<rparr>"
    using 2 none new by (simp add: imap_insert_new)
  moreover have "[n..<n + length (c # cs)] = n # [Suc n..<Suc n + length cs]" for n by (simp add: upt_conv_Cons del: upt_Suc)
  ultimately show ?case by (simp del: upt_Suc)
qed simp

text \<open>
  The loop on an answered history: \<open>waiting\<close> are the calls that are still to be answered, each with a slot of
  its own; the results seen so far are in place.
\<close>

definition placed :: "'j context_message list \<Rightarrow> 'j projection \<Rightarrow> bool" where
  "placed seen p \<longleftrightarrow> (\<forall>source\<in>set seen. role_of source = Tool \<longrightarrow>
     (\<exists>i<length (pj_out p). pj_out p ! i = wire_of source \<and> i \<notin> set (map (fst \<circ> snd) (pj_slots p))))"

definition calm_inv :: "'j context_message list \<Rightarrow> str list \<Rightarrow> 'j projection \<Rightarrow> bool" where
  "calm_inv seen waiting p \<longleftrightarrow> proj_inv p \<and> distinct waiting \<and> distinct (map fst (pj_slots p)) \<and> set (map fst (pj_slots p)) = set waiting
     \<and> list_all (\<lambda>(k, (slot, owner, foreign)). \<not> foreign) (pj_slots p) \<and> distinct (map (fst \<circ> snd) (pj_slots p))
     \<and> placed seen p \<and> list_all harmless (pj_anomalies p)"

definition calls_ok :: "'j context_message \<Rightarrow> bool" where
  "calls_ok m \<longleftrightarrow> ms_tool_calls (cm_message m) = [] \<or> role_of m = Assistant \<and> distinct (map tl_id (ms_tool_calls (cm_message m)))"

lemma calm_tool:
  assumes inv: "calm_inv seen waiting p" and tool: "role_of source = Tool" "ms_tool_call_id (cm_message source) = Some i" "i \<in> set waiting"
  shows "\<exists>q. project_tool source p = Inr q \<and> calm_inv (seen @ [source]) (remove1 i waiting) q"
proof -
  have keys: "distinct (map fst (pj_slots p))" "set (map fst (pj_slots p)) = set waiting" using inv by (simp_all add: calm_inv_def)
  then obtain slot owner f where get: "imap_get (pj_slots p) i = Some (slot, owner, f)"
    using tool(3) by (metis (no_types, lifting) list.set_map map_of_eq_None_iff not_None_eq surj_pair)
  then have mem: "(i, (slot, owner, f)) \<in> set (pj_slots p)" by (rule map_of_SomeD)
  then have f: "\<not> f" using inv by (auto simp: calm_inv_def list_all_iff)
  obtain n where n: "clean_content source (pj_anomalies p) = Inr (clean_parts source, pj_anomalies p @ replicate n (WhitespaceTextDropped (role_of source)))"
    using clean_result by blast
  define q where "q = p\<lparr> pj_slots := imap_remove i (pj_slots p), pj_out := (pj_out p)[slot := wire_of source],
      pj_user_merge := None, pj_anomalies := pj_anomalies p @ replicate n (WhitespaceTextDropped (role_of source)) \<rparr>"
  have step: "project_tool source p = Inr q"
    using tool get f n by (simp add: project_tool_def q_def to_wire_def wire_of_def)
  have pinv: "proj_inv q" using inv_project_tool [OF _ tool(1) step] inv by (simp add: calm_inv_def)
  have slot: "slot < length (pj_out p)" using slots_ok_get [OF _ get, of "pj_out p"] inv by (simp add: calm_inv_def proj_inv_def)
  have slots: "pj_slots q = filter (\<lambda>e. i \<noteq> fst e) (pj_slots p)" by (simp add: q_def AList.delete_eq case_prod_unfold)
  have uniq: "e = (i, (slot, owner, f))" if "e \<in> set (pj_slots p)" "fst (snd e) = slot" for e
    using inv mem that by (auto simp: calm_inv_def distinct_map inj_on_def)
  then have gone: "slot \<notin> set (map (fst \<circ> snd) (pj_slots q))" by (auto simp: slots)
  have "placed (seen @ [source]) q"
  proof -
    have "\<exists>j<length (pj_out q). pj_out q ! j = wire_of s \<and> j \<notin> set (map (fst \<circ> snd) (pj_slots q))" if s: "s \<in> set seen" "role_of s = Tool" for s
    proof -
      obtain j where j: "j < length (pj_out p)" "pj_out p ! j = wire_of s" "j \<notin> set (map (fst \<circ> snd) (pj_slots p))"
        using inv s by (auto simp: calm_inv_def placed_def)
      then have "j \<noteq> slot" using mem by force
      then show ?thesis using j by (intro exI [of _ j]) (auto simp: q_def slots AList.delete_eq)
    qed
    moreover have "slot < length (pj_out q)" "pj_out q ! slot = wire_of source" using slot by (simp_all add: q_def)
    ultimately show ?thesis using gone by (auto simp: placed_def)
  qed
  moreover have "distinct (map fst (pj_slots q))" "distinct (map (fst \<circ> snd) (pj_slots q))"
    using inv unfolding slots by (auto simp: calm_inv_def intro: distinct_map_filter)
  moreover have "set (map fst (pj_slots q)) = set (remove1 i waiting)"
    using keys(2) inv unfolding slots by (auto simp: calm_inv_def)
  moreover have "list_all (\<lambda>(k, (slot, owner, foreign)). \<not> foreign) (pj_slots q)"
    using inv unfolding slots by (auto simp: calm_inv_def list_all_iff)
  moreover have "distinct (remove1 i waiting)" "list_all harmless (pj_anomalies q)" using inv by (simp_all add: calm_inv_def q_def)
  ultimately show ?thesis using step pinv unfolding calm_inv_def by blast
qed

lemma calm_message:
  assumes inv: "calm_inv seen [] p" and role: "role_of source \<noteq> Tool" and ok: "calls_ok source"
  shows "\<exists>q. project_message l index source p = Inr q \<and> calm_inv (seen @ [source]) (map tl_id (ms_tool_calls (cm_message source))) q"
proof -
  let ?ids = "map tl_id (ms_tool_calls (cm_message source))"
  have none: "pj_slots p = []" using inv by (simp add: calm_inv_def)
  obtain n where n: "clean_content source (pj_anomalies p) = Inr (clean_parts source, pj_anomalies p @ replicate n (WhitespaceTextDropped (role_of source)))"
    using clean_result by blast
  define p2 where "p2 = p\<lparr> pj_slots := [], pj_anomalies := pj_anomalies p @ replicate n (WhitespaceTextDropped (role_of source)) \<rparr>"
  have inv2: "calm_inv (seen @ [source]) [] p2"
    using inv none role by (auto simp: calm_inv_def p2_def proj_inv_def placed_def)
  then have inv3: "calm_inv (seen @ [source]) [] (p2\<lparr> pj_anomalies := pj_anomalies p2 @ [VacuousMessageDropped r] \<rparr>)" for r
    by (auto simp: calm_inv_def proj_inv_def placed_def harmless_def)
  obtain q where q: "project_message l index source p = Inr q" "proj_inv q"
    using message_total [of l index source p] inv_project_message [of p source l index] inv role by (auto simp: calm_inv_def)
  let ?bare = "ms_tool_calls (cm_message source) = [] \<and> (case ms_tools (cm_message source) of None \<Rightarrow> True | Some ts \<Rightarrow> ts = [])"
  let ?can = "role_of source = User \<and> cm_origin source = Some OriginUserPrompt"
  let ?prior = "\<lambda>i. pj_out p ! i"
  consider (dropped) "?bare" "q = p2 \<or> q = p2\<lparr> pj_anomalies := pj_anomalies p2 @ [VacuousMessageDropped (role_of source)] \<rparr>"
    | (merged) i where "?can" "pj_user_merge p = Some i"
        "q = p2\<lparr> pj_out := (pj_out p)[i := (?prior i)\<lparr> ms_content := ms_content (?prior i) @ [TextPart [10, 10]] @ clean_parts source \<rparr>] \<rparr>"
    | (pushed) um where "q = push_calls l index (ms_tool_calls (cm_message source)) (p2\<lparr> pj_out := pj_out p @ [wire_of source], pj_user_merge := um \<rparr>)"
    using q(1) n none unfolding project_message_def Let_def
    by (auto simp: p2_def to_wire_def wire_of_def split: if_splits option.splits)
  then have "calm_inv (seen @ [source]) ?ids q"
  proof cases
    case dropped
    then show ?thesis using inv2 inv3 by auto
  next
    case merged
    have empty: "ms_tool_calls (cm_message source) = []" using ok merged(1) by (auto simp: calls_ok_def)
    have i: "i < length (pj_out p)" "ms_role (pj_out p ! i) \<noteq> Tool" using inv merged(2) by (auto simp: calm_inv_def proj_inv_def)
    have "wire_of s \<noteq> pj_out p ! i" if "role_of s = Tool" for s
      using i(2) that wire_of_role [of s] by metis
    moreover have "\<exists>j<length (pj_out p). pj_out p ! j = wire_of s" if "s \<in> set seen" "role_of s = Tool" for s
      using inv that by (auto simp: calm_inv_def placed_def)
    ultimately have "\<exists>j<length (pj_out p). j \<noteq> i \<and> pj_out p ! j = wire_of s" if "s \<in> set seen" "role_of s = Tool" for s
      using that by metis
    then have "placed (seen @ [source]) q"
      using role unfolding placed_def merged(3) by (auto simp: p2_def) (metis nth_list_update_neq)
    then show ?thesis using q(2) inv2 empty unfolding merged(3) by (simp add: calm_inv_def p2_def)
  next
    case pushed
    have d: "distinct ?ids" using ok by (auto simp: calls_ok_def)
    let ?p = "p2\<lparr> pj_out := pj_out p @ [wire_of source], pj_user_merge := um \<rparr>"
    let ?m = "length (pj_out p)" and ?cs = "ms_tool_calls (cm_message source)"
    have e: "q = ?p\<lparr> pj_slots := map2 (\<lambda>c s. (tl_id c, (s, index, False))) ?cs [Suc ?m..<Suc ?m + length ?cs],
        pj_out := pj_out p @ [wire_of source] @ map (\<lambda>c. interrupted_tool_result (tl_id c)) ?cs \<rparr>"
      unfolding pushed using push_calls_fresh [OF d, of ?p l index] by (simp add: p2_def)
    have fst_map: "map fst (map2 (\<lambda>c s. (tl_id c, (s, index, False))) ?cs xs) = ?ids" if "length xs = length ?cs" for xs :: "nat list"
      using that by (auto simp: map_eq_conv intro!: nth_equalityI)
    have snd_map: "map (fst \<circ> snd) (map2 (\<lambda>c s. (tl_id c, (s, index, False))) ?cs xs) = xs" if "length xs = length ?cs" for xs :: "nat list"
      using that by (auto intro!: nth_equalityI)
    have len: "length [Suc ?m..<Suc ?m + length ?cs] = length ?cs" by (simp del: upt_Suc)
    have keys: "map fst (pj_slots q) = ?ids" "map (fst \<circ> snd) (pj_slots q) = [Suc ?m..<Suc ?m + length ?cs]"
      using fst_map [OF len] snd_map [OF len] by (simp_all add: e)
    have "placed (seen @ [source]) q"
      using inv role unfolding placed_def calm_inv_def keys(2) by (fastforce simp: e nth_append)
    moreover have "list_all (\<lambda>(k, (slot, owner, foreign)). \<not> foreign) (pj_slots q)" by (auto simp: e list_all_iff dest!: set_zip_rightD)
    moreover have "list_all harmless (pj_anomalies q)" using inv by (simp add: e p2_def calm_inv_def)
    ultimately show ?thesis using q(2) d keys unfolding calm_inv_def by (simp del: upt_Suc)
  qed
  then show ?thesis using q(1) by blast
qed

lemma calm_loop:
  assumes "scan_calls waiting ms = Some []" "list_all (\<lambda>m. \<not> is_partial m \<and> calls_ok m) ms"
    "b \<or> list_all (\<lambda>m. role_of m \<noteq> Tool) ms" "calm_inv seen waiting p"
  shows "\<exists>q. project_loop b l index ms p = Inr q \<and> calm_inv (seen @ ms) [] q"
  using assms
proof (induction ms arbitrary: waiting seen index p)
  case (Cons m ms)
  have m: "\<not> is_partial m" "calls_ok m" using Cons.prems(2) by simp_all
  have "\<exists>w q. scan_calls w ms = Some [] \<and> project_step b l index m p = Inr q \<and> calm_inv (seen @ [m]) w q"
  proof (cases "role_of m = Tool")
    case True
    then obtain i where i: "ms_tool_call_id (cm_message m) = Some i" "i \<in> set waiting" "scan_calls (remove1 i waiting) ms = Some []"
      using Cons.prems(1) by (auto split: option.splits if_splits)
    have "project_step b l index m p = project_tool m p" using True m Cons.prems(3) by (auto simp: project_step_def)
    then show ?thesis using calm_tool [OF Cons.prems(4) True i(1,2)] i(3) by auto
  next
    case False
    then have w: "waiting = []" "scan_calls (map tl_id (ms_tool_calls (cm_message m))) ms = Some []"
      using Cons.prems(1) by (auto split: if_splits)
    have "project_step b l index m p = project_message l index m p" using False m by (simp add: project_step_def)
    then show ?thesis using calm_message [OF _ False m(2), of seen p l index] Cons.prems(4) w by auto
  qed
  then obtain w q where q: "scan_calls w ms = Some []" "project_step b l index m p = Inr q" "calm_inv (seen @ [m]) w q" by blast
  then show ?case using Cons.IH [OF q(1) _ _ q(3), of "index + 1"] Cons.prems(2,3) by auto
qed simp

text \<open>A history without assistant messages has no answers to calls.\<close>

lemma scan_no_calls:
  "scan_calls [] ms = Some w \<Longrightarrow> list_all (\<lambda>m. ms_tool_calls (cm_message m) = []) ms \<Longrightarrow> list_all (\<lambda>m. role_of m \<noteq> Tool) ms"
  by (induction ms) (auto split: option.splits if_splits)

text \<open>
  C32. A context whose calls are all answered goes out as it is: the projection reports no repair, only blank
  texts and empty messages left out, and every recorded tool result is in the request, as it is rendered.
\<close>

theorem answered_unrepaired:
  assumes "scan_calls [] history = Some []" and "list_all (\<lambda>m. \<not> is_partial m \<and> calls_ok m) history" and "hash_order [] = []"
  shows "\<exists>out found. project hash_order history [] = Inr (out, found) \<and> list_all harmless found
    \<and> (\<forall>source\<in>set history. role_of source = Tool \<longrightarrow> wire_of source \<in> set out)"
proof -
  let ?b = "list_ex (\<lambda>m. \<not> is_partial m \<and> role_of m = Assistant) history"
  let ?l = "rposition (\<lambda>m. role_of m \<noteq> Tool \<and> \<not> is_partial m) history"
  let ?p = "\<lparr> pj_out = [], pj_slots = [], pj_user_merge = None, pj_anomalies = [] \<rparr>"
  have tools: "?b \<or> list_all (\<lambda>m. role_of m \<noteq> Tool) history"
    using scan_no_calls [OF assms(1)] assms(2) by (fastforce simp: list_ex_iff list_all_iff calls_ok_def)
  have start: "calm_inv [] [] ?p" by (simp add: calm_inv_def proj_inv_def slots_ok_def placed_def)
  obtain q where q: "project_loop ?b ?l 0 history ?p = Inr q" "calm_inv history [] q"
    using calm_loop [OF assms(1,2) tools start, of ?l 0] by auto
  have none: "pj_slots q = []" using q(2) by (simp add: calm_inv_def)
  have "project hash_order history [] = Inr (pj_out q, pj_anomalies q)" using q(1) none assms(3) by (simp add: project_def Let_def)
  then show ?thesis using q(2) unfolding calm_inv_def placed_def by (auto simp: in_set_conv_nth)
qed

section \<open>Media\<close>

definition media_of :: "(str \<Rightarrow> str) \<Rightarrow> 'j message list \<Rightarrow> content_part list" where
  "media_of sha ms = filter (\<lambda>p. media_key sha p \<noteq> None) (concat (map ms_content ms))"

lemma placeholder_no_media [simp]: "media_key sha (placeholder_part stripped p) = None"
  by (simp add: placeholder_part_def media_key_def media_parts_of_def)

lemma degrade_parts_media:
  "degrade_parts sha stripped parts n = (ps, r) \<Longrightarrow> filter (\<lambda>p. media_key sha p \<noteq> None) ps = drop n (filter (\<lambda>p. media_key sha p \<noteq> None) parts)
     \<and> r = n - length (filter (\<lambda>p. media_key sha p \<noteq> None) parts)"
proof (induction parts arbitrary: n ps r)
  case (Cons p parts)
  obtain qs t where d: "degrade_parts sha stripped parts (if 0 < n \<and> media_key sha p \<noteq> None then n - 1 else n) = (qs, t)"
    by (cases "degrade_parts sha stripped parts (if 0 < n \<and> media_key sha p \<noteq> None then n - 1 else n)")
  show ?case using Cons.prems Cons.IH [OF d] d by (cases n) (auto split: if_splits)
qed simp

lemma degrade_messages_media: "media_of sha (degrade_messages sha stripped ms n) = drop n (media_of sha ms)"
proof (induction ms arbitrary: n)
  case (Cons m ms)
  obtain ps r where d: "degrade_parts sha stripped (ms_content m) n = (ps, r)" by (cases "degrade_parts sha stripped (ms_content m) n")
  show ?case using Cons [of r] degrade_parts_media [OF d] by (simp add: d media_of_def)
qed (simp add: media_of_def)

text \<open>
  The degraded projection keeps exactly the most recent media parts, in order, and the stripped one, with
  the snapshot of the same messages, none.
\<close>

lemma media_kept:
  "media_of sha (degrade_older_media_parts sha ms keep stripped) = drop (length (media_of sha ms) - keep) (media_of sha ms)
   \<and> media_of sha (strip_media_parts_by_snapshot sha ms (capture_media_strip_snapshot sha ms)) = []"
proof -
  have "media_of sha (strip_media_parts_by_snapshot sha xs keys) = []" if "set (List.map_filter (media_key sha) (concat (map ms_content xs))) \<subseteq> keys"
    for xs :: "'a message list" and keys
  proof -
    have "media_key sha (case media_key sha part of None \<Rightarrow> part | Some key \<Rightarrow> if key \<in> keys then placeholder_part True part else part) = None"
      if "part \<in> set (concat (map ms_content xs))" for part
    proof (cases "media_key sha part")
      case (Some key)
      then have "key \<in> set (List.map_filter (media_key sha) (concat (map ms_content xs)))"
        using that by (force simp: List.map_filter_def)
      then show ?thesis using Some \<open>set (List.map_filter _ _) \<subseteq> keys\<close> by auto
    qed simp
    then show ?thesis by (auto simp: media_of_def strip_media_parts_by_snapshot_def filter_empty_conv)
  qed
  moreover have "degrade_older_media_parts sha ms keep stripped = degrade_messages sha stripped ms (length (media_of sha ms) - keep)"
    by (simp add: degrade_older_media_parts_def media_of_def)
  ultimately show ?thesis by (simp add: degrade_messages_media capture_media_strip_snapshot_def)
qed

section \<open>Examples\<close>

definition sample_call :: "str \<Rightarrow> unit tool_call" where
  "sample_call call_id = \<lparr> tl_id = call_id, tl_name = [114], tl_arguments = None, tl_extras = None, tl_stream_index = None \<rparr>"

definition sample_asks :: "str \<Rightarrow> unit context_message" where
  "sample_asks call_id = context_message (message_new Assistant [] [sample_call call_id])"

definition sample_result :: "str \<Rightarrow> str \<Rightarrow> unit context_message" where
  "sample_result call_id s = context_message (create_tool_message call_id (OutputText s))"

lemmas sample_defs = sample_call_def sample_asks_def sample_result_def context_message_def message_new_def create_tool_message_def

theorem answered_unrepaired_witness:
  "\<exists>out found. project rev [sample_asks [7], sample_result [7] [111, 107]] [] = Inr (out, found) \<and> list_all harmless found
     \<and> wire_of (sample_result [7] [111, 107]) \<in> set out"
proof -
  have "scan_calls [] [sample_asks [7], sample_result [7] [111, 107]] = Some []" by (simp add: sample_defs)
  moreover have "list_all (\<lambda>m. \<not> is_partial m \<and> calls_ok m) [sample_asks [7], sample_result [7] [111, 107]]"
    by (simp add: sample_defs is_partial_def calls_ok_def)
  moreover have "role_of (sample_result [7] [111, 107]) = Tool" by (simp add: sample_defs)
  ultimately show ?thesis using answered_unrepaired [of "[sample_asks [7], sample_result [7] [111, 107]]" rev] by fastforce
qed

text \<open>
  A call id that is asked twice and answered once: the projection puts the answer into the later slot and fills the
  earlier one, the strict projection keeps the earlier slot; the recorded result does not reach the model.
\<close>

lemma sample_rendered: "render_tool_result_for_model \<lparr> rr_output = OutputText [111, 107], rr_note = None, rr_is_error = None \<rparr> = [TextPart [111, 107]]"
  by (simp add: render_tool_result_for_model_def render_status_def render_single_text_def is_empty_output_text_def trim_def is_space_def
      TOOL_OUTPUT_EMPTY_TEXT_def lit_def)

lemma sample_clean:
  "clean_content (sample_prompt 97) xs = Inr ([TextPart [97]], xs)" "clean_content (sample_asks i) xs = Inr ([], xs)"
  "clean_content (sample_result [7] [111, 107]) xs = Inr ([TextPart [111, 107]], xs)"
  by (simp_all add: sample_defs sample_prompt_def context_user_message_def clean_content_def blank_text_def trim_def is_space_def sample_rendered)

lemma sample_fields:
  "role_of (sample_prompt c) = User" "role_of (sample_asks i) = Assistant" "role_of (sample_result i s) = Tool"
  "\<not> is_partial (sample_prompt c)" "\<not> is_partial (sample_asks i)" "\<not> is_partial (sample_result i s)"
  "ms_tool_calls (cm_message (sample_prompt c)) = []" "ms_tool_calls (cm_message (sample_asks i)) = [sample_call i]"
  "ms_tool_call_id (cm_message (sample_result i s)) = Some i" "tl_id (sample_call i) = i" "ms_tools (cm_message (sample_prompt c)) = None"
  by (simp_all add: sample_defs sample_prompt_def context_user_message_def is_partial_def)

lemma repeated_call_loses_result:
  "\<exists>out found. project id [sample_prompt 97, sample_asks [7], sample_asks [7], sample_result [7] [111, 107]] [] = Inr (out, found)
     \<and> map ms_content out = [[TextPart [97]], [], [TextPart TOOL_INTERRUPTED_TEXT], [], [TextPart [111, 107]]]
     \<and> map ms_content (fst (project_strict out found)) = [[TextPart [97]], [], [TextPart TOOL_INTERRUPTED_TEXT], []]"
proof -
  have v: "\<not> is_vacuous_content_part (TextPart [97])" by (simp add: is_vacuous_content_part_def trim_def is_space_def)
  show ?thesis
    by (simp add: project_def project_step_def project_message_def project_tool_def sample_fields sample_clean v Let_def synthesize_def
        to_wire_def interrupted_tool_result_def message_new_def project_strict_def strict_step_def strict_dedup_def strict_push_def
        iset_insert_def)
qed

end
