(* ===== verification/PathAccess.thy ===== *)
theory PathAccess
  imports Query "HOL-Library.Sublist"
begin

text \<open>
  Path access of the file tools (\<open>tool/path_access.rs\<close>): lexical normalisation, the workspace check, the
  sensitive-file check and the resolution that every file tool runs before it touches a file. A path
  is a list of characters; 47 is the slash, 92 the backslash, 58 the colon, 46 the dot and 126 the
  tilde. A test on bytes of the code is a test on characters with an ASCII guard, as a byte of
  a longer character is never an ASCII byte.
\<close>

section \<open>Data\<close>

datatype path_class = Posix | Win32

record workspace_config =
  workspace_dir :: str
  additional_dirs :: "str list"

datatype path_security_code = OutsideWorkspace | Sensitive | InvalidPath

fun path_security_code_as_str :: "path_security_code \<Rightarrow> str" where
  "path_security_code_as_str OutsideWorkspace = lit ''PATH_OUTSIDE_WORKSPACE''"
| "path_security_code_as_str Sensitive = lit ''PATH_SENSITIVE''"
| "path_security_code_as_str InvalidPath = lit ''PATH_INVALID''"

record path_security_error =
  pe_code :: path_security_code
  pe_raw_path :: str
  pe_canonical_path :: str
  pe_message :: str

datatype path_access_operation = PathRead | PathWrite | PathSearch

datatype workspace_guard_mode = AbsoluteOutsideAllowed | GuardDisabled

record workspace_access_policy =
  guard_mode :: workspace_guard_mode
  check_sensitive :: bool

definition DEFAULT_WORKSPACE_ACCESS_POLICY :: workspace_access_policy where
  "DEFAULT_WORKSPACE_ACCESS_POLICY = \<lparr> guard_mode = AbsoluteOutsideAllowed, check_sensitive = True \<rparr>"

record path_access =
  pa_path :: str
  pa_outside_workspace :: bool

definition path_error :: "path_security_code \<Rightarrow> str \<Rightarrow> str \<Rightarrow> str \<Rightarrow> path_security_error" where
  "path_error code raw_path canonical_path message =
     \<lparr> pe_code = code, pe_raw_path = raw_path, pe_canonical_path = canonical_path, pe_message = message \<rparr>"

section \<open>Sensitive files\<close>

definition SENSITIVE_BASENAMES :: "str list" where
  "SENSITIVE_BASENAMES = map lit [''.env'', ''id_rsa'', ''id_ed25519'', ''id_ecdsa'', ''credentials'']"

definition ENV_EXEMPTIONS :: "str list" where
  "ENV_EXEMPTIONS = map lit [''.env.example'', ''.env.sample'', ''.env.template'']"

definition SENSITIVE_PREFIXES :: "str list" where
  "SENSITIVE_PREFIXES = map lit [''id_rsa'', ''id_ed25519'', ''id_ecdsa'', ''credentials'']"

definition PUBLIC_KEYS :: "str list" where
  "PUBLIC_KEYS = map lit [''id_rsa.pub'', ''id_ed25519.pub'', ''id_ecdsa.pub'']"

definition SENSITIVE_DOT_VARIANT_SUFFIXES :: "str list" where
  "SENSITIVE_DOT_VARIANT_SUFFIXES =
     map lit [''.bak'', ''.backup'', ''.copy'', ''.disabled'', ''.key'', ''.old'', ''.orig'', ''.pem'', ''.save'', ''.tmp'']"

text \<open>\<open>str::replace\<close> of the backslash, \<open>to_ascii_lowercase\<close> and \<open>to_ascii_uppercase\<close>, \<open>is_ascii_alphabetic\<close>.\<close>

definition slashed :: "str \<Rightarrow> str" where
  "slashed path = map (\<lambda>c. if c = 92 then 47 else c) path"

definition ascii_lower :: "nat \<Rightarrow> nat" where
  "ascii_lower c = (if 65 \<le> c \<and> c \<le> 90 then c + 32 else c)"

definition ascii_upper :: "nat \<Rightarrow> nat" where
  "ascii_upper c = (if 97 \<le> c \<and> c \<le> 122 then c - 32 else c)"

definition ascii_alphabetic :: "nat \<Rightarrow> bool" where
  "ascii_alphabetic c \<longleftrightarrow> 65 \<le> c \<and> c \<le> 90 \<or> 97 \<le> c \<and> c \<le> 122"

definition contains_str :: "str \<Rightarrow> str \<Rightarrow> bool" where
  "contains_str s t \<longleftrightarrow> list_ex (prefix t) (suffixes s)"

definition sensitive_variant :: "str \<Rightarrow> str \<Rightarrow> bool" where
  "sensitive_variant name p \<longleftrightarrow>
     (case strip_prefix p name of
        None \<Rightarrow> False
      | Some rest \<Rightarrow> rest = [] \<or> hd rest \<in> {45, 95} \<or> hd rest = 46 \<and> rest \<in> set SENSITIVE_DOT_VARIANT_SUFFIXES)"

definition is_sensitive_file :: "str \<Rightarrow> bool" where
  "is_sensitive_file path \<longleftrightarrow>
     (let normalized = map ascii_lower (slashed path);
          name = last (split_char 47 normalized) in
      if name \<in> set ENV_EXEMPTIONS \<or> name \<in> set PUBLIC_KEYS then False
      else if name \<in> set SENSITIVE_BASENAMES \<or> prefix (lit ''.env.'') name then True
      else if list_ex (sensitive_variant name) SENSITIVE_PREFIXES then True
      else list_ex (\<lambda>s. suffix (47 # s) normalized \<or> contains_str normalized (47 # s @ [47]))
             [lit ''.aws/credentials'', lit ''.gcp/credentials''])"

section \<open>Normalisation\<close>

definition split_drive_path :: "str \<Rightarrow> (nat \<times> str) option" where
  "split_drive_path s =
     (case s of
        [] \<Rightarrow> None
      | drive # tail \<Rightarrow>
          if \<not> ascii_alphabetic drive then None
          else if tail = [] \<or> hd tail = 47 then Some (ascii_upper drive, tail) else None)"

definition format_drive_path :: "nat \<Rightarrow> str \<Rightarrow> str" where
  "format_drive_path drive tail = drive # 58 # (if tail = [] then [47] else tail)"

definition normalize_user_path :: "str \<Rightarrow> path_class \<Rightarrow> str" where
  "normalize_user_path path cls =
     (if cls \<noteq> Win32 \<or> path = [47] \<or> prefix [47, 47] path then path
      else case Option.bind (strip_prefix (lit ''/cygdrive/'') path) split_drive_path of
        Some (drive, tail) \<Rightarrow> format_drive_path drive tail
      | None \<Rightarrow>
          (case Option.bind (strip_prefix [47] path) split_drive_path of
             Some (drive, tail) \<Rightarrow> format_drive_path drive tail
           | None \<Rightarrow> path))"

definition is_win32_drive_relative :: "str \<Rightarrow> bool" where
  "is_win32_drive_relative path \<longleftrightarrow>
     (case path of
        c # d # rest \<Rightarrow> ascii_alphabetic c \<and> d = 58 \<and> (rest = [] \<or> hd rest \<notin> {47, 92})
      | _ \<Rightarrow> False)"

definition is_absolute :: "str \<Rightarrow> bool" where
  "is_absolute path \<longleftrightarrow>
     (case slashed path of
        [] \<Rightarrow> False
      | c # rest \<Rightarrow> c = 47 \<or> ascii_alphabetic c \<and> prefix [58, 47] rest)"

definition lexical_prefix :: "str \<Rightarrow> str \<times> str" where
  "lexical_prefix path =
     (if prefix [47, 47] path then ([47, 47], dropWhile (\<lambda>c. c = 47) path)
      else if path \<noteq> [] \<and> hd path < 128 \<and> prefix [58, 47] (tl path) then (take 1 path @ [58, 47], drop 3 path)
      else case strip_prefix [47] path of
        Some remainder \<Rightarrow> ([47], remainder)
      | None \<Rightarrow> ([], path))"

definition push_component :: "str list \<Rightarrow> str \<Rightarrow> str list" where
  "push_component components component =
     (if component = [] \<or> component = [46] then components
      else if component = [46, 46] then butlast components
      else components @ [component])"

fun join_slash :: "str list \<Rightarrow> str" where
  "join_slash [] = []"
| "join_slash [c] = c"
| "join_slash (c # d # cs) = c @ 47 # join_slash (d # cs)"

definition normalize_lexical :: "str \<Rightarrow> str" where
  "normalize_lexical path =
     (let (pre, remainder) = lexical_prefix (slashed path);
          components = foldl push_component [] (split_char 47 remainder) in
      if components = [] then pre
      else if pre = [] then join_slash components
      else pre @ join_slash components)"

definition trim_end_matches :: "nat set \<Rightarrow> str \<Rightarrow> str" where
  "trim_end_matches cs s = rev (dropWhile (\<lambda>c. c \<in> cs) (rev s))"

definition canonicalize_path :: "str \<Rightarrow> str \<Rightarrow> path_class \<Rightarrow> path_security_error + str" where
  "canonicalize_path path cwd cls =
     (if path = [] then Inl (path_error InvalidPath path path (lit ''Path cannot be empty''))
      else let normalized = normalize_user_path path cls in
        if cls = Win32 \<and> is_win32_drive_relative normalized
        then Inl (path_error InvalidPath path normalized
               ([34] @ path @ [34] @ lit '' is a drive-relative Windows path. Use an absolute path like C:'' @ [92]
                @ lit ''path or a path relative to the working directory.''))
        else if \<not> is_absolute normalized \<and> \<not> is_absolute cwd
        then Inl (path_error InvalidPath path normalized
               (lit ''Cannot resolve '' @ [34] @ path @ [34] @ lit '' against non-absolute cwd '' @ [34] @ cwd @ [34] @ lit ''.''))
        else Inr (normalize_lexical
               (if is_absolute normalized then normalized else trim_end_matches {47, 92} cwd @ 47 # normalized)))"

section \<open>The workspace\<close>

definition is_within_directory :: "str \<Rightarrow> str \<Rightarrow> path_class \<Rightarrow> bool" where
  "is_within_directory candidate base cls \<longleftrightarrow>
     (let fold_case = (if cls = Win32 then map ascii_lower else id);
          candidate = fold_case (normalize_lexical candidate);
          base = fold_case (normalize_lexical base)
      in candidate = base \<or> prefix (trim_end_matches {47} base @ [47]) candidate)"

definition is_within_workspace :: "str \<Rightarrow> workspace_config \<Rightarrow> path_class \<Rightarrow> bool" where
  "is_within_workspace candidate workspace cls \<longleftrightarrow>
     is_within_directory candidate (workspace_dir workspace) cls
     \<or> list_ex (\<lambda>directory. is_within_directory candidate directory cls) (additional_dirs workspace)"

definition add_skill_root :: "str \<Rightarrow> path_class \<Rightarrow> str \<Rightarrow> str list \<Rightarrow> str list" where
  "add_skill_root dir cls root additional =
     (if is_within_directory root dir cls \<or> list_ex (\<lambda>directory. is_within_directory root directory cls) additional
      then additional else additional @ [root])"

definition extend_workspace_with_skill_roots ::
  "workspace_config \<Rightarrow> str list \<Rightarrow> path_class \<Rightarrow> workspace_config" where
  "extend_workspace_with_skill_roots workspace skill_roots cls =
     (let additional = fold (add_skill_root (workspace_dir workspace) cls) skill_roots (additional_dirs workspace)
      in if length additional = length (additional_dirs workspace) then workspace
         else \<lparr> workspace_dir = workspace_dir workspace, additional_dirs = additional \<rparr>)"

section \<open>Resolution\<close>

definition expand_user_path :: "str \<Rightarrow> str option \<Rightarrow> path_class \<Rightarrow> str" where
  "expand_user_path path home_dir cls =
     (case home_dir of
        None \<Rightarrow> path
      | Some home \<Rightarrow>
          if path = [126] then home
          else
            (let windows_rest = (if cls = Win32 then strip_prefix [126, 92] path else None) in
             case (case strip_prefix [126, 47] path of Some rest \<Rightarrow> Some rest | None \<Rightarrow> windows_rest) of
               Some rest \<Rightarrow> trim_end_matches {47, 92} home @ 47 # rest
             | None \<Rightarrow> path))"

fun operation_verb :: "path_access_operation \<Rightarrow> str" where
  "operation_verb PathWrite = lit ''write or edit a file''"
| "operation_verb PathSearch = lit ''search''"
| "operation_verb PathRead = lit ''read a file''"

definition resolve_path_access ::
  "str \<Rightarrow> str \<Rightarrow> workspace_config \<Rightarrow> path_access_operation \<Rightarrow> workspace_access_policy \<Rightarrow> path_class \<Rightarrow> str option
   \<Rightarrow> path_security_error + path_access" where
  "resolve_path_access path cwd workspace operation policy cls home_dir =
     (let normalized = normalize_user_path path cls;
          expanded = expand_user_path normalized home_dir cls;
          raw_is_absolute = is_absolute expanded in
      case canonicalize_path expanded cwd cls of
        Inl e \<Rightarrow> Inl e
      | Inr canonical \<Rightarrow>
          (let outside_workspace = (\<not> is_within_workspace canonical workspace cls) in
           if check_sensitive policy \<and> is_sensitive_file canonical
           then Inl (path_error Sensitive path canonical
                  ([34] @ path @ [34] @ lit '' matches a sensitive-file pattern (env / credential / SSH key). Access is blocked to protect secrets.''))
           else if outside_workspace \<and> guard_mode policy = AbsoluteOutsideAllowed \<and> \<not> raw_is_absolute
           then Inl (path_error OutsideWorkspace path canonical
                  ([34] @ path @ [34] @ lit '' is not an absolute path. You must provide an absolute path to ''
                   @ operation_verb operation @ lit '' outside the working directory.''))
           else Inr \<lparr> pa_path = canonical, pa_outside_workspace = outside_workspace \<rparr>))"

definition resolve_path_access_path ::
  "str \<Rightarrow> path_class \<Rightarrow> str \<Rightarrow> workspace_config \<Rightarrow> path_access_operation \<Rightarrow> workspace_access_policy \<Rightarrow> bool
   \<Rightarrow> path_security_error + str" where
  "resolve_path_access_path path cls env_home workspace operation policy expand_home =
     map_sum id pa_path
       (resolve_path_access path (workspace_dir workspace) workspace operation policy cls (if expand_home then Some env_home else None))"

definition assert_path_allowed ::
  "str \<Rightarrow> str \<Rightarrow> workspace_config \<Rightarrow> path_access_operation \<Rightarrow> bool option \<Rightarrow> path_class \<Rightarrow> path_security_error + str" where
  "assert_path_allowed path cwd workspace operation sensitive_check cls =
     map_sum id pa_path
       (resolve_path_access path cwd workspace operation
          \<lparr> guard_mode = AbsoluteOutsideAllowed,
            check_sensitive = (case sensitive_check of Some b \<Rightarrow> b | None \<Rightarrow> check_sensitive DEFAULT_WORKSPACE_ACCESS_POLICY) \<rparr>
          cls None)"

section \<open>Components\<close>

lemma split_char_nonempty: "split_char c s \<noteq> []"
  by (induction s) (auto split: list.splits)

lemma split_char_parts: "x \<in> set (split_char c s) \<Longrightarrow> c \<notin> set x \<and> set x \<subseteq> set s"
proof (induction s arbitrary: x)
  case (Cons a s)
  obtain p ps where p: "split_char c s = p # ps" using split_char_nonempty [of c s] by (cases "split_char c s") auto
  have "c \<notin> set y \<and> set y \<subseteq> set s" if "y = p \<or> y \<in> set ps" for y using Cons.IH [of y] that p by auto
  then show ?case using Cons.prems p by (fastforce split: if_splits)
qed simp

definition clean_component :: "str \<Rightarrow> bool" where
  "clean_component c \<longleftrightarrow> c \<noteq> [] \<and> c \<noteq> [46] \<and> c \<noteq> [46, 46] \<and> 47 \<notin> set c \<and> 92 \<notin> set c"

lemma push_clean:
  "list_all clean_component acc \<Longrightarrow> list_all (\<lambda>c. 47 \<notin> set c \<and> 92 \<notin> set c) cs \<Longrightarrow> list_all clean_component (foldl push_component acc cs)"
proof (induction cs arbitrary: acc)
  case (Cons c cs)
  have "list_all clean_component (push_component acc c)"
    using Cons.prems by (auto simp: push_component_def clean_component_def list_all_iff dest: in_set_butlastD)
  then show ?case using Cons by simp
qed simp

lemma push_all: "list_all clean_component cs \<Longrightarrow> foldl push_component acc cs = acc @ cs"
  by (induction cs arbitrary: acc) (auto simp: push_component_def clean_component_def)

lemma split_join: "list_all clean_component cs \<Longrightarrow> cs \<noteq> [] \<Longrightarrow> split_char 47 (join_slash cs) = cs"
  by (induction cs rule: join_slash.induct) (simp_all add: clean_component_def split_char_none split_char_skip)

lemma components_join: "list_all clean_component cs \<Longrightarrow> foldl push_component [] (split_char 47 (join_slash cs)) = cs"
  by (cases "cs = []") (simp_all add: split_join push_all, simp add: push_component_def)

lemma join_first:
  assumes "join_slash cs = a @ 47 # r" "47 \<notin> set a" "list_all clean_component cs"
  obtains rest where "cs = a # rest" "rest \<noteq> []" "r = join_slash rest"
proof (cases cs rule: join_slash.cases)
  case (3 c d ds)
  have "47 \<notin> set c" using assms(3) 3 by (simp add: clean_component_def)
  then have "a = c \<and> r = join_slash (d # ds)"
    using assms(1,2) 3 by (auto simp: append_eq_append_conv2 Cons_eq_append_conv append_eq_Cons_conv)
  then show ?thesis using that 3 by blast
qed (use assms in \<open>auto simp: clean_component_def\<close>)

lemma join_no_slash: "list_all clean_component cs \<Longrightarrow> join_slash cs \<noteq> [] \<Longrightarrow> hd (join_slash cs) \<noteq> 47"
  by (cases cs rule: join_slash.cases) (auto simp: clean_component_def hd_append dest: hd_in_set)

lemma join_no_backslash: "list_all clean_component cs \<Longrightarrow> 92 \<notin> set (join_slash cs)"
  by (induction cs rule: join_slash.induct) (auto simp: clean_component_def)

lemma join_empty: "list_all clean_component cs \<Longrightarrow> join_slash cs = [] \<longleftrightarrow> cs = []"
  by (cases cs rule: join_slash.cases) (auto simp: clean_component_def)

lemma slashed_set: "92 \<notin> set (slashed p)"
  by (auto simp: slashed_def)

lemma slashed_id: "92 \<notin> set p \<Longrightarrow> slashed p = p"
  by (induction p) (auto simp: slashed_def)

definition lexical_components :: "str \<Rightarrow> str list" where
  "lexical_components path = foldl push_component [] (split_char 47 (snd (lexical_prefix (slashed path))))"

lemma lexical_prefix_split: "set (snd (lexical_prefix q)) \<subseteq> set q"
  by (auto simp: lexical_prefix_def strip_prefix_def dest: set_dropWhileD in_set_dropD)

lemma lexical_components_clean: "list_all clean_component (lexical_components p)"
proof -
  have "list_all (\<lambda>c. 47 \<notin> set c \<and> 92 \<notin> set c) (split_char 47 (snd (lexical_prefix (slashed p))))"
    using split_char_parts lexical_prefix_split [of "slashed p"] slashed_set [of p] by (fastforce simp: list_all_iff)
  then show ?thesis unfolding lexical_components_def by (intro push_clean) simp_all
qed

lemma normalize_lexical_eq: "normalize_lexical p = fst (lexical_prefix (slashed p)) @ join_slash (lexical_components p)"
  by (auto simp: normalize_lexical_def lexical_components_def Let_def split: prod.splits)

lemma lexical_prefix_cases:
  obtains (double) "fst (lexical_prefix q) = [47, 47]"
    | (drive) c where "fst (lexical_prefix q) = [c, 58, 47]" "c < 128" "c \<in> set q"
    | (root) "fst (lexical_prefix q) = [47]"
    | (relative) "fst (lexical_prefix q) = []"
proof -
  consider "prefix [47, 47] q" | "\<not> prefix [47, 47] q" "q \<noteq> []" "hd q < 128" "prefix [58, 47] (tl q)"
    | "\<not> prefix [47, 47] q" "\<not> (q \<noteq> [] \<and> hd q < 128 \<and> prefix [58, 47] (tl q))" by blast
  then show ?thesis
  proof cases
    case 2
    then show ?thesis using drive [of "hd q"] by (cases q) (simp_all add: lexical_prefix_def)
  next
    case 3
    then have "lexical_prefix q = (case strip_prefix [47] q of Some remainder \<Rightarrow> ([47], remainder) | None \<Rightarrow> ([], q))"
      by (auto simp: lexical_prefix_def)
    then show ?thesis using root relative by (cases "strip_prefix [47] q") simp_all
  qed (use double in \<open>simp add: lexical_prefix_def\<close>)
qed

lemma lexical_prefix_again:
  assumes cs: "list_all clean_component cs" and pre: "pre = fst (lexical_prefix q)"
  obtains cs' where "list_all clean_component cs'" "lexical_prefix (pre @ join_slash cs) = (fst (lexical_prefix (pre @ join_slash cs)), join_slash cs')"
    "fst (lexical_prefix (pre @ join_slash cs)) @ join_slash cs' = pre @ join_slash cs"
proof -
  let ?s = "join_slash cs"
  have no: "\<not> prefix (47 # t) ?s" for t using join_no_slash [OF cs] by (cases ?s) auto
  have drive: "\<exists>cs'. list_all clean_component cs' \<and> r = join_slash cs'" if "?s = a @ 47 # r" "47 \<notin> set a" for a r
    using join_first [OF that cs] cs by (metis list.pred_inject(2))
  show ?thesis
    using pre
  proof (cases rule: lexical_prefix_cases [of q])
    case double
    have "dropWhile (\<lambda>c. c = 47) ?s = ?s" using join_no_slash [OF cs] by (cases ?s) auto
    then show ?thesis using that [of cs] cs pre double by (simp add: lexical_prefix_def)
  next
    case (drive c)
    then show ?thesis using that [of cs] cs pre by (simp add: lexical_prefix_def)
  next
    case root
    show ?thesis
    proof (cases "prefix [58, 47] ?s")
      case True
      then obtain r where r: "?s = [58] @ 47 # r" by (auto simp: prefix_def)
      then obtain cs' where "list_all clean_component cs'" "r = join_slash cs'" using drive [OF r] by auto
      then show ?thesis using that [of cs'] r pre root by (simp add: lexical_prefix_def)
    next
      case False
      then show ?thesis using that [of cs] cs pre root no [of "[]"] by (simp add: lexical_prefix_def strip_prefix_def)
    qed
  next
    case relative
    show ?thesis
    proof (cases "?s \<noteq> [] \<and> hd ?s < 128 \<and> prefix [58, 47] (tl ?s)")
      case True
      then obtain c r where r: "?s = [c, 58] @ 47 # r" by (cases ?s) (auto simp: prefix_def)
      have "c \<noteq> 47" using r join_no_slash [OF cs] by simp
      then obtain cs' where "list_all clean_component cs'" "r = join_slash cs'" using drive [OF r] by auto
      then show ?thesis using that [of cs'] r pre relative True no [of "[47]"] by (simp add: lexical_prefix_def)
    next
      case False
      have "strip_prefix [47] ?s = None" using no [of "[]"] by (cases ?s) (auto simp: strip_prefix_def)
      then show ?thesis using that [of cs] cs pre relative False no [of "[47]"] by (auto simp: lexical_prefix_def)
    qed
  qed
qed

lemma normalized_no_backslash: "92 \<notin> set (normalize_lexical p)"
proof -
  have "92 \<notin> set (fst (lexical_prefix (slashed p)))"
    by (cases rule: lexical_prefix_cases [of "slashed p"]) (use slashed_set [of p] in auto)
  then show ?thesis using join_no_backslash [OF lexical_components_clean] by (simp add: normalize_lexical_eq)
qed

lemma normalize_idem: "normalize_lexical (normalize_lexical p) = normalize_lexical p"
proof -
  obtain cs' where cs': "list_all clean_component cs'"
      "lexical_prefix (normalize_lexical p) = (fst (lexical_prefix (normalize_lexical p)), join_slash cs')"
      "fst (lexical_prefix (normalize_lexical p)) @ join_slash cs' = normalize_lexical p"
    using lexical_prefix_again [OF lexical_components_clean [of p] refl, of "slashed p"] unfolding normalize_lexical_eq [of p] by blast
  have "slashed (normalize_lexical p) = normalize_lexical p" by (rule slashed_id [OF normalized_no_backslash])
  moreover have "lexical_components (normalize_lexical p) = cs'"
    unfolding lexical_components_def calculation by (subst cs'(2)) (simp add: components_join [OF cs'(1)])
  ultimately show ?thesis using cs'(3) by (simp add: normalize_lexical_eq [of "normalize_lexical p"])
qed

section \<open>What a path denotes\<close>

text \<open>
  A directory tree without links. A position is the list of directories entered from the root, the innermost
  first; the walk of an operating system follows the components of a path one by one.
\<close>

datatype file_tree = Tree "(str \<times> file_tree) list"

fun entry_of :: "file_tree \<Rightarrow> str \<Rightarrow> file_tree option" where
  "entry_of (Tree entries) name = map_of entries name"

definition here :: "file_tree \<Rightarrow> (str \<times> file_tree) list \<Rightarrow> file_tree" where
  "here root position = (case position of [] \<Rightarrow> root | (_, t) # _ \<Rightarrow> t)"

fun walk :: "file_tree \<Rightarrow> str list \<Rightarrow> (str \<times> file_tree) list \<Rightarrow> (str \<times> file_tree) list option" where
  "walk root [] position = Some position"
| "walk root (c # cs) position =
     (if c = [] \<or> c = [46] then walk root cs position
      else if c = [46, 46] then walk root cs (tl position)
      else (case entry_of (here root position) c of None \<Rightarrow> None | Some t \<Rightarrow> walk root cs ((c, t) # position)))"

lemma walk_append: "walk root (as @ bs) position = Option.bind (walk root as position) (walk root bs)"
  by (induction as arbitrary: position) (auto split: option.splits)

lemma walk_last:
  assumes "walk root (as @ [c]) [] = Some position" "clean_component c"
  shows "\<exists>t rest. position = (c, t) # rest \<and> walk root as [] = Some rest"
  using assms by (auto simp: walk_append bind_eq_Some_conv clean_component_def split: option.splits)

lemma walk_push:
  assumes "walk root acc [] = Some position" "list_all clean_component acc" "47 \<notin> set c" "92 \<notin> set c"
    "walk root [c] position = Some position'"
  shows "walk root (push_component acc c) [] = Some position'"
proof (cases "c = [46, 46]")
  case True
  show ?thesis
  proof (cases acc rule: rev_cases)
    case (snoc as d)
    then show ?thesis using walk_last [of root as d position] assms True by (auto simp: push_component_def)
  qed (use assms True in \<open>simp add: push_component_def\<close>)
next
  case False
  then show ?thesis using assms by (auto simp: push_component_def walk_append)
qed

lemma walk_foldl:
  assumes "walk root acc [] = Some position" "list_all clean_component acc" "list_all (\<lambda>c. 47 \<notin> set c \<and> 92 \<notin> set c) cs"
    "walk root cs position = Some final"
  shows "walk root (foldl push_component acc cs) [] = Some final"
  using assms
proof (induction cs arbitrary: acc position)
  case (Cons c cs)
  obtain p' where p': "walk root [c] position = Some p'" "walk root cs p' = Some final"
    using Cons.prems(4) walk_append [of root "[c]" cs position] unfolding append.simps by (metis bind_eq_Some_conv)
  have "walk root (push_component acc c) [] = Some p'" using walk_push [OF Cons.prems(1,2) _ _ p'(1)] Cons.prems(3) by simp
  moreover have "list_all clean_component (push_component acc c)" using push_clean [of acc "[c]"] Cons.prems(2,3) by simp
  ultimately show ?case using Cons.IH [OF _ _ _ p'(2)] Cons.prems(3) by simp
qed simp

lemma walk_names: "walk root cs position = Some final \<Longrightarrow> list_all clean_component cs \<Longrightarrow> map fst final = rev cs @ map fst position"
  by (induction cs arbitrary: position) (auto simp: clean_component_def split: option.splits)

text \<open>Paths of a POSIX system: rooted, and without the two spellings that the code reads in the Windows way.\<close>

definition posix_path :: "str \<Rightarrow> bool" where
  "posix_path path \<longleftrightarrow> prefix [47] path \<and> 92 \<notin> set path \<and> \<not> prefix [47, 58, 47] path"

lemma posix_prefix:
  assumes "posix_path path"
  shows "fst (lexical_prefix (slashed path)) = (if prefix [47, 47] path then [47, 47] else [47])"
    "\<exists>n. split_char 47 path = replicate n [] @ split_char 47 (snd (lexical_prefix (slashed path)))"
proof -
  have drop_slashes: "\<exists>n. split_char 47 s = replicate n [] @ split_char 47 (dropWhile (\<lambda>c. c = 47) s)" for s
  proof (induction s)
    case (Cons c s)
    then obtain n where "split_char 47 s = replicate n [] @ split_char 47 (dropWhile (\<lambda>c. c = 47) s)" by blast
    then show ?case by (cases "c = 47") (auto intro: exI [of _ "Suc n"] exI [of _ 0])
  qed (auto intro: exI [of _ 0])
  obtain r where r: "path = 47 # r" using assms by (auto simp: posix_path_def prefix_def)
  have plain: "slashed path = path" "\<not> prefix [58, 47] r" using assms r by (auto simp: posix_path_def slashed_id)
  then show "fst (lexical_prefix (slashed path)) = (if prefix [47, 47] path then [47, 47] else [47])"
    using r by (simp add: lexical_prefix_def strip_prefix_def)
  show "\<exists>n. split_char 47 path = replicate n [] @ split_char 47 (snd (lexical_prefix (slashed path)))"
  proof (cases "prefix [47, 47] path")
    case True
    then show ?thesis using drop_slashes [of path] plain by (simp add: lexical_prefix_def)
  next
    case False
    then show ?thesis using plain r by (auto simp: lexical_prefix_def strip_prefix_def intro: exI [of _ 1])
  qed
qed

lemma walk_empties: "walk root (replicate n [] @ cs) position = walk root cs position"
  by (induction n) simp_all

lemma walk_components:
  assumes "posix_path path" "walk root (split_char 47 path) [] = Some position"
  shows "walk root (lexical_components path) [] = Some position"
proof -
  let ?rem = "snd (lexical_prefix (slashed path))"
  have "walk root (split_char 47 ?rem) [] = Some position"
    using posix_prefix(2) [OF assms(1)] assms(2) by (auto simp: walk_empties)
  moreover have "list_all (\<lambda>c. 47 \<notin> set c \<and> 92 \<notin> set c) (split_char 47 ?rem)"
    using split_char_parts lexical_prefix_split [of "slashed path"] slashed_set [of path] by (fastforce simp: list_all_iff)
  ultimately show ?thesis unfolding lexical_components_def by (intro walk_foldl) simp_all
qed

lemma split_normalized:
  assumes "posix_path path"
  shows "split_char 47 (normalize_lexical path)
     = (if prefix [47, 47] path then [[], []] else [[]]) @ (if lexical_components path = [] then [[]] else lexical_components path)"
  using split_join [OF lexical_components_clean [of path]]
  by (simp add: normalize_lexical_eq posix_prefix(1) [OF assms])

lemma walk_normalized:
  assumes "posix_path path" "walk root (split_char 47 path) [] = Some position"
  shows "walk root (split_char 47 (normalize_lexical path)) [] = Some position"
  using walk_components [OF assms] by (cases "lexical_components path = []") (simp_all add: split_normalized [OF assms(1)])

definition full_path :: "str \<Rightarrow> str \<Rightarrow> str" where
  "full_path path cwd = (if prefix [47] path then path else trim_end_matches {47, 92} cwd @ 47 # path)"

lemma canonicalize_posix:
  assumes "path \<noteq> []" "is_absolute path \<longleftrightarrow> prefix [47] path" "is_absolute path \<or> is_absolute cwd"
  shows "canonicalize_path path cwd Posix = Inr (normalize_lexical (full_path path cwd))"
  using assms by (auto simp: canonicalize_path_def normalize_user_path_def full_path_def)


section \<open>The workspace as a subtree\<close>

lemma prefix_components:
  assumes "list_all clean_component as" "list_all clean_component bs" "as \<noteq> []" "bs \<noteq> []"
  shows "join_slash as = join_slash bs \<or> prefix (join_slash bs @ [47]) (join_slash as) \<longleftrightarrow> prefix bs as"
  using assms
proof (induction bs arbitrary: as rule: join_slash.induct)
  case (2 b)
  obtain a rest where as: "as = a # rest" using 2(3) by (cases as) auto
  have no: "47 \<notin> set a" "47 \<notin> set b" using 2 as by (simp_all add: clean_component_def)
  show ?case
  proof (cases rest)
    case Nil
    then show ?thesis using as no by (auto simp: prefix_def)
  next
    case (Cons d ds)
    have "prefix (b @ [47]) (a @ 47 # s) \<longleftrightarrow> a = b" for s
      using no by (auto simp: prefix_def append_eq_append_conv2 Cons_eq_append_conv append_eq_Cons_conv)
    moreover have "a @ 47 # s \<noteq> b" for s using no by auto
    ultimately show ?thesis using as Cons by auto
  qed
next
  case (3 b d bs)
  obtain a rest where as: "as = a # rest" using 3(4) by (cases as) auto
  have no: "47 \<notin> set a" "47 \<notin> set b" using 3(2,3) as by (simp_all add: clean_component_def)
  show ?case
  proof (cases rest)
    case Nil
    have "a \<noteq> b @ 47 # s" for s using no by auto
    then show ?thesis using as Nil by (auto simp: prefix_def)
  next
    case (Cons e es)
    have "a @ 47 # s = b @ 47 # t \<longleftrightarrow> a = b \<and> s = t" for s t
      using no by (auto simp: append_eq_append_conv2 Cons_eq_append_conv append_eq_Cons_conv)
    moreover have "prefix (b @ 47 # t) (a @ 47 # s) \<longleftrightarrow> a = b \<and> prefix t s" for s t
      using no by (auto simp: prefix_def append_eq_append_conv2 Cons_eq_append_conv append_eq_Cons_conv)
    ultimately show ?thesis using 3(1) [of rest] 3(2,3) as Cons by auto
  qed
qed simp

lemma trim_root: "trim_end_matches {47} [47] = []"
  by (simp add: trim_end_matches_def)

lemma join_last: "list_all clean_component cs \<Longrightarrow> cs \<noteq> [] \<Longrightarrow> join_slash cs \<noteq> [] \<and> last (join_slash cs) \<noteq> 47"
  by (induction cs rule: join_slash.induct) (auto simp: clean_component_def dest: last_in_set)

lemma trim_join:
  assumes "list_all clean_component cs" "cs \<noteq> []"
  shows "trim_end_matches {47} (pre @ join_slash cs) = pre @ join_slash cs"
proof -
  obtain s c where s: "join_slash cs = s @ [c]" "c \<noteq> 47" using join_last [OF assms] by (metis append_butlast_last_id)
  show ?thesis by (simp add: trim_end_matches_def s)
qed

lemma within_components:
  assumes "posix_path candidate" "posix_path base" "\<not> prefix [47, 47] candidate" "\<not> prefix [47, 47] base"
  shows "is_within_directory candidate base Posix \<longleftrightarrow> prefix (lexical_components base) (lexical_components candidate)"
proof -
  let ?c = "lexical_components candidate" and ?b = "lexical_components base"
  have c: "normalize_lexical candidate = 47 # join_slash ?c" and b: "normalize_lexical base = 47 # join_slash ?b"
    using posix_prefix(1) [OF assms(1)] posix_prefix(1) [OF assms(2)] assms(3,4) by (simp_all add: normalize_lexical_eq)
  note clean = lexical_components_clean [of candidate] lexical_components_clean [of base]
  show ?thesis
  proof (cases "?b = []")
    case True
    then show ?thesis using c b by (simp add: is_within_directory_def trim_root)
  next
    case False
    have t: "trim_end_matches {47} (47 # join_slash ?b) = 47 # join_slash ?b"
      using trim_join [OF clean(2) False, of "[47]"] by simp
    show ?thesis
    proof (cases "?c = []")
      case True
      then show ?thesis using False t join_empty [OF clean(2)] by (simp add: is_within_directory_def c b)
    next
      case c': False
      then show ?thesis using prefix_components [OF clean c' False] t by (simp add: is_within_directory_def c b)
    qed
  qed
qed

text \<open>
  C28. Of two POSIX paths that exist, the first is found within the second exactly when the place it leads to is
  in the directory the second leads to, at any depth.
\<close>

theorem within_is_below:
  assumes "posix_path candidate" and "posix_path base" and "\<not> prefix [47, 47] candidate" and "\<not> prefix [47, 47] base"
    and "walk root (split_char 47 candidate) [] = Some place" and "walk root (split_char 47 base) [] = Some directory"
  shows "is_within_directory candidate base Posix \<longleftrightarrow> suffix directory place"
proof -
  let ?c = "lexical_components candidate" and ?b = "lexical_components base"
  note c = walk_components [OF assms(1,5)] and b = walk_components [OF assms(2,6)]
  note clean = lexical_components_clean [of candidate] lexical_components_clean [of base]
  have names: "map fst place = rev ?c" "map fst directory = rev ?b"
    using walk_names [OF c clean(1)] walk_names [OF b clean(2)] by simp_all
  have "suffix directory place \<longleftrightarrow> prefix ?b ?c"
  proof
    assume "suffix directory place"
    then have "suffix (rev ?b) (rev ?c)" unfolding names [symmetric] by (auto simp: suffix_def)
    then show "prefix ?b ?c" by (simp add: suffix_to_prefix)
  next
    assume "prefix ?b ?c"
    then obtain rest where rest: "?c = ?b @ rest" by (auto simp: prefix_def)
    then have "walk root rest directory = Some place" using c b by (simp add: walk_append)
    moreover have "walk root cs d = Some p \<Longrightarrow> list_all clean_component cs \<Longrightarrow> suffix d p" for cs d p
      by (induction cs arbitrary: d) (auto simp: clean_component_def split: option.splits dest: suffix_ConsD)
    ultimately show "suffix directory place" using clean(1) rest by simp
  qed
  then show ?thesis using within_components [OF assms(1-4)] by simp
qed

section \<open>Resolution\<close>

lemma absolute_prefix:
  assumes "is_absolute path"
  shows "is_absolute (fst (lexical_prefix (slashed path)) @ rest)"
proof -
  obtain c r where q: "slashed path = c # r" "c = 47 \<or> ascii_alphabetic c \<and> prefix [58, 47] r"
    using assms by (auto simp: is_absolute_def split: list.splits)
  have "ascii_alphabetic c \<Longrightarrow> c < 128 \<and> c \<noteq> 92 \<and> c \<noteq> 47" by (auto simp: ascii_alphabetic_def)
  then have "fst (lexical_prefix (slashed path)) \<in> {[47, 47], [47], [47, 58, 47]} \<or> ascii_alphabetic c \<and> c \<noteq> 92 \<and> fst (lexical_prefix (slashed path)) = [c, 58, 47]"
    using q by (auto simp: lexical_prefix_def strip_prefix_def)
  then show ?thesis by (auto simp: is_absolute_def slashed_def)
qed

lemma trim_absolute: "is_absolute cwd \<Longrightarrow> is_absolute (trim_end_matches {47, 92} cwd @ 47 # path)"
proof -
  assume a: "is_absolute cwd"
  define t where "t = trim_end_matches {47, 92} cwd"
  obtain slashes where e: "cwd = t @ slashes" "set slashes \<subseteq> {47, 92}"
  proof
    let ?e = "rev (takeWhile (\<lambda>c. c \<in> {47, 92}) (rev cwd))"
    show "cwd = t @ ?e" unfolding t_def trim_end_matches_def rev_append [symmetric] takeWhile_dropWhile_id by simp
    show "set ?e \<subseteq> {47, 92}" by (auto dest: set_takeWhileD)
  qed
  have s: "slashed cwd = slashed t @ replicate (length slashes) 47"
    using e by (auto simp: slashed_def intro!: nth_equalityI) (use nth_mem in fastforce)
  show "is_absolute (trim_end_matches {47, 92} cwd @ 47 # path)"
    unfolding t_def [symmetric]
  proof (cases "slashed t")
    case Nil
    then show "is_absolute (t @ 47 # path)" by (simp add: is_absolute_def slashed_def)
  next
    case (Cons c r)
    then have "c = 47 \<or> ascii_alphabetic c \<and> prefix [58, 47] (r @ replicate (length slashes) 47)" using a s by (simp add: is_absolute_def)
    moreover have "prefix [58, 47] (r @ replicate n 47) \<Longrightarrow> prefix [58, 47] (r @ 47 # x)" for n x
      by (cases r; cases "tl r"; cases n) auto
    moreover have "slashed (t @ 47 # path) = c # (r @ 47 # slashed path)" using Cons by (simp add: slashed_def)
    ultimately show "is_absolute (t @ 47 # path)" by (auto simp: is_absolute_def)
  qed
qed

lemma canonicalize_ok:
  assumes "canonicalize_path path cwd cls = Inr canonical"
  shows "normalize_lexical canonical = canonical" "is_absolute canonical" "92 \<notin> set canonical"
proof -
  obtain full where full: "canonical = normalize_lexical full" "is_absolute full"
    using assms trim_absolute by (auto simp: canonicalize_path_def Let_def split: if_splits)
  then show "normalize_lexical canonical = canonical" "is_absolute canonical" "92 \<notin> set canonical"
    using normalize_idem [of full] absolute_prefix [of full "join_slash (lexical_components full)"] normalized_no_backslash [of full]
    by (simp_all flip: normalize_lexical_eq)
qed

definition expanded_path :: "str \<Rightarrow> path_class \<Rightarrow> str option \<Rightarrow> str" where
  "expanded_path path cls home_dir = expand_user_path (normalize_user_path path cls) home_dir cls"


lemma within_itself: "is_within_directory root root cls"
  by (simp add: is_within_directory_def)

text \<open>The skill roots are in the extended workspace, and what was in it stays.\<close>

lemma add_skill_root_mono: "set additional \<subseteq> set (add_skill_root dir cls root additional)"
  by (auto simp: add_skill_root_def)

lemma skill_roots_within:
  "is_within_workspace path workspace cls \<or> path \<in> set skill_roots
   \<Longrightarrow> is_within_workspace path (extend_workspace_with_skill_roots workspace skill_roots cls) cls"
proof -
  let ?dir = "workspace_dir workspace"
  have fold_len: "length xs \<le> length (fold (add_skill_root ?dir cls) rs xs) \<and> set xs \<subseteq> set (fold (add_skill_root ?dir cls) rs xs)
      \<and> (length (fold (add_skill_root ?dir cls) rs xs) = length xs \<longrightarrow> fold (add_skill_root ?dir cls) rs xs = xs)" for rs xs
  proof (induction rs arbitrary: xs)
    case (Cons r rs)
    have "add_skill_root ?dir cls r xs = xs \<or> add_skill_root ?dir cls r xs = xs @ [r]" by (simp add: add_skill_root_def)
    then show ?case using Cons [of "add_skill_root ?dir cls r xs"] by auto
  qed simp
  have dirs: "workspace_dir (extend_workspace_with_skill_roots workspace skill_roots cls) = ?dir"
      "additional_dirs (extend_workspace_with_skill_roots workspace skill_roots cls) = fold (add_skill_root ?dir cls) skill_roots (additional_dirs workspace)"
    using fold_len [of "additional_dirs workspace" skill_roots] by (auto simp: extend_workspace_with_skill_roots_def Let_def)
  have covered: "path \<in> set rs \<Longrightarrow> is_within_directory path ?dir cls \<or> list_ex (\<lambda>d. is_within_directory path d cls) (fold (add_skill_root ?dir cls) rs xs)" for rs xs
  proof (induction rs arbitrary: xs)
    case (Cons r rs)
    show ?case
    proof (cases "path = r")
      case True
      have "is_within_directory path ?dir cls \<or> list_ex (\<lambda>d. is_within_directory path d cls) (add_skill_root ?dir cls r xs)"
        using True within_itself by (auto simp: add_skill_root_def)
      then show ?thesis using fold_len [of "add_skill_root ?dir cls r xs" rs] by (auto simp: list_ex_iff)
    qed (use Cons in auto)
  qed simp
  assume "is_within_workspace path workspace cls \<or> path \<in> set skill_roots"
  then show ?thesis
    using covered [of skill_roots "additional_dirs workspace"] fold_len [of "additional_dirs workspace" skill_roots]
    unfolding is_within_workspace_def dirs by (auto simp: list_ex_iff)
qed

section \<open>Examples\<close>

text \<open>The tree \<open>/w/a\<close>, \<open>/w/b\<close>.\<close>

definition sample_tree :: file_tree where
  "sample_tree = Tree [([119], Tree [([97], Tree []), ([98], Tree [])])]"


theorem within_is_below_witness:
  "is_within_directory [47, 119, 47, 98] [47, 119] Posix \<longleftrightarrow>
     suffix [([119] :: str, Tree [([97], Tree []), ([98], Tree [])])] [([98], Tree []), ([119], Tree [([97], Tree []), ([98], Tree [])])]"
  by (rule within_is_below [of _ _ sample_tree]) (simp_all add: posix_path_def sample_tree_def here_def)

text \<open>
  On a POSIX host the text \<open>c:/x\<close> is a relative path, but it passes as an absolute one: it is not resolved
  against the working directory, and the guard for relative paths does not look at it.
\<close>

lemma drive_path_passes_guard:
  "resolve_path_access (lit ''c:/x'') (lit ''/w'') \<lparr> workspace_dir = lit ''/w'', additional_dirs = [] \<rparr> PathWrite DEFAULT_WORKSPACE_ACCESS_POLICY Posix None
   = Inr \<lparr> pa_path = lit ''c:/x'', pa_outside_workspace = True \<rparr>"
  by (simp add: resolve_path_access_def canonicalize_path_def normalize_user_path_def expand_user_path_def is_absolute_def slashed_def
      ascii_alphabetic_def normalize_lexical_def lexical_prefix_def push_component_def is_within_workspace_def is_within_directory_def
      trim_end_matches_def strip_prefix_def is_sensitive_file_def lit_def ENV_EXEMPTIONS_def PUBLIC_KEYS_def SENSITIVE_BASENAMES_def
      SENSITIVE_PREFIXES_def sensitive_variant_def ascii_lower_def contains_str_def suffix_to_prefix DEFAULT_WORKSPACE_ACCESS_POLICY_def)

end
