(* ===== verification/RuleMatch.thy ===== *)
theory RuleMatch
  imports PathAccess
begin

text \<open>
  Permission rules (\<open>tool/rule_match.rs\<close>, \<open>agent/permission_rules/matches_rule.rs\<close>): the patterns of rules, the
  extended globs with their parser and matcher, the path variants a rule is tried on, and the literal
  rules that an approval leaves behind. The globset crate is the parameter \<open>globset\<close> (the result of
  building a pattern, with its answer on a value) and the lowercase of a character the parameter
  \<open>lower\<close>.
\<close>

section \<open>Extended globs\<close>

record char_class =
  cc_negated :: bool
  cc_ranges :: "(nat \<times> nat) list"

datatype glob_node =
    Literal nat
  | AnyChar bool
  | Star bool
  | GlobStar bool
  | GlobStarSlash bool
  | Class char_class
  | Alternation "glob_node list list"
  | Repeat "glob_node list list" nat bool
  | Negative "glob_node list list"

text \<open>Characters: \<open>( ) * + ? @ ! | , { } [ ] \ - ^\<close>.\<close>

definition opens_extglob :: "nat \<Rightarrow> str \<Rightarrow> bool" where
  "opens_extglob c rest \<longleftrightarrow> c \<in> {64, 63, 43, 42, 33} \<and> prefix [40] rest"

fun contains_extglob :: "str \<Rightarrow> bool" where
  "contains_extglob [] \<longleftrightarrow> False"
| "contains_extglob (c # rest) \<longleftrightarrow>
     (if c = 92 then contains_extglob (tl rest) else opens_extglob c rest \<or> contains_extglob rest)"

fun class_chars :: "str \<Rightarrow> str \<Rightarrow> bool \<Rightarrow> (str \<times> str) option" where
  "class_chars [] characters escaped = None"
| "class_chars (c # rest) characters escaped =
     (if \<not> escaped \<and> c = 93 \<and> characters \<noteq> [] then Some (characters, rest)
      else if \<not> escaped \<and> c = 92 then class_chars rest characters True
      else class_chars rest (characters @ [c]) False)"

fun class_ranges :: "str \<Rightarrow> (nat \<times> nat) list" where
  "class_ranges (a # d # b # rest) = (if d = 45 then (a, b) # class_ranges rest else (a, a) # class_ranges (d # b # rest))"
| "class_ranges (a # rest) = (a, a) # class_ranges rest"
| "class_ranges [] = []"

definition parse_class :: "str \<Rightarrow> (char_class \<times> str) option" where
  "parse_class rest =
     (let negated = (rest \<noteq> [] \<and> hd rest \<in> {33, 94}) in
      case class_chars (if negated then tl rest else rest) [] False of
        None \<Rightarrow> None
      | Some (characters, rest) \<Rightarrow> Some (\<lparr> cc_negated = negated, cc_ranges = class_ranges characters \<rparr>, rest))"

text \<open>\<open>parse_star\<close> reads the stars at the front and gives the node and the rest.\<close>

definition parse_star :: "nat \<Rightarrow> glob_node list \<Rightarrow> str \<Rightarrow> glob_node \<times> str" where
  "parse_star depth nodes characters =
     (let rest = dropWhile (\<lambda>c. c = 42) characters;
          count = length characters - length rest;
          at_segment_start = (nodes = [] \<or> last nodes = Literal 47);
          at_segment_end = (rest = [] \<or> hd rest = 47) in
      if count \<ge> 2 \<and> at_segment_start \<and> at_segment_end
      then (if prefix [47] rest then (GlobStarSlash (depth > 0), tl rest) else (GlobStar (depth > 0), rest))
      else (Star (depth > 0), rest))"

definition extglob_node :: "nat \<Rightarrow> glob_node list list \<Rightarrow> glob_node" where
  "extglob_node c alternatives =
     (if c = 64 then Alternation alternatives
      else if c = 63 then Repeat alternatives 0 True
      else if c = 43 then Repeat alternatives 1 False
      else if c = 42 then Repeat alternatives 0 False
      else Negative alternatives)"

text \<open>
  The parser on the characters behind its position. \<open>None\<close> is a parser that has not ended, \<open>Some None\<close> a syntax
  error, otherwise the nodes and the characters left.
\<close>

fun parse_sequence :: "nat \<Rightarrow> nat \<Rightarrow> nat list \<Rightarrow> glob_node list \<Rightarrow> str \<Rightarrow> (glob_node list \<times> str) option option"
  and parse_alternatives :: "nat \<Rightarrow> nat \<Rightarrow> nat \<Rightarrow> nat \<Rightarrow> glob_node list list \<Rightarrow> str \<Rightarrow> (glob_node list list \<times> str) option option" where
  "parse_sequence 0 depth stops nodes rest = None"
| "parse_sequence (Suc fuel) depth stops nodes [] = Some (Some (nodes, []))"
| "parse_sequence (Suc fuel) depth stops nodes (c # rest) =
     (if c \<in> set stops then Some (Some (nodes, c # rest))
      else if opens_extglob c rest
      then (case parse_alternatives fuel (depth + 1) 124 41 [] (tl rest) of
              None \<Rightarrow> None
            | Some None \<Rightarrow> Some None
            | Some (Some (alternatives, rest)) \<Rightarrow> parse_sequence fuel depth stops (nodes @ [extglob_node c alternatives]) rest)
      else if c = 92
      then (case rest of [] \<Rightarrow> Some None | d # rest \<Rightarrow> parse_sequence fuel depth stops (nodes @ [Literal d]) rest)
      else if c = 63 then parse_sequence fuel depth stops (nodes @ [AnyChar (depth > 0)]) rest
      else if c = 42
      then (let (node, rest) = parse_star depth nodes (c # rest) in parse_sequence fuel depth stops (nodes @ [node]) rest)
      else if c = 91
      then (case parse_class rest of
              None \<Rightarrow> Some None
            | Some (cls, rest) \<Rightarrow> parse_sequence fuel depth stops (nodes @ [Class cls]) rest)
      else if c = 123
      then (case parse_alternatives fuel depth 44 125 [] rest of
              None \<Rightarrow> None
            | Some (Some (alternatives, rest')) \<Rightarrow>
                if length alternatives > 1 then parse_sequence fuel depth stops (nodes @ [Alternation alternatives]) rest'
                else parse_sequence fuel depth stops (nodes @ [Literal 123]) rest
            | Some None \<Rightarrow> parse_sequence fuel depth stops (nodes @ [Literal 123]) rest)
      else parse_sequence fuel depth stops (nodes @ [Literal c]) rest)"
| "parse_alternatives 0 depth separator stop alternatives rest = None"
| "parse_alternatives (Suc fuel) depth separator stop alternatives rest =
     (case parse_sequence fuel depth [separator, stop] [] rest of
        None \<Rightarrow> None
      | Some None \<Rightarrow> Some None
      | Some (Some (nodes, [])) \<Rightarrow> Some None
      | Some (Some (nodes, c # rest)) \<Rightarrow>
          if c = separator then parse_alternatives fuel depth separator stop (alternatives @ [nodes]) rest
          else if c = stop then Some (Some (alternatives @ [nodes], rest))
          else Some None)"

definition ext_glob_parse :: "str \<Rightarrow> glob_node list option" where
  "ext_glob_parse pattern =
     (case parse_sequence (2 * length pattern + 1) 0 [] [] pattern of
        Some (Some (nodes, [])) \<Rightarrow> Some nodes
      | _ \<Rightarrow> None)"

section \<open>Matching\<close>

definition fold_char :: "(nat \<Rightarrow> str) \<Rightarrow> nat \<Rightarrow> bool \<Rightarrow> nat" where
  "fold_char lower c nocase = (if nocase then (case lower c of [] \<Rightarrow> c | d # _ \<Rightarrow> d) else c)"

definition chars_equal :: "(nat \<Rightarrow> str) \<Rightarrow> nat \<Rightarrow> nat \<Rightarrow> bool \<Rightarrow> bool" where
  "chars_equal lower left right nocase \<longleftrightarrow> left = right \<or> nocase \<and> fold_char lower left True = fold_char lower right True"

definition is_segment_start :: "str \<Rightarrow> nat \<Rightarrow> bool" where
  "is_segment_start value position \<longleftrightarrow> position = 0 \<or> position - 1 < length value \<and> value ! (position - 1) = 47"

definition class_matches :: "(nat \<Rightarrow> str) \<Rightarrow> char_class \<Rightarrow> nat \<Rightarrow> bool \<Rightarrow> bool" where
  "class_matches lower cls c nocase \<longleftrightarrow>
     list_ex (\<lambda>(from, to). fold_char lower from nocase \<le> fold_char lower c nocase \<and> fold_char lower c nocase \<le> fold_char lower to nocase)
       (cc_ranges cls) \<noteq> cc_negated cls"

definition star_ends :: "str \<Rightarrow> nat \<Rightarrow> bool \<Rightarrow> nat list" where
  "star_ends value start allow_dot =
     (if \<not> allow_dot \<and> start < length value \<and> value ! start = 46 \<and> is_segment_start value start then [start]
      else [start..<start + length (takeWhile (\<lambda>c. c \<noteq> 47) (drop start value)) + 1])"

definition globstar_ends :: "str \<Rightarrow> nat \<Rightarrow> bool \<Rightarrow> nat list" where
  "globstar_ends value start allow_dot =
     start # takeWhile (\<lambda>stop. allow_dot \<or> \<not> (value ! (stop - 1) = 46 \<and> is_segment_start value (stop - 1))) [start + 1..<length value + 1]"

fun globstar_slash_loop :: "bool \<Rightarrow> str \<Rightarrow> nat \<Rightarrow> nat \<Rightarrow> nat list" where
  "globstar_slash_loop allow_dot [] index segment_start = []"
| "globstar_slash_loop allow_dot (c # rest) index segment_start =
     (if \<not> allow_dot \<and> c = 46 \<and> index = segment_start then []
      else if c = 47 then (index + 1) # globstar_slash_loop allow_dot rest (index + 1) (index + 1)
      else globstar_slash_loop allow_dot rest (index + 1) segment_start)"

definition globstar_slash_ends :: "str \<Rightarrow> nat \<Rightarrow> bool \<Rightarrow> nat list" where
  "globstar_slash_ends value start allow_dot = start # globstar_slash_loop allow_dot (drop start value) start start"

text \<open>\<open>sort_unstable\<close> and \<open>dedup\<close>.\<close>

definition sort_dedup :: "nat list \<Rightarrow> nat list" where
  "sort_dedup xs = remdups (sort xs)"

text \<open>One round of \<open>repeat_ends\<close>: the frontier, the state is \<open>(reached, seen, next)\<close>.\<close>

definition repeat_visit :: "nat \<Rightarrow> nat \<Rightarrow> nat list \<times> nat set \<times> nat list \<Rightarrow> nat list \<times> nat set \<times> nat list" where
  "repeat_visit position stop state =
     (case state of (reached, seen, upcoming) \<Rightarrow>
        if stop \<noteq> position \<and> stop \<notin> seen then (reached @ [stop], insert stop seen, upcoming @ [stop]) else state)"

definition repeat_round :: "(nat \<Rightarrow> nat list) \<Rightarrow> nat list \<Rightarrow> nat list \<times> nat set \<Rightarrow> nat list \<times> nat set \<times> nat list" where
  "repeat_round ends frontier state =
     fold (\<lambda>position. fold (repeat_visit position) (ends position)) frontier (fst state, snd state, [])"

fun repeat_loop :: "nat \<Rightarrow> (nat \<Rightarrow> nat list) \<Rightarrow> nat list \<Rightarrow> nat list \<times> nat set \<Rightarrow> nat list" where
  "repeat_loop 0 ends frontier state = fst state"
| "repeat_loop (Suc fuel) ends frontier state =
     (if frontier = [] then fst state
      else (case repeat_round ends frontier state of (reached, seen, upcoming) \<Rightarrow> repeat_loop fuel ends upcoming (reached, seen)))"

definition repeat_ends :: "(nat \<Rightarrow> nat list) \<Rightarrow> nat \<Rightarrow> nat \<Rightarrow> nat \<Rightarrow> bool \<Rightarrow> nat list" where
  "repeat_ends ends len start minimum optional =
     (let first = ends start in
      if optional then sort_dedup (first @ [start])
      else
        (let reached = (if minimum = 0 then [start] else []) @ first
         in sort_dedup (repeat_loop (len + 2) ends first (reached, insert start (set reached)))))"

definition is_literal :: "glob_node \<Rightarrow> bool" where
  "is_literal node \<longleftrightarrow> (case node of Literal _ \<Rightarrow> True | _ \<Rightarrow> False)"

text \<open>\<open>negative_ends\<close>, given the ends of the alternatives and the matcher of the remaining nodes.\<close>

definition negative_ends ::
  "glob_node list list \<Rightarrow> glob_node list \<Rightarrow> nat list \<Rightarrow> (nat \<Rightarrow> nat list) \<Rightarrow> str \<Rightarrow> nat \<Rightarrow> nat list" where
  "negative_ends alternatives remaining alternative_ends match_remaining value start =
     (let fixed_literal_with_suffix = (remaining \<noteq> [] \<and> list_all (list_all is_literal) alternatives);
          excluded =
            (if fixed_literal_with_suffix then alternative_ends \<noteq> []
             else list_ex (\<lambda>stop. length value \<in> set (match_remaining stop)) alternative_ends)
      in if excluded then [] else star_ends value start True)"

fun match_sequence :: "(nat \<Rightarrow> str) \<Rightarrow> bool \<Rightarrow> str \<Rightarrow> glob_node list \<Rightarrow> nat \<Rightarrow> nat list"
  and match_node :: "(nat \<Rightarrow> str) \<Rightarrow> bool \<Rightarrow> str \<Rightarrow> glob_node \<Rightarrow> nat \<Rightarrow> nat list"
  and match_alternatives :: "(nat \<Rightarrow> str) \<Rightarrow> bool \<Rightarrow> str \<Rightarrow> glob_node list list \<Rightarrow> nat \<Rightarrow> nat list" where
  "match_sequence lower nocase value [] start = [start]"
| "match_sequence lower nocase value (node # remaining) start =
     (let ends =
        (case node of
           Negative alternatives \<Rightarrow>
             negative_ends alternatives remaining (match_alternatives lower nocase value alternatives start)
               (match_sequence lower nocase value remaining) value start
         | _ \<Rightarrow> match_node lower nocase value node start)
      in sort_dedup (concat (map (match_sequence lower nocase value remaining) ends)))"
| "match_node lower nocase value (Literal expected) start =
     (if start < length value \<and> chars_equal lower (value ! start) expected nocase then [start + 1] else [])"
| "match_node lower nocase value (AnyChar allow_dot) start =
     (if start < length value \<and> value ! start \<noteq> 47 \<and> (allow_dot \<or> \<not> (is_segment_start value start \<and> value ! start = 46))
      then [start + 1] else [])"
| "match_node lower nocase value (Star allow_dot) start = star_ends value start allow_dot"
| "match_node lower nocase value (GlobStar allow_dot) start = globstar_ends value start allow_dot"
| "match_node lower nocase value (GlobStarSlash allow_dot) start = globstar_slash_ends value start allow_dot"
| "match_node lower nocase value (Class cls) start =
     (if start < length value \<and> value ! start \<noteq> 47
         \<and> (\<not> is_segment_start value start \<or> value ! start \<noteq> 46 \<or> class_matches lower cls 46 nocase)
         \<and> class_matches lower cls (value ! start) nocase
      then [start + 1] else [])"
| "match_node lower nocase value (Alternation alternatives) start = match_alternatives lower nocase value alternatives start"
| "match_node lower nocase value (Repeat alternatives minimum optional) start =
     repeat_ends (match_alternatives lower nocase value alternatives) (length value) start minimum optional"
| "match_node lower nocase value (Negative alternatives) start = []"
| "match_alternatives lower nocase value [] start = []"
| "match_alternatives lower nocase value (alternative # alternatives) start =
     match_sequence lower nocase value alternative start @ match_alternatives lower nocase value alternatives start"

definition ext_glob_is_match :: "(nat \<Rightarrow> str) \<Rightarrow> glob_node list \<Rightarrow> str \<Rightarrow> bool \<Rightarrow> bool" where
  "ext_glob_is_match lower nodes value nocase \<longleftrightarrow>
     value \<noteq> [] \<and> length value \<in> set (match_sequence lower nocase value nodes 0)"

section \<open>Rule subjects\<close>

fun strip_pattern_negation :: "str \<Rightarrow> bool \<Rightarrow> str \<times> bool" where
  "strip_pattern_negation [] negated = ([], negated)"
| "strip_pattern_negation (c # rest) negated =
     (if c = 33 \<and> \<not> prefix [40] rest then strip_pattern_negation rest (\<not> negated) else (c # rest, negated))"

definition strip_leading_dot_slash :: "str \<Rightarrow> str" where
  "strip_leading_dot_slash s = (case strip_prefix [46, 47] s of Some rest \<Rightarrow> rest | None \<Rightarrow> s)"

definition pattern_starts_with_literal_dot :: "str \<Rightarrow> bool" where
  "pattern_starts_with_literal_dot pattern \<longleftrightarrow> prefix [46] pattern \<or> prefix [92, 46] pattern"

fun dot_segments_are_explicit_from :: "str list \<Rightarrow> str list \<Rightarrow> bool" where
  "dot_segments_are_explicit_from values [] \<longleftrightarrow> values = []"
| "dot_segments_are_explicit_from [] (pattern # patterns) \<longleftrightarrow> pattern = [42, 42] \<and> dot_segments_are_explicit_from [] patterns"
| "dot_segments_are_explicit_from (value # values) (pattern # patterns) \<longleftrightarrow>
     (if pattern = [42, 42]
      then dot_segments_are_explicit_from (value # values) patterns
        \<or> \<not> prefix [46] value \<and> dot_segments_are_explicit_from values (pattern # patterns)
      else (\<not> prefix [46] value \<or> pattern_starts_with_literal_dot pattern) \<and> dot_segments_are_explicit_from values patterns)"

definition dot_segments_are_explicit :: "str \<Rightarrow> str \<Rightarrow> bool" where
  "dot_segments_are_explicit value pattern \<longleftrightarrow> dot_segments_are_explicit_from (split_char 47 value) (split_char 47 pattern)"

type_synonym globset = "bool \<Rightarrow> str \<Rightarrow> (str \<Rightarrow> bool) option"

definition glob_match_once :: "(nat \<Rightarrow> str) \<Rightarrow> globset \<Rightarrow> str \<Rightarrow> str \<Rightarrow> bool \<Rightarrow> bool" where
  "glob_match_once lower globset value pattern nocase \<longleftrightarrow>
     (let (pattern, negated) = strip_pattern_negation pattern False;
          matched =
            (if contains_extglob pattern
             then (case ext_glob_parse pattern of None \<Rightarrow> False | Some nodes \<Rightarrow> ext_glob_is_match lower nodes value nocase)
             else (case globset nocase pattern of None \<Rightarrow> False | Some m \<Rightarrow> m value \<and> dot_segments_are_explicit value pattern))
      in matched \<noteq> negated)"

definition glob_match :: "(nat \<Rightarrow> str) \<Rightarrow> globset \<Rightarrow> str \<Rightarrow> str \<Rightarrow> bool \<Rightarrow> bool" where
  "glob_match lower globset value pattern nocase \<longleftrightarrow>
     (if glob_match_once lower globset value pattern nocase then True
      else
        (let normalized_value = strip_leading_dot_slash value; normalized_pattern = strip_leading_dot_slash pattern in
         if normalized_value = value \<and> normalized_pattern = pattern then False
         else glob_match_once lower globset normalized_value normalized_pattern nocase))"

record permission_path_match_options =
  po_cwd :: "str option"
  po_path_class :: "path_class option"
  po_home_dir :: "str option"
  po_case_insensitive_paths :: "bool option"

definition looks_win32 :: "str \<Rightarrow> bool" where
  "looks_win32 candidate \<longleftrightarrow>
     (case candidate of c # d # _ \<Rightarrow> ascii_alphabetic c \<and> d = 58 | _ \<Rightarrow> False) \<or> prefix [92, 92] candidate \<or> 92 \<in> set candidate"

definition path_match_semantics :: "str \<Rightarrow> str \<Rightarrow> path_class option \<Rightarrow> path_class" where
  "path_match_semantics value pattern cls =
     (case cls of Some c \<Rightarrow> c | None \<Rightarrow> if list_ex looks_win32 [value, pattern] then Win32 else Posix)"

definition add_path_variant :: "str list \<Rightarrow> str \<Rightarrow> path_class \<Rightarrow> str list" where
  "add_path_variant variants value cls =
     (let variants = iset_insert value variants in if cls = Win32 then iset_insert (slashed value) variants else variants)"

definition strip_leading_dot_path :: "str \<Rightarrow> path_class \<Rightarrow> str" where
  "strip_leading_dot_path value cls =
     (case strip_prefix [46, 47] value of
        Some rest \<Rightarrow> rest
      | None \<Rightarrow>
          if cls = Win32 then (case strip_prefix [46, 92] value of Some rest \<Rightarrow> rest | None \<Rightarrow> value) else value)"

definition default_cwd_for_path :: "str \<Rightarrow> str option" where
  "default_cwd_for_path value =
     (let normalized = slashed value in
      if prefix [47] normalized then Some [47]
      else case normalized of
        c # rest \<Rightarrow> if ascii_alphabetic c \<and> prefix [58, 47] rest then Some (take 3 normalized) else None
      | [] \<Rightarrow> None)"

definition canonicalize_path_pattern :: "str \<Rightarrow> path_class \<Rightarrow> permission_path_match_options \<Rightarrow> str option" where
  "canonicalize_path_pattern value cls options =
     (let expanded = expand_user_path value (po_home_dir options) cls;
          cwd = (case po_cwd options of Some cwd \<Rightarrow> Some cwd | None \<Rightarrow> default_cwd_for_path expanded) in
      case cwd of
        None \<Rightarrow> None
      | Some cwd \<Rightarrow> (case canonicalize_path expanded cwd cls of Inr canonical \<Rightarrow> Some canonical | Inl _ \<Rightarrow> None))"

definition path_variants :: "str \<Rightarrow> path_class \<Rightarrow> permission_path_match_options \<Rightarrow> str list" where
  "path_variants value cls options =
     (let variants = add_path_variant [] value cls;
          variants = add_path_variant variants (strip_leading_dot_path value cls) cls in
      case canonicalize_path_pattern value cls options of
        Some canonical \<Rightarrow> add_path_variant variants canonical cls
      | None \<Rightarrow> variants)"

definition path_glob_match :: "(nat \<Rightarrow> str) \<Rightarrow> globset \<Rightarrow> str \<Rightarrow> str \<Rightarrow> permission_path_match_options \<Rightarrow> bool" where
  "path_glob_match lower globset value pattern options \<longleftrightarrow>
     (let cls = path_match_semantics value pattern (po_path_class options);
          nocase = (case po_case_insensitive_paths options of Some b \<Rightarrow> b | None \<Rightarrow> True) in
      if glob_match lower globset value pattern nocase then True
      else list_ex (\<lambda>v. list_ex (\<lambda>p. glob_match lower globset v p nocase) (path_variants pattern cls options))
             (path_variants value cls options))"

definition match_rule_subjects :: "str \<Rightarrow> str list \<Rightarrow> (str \<Rightarrow> str \<Rightarrow> bool) \<Rightarrow> bool" where
  "match_rule_subjects rule_args subjects matches_positive_pattern \<longleftrightarrow>
     (if rule_args = [] then True
      else
        (let (negated, positive_pattern) = (case strip_prefix [33] rule_args of Some p \<Rightarrow> (True, p) | None \<Rightarrow> (False, rule_args));
             hit = list_ex (matches_positive_pattern positive_pattern) subjects
         in if negated then \<not> hit else hit))"

definition matches_glob_rule_subject :: "(nat \<Rightarrow> str) \<Rightarrow> globset \<Rightarrow> str \<Rightarrow> str \<Rightarrow> bool" where
  "matches_glob_rule_subject lower globset rule_args subject \<longleftrightarrow>
     match_rule_subjects rule_args [subject] (\<lambda>pattern value. glob_match lower globset value pattern False)"

definition matches_path_rule_subject ::
  "(nat \<Rightarrow> str) \<Rightarrow> globset \<Rightarrow> str \<Rightarrow> str \<Rightarrow> permission_path_match_options \<Rightarrow> bool" where
  "matches_path_rule_subject lower globset rule_args subject options \<longleftrightarrow>
     match_rule_subjects rule_args [subject] (\<lambda>pattern value. path_glob_match lower globset value pattern options)"

text \<open>The characters \<open>\ * ? [ ] { } ( ) ! + @ |\<close>.\<close>

definition rule_special :: "nat \<Rightarrow> bool" where
  "rule_special c \<longleftrightarrow> c \<in> {92, 42, 63, 91, 93, 123, 125, 40, 41, 33, 43, 64, 124}"

fun escape_rule_subject_literal :: "str \<Rightarrow> str" where
  "escape_rule_subject_literal [] = []"
| "escape_rule_subject_literal (c # rest) = (if rule_special c then [92] else []) @ c # escape_rule_subject_literal rest"

definition literal_rule_pattern :: "str \<Rightarrow> str \<Rightarrow> str" where
  "literal_rule_pattern tool_name subject = tool_name @ [40] @ escape_rule_subject_literal subject @ [41]"

section \<open>Rules\<close>

datatype permission_rule_decision = RuleAllow | RuleDeny | RuleAsk

datatype permission_rule_scope = TurnOverride | SessionRuntime | ProjectScope | UserScope

record permission_rule =
  pr_decision :: permission_rule_decision
  pr_scope :: permission_rule_scope
  pr_pattern :: str
  pr_reason :: "str option"

record parsed_pattern =
  pp_tool_name :: str
  pp_arg_pattern :: "str option"

datatype permission_rule_match_strategy = ToolNameOnly | MatchesRule

record permission_rule_match =
  prm_rule :: permission_rule
  prm_strategy :: permission_rule_match_strategy
  prm_has_rule_args :: bool

datatype parse_permission_pattern_error = EmptyPattern | MissingClosingParen str | EmptyToolName str

definition parse_pattern :: "str \<Rightarrow> parse_permission_pattern_error + parsed_pattern" where
  "parse_pattern pattern =
     (let trimmed = trim pattern in
      if trimmed = [] then Inl EmptyPattern
      else case find_char 40 trimmed of
        None \<Rightarrow> Inr \<lparr> pp_tool_name = trimmed, pp_arg_pattern = None \<rparr>
      | Some open_index \<Rightarrow>
          if last trimmed \<noteq> 41 then Inl (MissingClosingParen pattern)
          else
            (let tool_name = take open_index trimmed in
             if tool_name = [] then Inl (EmptyToolName pattern)
             else
               (let arg_pattern = slice (open_index + 1) (length trimmed - 1) trimmed
                in Inr \<lparr> pp_tool_name = tool_name, pp_arg_pattern = if arg_pattern \<noteq> [] then Some arg_pattern else None \<rparr>)))"

text \<open>The execution gives its own matcher of rule arguments, if it has one.\<close>

definition match_permission_rule ::
  "(nat \<Rightarrow> str) \<Rightarrow> globset \<Rightarrow> permission_rule \<Rightarrow> str \<Rightarrow> (str \<Rightarrow> bool) option \<Rightarrow> permission_rule_match option" where
  "match_permission_rule lower globset rule tool_name matches_rule =
     (case parse_pattern (pr_pattern rule) of
        Inl _ \<Rightarrow> None
      | Inr parsed \<Rightarrow>
          if pp_tool_name parsed \<noteq> [42] \<and> \<not> glob_match lower globset tool_name (pp_tool_name parsed) False then None
          else case pp_arg_pattern parsed of
            None \<Rightarrow> Some \<lparr> prm_rule = rule, prm_strategy = ToolNameOnly, prm_has_rule_args = False \<rparr>
          | Some arg_pattern \<Rightarrow>
              if (case matches_rule of Some f \<Rightarrow> f arg_pattern | None \<Rightarrow> False)
              then Some \<lparr> prm_rule = rule, prm_strategy = MatchesRule, prm_has_rule_args = True \<rparr>
              else None)"

section \<open>The parser ends\<close>

lemma class_chars_shorter: "class_chars cs acc e = Some (r, rest) \<Longrightarrow> length rest < length cs"
  by (induction cs acc e rule: class_chars.induct) (auto split: if_splits)

lemma parse_class_shorter: "parse_class cs = Some (r, rest) \<Longrightarrow> length rest < length cs"
  using class_chars_shorter by (fastforce simp: parse_class_def Let_def split: option.splits prod.splits if_splits)

lemma parse_star_shorter: "parse_star d nodes (42 # cs) = (node, rest) \<Longrightarrow> length rest \<le> length cs"
  using length_dropWhile_le [of "\<lambda>c. c = 42" cs] by (auto simp: parse_star_def Let_def split: if_splits)

end
