(* ===== verification/RuleGlob.thy ===== *)
theory RuleGlob
  imports RuleMatch
begin

text \<open>
  The extended globs: the parser ends on every pattern, the matcher never looks behind the value, and the ends it
  computes are those of the semantics, in which a repetition is a transitive closure.
\<close>

section \<open>The parser\<close>

definition parses_within :: "nat \<Rightarrow> ('a \<times> str) option option \<Rightarrow> bool" where
  "parses_within n r \<longleftrightarrow> (\<exists>x. r = Some x \<and> (\<forall>ns cs. x = Some (ns, cs) \<longrightarrow> length cs \<le> n))"

lemma parses_within_simps [simp]:
  "parses_within n (Some None)" "parses_within n (Some (Some (ns, cs))) \<longleftrightarrow> length cs \<le> n"
  by (simp_all add: parses_within_def)

lemma parses_within_mono: "parses_within m r \<Longrightarrow> m \<le> n \<Longrightarrow> parses_within n r"
  by (auto simp: parses_within_def)

lemma parses_withinE:
  assumes "parses_within n r"
  obtains "r = Some None" | ns cs where "r = Some (Some (ns, cs))" "length cs \<le> n"
  using assms by (auto simp: parses_within_def) (metis not_Some_eq surj_pair)

lemma parser_step:
  assumes seq: "\<And>ns cs. length cs \<le> length rest \<Longrightarrow> parses_within (length rest) (parse_sequence fuel depth stops ns cs)"
    and alt: "\<And>d sep stop alts cs. length cs \<le> length rest \<Longrightarrow> parses_within (length rest) (parse_alternatives fuel d sep stop alts cs)"
  shows "parses_within (Suc (length rest)) (parse_sequence (Suc fuel) depth stops nodes (c # rest))"
proof -
  have go: "parses_within (Suc (length rest)) (parse_sequence fuel depth stops ns cs)" if "length cs \<le> length rest" for ns cs
    using parses_within_mono [OF seq [OF that]] by simp
  consider "c \<in> set stops" | (ext) "c \<notin> set stops" "opens_extglob c rest" | (esc) "c \<notin> set stops" "\<not> opens_extglob c rest" "c = 92"
    | (star) "c \<notin> set stops" "\<not> opens_extglob c rest" "c = 42" | (cls) "c \<notin> set stops" "\<not> opens_extglob c rest" "c = 91"
    | (brace) "c \<notin> set stops" "\<not> opens_extglob c rest" "c = 123" | (other) "c \<notin> set stops" "\<not> opens_extglob c rest" "c \<notin> {92, 42, 91, 123}"
    by blast
  then show ?thesis
  proof cases
    case ext
    have "parses_within (length rest) (parse_alternatives fuel (Suc depth) 124 41 [] (tl rest))" by (rule alt) simp
    then show ?thesis using ext go by (cases rule: parses_withinE) auto
  next
    case star
    obtain node cs where s: "parse_star depth nodes (42 # rest) = (node, cs)" by (cases "parse_star depth nodes (42 # rest)")
    show ?thesis using star go [OF parse_star_shorter [OF s]] s by simp
  next
    case cls
    then show ?thesis using go parse_class_shorter [of rest] by (force split: option.splits)
  next
    case brace
    have "parses_within (length rest) (parse_alternatives fuel depth 44 125 [] rest)" by (rule alt) simp
    then show ?thesis using brace go by (cases rule: parses_withinE) auto
  qed (use go in \<open>auto split: list.splits\<close>)
qed

lemma parser_ends:
  "2 * length rest < fuel \<Longrightarrow> parses_within (length rest) (parse_sequence fuel depth stops nodes rest)"
  "2 * length rest + 1 < fuel \<Longrightarrow> parses_within (length rest) (parse_alternatives fuel depth sep stop alts rest)"
proof (induction fuel arbitrary: depth stops nodes rest sep stop alts)
  case (Suc fuel)
  note seq = Suc.IH(1) and alt = Suc.IH(2)
  {
    case 1
    show ?case
    proof (cases rest)
      case (Cons c cs)
      have "parses_within (Suc (length cs)) (parse_sequence (Suc fuel) depth stops nodes (c # cs))"
      proof (rule parser_step)
        fix ns rs
        assume l: "length (rs :: str) \<le> length cs"
        then have "parses_within (length rs) (parse_sequence fuel depth stops ns rs)" using 1 Cons by (intro seq) simp
        then show "parses_within (length cs) (parse_sequence fuel depth stops ns rs)" using l by (rule parses_within_mono)
      next
        fix d sep stop alts rs
        assume l: "length (rs :: str) \<le> length cs"
        then have "parses_within (length rs) (parse_alternatives fuel d sep stop alts rs)" using 1 Cons by (intro alt) simp
        then show "parses_within (length cs) (parse_alternatives fuel d sep stop alts rs)" using l by (rule parses_within_mono)
      qed
      then show ?thesis using Cons by simp
    qed simp
  next
    case (2 depth rest sep stop alts)
    have "parses_within (length rest) (parse_sequence fuel depth [sep, stop] [] rest)" using 2 by (intro seq) simp
    then show ?case
    proof (cases rule: parses_withinE)
      case (2 ns cs)
      show ?thesis
      proof (cases cs)
        case (Cons c rs)
        have "parses_within (length rs) (parse_alternatives fuel depth sep stop (alts @ [ns]) rs)"
          using 2 Cons \<open>2 * length rest + 1 < Suc fuel\<close> by (intro alt) simp
        then have "parses_within (length rest) (parse_alternatives fuel depth sep stop (alts @ [ns]) rs)"
          by (rule parses_within_mono) (use 2 Cons in simp)
        then show ?thesis using 2 Cons by simp
      qed (use 2 in simp)
    qed simp
  }
qed simp_all

lemma parse_sequence_all: "parse_sequence fuel depth [] nodes rest = Some (Some (ns, cs)) \<Longrightarrow> cs = []"
proof (induction fuel arbitrary: nodes rest)
  case (Suc fuel)
  show ?case
  proof (cases rest)
    case (Cons c rs)
    obtain ns' rs' where "parse_sequence fuel depth [] ns' rs' = Some (Some (ns, cs))"
      using that Suc.prems Cons by (auto split: if_splits option.splits list.splits prod.splits)
    then show ?thesis by (rule Suc.IH)
  qed (use Suc.prems in simp)
qed simp

lemma parser_more_step:
  assumes seq: "\<And>ns cs r. parse_sequence fuel depth stops ns cs = Some r \<Longrightarrow> parse_sequence (Suc fuel) depth stops ns cs = Some r"
    and alt: "\<And>d sep stop alts cs q. parse_alternatives fuel d sep stop alts cs = Some q \<Longrightarrow> parse_alternatives (Suc fuel) d sep stop alts cs = Some q"
    and run: "parse_sequence (Suc fuel) depth stops nodes (c # rest) = Some r"
  shows "parse_sequence (Suc (Suc fuel)) depth stops nodes (c # rest) = Some r"
proof -
  consider "c \<in> set stops" | (ext) "c \<notin> set stops" "opens_extglob c rest" | (brace) "c \<notin> set stops" "\<not> opens_extglob c rest" "c = 123"
    | (other) "c \<notin> set stops" "\<not> opens_extglob c rest" "c \<noteq> 123" by blast
  then show ?thesis
  proof cases
    case 1
    then show ?thesis using run by simp
  next
    case ext
    then have s: "parse_sequence (Suc f) depth stops nodes (c # rest) =
        (case parse_alternatives f (depth + 1) 124 41 [] (tl rest) of
           None \<Rightarrow> None
         | Some None \<Rightarrow> Some None
         | Some (Some (alternatives, rest)) \<Rightarrow> parse_sequence f depth stops (nodes @ [extglob_node c alternatives]) rest)" for f by simp
    obtain q where q: "parse_alternatives fuel (depth + 1) 124 41 [] (tl rest) = Some q" using run unfolding s by (cases "parse_alternatives fuel (depth + 1) 124 41 [] (tl rest)") auto
    have run': "(case q of None \<Rightarrow> Some None | Some (alternatives, rest) \<Rightarrow> parse_sequence fuel depth stops (nodes @ [extglob_node c alternatives]) rest) = Some r"
      using run unfolding s q by (cases q) auto
    show ?thesis unfolding s alt [OF q] using run' by (cases q) (auto intro: seq simp del: parse_sequence.simps parse_alternatives.simps)
  next
    case brace
    then have s: "parse_sequence (Suc f) depth stops nodes (c # rest) =
        (case parse_alternatives f depth 44 125 [] rest of
           None \<Rightarrow> None
         | Some (Some (alternatives, rest')) \<Rightarrow>
             if length alternatives > 1 then parse_sequence f depth stops (nodes @ [Alternation alternatives]) rest'
             else parse_sequence f depth stops (nodes @ [Literal 123]) rest
         | Some None \<Rightarrow> parse_sequence f depth stops (nodes @ [Literal 123]) rest)" for f by simp
    obtain q where q: "parse_alternatives fuel depth 44 125 [] rest = Some q" using run unfolding s by (cases "parse_alternatives fuel depth 44 125 [] rest") auto
    show ?thesis using run unfolding s q alt [OF q] by (cases q) (auto intro: seq simp del: parse_sequence.simps parse_alternatives.simps split: if_splits)
  next
    case other
    then have s: "parse_sequence (Suc f) depth stops nodes (c # rest) =
        (if c = 92 then (case rest of [] \<Rightarrow> Some None | d # rest \<Rightarrow> parse_sequence f depth stops (nodes @ [Literal d]) rest)
         else if c = 63 then parse_sequence f depth stops (nodes @ [AnyChar (depth > 0)]) rest
         else if c = 42
         then (let (node, rest) = parse_star depth nodes (c # rest) in parse_sequence f depth stops (nodes @ [node]) rest)
         else if c = 91
         then (case parse_class rest of None \<Rightarrow> Some None | Some (cls, rest) \<Rightarrow> parse_sequence f depth stops (nodes @ [Class cls]) rest)
         else parse_sequence f depth stops (nodes @ [Literal c]) rest)" for f by simp
    show ?thesis using run unfolding s by (auto intro: seq simp del: parse_sequence.simps parse_alternatives.simps split: option.splits if_splits list.splits prod.splits)
  qed
qed

lemma parser_more:
  "parse_sequence fuel depth stops nodes rest = Some r \<Longrightarrow> parse_sequence (Suc fuel) depth stops nodes rest = Some r"
  "parse_alternatives fuel depth sep stop alts rest = Some q \<Longrightarrow> parse_alternatives (Suc fuel) depth sep stop alts rest = Some q"
proof (induction fuel arbitrary: depth stops nodes rest r sep stop alts q)
  case (Suc fuel)
  note seq = Suc.IH(1) and alt = Suc.IH(2)
  {
    case (1 depth stops nodes rest r)
    show ?case
    proof (cases rest)
      case (Cons c cs)
      then show ?thesis using parser_more_step [of fuel depth stops nodes c cs r] seq alt 1 by blast
    qed (use 1 in simp)
  next
    case (2 depth rest sep stop alts q)
    obtain x where x: "parse_sequence fuel depth [sep, stop] [] rest = Some x" using 2 by (auto split: option.splits)
    have s: "parse_alternatives (Suc f) depth sep stop alts rest =
        (case y of
           None \<Rightarrow> Some None
         | Some (nodes, []) \<Rightarrow> Some None
         | Some (nodes, c # rest) \<Rightarrow>
             if c = sep then parse_alternatives f depth sep stop (alts @ [nodes]) rest
             else if c = stop then Some (Some (alts @ [nodes], rest)) else Some None)"
      if "parse_sequence f depth [sep, stop] [] rest = Some y" for f y
      using that by (simp split: option.splits list.splits)
    show ?case using 2 unfolding s [OF x] s [OF seq [OF x]] by (auto intro: alt simp del: parse_sequence.simps parse_alternatives.simps split: option.splits list.splits if_splits)
  }
qed simp_all


section \<open>Semantics\<close>

text \<open>The positions a node may end at, for a value and a start.\<close>

definition hidden_start :: "str \<Rightarrow> nat \<Rightarrow> bool" where
  "hidden_start v k \<longleftrightarrow> v ! k = 46 \<and> is_segment_start v k"

definition star_to :: "str \<Rightarrow> nat \<Rightarrow> bool \<Rightarrow> nat set" where
  "star_to v i allow_dot = {j. i \<le> j \<and> j \<le> length v \<and> (\<forall>k\<in>{i..<j}. v ! k \<noteq> 47) \<and> (i < j \<longrightarrow> allow_dot \<or> \<not> hidden_start v i)}"

definition globstar_to :: "str \<Rightarrow> nat \<Rightarrow> bool \<Rightarrow> nat set" where
  "globstar_to v i allow_dot = {j. i \<le> j \<and> j \<le> length v \<and> (\<forall>k\<in>{i..<j}. allow_dot \<or> \<not> hidden_start v k)}"

definition globstar_slash_to :: "str \<Rightarrow> nat \<Rightarrow> bool \<Rightarrow> nat set" where
  "globstar_slash_to v i allow_dot =
     insert i {j. i < j \<and> j \<le> length v \<and> v ! (j - 1) = 47 \<and> (\<forall>k\<in>{i..<j}. allow_dot \<or> \<not> (v ! k = 46 \<and> (k = i \<or> v ! (k - 1) = 47)))}"

definition one_char :: "str \<Rightarrow> nat \<Rightarrow> (nat \<Rightarrow> bool) \<Rightarrow> nat set" where
  "one_char v i P = {j. j = i + 1 \<and> i < length v \<and> P (v ! i)}"

fun seq_to :: "(nat \<Rightarrow> str) \<Rightarrow> bool \<Rightarrow> str \<Rightarrow> glob_node list \<Rightarrow> nat \<Rightarrow> nat set"
  and node_to :: "(nat \<Rightarrow> str) \<Rightarrow> bool \<Rightarrow> str \<Rightarrow> glob_node \<Rightarrow> nat \<Rightarrow> nat set"
  and any_to :: "(nat \<Rightarrow> str) \<Rightarrow> bool \<Rightarrow> str \<Rightarrow> glob_node list list \<Rightarrow> nat \<Rightarrow> nat set" where
  "seq_to lower nocase v [] i = {i}"
| "seq_to lower nocase v (node # remaining) i =
     (\<Union>j \<in> (case node of
          Negative alternatives \<Rightarrow>
            if (if remaining \<noteq> [] \<and> list_all (list_all is_literal) alternatives then any_to lower nocase v alternatives i \<noteq> {}
                else \<exists>j\<in>any_to lower nocase v alternatives i. length v \<in> seq_to lower nocase v remaining j)
            then {} else star_to v i True
        | _ \<Rightarrow> node_to lower nocase v node i). seq_to lower nocase v remaining j)"
| "node_to lower nocase v (Literal c) i = one_char v i (\<lambda>d. chars_equal lower d c nocase)"
| "node_to lower nocase v (AnyChar allow_dot) i = one_char v i (\<lambda>d. d \<noteq> 47 \<and> (allow_dot \<or> \<not> hidden_start v i))"
| "node_to lower nocase v (Star allow_dot) i = star_to v i allow_dot"
| "node_to lower nocase v (GlobStar allow_dot) i = globstar_to v i allow_dot"
| "node_to lower nocase v (GlobStarSlash allow_dot) i = globstar_slash_to v i allow_dot"
| "node_to lower nocase v (Class cls) i =
     one_char v i (\<lambda>d. d \<noteq> 47 \<and> class_matches lower cls d nocase \<and> (hidden_start v i \<longrightarrow> class_matches lower cls 46 nocase))"
| "node_to lower nocase v (Alternation alternatives) i = any_to lower nocase v alternatives i"
| "node_to lower nocase v (Repeat alternatives minimum optional) i =
     (if optional \<or> minimum = 0 then {i} else {})
     \<union> (if optional then any_to lower nocase v alternatives i
        else {j. (i, j) \<in> {(a, b). b \<in> any_to lower nocase v alternatives a}\<^sup>+})"
| "node_to lower nocase v (Negative alternatives) i = {}"
| "any_to lower nocase v [] i = {}"
| "any_to lower nocase v (alternative # alternatives) i = seq_to lower nocase v alternative i \<union> any_to lower nocase v alternatives i"

section \<open>Stars\<close>

lemma set_sort_dedup [simp]: "set (sort_dedup xs) = set xs"
  by (simp add: sort_dedup_def)

lemma set_star_ends: "i \<le> length v \<Longrightarrow> set (star_ends v i allow_dot) = star_to v i allow_dot"
proof -
  assume i: "i \<le> length v"
  let ?run = "takeWhile (\<lambda>c. c \<noteq> 47) (drop i v)"
  have run: "j \<le> i + length ?run \<longleftrightarrow> j \<le> length v \<and> (\<forall>k\<in>{i..<j}. v ! k \<noteq> 47)" if "i \<le> j" for j
  proof
    assume j: "j \<le> i + length ?run"
    have "v ! k \<noteq> 47" if "i \<le> k" "k < i + length ?run" for k
      using that takeWhile_nth [of "k - i" "\<lambda>c. c \<noteq> 47" "drop i v"] nth_mem [of "k - i" ?run] set_takeWhileD [of _ "\<lambda>c. c \<noteq> 47" "drop i v"] i
      by fastforce
    then show "j \<le> length v \<and> (\<forall>k\<in>{i..<j}. v ! k \<noteq> 47)" using j length_takeWhile_le [of "\<lambda>c. c \<noteq> 47" "drop i v"] i by auto
  next
    assume j: "j \<le> length v \<and> (\<forall>k\<in>{i..<j}. v ! k \<noteq> 47)"
    show "j \<le> i + length ?run"
    proof (rule ccontr)
      assume "\<not> j \<le> i + length ?run"
      then have l: "length ?run < length (drop i v)" "i + length ?run < j" using j by auto
      then have "drop i v ! length ?run = 47" using nth_length_takeWhile [OF l(1)] by simp
      then show False using j l i by (auto dest!: bspec [of _ _ "i + length ?run"])
    qed
  qed
  show ?thesis
  proof (cases "\<not> allow_dot \<and> i < length v \<and> hidden_start v i")
    case True
    then have "star_to v i allow_dot = {i}" using i by (auto simp: star_to_def)
    moreover have "star_ends v i allow_dot = [i]" using True by (simp add: star_ends_def hidden_start_def)
    ultimately show ?thesis by simp
  next
    case False
    have "star_ends v i allow_dot = [i..<i + length ?run + 1]" using False by (auto simp: star_ends_def hidden_start_def)
    then have "j \<in> set (star_ends v i allow_dot) \<longleftrightarrow> i \<le> j \<and> j \<le> i + length ?run" for j by auto
    moreover have "j \<in> star_to v i allow_dot \<longleftrightarrow> i \<le> j \<and> j \<le> i + length ?run" for j
      using run [of j] False by (auto simp: star_to_def)
    ultimately show ?thesis by blast
  qed
qed

lemma set_takeWhile_upt: "set (takeWhile P [a..<b]) = {j. a \<le> j \<and> j < b \<and> (\<forall>k\<in>{a..j}. P k)}"
proof (induction "b - a" arbitrary: a)
  case (Suc n)
  then have u: "[a..<b] = a # [Suc a..<b]" by (simp add: upt_rec)
  have "set (takeWhile P [Suc a..<b]) = {j. Suc a \<le> j \<and> j < b \<and> (\<forall>k\<in>{Suc a..j}. P k)}" using Suc by simp
  moreover have "{a..j} = insert a {Suc a..j}" if "a \<le> j" for j using that by auto
  ultimately show ?case using Suc.hyps(2) unfolding u by (auto simp: le_eq_less_or_eq Suc_le_eq)
qed auto

lemma set_globstar_ends: "i \<le> length v \<Longrightarrow> set (globstar_ends v i allow_dot) = globstar_to v i allow_dot"
proof -
  assume i: "i \<le> length v"
  let ?P = "\<lambda>stop. allow_dot \<or> \<not> (v ! (stop - 1) = 46 \<and> is_segment_start v (stop - 1))"
  have shift: "(\<forall>k\<in>{i + 1..j}. ?P k) \<longleftrightarrow> (\<forall>k\<in>{i..<j}. allow_dot \<or> \<not> hidden_start v k)" for j
  proof -
    have "{i + 1..j} = Suc ` {i..<j}" by (auto simp: image_Suc_atLeastLessThan)
    then show ?thesis unfolding hidden_start_def by (simp only: ball_simps diff_Suc_1)
  qed
  have "set (globstar_ends v i allow_dot) = insert i {j. i + 1 \<le> j \<and> j < length v + 1 \<and> (\<forall>k\<in>{i + 1..j}. ?P k)}"
    unfolding globstar_ends_def list.set set_takeWhile_upt by simp
  also have "\<dots> = globstar_to v i allow_dot" unfolding shift globstar_to_def using i by (auto simp: Suc_le_eq le_eq_less_or_eq)
  finally show ?thesis .
qed

lemma set_globstar_slash_loop:
  assumes "i \<le> index" "index \<le> length v" "index = seg \<longleftrightarrow> index = i \<or> v ! (index - 1) = 47" "seg \<le> index"
  shows "set (globstar_slash_loop allow_dot (drop index v) index seg)
     = {j. index < j \<and> j \<le> length v \<and> v ! (j - 1) = 47 \<and> (\<forall>k\<in>{index..<j}. allow_dot \<or> \<not> (v ! k = 46 \<and> (k = i \<or> v ! (k - 1) = 47)))}"
  using assms
proof (induction "length v - index" arbitrary: index seg)
  case (Suc n)
  let ?ok = "\<lambda>k. allow_dot \<or> \<not> (v ! k = 46 \<and> (k = i \<or> v ! (k - 1) = 47))"
  let ?S = "\<lambda>a. {j. a < j \<and> j \<le> length v \<and> v ! (j - 1) = 47 \<and> (\<forall>k\<in>{a..<j}. ?ok k)}"
  have d: "drop index v = v ! index # drop (Suc index) v" and l: "index < length v" using Suc.hyps(2) by (simp_all add: Cons_nth_drop_Suc)
  have interval: "{index..<j} = insert index {Suc index..<j}" if "index < j" for j using that by auto
  have step: "?S index = (if ?ok index then (if v ! index = 47 then {Suc index} else {}) \<union> ?S (Suc index) else {})"
  proof -
    have "j \<in> ?S index \<longleftrightarrow> ?ok index \<and> (j = Suc index \<and> v ! index = 47 \<or> j \<in> ?S (Suc index))" for j
    proof (cases "index < j")
      case True
      have "(\<forall>k\<in>{index..<j}. ?ok k) \<longleftrightarrow> ?ok index \<and> (\<forall>k\<in>{Suc index..<j}. ?ok k)" unfolding interval [OF True] by blast
      moreover have "j = Suc index \<or> Suc index < j" using True by auto
      ultimately show ?thesis using l by (cases "j = Suc index") (simp_all only: mem_Collect_eq, auto)
    qed auto
    then have "?S index = {j. ?ok index \<and> (j = Suc index \<and> v ! index = 47 \<or> j \<in> ?S (Suc index))}" by (intro set_eqI) (simp only: mem_Collect_eq)
    then show ?thesis by (simp only: split: if_split) auto
  qed
  have IH: "set (globstar_slash_loop allow_dot (drop (Suc index) v) (Suc index) s) = ?S (Suc index)"
    if "s = (if v ! index = 47 then Suc index else seg)" for s
    using Suc.hyps(1) [of "Suc index" s] Suc.hyps(2) Suc.prems l that by (simp split: if_splits)
  show ?case unfolding step d using IH Suc.prems(3) by (auto split: if_splits)
qed auto

lemma set_globstar_slash_ends: "i \<le> length v \<Longrightarrow> set (globstar_slash_ends v i allow_dot) = globstar_slash_to v i allow_dot"
  using set_globstar_slash_loop [of i i v i allow_dot] by (simp add: globstar_slash_ends_def globstar_slash_to_def)

section \<open>Repetition\<close>

lemma repeat_visits:
  assumes "set n \<inter> s = {}"
  shows "\<exists>n'. fold (repeat_visit p) es (r @ n, s \<union> set n, n) = (r @ n', s \<union> set n', n') \<and> set n' = set n \<union> ({e \<in> set es. e \<noteq> p} - s)"
  using assms
proof (induction es arbitrary: n)
  case (Cons e es)
  show ?case
  proof (cases "e \<noteq> p \<and> e \<notin> s \<union> set n")
    case True
    then have "repeat_visit p e (r @ n, s \<union> set n, n) = (r @ (n @ [e]), s \<union> set (n @ [e]), n @ [e])" by (simp add: repeat_visit_def)
    then show ?thesis using Cons.IH [of "n @ [e]"] Cons.prems True by auto
  next
    case False
    then have "repeat_visit p e (r @ n, s \<union> set n, n) = (r @ n, s \<union> set n, n)" by (auto simp: repeat_visit_def)
    then show ?thesis using Cons.IH [of n] Cons.prems False by auto
  qed
qed auto

lemma repeat_round_ok:
  "\<exists>n. repeat_round f frontier (r, s) = (r @ n, s \<union> set n, n) \<and> set n = {e. \<exists>p\<in>set frontier. e \<in> set (f p) \<and> e \<noteq> p} - s"
proof -
  have "\<exists>n'. fold (\<lambda>position. fold (repeat_visit position) (f position)) ps (r @ n, s \<union> set n, n) = (r @ n', s \<union> set n', n')
      \<and> set n' = set n \<union> ({e. \<exists>p\<in>set ps. e \<in> set (f p) \<and> e \<noteq> p} - s)" if "set n \<inter> s = {}" for ps n
    using that
  proof (induction ps arbitrary: n)
    case (Cons p ps)
    obtain m where m: "fold (repeat_visit p) (f p) (r @ n, s \<union> set n, n) = (r @ m, s \<union> set m, m)" "set m = set n \<union> ({e \<in> set (f p). e \<noteq> p} - s)"
      using repeat_visits [OF Cons.prems] by blast
    then have "set m \<inter> s = {}" using Cons.prems by auto
    then show ?case using Cons.IH [of m] m by auto
  qed auto
  from this [of "[]" frontier] show ?thesis by (simp add: repeat_round_def)
qed

text \<open>The loop ends with a set that is closed under one more repetition; the fuel is one round per position.\<close>

lemma repeat_loop_closed:
  assumes "\<And>p e. p \<le> len \<Longrightarrow> e \<in> set (f p) \<Longrightarrow> e \<le> len" "s = insert start (set r)" "start \<le> len" "set r \<subseteq> {..len}"
    "frontier = [] \<or> len + 3 \<le> fuel + card s"
    "\<forall>x\<in>s - set frontier. set (f x) \<subseteq> s" "set frontier \<subseteq> set r"
    "set r \<subseteq> A" "\<And>x e. x \<in> A \<Longrightarrow> e \<in> set (f x) \<Longrightarrow> e \<in> A"
  shows "\<exists>r'. repeat_loop fuel f frontier (r, s) = r' \<and> set r \<subseteq> set r' \<and> set r' \<subseteq> A \<and> (\<forall>x\<in>insert start (set r'). set (f x) \<subseteq> insert start (set r'))"
  using assms(2,4-8)
proof (induction fuel arbitrary: frontier r s)
  case 0
  have "card s \<le> card {..len}" using 0(1,2) assms(3) by (intro card_mono) auto
  then show ?case using 0 by auto
next
  case (Suc fuel)
  show ?case
  proof (cases "frontier = []")
    case True
    then show ?thesis using Suc.prems by auto
  next
    case False
    obtain n where n: "repeat_round f frontier (r, s) = (r @ n, s \<union> set n, n)" "set n = {e. \<exists>p\<in>set frontier. e \<in> set (f p) \<and> e \<noteq> p} - s"
      using repeat_round_ok by blast
    have fin: "finite s" using Suc.prems(1) by simp
    have "n = [] \<or> len + 3 \<le> fuel + card (s \<union> set n)"
    proof (cases n)
      case (Cons e es)
      have "card (insert e s) \<le> card (s \<union> set n)" using fin Cons by (intro card_mono) auto
      moreover have "e \<in> {e. \<exists>p\<in>set frontier. e \<in> set (f p) \<and> e \<noteq> p} - s" unfolding n(2) [symmetric] by (simp add: Cons)
      ultimately show ?thesis using Suc.prems(3) False fin by simp
    qed simp
    moreover have "e \<le> len \<and> e \<in> A" if e: "e \<in> set n" for e
    proof -
      obtain p where "p \<in> set frontier" "e \<in> set (f p)" using e unfolding n(2) by blast
      moreover have "p \<le> len \<and> p \<in> A" using calculation(1) Suc.prems(2,5,6) by auto
      ultimately show ?thesis using assms(1,9) by blast
    qed
    then have "set (r @ n) \<subseteq> {..len}" "set (r @ n) \<subseteq> A" using Suc.prems(2,6) by auto
    moreover have "\<forall>x\<in>s \<union> set n - set n. set (f x) \<subseteq> s \<union> set n"
    proof (intro ballI subsetI)
      fix x e
      assume x: "x \<in> s \<union> set n - set n" "e \<in> set (f x)"
      show "e \<in> s \<union> set n"
      proof (cases "x \<in> set frontier \<and> e \<noteq> x")
        case True
        then have "e \<in> s \<or> e \<in> {e. \<exists>p\<in>set frontier. e \<in> set (f p) \<and> e \<noteq> p} - s" using x(2) by blast
        then show ?thesis unfolding n(2) [symmetric] by blast
      next
        case False
        then show ?thesis using x Suc.prems(4) by blast
      qed
    qed
    moreover have "s \<union> set n = insert start (set (r @ n))" "set n \<subseteq> set (r @ n)" using Suc.prems(1) by auto
    ultimately obtain r' where "repeat_loop fuel f n (r @ n, s \<union> set n) = r'" "set (r @ n) \<subseteq> set r'" "set r' \<subseteq> A"
        "\<forall>x\<in>insert start (set r'). set (f x) \<subseteq> insert start (set r')"
      using Suc.IH [of "s \<union> set n" "r @ n" n] by metis
    then show ?thesis using n(1) False by simp
  qed
qed

lemma set_repeat_ends:
  assumes f: "\<And>p e. p \<le> len \<Longrightarrow> e \<in> set (f p) \<Longrightarrow> p \<le> e \<and> e \<le> len" and start: "start \<le> len"
  shows "set (repeat_ends f len start minimum optional)
    = (if optional \<or> minimum = 0 then {start} else {})
      \<union> (if optional then set (f start) else {j. (start, j) \<in> {(a, b). a \<le> len \<and> b \<in> set (f a)}\<^sup>+})"
proof (cases optional)
  case False
  let ?R = "{(a, b). a \<le> len \<and> b \<in> set (f a)}"
  let ?base = "if minimum = 0 then {start} else {}"
  define r where "r = (if minimum = 0 then [start] else []) @ f start"
  define A where "A = ?base \<union> {j. (start, j) \<in> ?R\<^sup>+}"
  have le: "a \<le> b \<and> b \<le> len" if "(a, b) \<in> ?R\<^sup>+" "a \<le> len" for a b
    using that by (induction rule: trancl_induct) (auto dest: f)
  have A: "e \<in> A" if "x \<in> A" "e \<in> set (f x)" for x e
  proof (cases "(start, x) \<in> ?R\<^sup>+")
    case True
    then have "(x, e) \<in> ?R" using that(2) le start by blast
    then have "(start, e) \<in> ?R\<^sup>+" using True by (rule trancl_into_trancl [rotated])
    then show ?thesis unfolding A_def by blast
  next
    case False
    then show ?thesis using that start unfolding A_def by (auto split: if_splits)
  qed
  have first: "set (f start) \<subseteq> {..len}" using f [OF start] by (simp add: subset_iff)
  have rs: "set r \<subseteq> {..len}" and fs: "set (f start) \<subseteq> set r" using first start by (auto simp: r_def)
  have "set r \<subseteq> A" using start unfolding A_def r_def by (auto split: if_splits)
  moreover have "f start = [] \<or> len + 3 \<le> len + 2 + card (insert start (set r))" using card_gt_0_iff [of "insert start (set r)"] by simp
  moreover have "\<forall>x\<in>insert start (set r) - set (f start). set (f x) \<subseteq> insert start (set r)" by (auto simp: r_def split: if_splits)
  ultimately obtain r' where r': "repeat_loop (len + 2) f (f start) (r, insert start (set r)) = r'" "set r \<subseteq> set r'" "set r' \<subseteq> A"
      "\<forall>x\<in>insert start (set r'). set (f x) \<subseteq> insert start (set r')"
    using repeat_loop_closed [of len f "insert start (set r)" start r "f start" "len + 2" A, OF _ refl start rs] f A fs by blast
  have "j \<in> set r'" if j: "(start, j) \<in> ?R\<^sup>+" for j
  proof -
    have "j \<in> insert start (set r')" using j by (induction rule: trancl_induct) (use r'(4) in auto)
    moreover have "start \<in> set (f start)" if loop: "(start, start) \<in> ?R\<^sup>+"
    proof -
      obtain y where y: "y \<in> set (f start)" "y = start \<or> (y, start) \<in> ?R\<^sup>+" using loop by (cases rule: converse_tranclE) auto
      then have "y = start" using f [OF start y(1)] le [of y start] by linarith
      then show ?thesis using y(1) by simp
    qed
    moreover have "set (f start) \<subseteq> set r'" using r'(2) by (simp add: r_def)
    ultimately show ?thesis using j by auto
  qed
  moreover have "?base \<subseteq> set r'" using r'(2) by (auto simp: r_def split: if_splits)
  ultimately have "set r' = A" using r'(3) unfolding A_def by auto
  moreover have "repeat_ends f len start minimum optional = sort_dedup r'"
    using False r'(1) by (simp add: repeat_ends_def Let_def r_def del: repeat_loop.simps)
  ultimately show ?thesis using False by (simp add: A_def)
qed (simp add: repeat_ends_def)

section \<open>The matcher\<close>

lemma star_bounds: "j \<in> star_to v i d \<Longrightarrow> i \<le> j \<and> j \<le> length v" "j \<in> globstar_to v i d \<Longrightarrow> i \<le> j \<and> j \<le> length v"
  "i \<le> length v \<Longrightarrow> j \<in> globstar_slash_to v i d \<Longrightarrow> i \<le> j \<and> j \<le> length v" "j \<in> one_char v i P \<Longrightarrow> i \<le> j \<and> j \<le> length v"
  by (auto simp: star_to_def globstar_to_def globstar_slash_to_def one_char_def)

text \<open>Computed and specified ends agree, within the value.\<close>

definition ends_agree :: "str \<Rightarrow> (nat \<Rightarrow> nat list) \<Rightarrow> (nat \<Rightarrow> nat set) \<Rightarrow> bool" where
  "ends_agree v f g \<longleftrightarrow> (\<forall>i\<le>length v. set (f i) = g i \<and> g i \<subseteq> {i..length v})"

definition node_agrees :: "(nat \<Rightarrow> str) \<Rightarrow> bool \<Rightarrow> str \<Rightarrow> glob_node \<Rightarrow> bool" where
  "node_agrees lower nocase v node \<longleftrightarrow> ends_agree v (match_node lower nocase v node) (node_to lower nocase v node)
     \<and> (\<forall>alternatives. node = Negative alternatives
          \<longrightarrow> ends_agree v (match_alternatives lower nocase v alternatives) (any_to lower nocase v alternatives))"

lemma ends_agreeD:
  assumes "ends_agree v f g" "i \<le> length v"
  shows "set (f i) = g i" "j \<in> g i \<Longrightarrow> i \<le> j \<and> j \<le> length v"
  using assms(1) [unfolded ends_agree_def, rule_format, OF assms(2)] by auto

lemma sequence_agrees:
  "list_all (node_agrees lower nocase v) nodes \<Longrightarrow> ends_agree v (match_sequence lower nocase v nodes) (seq_to lower nocase v nodes)"
proof (induction nodes)
  case (Cons node nodes)
  have node: "node_agrees lower nocase v node" and rest: "ends_agree v (match_sequence lower nocase v nodes) (seq_to lower nocase v nodes)"
    using Cons by simp_all
  show ?case
    unfolding ends_agree_def
  proof (intro allI impI)
    fix i
    assume i: "i \<le> length v"
    define es where "es = (case node of
           Negative alternatives \<Rightarrow>
             negative_ends alternatives nodes (match_alternatives lower nocase v alternatives i) (match_sequence lower nocase v nodes) v i
         | _ \<Rightarrow> match_node lower nocase v node i)"
    define g where "g = (case node of
          Negative alternatives \<Rightarrow>
            if (if nodes \<noteq> [] \<and> list_all (list_all is_literal) alternatives then any_to lower nocase v alternatives i \<noteq> {}
                else \<exists>j\<in>any_to lower nocase v alternatives i. length v \<in> seq_to lower nocase v nodes j)
            then {} else star_to v i True
        | _ \<Rightarrow> node_to lower nocase v node i)"
    have es: "set es = g \<and> g \<subseteq> {i..length v}"
    proof (cases "\<exists>alternatives. node = Negative alternatives")
      case True
      then obtain alternatives where n: "node = Negative alternatives" by blast
      then have alts: "ends_agree v (match_alternatives lower nocase v alternatives) (any_to lower nocase v alternatives)"
        using node by (simp add: node_agrees_def)
      have "set (match_sequence lower nocase v nodes j) = seq_to lower nocase v nodes j" if "j \<in> any_to lower nocase v alternatives i" for j
        using ends_agreeD [OF rest] ends_agreeD(2) [OF alts i that] by blast
      then show ?thesis
        using ends_agreeD [OF alts i] set_star_ends [OF i] n star_bounds(1) [of _ v i True]
        unfolding es_def g_def by (auto simp: negative_ends_def Let_def list_ex_iff simp flip: set_empty)
    next
      case False
      then have "es = match_node lower nocase v node i" "g = node_to lower nocase v node i"
        unfolding es_def g_def by (auto split: glob_node.splits)
      then show ?thesis using node i by (simp add: node_agrees_def ends_agree_def)
    qed
    have m: "match_sequence lower nocase v (node # nodes) i = sort_dedup (concat (map (match_sequence lower nocase v nodes) es))"
      "seq_to lower nocase v (node # nodes) i = (\<Union>j\<in>g. seq_to lower nocase v nodes j)"
      by (simp_all add: es_def g_def)
    show "set (match_sequence lower nocase v (node # nodes) i) = seq_to lower nocase v (node # nodes) i
        \<and> seq_to lower nocase v (node # nodes) i \<subseteq> {i..length v}"
    proof -
      have r: "set (match_sequence lower nocase v nodes j) = seq_to lower nocase v nodes j" "seq_to lower nocase v nodes j \<subseteq> {i..length v}" if "j \<in> g" for j
        using rest es that by (force simp: ends_agree_def)+
      have "set (concat (map (match_sequence lower nocase v nodes) es)) = (\<Union>j\<in>g. set (match_sequence lower nocase v nodes j))" using es by simp
      also have "\<dots> = (\<Union>j\<in>g. seq_to lower nocase v nodes j)" using r(1) by (rule SUP_cong [OF refl])
      finally show ?thesis unfolding m using r(2) by (simp add: UN_subset_iff)
    qed
  qed
qed (simp add: ends_agree_def)

lemma alternatives_agree:
  "list_all (list_all (node_agrees lower nocase v)) alternatives
   \<Longrightarrow> ends_agree v (match_alternatives lower nocase v alternatives) (any_to lower nocase v alternatives)"
  using sequence_agrees by (induction alternatives) (auto simp: ends_agree_def)

lemma every_node_agrees: "node_agrees lower nocase v node"
proof (induction node)
  case (Repeat alternatives minimum optional)
  let ?f = "match_alternatives lower nocase v alternatives" and ?g = "any_to lower nocase v alternatives"
  have alts: "ends_agree v ?f ?g" using Repeat by (intro alternatives_agree) (simp add: list_all_iff)
  show ?case
    unfolding node_agrees_def ends_agree_def
  proof (intro conjI allI impI)
    fix i
    assume i: "i \<le> length v"
    have same: "(i, j) \<in> {(a, b). a \<le> length v \<and> b \<in> set (?f a)}\<^sup>+ \<longleftrightarrow> (i, j) \<in> {(a, b). b \<in> ?g a}\<^sup>+" for j
    proof
      assume "(i, j) \<in> {(a, b). b \<in> ?g a}\<^sup>+"
      then have "(i, j) \<in> {(a, b). a \<le> length v \<and> b \<in> set (?f a)}\<^sup>+ \<and> j \<le> length v"
      proof (induction rule: trancl_induct)
        case (base b)
        then show ?case using ends_agreeD [OF alts i] i by auto
      next
        case (step b c)
        then have c: "c \<in> ?g b" and b: "b \<le> length v" by simp_all
        have "(b, c) \<in> {(a, b). a \<le> length v \<and> b \<in> set (?f a)}" "c \<le> length v"
          using ends_agreeD(1) [OF alts b] ends_agreeD(2) [OF alts b c] b c by simp_all
        then show ?case using step.IH by (meson trancl_into_trancl)
      qed
      then show "(i, j) \<in> {(a, b). a \<le> length v \<and> b \<in> set (?f a)}\<^sup>+" by simp
    next
      assume "(i, j) \<in> {(a, b). a \<le> length v \<and> b \<in> set (?f a)}\<^sup>+"
      moreover have "{(a, b). a \<le> length v \<and> b \<in> set (?f a)} \<subseteq> {(a, b). b \<in> ?g a}" using alts by (auto simp: ends_agree_def)
      ultimately show "(i, j) \<in> {(a, b). b \<in> ?g a}\<^sup>+" by (rule trancl_mono)
    qed
    have "j \<le> length v \<and> i \<le> j" if "(i, j) \<in> {(a, b). b \<in> ?g a}\<^sup>+" for j
      using that
    proof (induction rule: trancl_induct)
      case (base b)
      then show ?case using ends_agreeD(2) [OF alts i] by simp
    next
      case (step b c)
      then show ?case using ends_agreeD(2) [OF alts, of b c] by simp
    qed
    then show "node_to lower nocase v (Repeat alternatives minimum optional) i \<subseteq> {i..length v}"
      using i ends_agreeD(2) [OF alts i] by auto
    have "set (repeat_ends ?f (length v) i minimum optional)
        = (if optional \<or> minimum = 0 then {i} else {}) \<union> (if optional then set (?f i) else {j. (i, j) \<in> {(a, b). a \<le> length v \<and> b \<in> set (?f a)}\<^sup>+})"
      by (rule set_repeat_ends [OF _ i]) (use ends_agreeD [OF alts] in blast)
    then show "set (match_node lower nocase v (Repeat alternatives minimum optional) i) = node_to lower nocase v (Repeat alternatives minimum optional) i"
      using ends_agreeD(1) [OF alts i] by (simp add: same)
  qed simp_all
next
  case (Alternation alternatives)
  then show ?case using alternatives_agree [of lower nocase v alternatives] by (simp add: node_agrees_def ends_agree_def list_all_iff)
next
  case (Negative alternatives)
  then show ?case using alternatives_agree [of lower nocase v alternatives] by (simp add: node_agrees_def ends_agree_def list_all_iff)
qed (auto simp: node_agrees_def ends_agree_def one_char_def hidden_start_def set_star_ends set_globstar_ends set_globstar_slash_ends dest: star_bounds)


end
