(* ===== verification/RuleLiteral.thy ===== *)
theory RuleLiteral
  imports RuleMatch
begin

text \<open>
  The literal rules that an approval for the session leaves behind: such a rule matches the tool and the subject it
  was made from and nothing else, up to a leading dot and slash.
\<close>

lemma escape_simps [simp]: "escape_rule_subject_literal s = [] \<longleftrightarrow> s = []" "escape_rule_subject_literal s \<noteq> 33 # r" "escape_rule_subject_literal s \<noteq> 42 # r"
  by (cases s; auto simp: rule_special_def)+

lemma escape_append: "escape_rule_subject_literal (s @ t) = escape_rule_subject_literal s @ escape_rule_subject_literal t"
  by (induction s) auto

lemma escape_plain: "list_all (\<lambda>c. \<not> rule_special c) s \<Longrightarrow> escape_rule_subject_literal s = s"
  by (induction s) auto

lemma escape_no_extglob: "\<not> contains_extglob (escape_rule_subject_literal s)"
  by (induction s) (auto simp: rule_special_def opens_extglob_def)

lemma escape_no_negation: "strip_pattern_negation (escape_rule_subject_literal s) negated = (escape_rule_subject_literal s, negated)"
  using escape_simps(2) [of s] by (cases "escape_rule_subject_literal s") auto

lemma escape_split: "split_char 47 (escape_rule_subject_literal s) = map escape_rule_subject_literal (split_char 47 s)"
proof (induction s)
  case (Cons c s)
  obtain p ps where "split_char 47 s = p # ps" using split_char_nonempty [of 47 s] by (cases "split_char 47 s") auto
  then show ?case using Cons by (auto simp: rule_special_def)
qed simp

lemma escape_dots: "dot_segments_are_explicit s (escape_rule_subject_literal s)"
proof -
  have "prefix [46] v \<Longrightarrow> prefix [46] (escape_rule_subject_literal v)" for v by (cases v) (auto simp: rule_special_def)
  then have "dot_segments_are_explicit_from vs (map escape_rule_subject_literal vs)" for vs
    by (induction vs) (auto simp: pattern_starts_with_literal_dot_def)
  then show ?thesis by (simp add: dot_segments_are_explicit_def escape_split)
qed

lemma strip_dot_slash: "strip_leading_dot_slash ([46, 47] @ r) = r" "\<not> prefix [46, 47] s \<Longrightarrow> strip_leading_dot_slash s = s"
  by (auto simp: strip_leading_dot_slash_def strip_prefix_def prefix_def split: option.splits) (metis append_take_drop_id append_Cons append_Nil)

lemma escape_prefix: "prefix [46, 47] (escape_rule_subject_literal s) \<longleftrightarrow> prefix [46, 47] s"
proof (cases s)
  case (Cons c r)
  then show ?thesis by (cases r) (auto simp: rule_special_def)
qed simp

lemma escape_strip: "strip_leading_dot_slash (escape_rule_subject_literal s) = escape_rule_subject_literal (strip_leading_dot_slash s)"
proof (cases "prefix [46, 47] s")
  case True
  then obtain r where r: "s = [46, 47] @ r" by (auto simp: prefix_def)
  have "escape_rule_subject_literal s = [46, 47] @ escape_rule_subject_literal r" unfolding r escape_append by (simp add: rule_special_def)
  then show ?thesis using strip_dot_slash(1) r by metis
next
  case False
  then show ?thesis using strip_dot_slash(2) escape_prefix by metis
qed

text \<open>What globset documents for a pattern without special characters, or with all of them escaped.\<close>

definition globset_literal :: "globset \<Rightarrow> bool" where
  "globset_literal globset \<longleftrightarrow>
     (\<forall>s. \<exists>m. globset False (escape_rule_subject_literal s) = Some m \<and> (\<forall>v. m v \<longleftrightarrow> v = s))"

lemma once_literal:
  assumes "globset_literal globset"
  shows "glob_match_once lower globset v (escape_rule_subject_literal s) False \<longleftrightarrow> v = s"
proof -
  obtain m where "globset False (escape_rule_subject_literal s) = Some m" "\<And>v. m v \<longleftrightarrow> v = s" using assms by (auto simp: globset_literal_def)
  then show ?thesis using escape_dots [of s] by (auto simp: glob_match_once_def escape_no_negation escape_no_extglob)
qed

lemma glob_match_literal:
  assumes "globset_literal globset"
  shows "glob_match lower globset v (escape_rule_subject_literal s) False \<longleftrightarrow> strip_leading_dot_slash v = strip_leading_dot_slash s"
proof -
  have "escape_rule_subject_literal s = escape_rule_subject_literal t \<longleftrightarrow> s = t" for s t
    using once_literal [OF assms, of undefined s s] once_literal [OF assms, of undefined s t] by metis
  then show ?thesis using once_literal [OF assms] by (auto simp: glob_match_def escape_strip Let_def)
qed

lemma parse_literal:
  assumes "tool \<noteq> []" "list_all (\<lambda>c. \<not> rule_special c \<and> \<not> is_space c) tool"
  shows "parse_pattern (literal_rule_pattern tool subject)
     = Inr \<lparr> pp_tool_name = tool, pp_arg_pattern = if subject = [] then None else Some (escape_rule_subject_literal subject) \<rparr>"
proof -
  let ?p = "tool @ 40 # escape_rule_subject_literal subject @ [41]"
  have "\<not> is_space (hd tool)" "\<not> is_space 41" using assms by (cases tool; simp add: is_space_def)+
  then have t: "trim ?p = ?p" using assms(1) by (cases tool) (simp_all add: trim_def)
  have "40 \<notin> set tool" using assms(2) by (auto simp: list_all_iff rule_special_def)
  then have f: "find_char 40 ?p = Some (length tool)" by (induction tool) auto
  have "slice (length tool + 1) (length ?p - 1) ?p = escape_rule_subject_literal subject" by (simp add: slice_def)
  then show ?thesis using t f assms(1) by (simp add: parse_pattern_def literal_rule_pattern_def Let_def)
qed

lemma literal_rule_matches:
  assumes "globset_literal globset" and "tool \<noteq> []" and "list_all (\<lambda>c. \<not> rule_special c \<and> \<not> is_space c) tool" and "subject \<noteq> []"
    and "pr_pattern rule = literal_rule_pattern tool subject"
  shows "match_permission_rule lower globset rule name (Some (\<lambda>args. matches_glob_rule_subject lower globset args call)) \<noteq> None
    \<longleftrightarrow> strip_leading_dot_slash name = strip_leading_dot_slash tool \<and> strip_leading_dot_slash call = strip_leading_dot_slash subject"
proof -
  have plain: "list_all (\<lambda>c. \<not> rule_special c) tool" using assms(3) by (simp add: list_all_iff)
  have tool: "glob_match lower globset name tool False \<longleftrightarrow> strip_leading_dot_slash name = strip_leading_dot_slash tool"
    using glob_match_literal [OF assms(1), of lower name tool] escape_plain [OF plain] by simp
  have "tool \<noteq> [42]" using plain by (auto simp: rule_special_def)
  moreover have "strip_prefix [33] (escape_rule_subject_literal subject) = None"
    using escape_simps(2) [of subject] by (cases "escape_rule_subject_literal subject") (auto simp: strip_prefix_def)
  then have "matches_glob_rule_subject lower globset (escape_rule_subject_literal subject) call \<longleftrightarrow> strip_leading_dot_slash call = strip_leading_dot_slash subject"
    using assms(4) glob_match_literal [OF assms(1)] by (simp add: matches_glob_rule_subject_def match_rule_subjects_def)
  ultimately show ?thesis
    using parse_literal [OF assms(2,3), of subject] tool assms(4,5) by (simp add: match_permission_rule_def)
qed


text \<open>A subject that is empty leaves a rule without arguments, which matches every call of the tool.\<close>

lemma empty_subject_matches_all:
  assumes "globset_literal globset" "tool \<noteq> []" "list_all (\<lambda>c. \<not> rule_special c \<and> \<not> is_space c) tool"
    "pr_pattern rule = literal_rule_pattern tool []"
  shows "match_permission_rule lower globset rule tool matches_rule = Some \<lparr> prm_rule = rule, prm_strategy = ToolNameOnly, prm_has_rule_args = False \<rparr>"
proof -
  have "escape_rule_subject_literal tool = tool" using assms(3) by (intro escape_plain) (simp add: list_all_iff)
  then have "glob_match lower globset tool tool False" using glob_match_literal [OF assms(1), of lower tool tool] by simp
  then show ?thesis using parse_literal [OF assms(2,3), of "[]"] assms(4) by (simp add: match_permission_rule_def)
qed

section \<open>Example\<close>

text \<open>A matcher that reads a pattern as the text it escapes.\<close>

fun unescape :: "str \<Rightarrow> str" where
  "unescape [] = []"
| "unescape (c # rest) = (if c = 92 then (case rest of [] \<Rightarrow> [c] | d # rest \<Rightarrow> d # unescape rest) else c # unescape rest)"

definition literal_globset :: globset where
  "literal_globset nocase pattern = Some (\<lambda>v. v = unescape pattern)"

lemma literal_globset_ok: "globset_literal literal_globset"
proof -
  have "unescape (escape_rule_subject_literal s) = s" for s by (induction s) (auto simp: rule_special_def)
  then show ?thesis by (simp add: globset_literal_def literal_globset_def)
qed


end
