(* ===== verification/PermissionPolicy.thy ===== *)
theory PermissionPolicy
  imports RuleLiteral ToolScheduler
begin

text \<open>
  The permission policies (\<open>agent/permission_policy\<close>): each policy on a tool call, the order of the chain, and the
  rules of the session (\<open>agent/permission_rules\<close>). What a policy asks of another service (the mode, the plan, the
  swarm, the host, the working directory, the marker of a Git work tree found on disk) is a field of
  \<open>policy_env\<close>, as the service answers at that moment; an answer that can fail is a sum with the failure on
  the left. A closure that a policy hands to the gate is a value of \<open>approval_resolver\<close>; no policy of the repository
  sets execution metadata or a resolver of errors, so a result has neither.
\<close>

section \<open>Data\<close>

datatype permission_mode = Manual | Yolo | Auto

datatype permission_reason_value = ReasonString str | ReasonNumber nat | ReasonBoolean bool | ReasonNull

type_synonym permission_decision_reason = "(str, permission_reason_value) imap"

record plan_review_option =
  po_label :: str
  po_description :: str

text \<open>Of the displays of a call the policies read these two; the other kinds are \<open>OtherDisplay\<close>.\<close>

datatype tool_input_display =
    DisplayPlanReview str "str option" "plan_review_option list option"
  | DisplayGoalStart
  | OtherDisplay

record plan_review =
  rv_plan :: str
  rv_path :: "str option"
  rv_options :: "plan_review_option list option"

datatype approval_resolver = ResolveExitPlan plan_review | ResolveGoalStart

datatype permission_policy_result =
    Approve "permission_decision_reason option"
  | Deny "permission_decision_reason option" "str option"
  | Ask "permission_decision_reason option" "approval_resolver option"

record plan_data =
  pd_id :: str
  pd_content :: str
  pd_path :: str

record permission_git_work_tree_marker =
  gm_dot_git_path :: str
  gm_control_dir_path :: str

record policy_env =
  en_mode :: permission_mode
  en_rules :: "permission_rule list"
  en_session_patterns :: "str list"
  en_plan :: "unit + plan_data option"
  en_swarm_active :: bool
  en_path_class :: "unit + path_class"
  en_work_dir :: str
  en_additional_dirs :: "str list"
  en_git_marker :: "str \<Rightarrow> permission_git_work_tree_marker option"
  en_default_class :: path_class

text \<open>The call: its name, the names of all calls of the response, and the resolved execution.\<close>

record tool_context =
  tx_name :: str
  tx_call_id :: str
  tx_tool_calls :: "str list"
  tx_accesses :: "tool_accesses option"
  tx_display :: "tool_input_display option"
  tx_description :: "str option"
  tx_approval_rule :: str
  tx_matcher :: "(str \<Rightarrow> bool) option"

definition matches_rule :: "tool_context \<Rightarrow> str \<Rightarrow> bool" where
  "matches_rule context rule_args \<longleftrightarrow> (case tx_matcher context of Some f \<Rightarrow> f rule_args | None \<Rightarrow> False)"

section \<open>Paths of a call\<close>

definition file_accesses :: "tool_context \<Rightarrow> tool_file_access list" where
  "file_accesses context =
     (case tx_accesses context of
        None \<Rightarrow> []
      | Some accesses \<Rightarrow> List.map_filter (\<lambda>access. case access of AccessFile f \<Rightarrow> Some f | AccessAll \<Rightarrow> None) accesses)"

definition write_file_accesses :: "tool_context \<Rightarrow> tool_file_access list" where
  "write_file_accesses context = filter (\<lambda>access. fa_operation access \<in> {OpWrite, OpReadWrite}) (file_accesses context)"

definition paths_equal :: "path_class \<Rightarrow> str \<Rightarrow> str \<Rightarrow> bool" where
  "paths_equal cls left right \<longleftrightarrow>
     (let cwd = (if cls = Win32 then lit ''C:/'' else lit ''/'');
          normalize = (\<lambda>path. case canonicalize_path path cwd cls of
             Inl _ \<Rightarrow> None
           | Inr path \<Rightarrow> Some (if cls = Win32 then map ascii_lower path else path))
      in (case (normalize left, normalize right) of (Some l, Some r) \<Rightarrow> l = r | _ \<Rightarrow> False))"

definition writes_only_plan_file :: "path_class \<Rightarrow> tool_context \<Rightarrow> str \<Rightarrow> bool" where
  "writes_only_plan_file cls context plan_file_path \<longleftrightarrow>
     write_file_accesses context \<noteq> []
     \<and> list_all (\<lambda>access. paths_equal cls (fa_path access) plan_file_path) (write_file_accesses context)"

definition relative_path_parts :: "str \<Rightarrow> str \<Rightarrow> path_class \<Rightarrow> str list" where
  "relative_path_parts target_path cwd cls =
     (let target = slashed target_path;
          cwd = trim_end_matches {47} (slashed cwd);
          target = (if cls = Win32 then map ascii_lower target else target);
          cwd = (if cls = Win32 then map ascii_lower cwd else cwd);
          relative = (case strip_prefix (cwd @ [47]) target of Some r \<Rightarrow> r | None \<Rightarrow> target)
      in filter (\<lambda>part. part \<noteq> []) (split_char 47 relative))"

definition has_git_path_component :: "str \<Rightarrow> str \<Rightarrow> path_class \<Rightarrow> bool" where
  "has_git_path_component target_path cwd cls \<longleftrightarrow>
     list_ex (\<lambda>part. map ascii_lower part = lit ''.git'') (relative_path_parts target_path cwd cls)"

definition is_git_control_path :: "str \<Rightarrow> permission_git_work_tree_marker \<Rightarrow> path_class \<Rightarrow> bool" where
  "is_git_control_path target_path marker cls \<longleftrightarrow>
     is_within_directory target_path (gm_dot_git_path marker) cls
     \<or> is_within_directory target_path (gm_control_dir_path marker) cls"

section \<open>The policies\<close>

definition multiple_agent_swarm_denied_message :: "bool \<Rightarrow> str" where
  "multiple_agent_swarm_denied_message has_other_tool_calls =
     lit ''AgentSwarm must be called one swarm at a time. Multiple AgentSwarm calls are not forbidden, but issue them sequentially: call one AgentSwarm, wait for its result, then call the next; or merge the work into a single AgentSwarm when one swarm can cover it.''
     @ (if has_other_tool_calls then lit '' AgentSwarm also must not be combined with other tools in the same response.'' else [])"

definition mixed_agent_swarm_denied_message :: str where
  "mixed_agent_swarm_denied_message =
     lit ''AgentSwarm must be the only tool call in a model response. Retry with a single AgentSwarm call by itself, then call any other tools after it returns.''"

definition agent_swarm_exclusive_denial :: "tool_context \<Rightarrow> permission_policy_result option" where
  "agent_swarm_exclusive_denial context =
     (let total = length (tx_tool_calls context);
          agent_swarm_count = length (filter (\<lambda>name. name = lit ''AgentSwarm'') (tx_tool_calls context)) in
      if agent_swarm_count = 0 \<or> agent_swarm_count = 1 \<and> total = 1 then None
      else
        Some (Deny
          (Some [(lit ''agent_swarm_tool_calls'', ReasonNumber agent_swarm_count), (lit ''tool_calls'', ReasonNumber total)])
          (Some (if agent_swarm_count > 1 then multiple_agent_swarm_denied_message (total > agent_swarm_count)
                 else mixed_agent_swarm_denied_message))))"

definition AUTO_MODE_ASK_USER_QUESTION_DENIED_MESSAGE :: str where
  "AUTO_MODE_ASK_USER_QUESTION_DENIED_MESSAGE =
     lit ''AskUserQuestion is disabled while auto permission mode is active. Make a reasonable decision and continue without asking the user.''"

definition auto_mode_ask_user_question_result :: "permission_mode \<Rightarrow> str \<Rightarrow> permission_policy_result option" where
  "auto_mode_ask_user_question_result mode tool_name =
     (if mode = Auto \<and> tool_name = lit ''AskUserQuestion''
      then Some (Deny None (Some AUTO_MODE_ASK_USER_QUESTION_DENIED_MESSAGE)) else None)"

definition plan_mode_write_denied_message :: "str option \<Rightarrow> str" where
  "plan_mode_write_denied_message plan_file_path =
     lit ''Plan mode is active. You may only write to the current plan file: ''
     @ (case plan_file_path of Some p \<Rightarrow> p | None \<Rightarrow> lit ''(no plan file selected yet)'')
     @ lit ''. Call ExitPlanMode to exit plan mode before editing other files.''"

definition plan_mode_guard_denial :: "path_class \<Rightarrow> tool_context \<Rightarrow> plan_data option \<Rightarrow> permission_policy_result option" where
  "plan_mode_guard_denial cls context plan =
     (case plan of
        None \<Rightarrow> None
      | Some plan \<Rightarrow>
          if tx_name context \<in> {lit ''Write'', lit ''Edit''}
          then (if writes_only_plan_file cls context (pd_path plan) then None
                else Some (Deny None (Some (plan_mode_write_denied_message (Some (pd_path plan))))))
          else if tx_name context = lit ''TaskStop''
          then Some (Deny None (Some (lit ''TaskStop is not available in plan mode. Call ExitPlanMode to exit plan mode before stopping a background task.'')))
          else if tx_name context \<in> {lit ''CronCreate'', lit ''CronDelete''}
          then Some (Deny None (Some (tx_name context @ lit '' is not available in plan mode because it would mutate scheduled work that runs after plan exit. Call ExitPlanMode first.'')))
          else None)"

definition is_user_configured_scope :: "permission_rule_scope \<Rightarrow> bool" where
  "is_user_configured_scope scope \<longleftrightarrow> scope \<in> {TurnOverride, ProjectScope, UserScope}"

definition default_permission_rule_deny_message :: "str \<Rightarrow> str option \<Rightarrow> str" where
  "default_permission_rule_deny_message tool reason =
     lit ''Tool '' @ [34] @ tool @ [34] @ lit '' was denied by permission rule.''
     @ (case reason of Some r \<Rightarrow> if r \<noteq> [] then lit '' Reason: '' @ r else [] | None \<Rightarrow> [])"

definition evaluate_user_configured_rule ::
  "(nat \<Rightarrow> str) \<Rightarrow> globset \<Rightarrow> tool_context \<Rightarrow> permission_rule_decision \<Rightarrow> permission_rule list \<Rightarrow> permission_policy_result option" where
  "evaluate_user_configured_rule lower globset context decision rules =
     (case find (\<lambda>rule. is_user_configured_scope (pr_scope rule) \<and> pr_decision rule = decision
                   \<and> match_permission_rule lower globset rule (tx_name context) (Some (matches_rule context)) \<noteq> None) rules of
        None \<Rightarrow> None
      | Some rule \<Rightarrow>
          (case decision of
             RuleDeny \<Rightarrow> Some (Deny None (Some (default_permission_rule_deny_message (tx_name context) (pr_reason rule))))
           | RuleAsk \<Rightarrow> Some (Ask None None)
           | RuleAllow \<Rightarrow> Some (Approve None)))"

definition auto_mode_result :: "permission_mode \<Rightarrow> permission_policy_result option" where
  "auto_mode_result mode = (if mode = Auto then Some (Approve None) else None)"

fun strategy_name :: "permission_rule_match_strategy \<Rightarrow> str" where
  "strategy_name ToolNameOnly = lit ''tool_name_only''"
| "strategy_name MatchesRule = lit ''matches_rule''"

fun session_approval_history ::
  "(nat \<Rightarrow> str) \<Rightarrow> globset \<Rightarrow> tool_context \<Rightarrow> str list \<Rightarrow> permission_policy_result option" where
  "session_approval_history lower globset context [] = None"
| "session_approval_history lower globset context (pattern # patterns) =
     (let rule = \<lparr> pr_decision = RuleAllow, pr_scope = SessionRuntime, pr_pattern = pattern, pr_reason = Some (lit ''approve for session'') \<rparr> in
      case match_permission_rule lower globset rule (tx_name context) (Some (matches_rule context)) of
        None \<Rightarrow> session_approval_history lower globset context patterns
      | Some matched \<Rightarrow>
          Some (Approve (Some [(lit ''has_rule_args'', ReasonBoolean (prm_has_rule_args matched)),
                               (lit ''match_strategy'', ReasonString (strategy_name (prm_strategy matched)))])))"

definition exit_plan_mode_review_ask :: "policy_env \<Rightarrow> tool_context \<Rightarrow> permission_policy_result option" where
  "exit_plan_mode_review_ask env context =
     (if tx_name context \<noteq> lit ''ExitPlanMode'' \<or> en_mode env = Auto then None
      else case en_plan env of
        Inl _ \<Rightarrow> None
      | Inr None \<Rightarrow> None
      | Inr (Some _) \<Rightarrow>
          (case tx_display context of
             Some (DisplayPlanReview plan path options) \<Rightarrow>
               if trim plan = [] then None
               else Some (Ask (Some [(lit ''has_options'', ReasonBoolean (options \<noteq> None))])
                      (Some (ResolveExitPlan \<lparr> rv_plan = plan, rv_path = path, rv_options = options \<rparr>)))
           | _ \<Rightarrow> None))"

definition goal_start_review_ask :: "permission_mode \<Rightarrow> tool_context \<Rightarrow> permission_policy_result option" where
  "goal_start_review_ask mode context =
     (if tx_name context \<noteq> lit ''CreateGoal'' \<or> mode = Auto \<or> tx_display context \<noteq> Some DisplayGoalStart then None
      else Some (Ask None (Some ResolveGoalStart)))"

definition plan_mode_tool_approval :: "path_class \<Rightarrow> tool_context \<Rightarrow> plan_data option \<Rightarrow> permission_policy_result option" where
  "plan_mode_tool_approval cls context plan =
     (if tx_name context = lit ''EnterPlanMode'' then Some (Approve None)
      else if tx_name context \<in> {lit ''Write'', lit ''Edit''}
        \<and> (case plan of Some p \<Rightarrow> writes_only_plan_file cls context (pd_path p) | None \<Rightarrow> False)
      then Some (Approve None)
      else if tx_name context = lit ''ExitPlanMode''
        \<and> (plan = None
           \<or> (case tx_display context of Some (DisplayPlanReview p _ _) \<Rightarrow> trim p = [] | _ \<Rightarrow> True))
      then Some (Approve None)
      else None)"

definition plan_mode_tool_approve :: "policy_env \<Rightarrow> tool_context \<Rightarrow> permission_policy_result option" where
  "plan_mode_tool_approve env context =
     (if tx_name context = lit ''EnterPlanMode'' then plan_mode_tool_approval (en_default_class env) context None
      else case en_plan env of
        Inl _ \<Rightarrow> None
      | Inr plan \<Rightarrow> plan_mode_tool_approval (en_default_class env) context plan)"

definition sensitive_file_access_ask :: "tool_context \<Rightarrow> permission_policy_result option" where
  "sensitive_file_access_ask context =
     (if list_ex (\<lambda>access. is_sensitive_file (fa_path access)) (file_accesses context) then Some (Ask None None) else None)"

definition git_control_path_access_ask ::
  "(str \<Rightarrow> permission_git_work_tree_marker option) \<Rightarrow> tool_context \<Rightarrow> path_class \<Rightarrow> str \<Rightarrow> permission_policy_result option" where
  "git_control_path_access_ask find_marker context cls cwd =
     (if cwd = [] then None
      else let accesses = file_accesses context in
        if accesses = [] then None
        else if list_ex (\<lambda>access. has_git_path_component (fa_path access) cwd cls) accesses then Some (Ask None None)
        else case find_marker cwd of
          None \<Rightarrow> None
        | Some marker \<Rightarrow>
            if list_ex (\<lambda>access. is_git_control_path (fa_path access) marker cls) accesses then Some (Ask None None) else None)"

definition yolo_mode_result :: "permission_mode \<Rightarrow> permission_policy_result option" where
  "yolo_mode_result mode = (if mode = Yolo then Some (Approve None) else None)"

definition swarm_mode_agent_swarm_approve :: "policy_env \<Rightarrow> tool_context \<Rightarrow> permission_policy_result option" where
  "swarm_mode_agent_swarm_approve env context =
     (if tx_name context = lit ''AgentSwarm'' \<and> en_swarm_active env then Some (Approve None) else None)"

definition DEFAULT_APPROVE_TOOLS :: "str list" where
  "DEFAULT_APPROVE_TOOLS = map lit
     [''Read'', ''Grep'', ''Glob'', ''ReadMediaFile'', ''SetTodoList'', ''TodoList'', ''TaskList'', ''TaskOutput'', ''CronList'',
      ''WebSearch'', ''FetchURL'', ''Agent'', ''AskUserQuestion'', ''Skill'', ''GetGoal'', ''SetGoalBudget'', ''UpdateGoal'', ''select_tools'']"

definition is_default_approve_tool :: "str \<Rightarrow> bool" where
  "is_default_approve_tool tool_name \<longleftrightarrow> tool_name \<in> set DEFAULT_APPROVE_TOOLS"

definition evaluate_git_cwd_write ::
  "(str \<Rightarrow> permission_git_work_tree_marker option) \<Rightarrow> tool_context \<Rightarrow> path_class \<Rightarrow> str \<Rightarrow> str list \<Rightarrow> permission_policy_result option" where
  "evaluate_git_cwd_write find_marker context cls cwd dirs =
     (if tx_name context \<notin> {lit ''Write'', lit ''Edit''} \<or> cls \<noteq> Posix \<or> cwd = [] then None
      else let write_accesses = write_file_accesses context in
        if write_accesses = [] then None
        else if \<not> list_all (\<lambda>access. is_within_workspace (fa_path access) \<lparr> workspace_dir = cwd, additional_dirs = dirs \<rparr> Posix) write_accesses
        then None
        else map_option (\<lambda>_. Approve None) (find_marker cwd))"

definition DEFAULT_DENY_ALL_MESSAGE :: str where
  "DEFAULT_DENY_ALL_MESSAGE = lit ''Tool calls are disabled for this agent.''"

section \<open>The chain\<close>

datatype permission_policy =
    AgentSwarmExclusiveDeny | AutoModeAskUserQuestionDeny | PlanModeGuardDeny | UserConfiguredDeny
  | AutoModeApprove | SessionApprovalHistory | UserConfiguredAsk | UserConfiguredAllow
  | ExitPlanModeReviewAsk | GoalStartReviewAsk | PlanModeToolApprove | SensitiveFileAccessAsk
  | GitControlPathAccessAsk | YoloModeApprove | SwarmModeAgentSwarmApprove | DefaultToolApprove
  | GitCwdWriteApprove | FallbackAsk | DenyAll str

fun policy_name :: "permission_policy \<Rightarrow> str" where
  "policy_name AgentSwarmExclusiveDeny = lit ''agent-swarm-exclusive-deny''"
| "policy_name AutoModeAskUserQuestionDeny = lit ''auto-mode-ask-user-question-deny''"
| "policy_name PlanModeGuardDeny = lit ''plan-mode-guard-deny''"
| "policy_name UserConfiguredDeny = lit ''user-configured-deny''"
| "policy_name AutoModeApprove = lit ''auto-mode-approve''"
| "policy_name SessionApprovalHistory = lit ''session-approval-history''"
| "policy_name UserConfiguredAsk = lit ''user-configured-ask''"
| "policy_name UserConfiguredAllow = lit ''user-configured-allow''"
| "policy_name ExitPlanModeReviewAsk = lit ''exit-plan-mode-review-ask''"
| "policy_name GoalStartReviewAsk = lit ''goal-start-review-ask''"
| "policy_name PlanModeToolApprove = lit ''plan-mode-tool-approve''"
| "policy_name SensitiveFileAccessAsk = lit ''sensitive-file-access-ask''"
| "policy_name GitControlPathAccessAsk = lit ''git-control-path-access-ask''"
| "policy_name YoloModeApprove = lit ''yolo-mode-approve''"
| "policy_name SwarmModeAgentSwarmApprove = lit ''swarm-mode-agent-swarm-approve''"
| "policy_name DefaultToolApprove = lit ''default-tool-approve''"
| "policy_name GitCwdWriteApprove = lit ''git-cwd-write-approve''"
| "policy_name FallbackAsk = lit ''fallback-ask''"
| "policy_name (DenyAll message) = lit ''deny-all''"

fun evaluate_policy ::
  "(nat \<Rightarrow> str) \<Rightarrow> globset \<Rightarrow> policy_env \<Rightarrow> tool_context \<Rightarrow> permission_policy \<Rightarrow> permission_policy_result option" where
  "evaluate_policy lower globset env context AgentSwarmExclusiveDeny = agent_swarm_exclusive_denial context"
| "evaluate_policy lower globset env context AutoModeAskUserQuestionDeny = auto_mode_ask_user_question_result (en_mode env) (tx_name context)"
| "evaluate_policy lower globset env context PlanModeGuardDeny =
     (case en_plan env of Inl _ \<Rightarrow> None | Inr plan \<Rightarrow> plan_mode_guard_denial (en_default_class env) context plan)"
| "evaluate_policy lower globset env context UserConfiguredDeny = evaluate_user_configured_rule lower globset context RuleDeny (en_rules env)"
| "evaluate_policy lower globset env context AutoModeApprove = auto_mode_result (en_mode env)"
| "evaluate_policy lower globset env context SessionApprovalHistory = session_approval_history lower globset context (en_session_patterns env)"
| "evaluate_policy lower globset env context UserConfiguredAsk = evaluate_user_configured_rule lower globset context RuleAsk (en_rules env)"
| "evaluate_policy lower globset env context UserConfiguredAllow = evaluate_user_configured_rule lower globset context RuleAllow (en_rules env)"
| "evaluate_policy lower globset env context ExitPlanModeReviewAsk = exit_plan_mode_review_ask env context"
| "evaluate_policy lower globset env context GoalStartReviewAsk = goal_start_review_ask (en_mode env) context"
| "evaluate_policy lower globset env context PlanModeToolApprove = plan_mode_tool_approve env context"
| "evaluate_policy lower globset env context SensitiveFileAccessAsk = sensitive_file_access_ask context"
| "evaluate_policy lower globset env context GitControlPathAccessAsk =
     (case en_path_class env of Inl _ \<Rightarrow> None
      | Inr cls \<Rightarrow> git_control_path_access_ask (en_git_marker env) context cls (en_work_dir env))"
| "evaluate_policy lower globset env context YoloModeApprove = yolo_mode_result (en_mode env)"
| "evaluate_policy lower globset env context SwarmModeAgentSwarmApprove = swarm_mode_agent_swarm_approve env context"
| "evaluate_policy lower globset env context DefaultToolApprove =
     (if is_default_approve_tool (tx_name context) then Some (Approve None) else None)"
| "evaluate_policy lower globset env context GitCwdWriteApprove =
     (case en_path_class env of Inl _ \<Rightarrow> None
      | Inr cls \<Rightarrow> evaluate_git_cwd_write (en_git_marker env) context cls (en_work_dir env) (en_additional_dirs env))"
| "evaluate_policy lower globset env context FallbackAsk = Some (Ask None None)"
| "evaluate_policy lower globset env context (DenyAll message) = Some (Deny None (Some message))"

text \<open>The service: the chain in its order, and the dynamic policies with the number of their registration.\<close>

record permission_policy_service =
  ps_policies :: "permission_policy list"
  ps_dynamic_policies :: "(nat \<times> permission_policy) list"
  ps_next :: nat

definition from_dependencies :: permission_policy_service where
  "from_dependencies =
     \<lparr> ps_policies =
         [AgentSwarmExclusiveDeny, AutoModeAskUserQuestionDeny, PlanModeGuardDeny, UserConfiguredDeny,
          AutoModeApprove, SessionApprovalHistory, UserConfiguredAsk, UserConfiguredAllow,
          ExitPlanModeReviewAsk, GoalStartReviewAsk, PlanModeToolApprove, SensitiveFileAccessAsk,
          GitControlPathAccessAsk, YoloModeApprove, SwarmModeAgentSwarmApprove, DefaultToolApprove,
          GitCwdWriteApprove, FallbackAsk],
       ps_dynamic_policies = [], ps_next = 0 \<rparr>"

fun first_result ::
  "(permission_policy \<Rightarrow> permission_policy_result option) \<Rightarrow> permission_policy list \<Rightarrow> (str \<times> permission_policy_result) option" where
  "first_result f [] = None"
| "first_result f (policy # policies) =
     (case f policy of Some result \<Rightarrow> Some (policy_name policy, result) | None \<Rightarrow> first_result f policies)"

definition policy_service_evaluate ::
  "(nat \<Rightarrow> str) \<Rightarrow> globset \<Rightarrow> policy_env \<Rightarrow> tool_context \<Rightarrow> permission_policy_service \<Rightarrow> (str \<times> permission_policy_result) option" where
  "policy_service_evaluate lower globset env context service =
     first_result (evaluate_policy lower globset env context) (map snd (ps_dynamic_policies service) @ ps_policies service)"

definition register_policy :: "permission_policy \<Rightarrow> permission_policy_service \<Rightarrow> nat \<times> permission_policy_service" where
  "register_policy policy service =
     (ps_next service,
      service\<lparr> ps_dynamic_policies := (ps_next service, policy) # ps_dynamic_policies service, ps_next := ps_next service + 1 \<rparr>)"

definition dispose_policy :: "nat \<Rightarrow> permission_policy_service \<Rightarrow> permission_policy_service" where
  "dispose_policy handle service =
     service\<lparr> ps_dynamic_policies := filter (\<lambda>(h, _). h \<noteq> handle) (ps_dynamic_policies service) \<rparr>"

section \<open>Rules of the session\<close>

datatype approval_decision = Approved | Rejected | Cancelled

datatype approval_scope = Session

record approval_response =
  ar_decision :: approval_decision
  ar_scope :: "approval_scope option"
  ar_feedback :: "str option"
  ar_selected_label :: "str option"

record permission_rules_state =
  rs_rules :: "permission_rule list"
  rs_session_patterns :: "str list"

record permission_approval_result_record =
  rr_tool_call_id :: str
  rr_tool_name :: str
  rr_action :: str
  rr_session_approval_rule :: "str option"
  rr_result :: approval_response

definition apply_add_permission_rules :: "permission_rule list \<Rightarrow> permission_rules_state \<Rightarrow> permission_rules_state" where
  "apply_add_permission_rules added s = (if added \<noteq> [] then s\<lparr> rs_rules := rs_rules s @ added \<rparr> else s)"

definition apply_approval_result :: "permission_approval_result_record \<Rightarrow> permission_rules_state \<Rightarrow> permission_rules_state" where
  "apply_approval_result payload s =
     (case rr_session_approval_rule payload of
        None \<Rightarrow> s
      | Some pattern \<Rightarrow>
          if ar_decision (rr_result payload) \<noteq> Approved \<or> ar_scope (rr_result payload) \<noteq> Some Session
             \<or> pattern \<in> set (rs_session_patterns s)
          then s
          else s\<lparr> rs_session_patterns := rs_session_patterns s @ [pattern] \<rparr>)"

end
