(* ===== verification/PermissionGate.thy ===== *)
theory PermissionGate
  imports PermissionPolicy
begin

text \<open>
  The permission gate (\<open>agent/permission_gate/service.rs\<close>): the authorization of a tool call by the policies, the
  request for approval, the resolvers of a plan review and of a goal start, and what an approval
  leaves behind. What the outside answers (the user, the service that records results, the plan and mode services)
  is \<open>gate_answers\<close>. The published events and the telemetry of the gate are the log, without clock and trace.
  No policy of the repository gives execution metadata or a resolver of errors; the gate of the model has neither.
\<close>

section \<open>Data\<close>

datatype approval_outcome =
    NoApprovalService
  | AbortedByUser str
  | AbortedOtherwise str
  | RequestFailed str
  | Answered approval_response

record gate_answers =
  an_outcome :: approval_outcome
  an_record_error :: "str option"
  an_exit_ok :: bool
  an_set_mode_ok :: bool

datatype permission_gate_error = GateApproval str | GateRules str | GateAborted str

record tool_result =
  xr_output :: str
  xr_is_error :: bool
  xr_stop_turn :: "bool option"

record authorize_result =
  az_block :: "bool option"
  az_reason :: "str option"
  az_synthetic_result :: "tool_result option"

datatype plan_resolution_outcome = PlanApproved | PlanDismissed | PlanRejectedAndExited | PlanRevise | PlanRejected | PlanAutoApproved

datatype telemetry_approval_result = ApprovedForSession | TelemetryApproved | TelemetryRejected | TelemetryCancelled | TelemetryError

datatype gate_event =
    PolicyDecisionEvent str str permission_mode permission_policy_result
  | ApprovalRequested str
  | ApprovalResolved str approval_response
  | ApprovalResolvedError str str
  | ApprovalResultEvent str str permission_mode telemetry_approval_result bool bool
  | PlanResolvedEvent plan_resolution_outcome "str option" "bool option"

record gate_state =
  gs_agent_id :: str
  gs_mode :: permission_mode
  gs_rules :: permission_rules_state
  gs_plan :: "plan_data option"
  gs_log :: "gate_event list"

definition log_event :: "gate_event \<Rightarrow> gate_state \<Rightarrow> gate_state" where
  "log_event e s = s\<lparr> gs_log := gs_log s @ [e] \<rparr>"

text \<open>The services of the gate as a policy sees them; the plan of an active plan mode may be unreadable.\<close>

definition env_of :: "policy_env \<Rightarrow> gate_state \<Rightarrow> policy_env" where
  "env_of host s = host\<lparr> en_mode := gs_mode s, en_rules := rs_rules (gs_rules s), en_session_patterns := rs_session_patterns (gs_rules s),
     en_plan := (case gs_plan s of None \<Rightarrow> Inr None | Some p \<Rightarrow> (case en_plan host of Inl _ \<Rightarrow> Inl () | Inr _ \<Rightarrow> Inr (Some p))) \<rparr>"

section \<open>Messages\<close>

definition uses_worker_rejection_guidance :: "gate_state \<Rightarrow> bool" where
  "uses_worker_rejection_guidance s \<longleftrightarrow> gs_agent_id s \<noteq> lit ''main''"

definition worker_guidance :: str where
  "worker_guidance = lit '' Try a different approach '' @ [8212] @ lit '' don'' @ [39] @ lit ''t retry the same call, don'' @ [39] @ lit ''t attempt to bypass the restriction.''"

definition format_deny_message :: "gate_state \<Rightarrow> str \<Rightarrow> str" where
  "format_deny_message s message = (if uses_worker_rejection_guidance s then message @ worker_guidance else message)"

definition format_approval_rejection_message :: "gate_state \<Rightarrow> str \<Rightarrow> approval_response \<Rightarrow> str" where
  "format_approval_rejection_message s tool_name response =
     (let suffix = (case ar_feedback response of Some f \<Rightarrow> if f \<noteq> [] then lit '' Reason: '' @ f else [] | None \<Rightarrow> []);
          prefix = lit ''Tool '' @ [34] @ tool_name @ [34]
            @ (if ar_decision response = Cancelled then lit '' was not run because the approval request was cancelled.''
               else lit '' was not run because the user rejected the approval request.'')
      in if uses_worker_rejection_guidance s then prefix @ suffix @ worker_guidance else prefix @ suffix)"

fun telemetry_result_of :: "approval_decision \<Rightarrow> approval_scope option \<Rightarrow> telemetry_approval_result" where
  "telemetry_result_of Approved (Some Session) = ApprovedForSession"
| "telemetry_result_of Approved None = TelemetryApproved"
| "telemetry_result_of Rejected scope = TelemetryRejected"
| "telemetry_result_of Cancelled scope = TelemetryCancelled"

section \<open>Resolvers\<close>

definition tool_success :: "str \<Rightarrow> tool_result" where
  "tool_success output = \<lparr> xr_output = output, xr_is_error = False, xr_stop_turn = None \<rparr>"

definition tool_error :: "str \<Rightarrow> tool_result" where
  "tool_error output = \<lparr> xr_output = output, xr_is_error = True, xr_stop_turn = None \<rparr>"

definition prepared :: "tool_result \<Rightarrow> authorize_result" where
  "prepared result = \<lparr> az_block = None, az_reason = None, az_synthetic_result = Some result \<rparr>"

definition plan_exit :: "bool \<Rightarrow> gate_state \<Rightarrow> gate_state" where
  "plan_exit ok s = (if ok then s\<lparr> gs_plan := None \<rparr> else s)"

definition resolve_exit_plan :: "bool \<Rightarrow> approval_response \<Rightarrow> plan_review \<Rightarrow> gate_state \<Rightarrow> authorize_result \<times> gate_state" where
  "resolve_exit_plan exit_ok result display s =
     (if ar_decision result = Approved
      then
        (let selected = (case (rv_options display, ar_selected_label result) of
               (Some options, Some label) \<Rightarrow> find (\<lambda>option. po_label option = label) options
             | _ \<Rightarrow> None);
             s = log_event (PlanResolvedEvent PlanApproved
                   (case ar_selected_label result of Some l \<Rightarrow> if l \<noteq> [] then Some l else None | None \<Rightarrow> None) None) (plan_exit exit_ok s);
             prefix = (case selected of None \<Rightarrow> []
               | Some option \<Rightarrow> lit ''Selected approach: '' @ po_label option @ [10]
                   @ lit ''Execute ONLY the selected approach. Do not execute any unselected alternatives.'' @ [10, 10]);
             saved = (case rv_path display of None \<Rightarrow> [] | Some path \<Rightarrow> lit ''Plan saved to: '' @ path @ [10, 10])
         in (prepared (tool_success (lit ''Exited plan mode. '' @ prefix @ lit ''Plan mode deactivated. All tools are now available.'' @ [10]
               @ saved @ lit ''## Approved Plan:'' @ [10] @ rv_plan display)), s))
      else if ar_decision result = Cancelled
      then (prepared (tool_success (lit ''Plan approval dismissed. Plan mode remains active.'')), log_event (PlanResolvedEvent PlanDismissed None None) s)
      else if ar_selected_label result = Some (lit ''Reject and Exit'')
      then (prepared ((tool_error (lit ''Plan rejected by user. Plan mode deactivated.''))\<lparr> xr_stop_turn := Some True \<rparr>),
            log_event (PlanResolvedEvent PlanRejectedAndExited None None) (plan_exit exit_ok s))
      else
        (let feedback = (case ar_feedback result of Some f \<Rightarrow> f | None \<Rightarrow> []) in
         if ar_selected_label result = Some (lit ''Revise'') \<or> feedback \<noteq> []
         then (prepared (tool_success (if feedback = [] then lit ''User requested revisions. Plan mode remains active.''
                 else lit ''User rejected the plan. Feedback:'' @ [10, 10] @ feedback)),
               log_event (PlanResolvedEvent PlanRevise None (Some (feedback \<noteq> []))) s)
         else (prepared ((tool_error (lit ''Plan rejected by user. Plan mode remains active.''))\<lparr> xr_stop_turn := Some True \<rparr>),
               log_event (PlanResolvedEvent PlanRejected None None) s)))"

definition to_permission_mode :: "str option \<Rightarrow> permission_mode option" where
  "to_permission_mode label =
     (if label = Some (lit ''auto'') then Some Auto
      else if label = Some (lit ''yolo'') then Some Yolo
      else if label = Some (lit ''manual'') then Some Manual else None)"

definition resolve_goal_start :: "bool \<Rightarrow> approval_response \<Rightarrow> gate_state \<Rightarrow> gate_state" where
  "resolve_goal_start set_mode_ok result s =
     (case to_permission_mode (ar_selected_label result) of
        Some next_mode \<Rightarrow>
          if ar_decision result = Approved \<and> next_mode \<noteq> gs_mode s \<and> set_mode_ok then s\<lparr> gs_mode := next_mode \<rparr> else s
      | None \<Rightarrow> s)"

definition run_resolver ::
  "gate_answers \<Rightarrow> approval_resolver option \<Rightarrow> approval_response \<Rightarrow> gate_state \<Rightarrow> authorize_result option \<times> gate_state" where
  "run_resolver answers resolver response s =
     (case resolver of
        None \<Rightarrow> (None, s)
      | Some (ResolveExitPlan display) \<Rightarrow> (let (r, s) = resolve_exit_plan (an_exit_ok answers) response display s in (Some r, s))
      | Some ResolveGoalStart \<Rightarrow> (None, resolve_goal_start (an_set_mode_ok answers) response s))"

section \<open>Authorization\<close>

definition publish_approval_error :: "tool_context \<Rightarrow> str \<Rightarrow> str \<Rightarrow> gate_state \<Rightarrow> gate_state" where
  "publish_approval_error context name error s =
     log_event (ApprovalResolvedError (tx_call_id context) error)
       (log_event (ApprovalResultEvent (tx_call_id context) name (gs_mode s) TelemetryError False False) s)"

definition approval_entry :: "tool_context \<Rightarrow> approval_response \<Rightarrow> permission_approval_result_record" where
  "approval_entry context response =
     \<lparr> rr_tool_call_id = tx_call_id context, rr_tool_name = tx_name context,
       rr_action = (case tx_description context of Some d \<Rightarrow> d | None \<Rightarrow> lit ''Approve '' @ tx_name context),
       rr_session_approval_rule =
         (if ar_decision response = Approved \<and> ar_scope response = Some Session then Some (tx_approval_rule context) else None),
       rr_result = response \<rparr>"

definition record_approval :: "tool_context \<Rightarrow> str \<Rightarrow> approval_response \<Rightarrow> gate_state \<Rightarrow> gate_state" where
  "record_approval context policy response s =
     (let entry = approval_entry context response in
      log_event (ApprovalResultEvent (tx_call_id context) policy (gs_mode s)
          (telemetry_result_of (ar_decision response) (ar_scope response)) (rr_session_approval_rule entry \<noteq> None)
          (case ar_feedback response of Some f \<Rightarrow> f \<noteq> [] | None \<Rightarrow> False))
        (s\<lparr> gs_rules := apply_approval_result entry (gs_rules s) \<rparr>))"

definition finish_approval ::
  "tool_context \<Rightarrow> approval_resolver option \<Rightarrow> str \<Rightarrow> gate_answers \<Rightarrow> approval_response \<Rightarrow> gate_state
   \<Rightarrow> (permission_gate_error + authorize_result option) \<times> gate_state" where
  "finish_approval context resolver policy answers response s =
     (let s = (if an_outcome answers \<noteq> NoApprovalService then log_event (ApprovalResolved (tx_call_id context) response) s else s) in
      case an_record_error answers of
        Some e \<Rightarrow> (Inl (GateRules e), s)
      | None \<Rightarrow>
          (case run_resolver answers resolver response (record_approval context policy response s) of
             (Some r, s) \<Rightarrow> (Inr (Some r), s)
           | (None, s) \<Rightarrow>
               if ar_decision response = Approved then (Inr None, s)
               else (Inr (Some \<lparr> az_block = Some True, az_reason = Some (format_approval_rejection_message s (tx_name context) response),
                       az_synthetic_result = None \<rparr>), s)))"

definition request_tool_approval ::
  "tool_context \<Rightarrow> approval_resolver option \<Rightarrow> str \<Rightarrow> gate_answers \<Rightarrow> gate_state
   \<Rightarrow> (permission_gate_error + authorize_result option) \<times> gate_state" where
  "request_tool_approval context resolver policy answers s =
     (let asked = log_event (ApprovalRequested (tx_call_id context)) s in
      case an_outcome answers of
        NoApprovalService \<Rightarrow>
          finish_approval context resolver policy answers
            \<lparr> ar_decision = Approved, ar_scope = None, ar_feedback = None, ar_selected_label = None \<rparr> s
      | AbortedByUser e \<Rightarrow> (Inl (GateAborted e), asked)
      | AbortedOtherwise e \<Rightarrow> (Inl (GateAborted e), publish_approval_error context policy e asked)
      | RequestFailed e \<Rightarrow> (Inl (GateApproval e), publish_approval_error context policy e asked)
      | Answered response \<Rightarrow> finish_approval context resolver policy answers response asked)"

definition resolve_policy_result ::
  "permission_policy_result \<Rightarrow> tool_context \<Rightarrow> str \<Rightarrow> gate_answers \<Rightarrow> gate_state
   \<Rightarrow> (permission_gate_error + authorize_result option) \<times> gate_state" where
  "resolve_policy_result result context policy answers s =
     (case result of
        Approve _ \<Rightarrow> (Inr None, s)
      | Deny _ message \<Rightarrow>
          (Inr (Some \<lparr> az_block = Some True,
             az_reason = Some (format_deny_message s (case message of Some m \<Rightarrow> m
               | None \<Rightarrow> lit ''Tool '' @ [34] @ tx_name context @ [34] @ lit '' was denied by permission policy.'')),
             az_synthetic_result = None \<rparr>), s)
      | Ask _ resolver \<Rightarrow> request_tool_approval context resolver policy answers s)"

definition authorize ::
  "(nat \<Rightarrow> str) \<Rightarrow> globset \<Rightarrow> policy_env \<Rightarrow> permission_policy_service \<Rightarrow> tool_context \<Rightarrow> gate_answers \<Rightarrow> gate_state
   \<Rightarrow> (permission_gate_error + authorize_result option) \<times> gate_state" where
  "authorize lower globset host service context answers s =
     (case policy_service_evaluate lower globset (env_of host s) context service of
        None \<Rightarrow> (Inr None, s)
      | Some (policy, result) \<Rightarrow>
          resolve_policy_result result context policy answers (log_event (PolicyDecisionEvent (tx_call_id context) policy (gs_mode s) result) s))"

text \<open>The hook before the execution of a tool: the tool runs unless the authorization failed, blocks or gives a result of its own.\<close>

definition call_runs :: "permission_gate_error + authorize_result option \<Rightarrow> bool" where
  "call_runs r \<longleftrightarrow>
     (case r of
        Inl _ \<Rightarrow> False
      | Inr None \<Rightarrow> True
      | Inr (Some result) \<Rightarrow> \<not> (az_block result = Some True \<or> az_synthetic_result result \<noteq> None))"

end
