(* ===== verification/PermissionSafety.thy ===== *)
theory PermissionSafety
  imports PermissionGate
begin

text \<open>
  What the policies and the gate guarantee together: a denial by the user or by plan mode cannot be overruled, a call that
  runs without being asked for is covered by the mode, a rule or the workspace, and a session rule exists
  only for a call the user approved for the session.
\<close>

section \<open>The chain\<close>

lemma lit_eq [simp]: "lit s = lit t \<longleftrightarrow> s = t"
proof -
  have "inj (of_char :: char \<Rightarrow> nat)" by (auto intro: injI)
  then show ?thesis by (simp add: lit_def inj_map_eq_map)
qed

text \<open>The services of the agent: the chain in its order, and a dynamic policy only denies.\<close>

definition standard_service :: "permission_policy_service \<Rightarrow> bool" where
  "standard_service service \<longleftrightarrow> ps_policies service = ps_policies from_dependencies
     \<and> list_all (\<lambda>(_, policy). \<exists>message. policy = DenyAll message) (ps_dynamic_policies service)"

lemma standard_new: "standard_service from_dependencies"
  by (simp add: standard_service_def from_dependencies_def)

lemma standard_register: "standard_service service \<Longrightarrow> standard_service (snd (register_policy (DenyAll message) service))"
  by (simp add: standard_service_def register_policy_def)

lemma standard_dispose: "standard_service service \<Longrightarrow> standard_service (dispose_policy handle service)"
  by (auto simp: standard_service_def dispose_policy_def list_all_iff)

lemma first_result_append: "first_result f (as @ bs) = (case first_result f as of Some r \<Rightarrow> Some r | None \<Rightarrow> first_result f bs)"
  by (induction as) (auto split: option.splits)

lemma first_result_None: "first_result f ps = None \<longleftrightarrow> (\<forall>p\<in>set ps. f p = None)"
  by (induction ps) (auto split: option.splits)

lemma first_result_Some: "first_result f ps = Some (n, r) \<Longrightarrow> \<exists>p\<in>set ps. f p = Some r"
  by (induction ps) (auto split: option.splits)

definition deny_policies :: "permission_policy list" where
  "deny_policies = [AgentSwarmExclusiveDeny, AutoModeAskUserQuestionDeny, PlanModeGuardDeny, UserConfiguredDeny]"

definition later_policies :: "permission_policy list" where
  "later_policies =
     [AutoModeApprove, SessionApprovalHistory, UserConfiguredAsk, UserConfiguredAllow, ExitPlanModeReviewAsk, GoalStartReviewAsk,
      PlanModeToolApprove, SensitiveFileAccessAsk, GitControlPathAccessAsk, YoloModeApprove, SwarmModeAgentSwarmApprove, DefaultToolApprove,
      GitCwdWriteApprove, FallbackAsk]"

lemma deny_policies_deny:
  "p \<in> set deny_policies \<or> (\<exists>message. p = DenyAll message) \<Longrightarrow> evaluate_policy lower globset env context p = Some r \<Longrightarrow> \<exists>reason message. r = Deny reason message"
  by (auto simp: deny_policies_def agent_swarm_exclusive_denial_def auto_mode_ask_user_question_result_def plan_mode_guard_denial_def evaluate_user_configured_rule_def Let_def
      split: if_splits option.splits sum.splits)

text \<open>The policies that deny stand before all others.\<close>

lemma service_policies:
  assumes "standard_service service"
  obtains ds where "\<forall>p\<in>set ds. \<exists>message. p = DenyAll message"
    "map snd (ps_dynamic_policies service) @ ps_policies service = (ds @ deny_policies) @ later_policies"
proof
  show "\<forall>p\<in>set (map snd (ps_dynamic_policies service)). \<exists>message. p = DenyAll message"
    using assms by (force simp: standard_service_def list_all_iff)
qed (use assms in \<open>simp add: standard_service_def from_dependencies_def deny_policies_def later_policies_def\<close>)

lemma denied_first:
  assumes "standard_service service" "p \<in> set deny_policies" "evaluate_policy lower globset env context p \<noteq> None"
  shows "\<exists>n reason message. policy_service_evaluate lower globset env context service = Some (n, Deny reason message)"
proof -
  let ?f = "evaluate_policy lower globset env context"
  obtain ds where ds: "\<forall>p\<in>set ds. \<exists>message. p = DenyAll message"
      "map snd (ps_dynamic_policies service) @ ps_policies service = (ds @ deny_policies) @ later_policies"
    using service_policies [OF assms(1)] .
  have "first_result ?f (ds @ deny_policies) \<noteq> None" using assms(2,3) by (subst first_result_None) auto
  then obtain n r where nr: "first_result ?f (ds @ deny_policies) = Some (n, r)" by auto
  then obtain q where q: "q \<in> set (ds @ deny_policies)" "?f q = Some r" using first_result_Some by blast
  then have "\<exists>reason message. r = Deny reason message" using ds(1) by (intro deny_policies_deny [OF _ q(2)]) auto
  then show ?thesis using nr unfolding policy_service_evaluate_def ds(2) first_result_append by auto
qed

text \<open>What an approval by the policies rests on.\<close>

lemma user_rule_kind:
  "evaluate_user_configured_rule lower globset context RuleAsk rules \<noteq> Some (Approve r)"
  "exit_plan_mode_review_ask env context \<noteq> Some (Approve r)" "goal_start_review_ask mode context \<noteq> Some (Approve r)"
  "sensitive_file_access_ask context \<noteq> Some (Approve r)" "git_control_path_access_ask fm context cls cwd \<noteq> Some (Approve r)"
  by (auto simp: evaluate_user_configured_rule_def exit_plan_mode_review_ask_def goal_start_review_ask_def sensitive_file_access_ask_def
      git_control_path_access_ask_def Let_def split: if_splits option.splits sum.splits tool_input_display.splits)

lemma approved_because:
  assumes "standard_service service" "policy_service_evaluate lower globset env context service = Some (n, Approve r)"
  shows "(\<forall>p\<in>set deny_policies. evaluate_policy lower globset env context p = None)
    \<and> (en_mode env = Auto \<or> session_approval_history lower globset context (en_session_patterns env) \<noteq> None
       \<or> evaluate_user_configured_rule lower globset context RuleAllow (en_rules env) \<noteq> None
       \<or> plan_mode_tool_approve env context \<noteq> None
       \<or> sensitive_file_access_ask context = None \<and> evaluate_policy lower globset env context GitControlPathAccessAsk = None
         \<and> (\<exists>p\<in>{YoloModeApprove, SwarmModeAgentSwarmApprove, DefaultToolApprove, GitCwdWriteApprove}. evaluate_policy lower globset env context p \<noteq> None))"
proof -
  let ?f = "evaluate_policy lower globset env context"
  obtain ds where ds: "\<forall>p\<in>set ds. \<exists>message. p = DenyAll message"
      "map snd (ps_dynamic_policies service) @ ps_policies service = (ds @ deny_policies) @ later_policies"
    using service_policies [OF assms(1)] .
  have "first_result ?f (ds @ deny_policies) = None"
  proof (rule ccontr)
    assume "first_result ?f (ds @ deny_policies) \<noteq> None"
    then obtain m q where mq: "first_result ?f (ds @ deny_policies) = Some (m, q)" by auto
    then obtain p where p: "p \<in> set (ds @ deny_policies)" "?f p = Some q" using first_result_Some by blast
    have "q = Approve r" using assms(2) mq unfolding policy_service_evaluate_def ds(2) first_result_append by simp
    moreover have "\<exists>reason message. q = Deny reason message" using ds(1) p(1) by (intro deny_policies_deny [OF _ p(2)]) auto
    ultimately show False by auto
  qed
  then have "\<forall>p\<in>set deny_policies. ?f p = None" and later: "first_result ?f later_policies = Some (n, Approve r)"
    using assms(2) unfolding policy_service_evaluate_def ds(2) by (auto simp: first_result_append first_result_None split: option.splits)
  moreover have "?f GitControlPathAccessAsk \<noteq> Some (Approve r)" using user_rule_kind(5) by (auto split: sum.splits)
  ultimately show ?thesis
    using later user_rule_kind(1) [of lower globset "context" "en_rules env" r] user_rule_kind(2) [of env "context" r]
      user_rule_kind(3) [of "en_mode env" "context" r] user_rule_kind(4) [of "context" r]
    unfolding later_policies_def first_result.simps
    by (auto simp: auto_mode_result_def simp del: evaluate_policy.simps(13-17) split: option.splits if_splits)
qed

lemma always_decided:
  assumes "standard_service service"
  shows "\<exists>n r. policy_service_evaluate lower globset env context service = Some (n, r)"
proof -
  obtain ds where ds: "map snd (ps_dynamic_policies service) @ ps_policies service = (ds @ deny_policies) @ later_policies"
    using service_policies [OF assms] by metis
  have "FallbackAsk \<in> set later_policies" by (simp add: later_policies_def)
  then have "first_result (evaluate_policy lower globset env context) later_policies \<noteq> None" by (subst first_result_None) force
  then show ?thesis unfolding policy_service_evaluate_def ds by (auto simp: first_result_append split: option.splits)
qed

section \<open>The gate\<close>

definition would_reject :: "gate_answers \<Rightarrow> bool" where
  "would_reject answers \<longleftrightarrow> (case an_outcome answers of
     NoApprovalService \<Rightarrow> False | Answered response \<Rightarrow> ar_decision response \<noteq> Approved | _ \<Rightarrow> True)"

lemma finish_rejected: "ar_decision response \<noteq> Approved \<Longrightarrow> \<not> call_runs (fst (finish_approval context resolver policy answers response s))"
  by (auto simp: finish_approval_def Let_def call_runs_def run_resolver_def resolve_exit_plan_def prepared_def
      split: option.splits approval_resolver.splits prod.splits if_splits)

lemma rejected_not_run: "would_reject answers \<Longrightarrow> \<not> call_runs (fst (request_tool_approval context resolver policy answers s))"
  using finish_rejected by (auto simp: would_reject_def request_tool_approval_def Let_def call_runs_def split: approval_outcome.splits)

lemma denied_not_run:
  assumes "policy_service_evaluate lower globset (env_of host s) context service = Some (n, Deny reason message)"
  shows "\<exists>message s'. authorize lower globset host service context answers s
    = (Inr (Some \<lparr> az_block = Some True, az_reason = Some message, az_synthetic_result = None \<rparr>), s')
    \<and> gs_mode s' = gs_mode s \<and> gs_rules s' = gs_rules s \<and> gs_plan s' = gs_plan s"
  using assms by (simp add: authorize_def resolve_policy_result_def log_event_def)

lemma run_without_approval:
  assumes "standard_service service" "would_reject answers" "call_runs (fst (authorize lower globset host service context answers s))"
  shows "\<exists>n r. policy_service_evaluate lower globset (env_of host s) context service = Some (n, Approve r)"
proof -
  obtain n r where e: "policy_service_evaluate lower globset (env_of host s) context service = Some (n, r)"
    using always_decided [OF assms(1)] by blast
  then show ?thesis using assms(2,3) rejected_not_run
    by (cases r) (auto simp: authorize_def resolve_policy_result_def call_runs_def)
qed

section \<open>Denials\<close>


text \<open>
  C26. While a plan is active and can be read, a file tool that writes anything but the plan file is blocked, in every mode and
  under every rule; so are the tools that stop tasks or change scheduled work.
\<close>

theorem plan_mode_confines:
  assumes "standard_service service" and "gs_plan s = Some plan" and "en_plan host = Inr status"
    and "tx_name context \<in> {lit ''TaskStop'', lit ''CronCreate'', lit ''CronDelete''}
      \<or> tx_name context \<in> {lit ''Write'', lit ''Edit''} \<and> \<not> writes_only_plan_file (en_default_class host) context (pd_path plan)"
  shows "\<exists>message s'. authorize lower globset host service context answers s
    = (Inr (Some \<lparr> az_block = Some True, az_reason = Some message, az_synthetic_result = None \<rparr>), s')
    \<and> gs_mode s' = gs_mode s \<and> gs_rules s' = gs_rules s \<and> gs_plan s' = gs_plan s"
proof -
  have "evaluate_policy lower globset (env_of host s) context PlanModeGuardDeny \<noteq> None"
    using assms(2-4) by (auto simp: env_of_def plan_mode_guard_denial_def)
  then show ?thesis using denied_first [OF assms(1), of PlanModeGuardDeny] denied_not_run by (fastforce simp: deny_policies_def)
qed

section \<open>Approvals\<close>

lemma plan_approves:
  assumes "plan_mode_tool_approve (env_of host s) context \<noteq> None"
  shows "tx_name context \<in> {lit ''EnterPlanMode'', lit ''ExitPlanMode''}
    \<or> tx_name context \<in> {lit ''Write'', lit ''Edit''} \<and> (\<exists>plan. gs_plan s = Some plan \<and> writes_only_plan_file (en_default_class host) context (pd_path plan))"
  using assms by (auto simp: plan_mode_tool_approve_def plan_mode_tool_approval_def env_of_def split: if_splits option.splits sum.splits)

text \<open>
  C25. Outside auto mode a call that touches a sensitive file does not run without the approval of the user, unless the user has
  approved such calls before, for the session or by a rule, or the call enters or leaves plan mode or writes
  the plan file; yolo mode does not change that.
\<close>

theorem sensitive_asks:
  assumes "standard_service service" and "gs_mode s \<noteq> Auto"
    and "list_ex (\<lambda>access. is_sensitive_file (fa_path access)) (file_accesses context)"
    and "would_reject answers" and "call_runs (fst (authorize lower globset host service context answers s))"
  shows "session_approval_history lower globset context (rs_session_patterns (gs_rules s)) \<noteq> None
    \<or> evaluate_user_configured_rule lower globset context RuleAllow (rs_rules (gs_rules s)) \<noteq> None
    \<or> tx_name context \<in> {lit ''EnterPlanMode'', lit ''ExitPlanMode''}
    \<or> (\<exists>plan. gs_plan s = Some plan \<and> writes_only_plan_file (en_default_class host) context (pd_path plan))"
proof -
  obtain n r where e: "policy_service_evaluate lower globset (env_of host s) context service = Some (n, Approve r)"
    using run_without_approval [OF assms(1,4,5)] by blast
  have "sensitive_file_access_ask context \<noteq> None" using assms(3) by (simp add: sensitive_file_access_ask_def)
  then show ?thesis using approved_because [OF assms(1) e] assms(2) plan_approves [of host s "context"] by (auto simp: env_of_def)
qed

text \<open>
  C11. In manual mode a file is written or edited without the approval of the user only when the user approved such calls before, or it
  is the plan file, or the host is a POSIX one, the working directory is in a Git work tree, and every file the call
  writes is in the workspace, not sensitive, and not part of the Git control directory.
\<close>

theorem manual_write_confined:
  assumes "standard_service service" and "gs_mode s = Manual" and "tx_name context \<in> {lit ''Write'', lit ''Edit''}"
    and "would_reject answers" and "call_runs (fst (authorize lower globset host service context answers s))"
  shows "session_approval_history lower globset context (rs_session_patterns (gs_rules s)) \<noteq> None
    \<or> evaluate_user_configured_rule lower globset context RuleAllow (rs_rules (gs_rules s)) \<noteq> None
    \<or> (\<exists>plan. gs_plan s = Some plan \<and> writes_only_plan_file (en_default_class host) context (pd_path plan))
    \<or> en_path_class host = Inr Posix \<and> (\<exists>marker. en_git_marker host (en_work_dir host) = Some marker
        \<and> list_all (\<lambda>access. is_within_workspace (fa_path access) \<lparr> workspace_dir = en_work_dir host, additional_dirs = en_additional_dirs host \<rparr> Posix
             \<and> \<not> is_sensitive_file (fa_path access) \<and> \<not> has_git_path_component (fa_path access) (en_work_dir host) Posix
             \<and> \<not> is_git_control_path (fa_path access) marker Posix) (write_file_accesses context))"
proof -
  let ?env = "env_of host s"
  obtain n r where e: "policy_service_evaluate lower globset ?env context service = Some (n, Approve r)"
    using run_without_approval [OF assms(1,4,5)] by blast
  have not_default: "\<not> is_default_approve_tool (tx_name context)" "tx_name context \<noteq> lit ''AgentSwarm''"
      "tx_name context \<notin> {lit ''EnterPlanMode'', lit ''ExitPlanMode''}"
    using assms(3) by (auto simp: is_default_approve_tool_def DEFAULT_APPROVE_TOOLS_def lit_def)
  consider "session_approval_history lower globset context (rs_session_patterns (gs_rules s)) \<noteq> None
      \<or> evaluate_user_configured_rule lower globset context RuleAllow (rs_rules (gs_rules s)) \<noteq> None"
    | "plan_mode_tool_approve ?env context \<noteq> None"
    | (cwd) "sensitive_file_access_ask context = None" "evaluate_policy lower globset ?env context GitControlPathAccessAsk = None"
        "evaluate_policy lower globset ?env context GitCwdWriteApprove \<noteq> None"
    using approved_because [OF assms(1) e] assms(2) not_default(1,2)
    by (auto simp: env_of_def yolo_mode_result_def swarm_mode_agent_swarm_approve_def)
  then show ?thesis
  proof cases
    case 2
    then show ?thesis using plan_approves not_default(3) by blast
  next
    case cwd
    have files: "set (write_file_accesses context) \<subseteq> set (file_accesses context)" by (auto simp: write_file_accesses_def)
    have g: "en_path_class host = Inr Posix" "en_work_dir host \<noteq> []" "write_file_accesses context \<noteq> []"
        "list_all (\<lambda>access. is_within_workspace (fa_path access) \<lparr> workspace_dir = en_work_dir host, additional_dirs = en_additional_dirs host \<rparr> Posix)
           (write_file_accesses context)" "\<exists>marker. en_git_marker host (en_work_dir host) = Some marker"
      using cwd(3) by (auto simp: env_of_def evaluate_git_cwd_write_def Let_def split: sum.splits if_splits)
    then obtain marker where m: "en_git_marker host (en_work_dir host) = Some marker" by blast
    have "git_control_path_access_ask (en_git_marker host) context Posix (en_work_dir host) = None" using cwd(2) g(1) by (simp add: env_of_def)
    then have "list_all (\<lambda>access. \<not> has_git_path_component (fa_path access) (en_work_dir host) Posix \<and> \<not> is_git_control_path (fa_path access) marker Posix)
        (file_accesses context)"
      using g(2) m by (auto simp: git_control_path_access_ask_def Let_def list_ex_iff list_all_iff split: if_splits)
    moreover have "list_all (\<lambda>access. \<not> is_sensitive_file (fa_path access)) (file_accesses context)"
      using cwd(1) by (auto simp: sensitive_file_access_ask_def list_ex_iff list_all_iff split: if_splits)
    ultimately show ?thesis using g(1,4) m files by (auto simp: list_all_iff)
  qed blast
qed

section \<open>Examples\<close>

definition sample_host :: policy_env where
  "sample_host = \<lparr> en_mode = Manual, en_rules = [], en_session_patterns = [], en_plan = Inr None, en_swarm_active = False,
     en_path_class = Inr Posix, en_work_dir = [47, 119], en_additional_dirs = [],
     en_git_marker = (\<lambda>_. Some \<lparr> gm_dot_git_path = [47, 119, 47, 46, 103], gm_control_dir_path = [47, 119, 47, 46, 103] \<rparr>), en_default_class = Posix \<rparr>"

definition sample_gate :: "permission_rule list \<Rightarrow> plan_data option \<Rightarrow> gate_state" where
  "sample_gate rules plan = \<lparr> gs_agent_id = lit ''main'', gs_mode = Manual, gs_rules = \<lparr> rs_rules = rules, rs_session_patterns = [] \<rparr>, gs_plan = plan, gs_log = [] \<rparr>"

definition sample_tool :: "str \<Rightarrow> tool_accesses option \<Rightarrow> str \<Rightarrow> tool_context" where
  "sample_tool name accesses subject = \<lparr> tx_name = name, tx_call_id = [49], tx_tool_calls = [name], tx_accesses = accesses, tx_display = None,
     tx_description = None, tx_approval_rule = literal_rule_pattern name subject,
     tx_matcher = Some (\<lambda>args. matches_glob_rule_subject (\<lambda>c. [c]) literal_globset args subject) \<rparr>"

definition sample_write :: "str \<Rightarrow> tool_context" where
  "sample_write path = sample_tool (lit ''Write'') (Some [AccessFile \<lparr> fa_operation = OpWrite, fa_path = path, fa_recursive = False \<rparr>]) path"

definition sample_answers :: "approval_decision \<Rightarrow> gate_answers" where
  "sample_answers decision = \<lparr> an_outcome = Answered \<lparr> ar_decision = decision, ar_scope = Some Session, ar_feedback = None, ar_selected_label = None \<rparr>,
     an_record_error = None, an_exit_ok = True, an_set_mode_ok = True \<rparr>"

lemmas sample_gate_defs = sample_host_def sample_gate_def sample_tool_def sample_write_def sample_answers_def

lemmas chain_defs = policy_service_evaluate_def from_dependencies_def env_of_def agent_swarm_exclusive_denial_def
  auto_mode_ask_user_question_result_def plan_mode_guard_denial_def evaluate_user_configured_rule_def auto_mode_result_def
  exit_plan_mode_review_ask_def goal_start_review_ask_def plan_mode_tool_approve_def plan_mode_tool_approval_def
  sensitive_file_access_ask_def yolo_mode_result_def swarm_mode_agent_swarm_approve_def is_default_approve_tool_def
  DEFAULT_APPROVE_TOOLS_def evaluate_git_cwd_write_def git_control_path_access_ask_def

definition sample_rule :: "permission_rule_decision \<Rightarrow> permission_rule" where
  "sample_rule decision = \<lparr> pr_decision = decision, pr_scope = UserScope, pr_pattern = [66], pr_reason = None \<rparr>"

lemma sample_rule_matches: "match_permission_rule (\<lambda>c. [c]) literal_globset (sample_rule decision) [66] m = Some \<lparr> prm_rule = sample_rule decision, prm_strategy = ToolNameOnly, prm_has_rule_args = False \<rparr>"
  by (simp add: match_permission_rule_def sample_rule_def parse_pattern_def trim_def is_space_def glob_match_def glob_match_once_def
      opens_extglob_def literal_globset_def dot_segments_are_explicit_def)

lemma standard_sample: "standard_service from_dependencies" "would_reject (sample_answers Rejected)"
  by (simp_all add: standard_new would_reject_def sample_answers_def)


theorem plan_mode_confines_witness:
  "\<not> call_runs (fst (authorize (\<lambda>c. [c]) literal_globset sample_host from_dependencies (sample_write [47, 119, 47, 97]) (sample_answers Approved)
       (sample_gate [] (Some \<lparr> pd_id = [112], pd_content = [], pd_path = [47, 112] \<rparr>))))"
proof -
  let ?plan = "\<lparr> pd_id = [112], pd_content = [], pd_path = [47, 112] \<rparr>"
  have "\<not> writes_only_plan_file (en_default_class sample_host) (sample_write [47, 119, 47, 97]) (pd_path ?plan)"
    by (simp add: sample_gate_defs writes_only_plan_file_def write_file_accesses_def file_accesses_def map_filter_simps paths_equal_def lit_def
        canonicalize_path_def normalize_user_path_def is_absolute_def slashed_def normalize_lexical_def lexical_prefix_def strip_prefix_def push_component_def)
  then have "tx_name (sample_write [47, 119, 47, 97]) \<in> {lit ''TaskStop'', lit ''CronCreate'', lit ''CronDelete''}
      \<or> tx_name (sample_write [47, 119, 47, 97]) \<in> {lit ''Write'', lit ''Edit''}
        \<and> \<not> writes_only_plan_file (en_default_class sample_host) (sample_write [47, 119, 47, 97]) (pd_path ?plan)"
    by (simp add: sample_write_def sample_tool_def)
  moreover have "gs_plan (sample_gate [] (Some ?plan)) = Some ?plan" "en_plan sample_host = Inr None" by (simp_all add: sample_gate_def sample_host_def)
  ultimately show ?thesis
    using plan_mode_confines [OF standard_sample(1), of "sample_gate [] (Some ?plan)" ?plan sample_host None "sample_write [47, 119, 47, 97]"
        "\<lambda>c. [c]" literal_globset "sample_answers Approved"] by (auto simp: call_runs_def)
qed

lemma env_is_sensitive: "is_sensitive_file [46, 101, 110, 118]"
  by (simp add: is_sensitive_file_def slashed_def ascii_lower_def ENV_EXEMPTIONS_def PUBLIC_KEYS_def SENSITIVE_BASENAMES_def lit_def)

theorem sensitive_asks_witness:
  "evaluate_user_configured_rule (\<lambda>c. [c]) literal_globset
     (sample_tool [66] (Some [AccessFile \<lparr> fa_operation = OpRead, fa_path = [46, 101, 110, 118], fa_recursive = False \<rparr>]) [120]) RuleAllow [sample_rule RuleAllow] \<noteq> None"
proof -
  let ?c = "sample_tool [66] (Some [AccessFile \<lparr> fa_operation = OpRead, fa_path = [46, 101, 110, 118], fa_recursive = False \<rparr>]) [120]"
  let ?s = "sample_gate [sample_rule RuleAllow] None"
  have "policy_service_evaluate (\<lambda>c. [c]) literal_globset (env_of sample_host ?s) ?c from_dependencies = Some (lit ''user-configured-allow'', Approve None)"
    by (simp add: sample_gate_defs chain_defs sample_rule_matches) (simp add: sample_rule_def is_user_configured_scope_def lit_def)
  then have "call_runs (fst (authorize (\<lambda>c. [c]) literal_globset sample_host from_dependencies ?c (sample_answers Rejected) ?s))"
    by (simp add: authorize_def resolve_policy_result_def call_runs_def)
  moreover have "list_ex (\<lambda>access. is_sensitive_file (fa_path access)) (file_accesses ?c)"
    using env_is_sensitive by (simp add: sample_tool_def file_accesses_def map_filter_simps)
  ultimately show ?thesis
    using sensitive_asks [OF standard_sample(1) _ _ standard_sample(2), of ?s ?c "\<lambda>c. [c]" literal_globset sample_host]
    by (auto simp: sample_gate_def) (simp_all add: sample_tool_def lit_def)
qed

lemmas path_defs = is_within_workspace_def is_within_directory_def trim_end_matches_def normalize_lexical_def lexical_prefix_def slashed_def
  strip_prefix_def push_component_def is_sensitive_file_def ENV_EXEMPTIONS_def PUBLIC_KEYS_def SENSITIVE_BASENAMES_def SENSITIVE_PREFIXES_def
  sensitive_variant_def ascii_lower_def contains_str_def suffix_to_prefix

lemma sample_write_path:
  "\<not> is_sensitive_file [47, 119, 47, 97]" "is_within_workspace [47, 119, 47, 97] \<lparr> workspace_dir = [47, 119], additional_dirs = [] \<rparr> Posix"
  "\<not> has_git_path_component [47, 119, 47, 97] [47, 119] Posix"
  "\<not> is_git_control_path [47, 119, 47, 97] \<lparr> gm_dot_git_path = [47, 119, 47, 46, 103], gm_control_dir_path = [47, 119, 47, 46, 103] \<rparr> Posix"
  by (simp_all add: path_defs has_git_path_component_def relative_path_parts_def is_git_control_path_def lit_def)

theorem manual_write_confined_witness:
  "call_runs (fst (authorize (\<lambda>c. [c]) literal_globset sample_host from_dependencies (sample_write [47, 119, 47, 97]) (sample_answers Rejected) (sample_gate [] None)))
   \<and> list_all (\<lambda>access. \<not> is_sensitive_file (fa_path access)) (write_file_accesses (sample_write [47, 119, 47, 97]))"
proof -
  let ?c = "sample_write [47, 119, 47, 97]" and ?s = "sample_gate [] None"
  have files: "file_accesses ?c = [\<lparr> fa_operation = OpWrite, fa_path = [47, 119, 47, 97], fa_recursive = False \<rparr>]"
    by (simp add: sample_gate_defs file_accesses_def map_filter_simps)
  have name: "tx_name ?c = lit ''Write''" "tx_tool_calls ?c = [lit ''Write'']" "tx_display ?c = None" by (simp_all add: sample_gate_defs)
  have "policy_service_evaluate (\<lambda>c. [c]) literal_globset (env_of sample_host ?s) ?c from_dependencies = Some (lit ''git-cwd-write-approve'', Approve None)"
    by (simp add: name files sample_host_def sample_gate_def chain_defs write_file_accesses_def sample_write_path)
  then have runs: "call_runs (fst (authorize (\<lambda>c. [c]) literal_globset sample_host from_dependencies ?c (sample_answers Rejected) ?s))"
    by (simp add: authorize_def resolve_policy_result_def call_runs_def)
  then show ?thesis
    using manual_write_confined [OF standard_sample(1) _ _ standard_sample(2) runs]
    by (auto simp: name sample_gate_def evaluate_user_configured_rule_def list_all_iff)
qed

end
