(* ===== verification/PermissionSession.thy ===== *)
theory PermissionSession
  imports PermissionSafety
begin

text \<open>
  Approvals for the session: what a state of the gate remembers of the answers of the user, the calls a remembered approval covers, and
  examples of the gate.
\<close>

section \<open>What an approval leaves\<close>

lemma approval_patterns:
  "rs_session_patterns (apply_approval_result payload r)
   = (case rr_session_approval_rule payload of
        Some pattern \<Rightarrow> if ar_decision (rr_result payload) = Approved \<and> ar_scope (rr_result payload) = Some Session
          then iset_insert pattern (rs_session_patterns r) else rs_session_patterns r
      | None \<Rightarrow> rs_session_patterns r)"
  by (auto simp: apply_approval_result_def iset_insert_def split: option.splits)

lemma resolver_rules: "run_resolver answers resolver response s = (x, s') \<Longrightarrow> gs_rules s' = gs_rules s \<and> (\<exists>es. gs_log s' = gs_log s @ es)"
  by (auto simp: run_resolver_def resolve_exit_plan_def resolve_goal_start_def plan_exit_def log_event_def Let_def
      split: option.splits approval_resolver.splits if_splits prod.splits)

lemma resolver_log: "\<exists>es. gs_log (snd (run_resolver answers resolver response s)) = gs_log s @ es"
  using resolver_rules [of answers resolver response s] by (metis prod.collapse)

lemma finish_state:
  "snd (finish_approval context resolver policy answers response s)
   = (let s = (if an_outcome answers \<noteq> NoApprovalService then log_event (ApprovalResolved (tx_call_id context) response) s else s) in
      if an_record_error answers = None then snd (run_resolver answers resolver response (record_approval context policy response s)) else s)"
  by (simp add: finish_approval_def Let_def split: option.splits prod.splits)

lemma finish_patterns:
  "rs_session_patterns (gs_rules (snd (finish_approval context resolver policy answers response s)))
   = (if an_record_error answers = None \<and> ar_decision response = Approved \<and> ar_scope response = Some Session
      then iset_insert (tx_approval_rule context) (rs_session_patterns (gs_rules s)) else rs_session_patterns (gs_rules s))"
proof -
  have "gs_rules (snd (run_resolver answers resolver response s')) = gs_rules s'" for s'
    using resolver_rules [of answers resolver response s'] by (metis prod.collapse)
  then show ?thesis
    by (simp add: finish_state Let_def log_event_def record_approval_def approval_patterns approval_entry_def)
qed

lemma finish_log:
  assumes "an_outcome answers = Answered response"
  shows "\<exists>es. gs_log (snd (finish_approval context resolver policy answers response s)) = gs_log s @ ApprovalResolved (tx_call_id context) response # es"
proof -
  obtain es where "gs_log (snd (run_resolver answers resolver response (record_approval context policy response (log_event (ApprovalResolved (tx_call_id context) response) s))))
      = gs_log (record_approval context policy response (log_event (ApprovalResolved (tx_call_id context) response) s)) @ es"
    using resolver_log by blast
  then show ?thesis using assms by (simp add: finish_state Let_def log_event_def record_approval_def)
qed

section \<open>Session rules come from the user\<close>

text \<open>
  The states of a gate with the answers the user gave so far: any calls with any services and answers, and any change of the
  rules, the mode and the plan from outside.
\<close>

inductive gate_reachable :: "(nat \<Rightarrow> str) \<Rightarrow> globset \<Rightarrow> gate_state \<Rightarrow> (tool_context \<times> approval_response) list \<Rightarrow> bool"
  for lower globset where
  start: "rs_session_patterns (gs_rules s) = [] \<Longrightarrow> gate_reachable lower globset s []"
| call: "gate_reachable lower globset s given \<Longrightarrow> authorize lower globset host service context answers s = (r, s')
    \<Longrightarrow> given' = given @ (case an_outcome answers of
          Answered response \<Rightarrow> if ApprovalResolved (tx_call_id context) response \<in> set (drop (length (gs_log s)) (gs_log s')) then [(context, response)] else []
        | _ \<Rightarrow> [])
    \<Longrightarrow> gate_reachable lower globset s' given'"
| outside: "gate_reachable lower globset s given
    \<Longrightarrow> gate_reachable lower globset (s\<lparr> gs_rules := apply_add_permission_rules added (gs_rules s), gs_mode := mode, gs_plan := plan \<rparr>) given"

lemma authorize_patterns:
  assumes "authorize lower globset host service context answers s = (r, s')"
  shows "rs_session_patterns (gs_rules s') = rs_session_patterns (gs_rules s)
    \<or> (\<exists>response. an_outcome answers = Answered response \<and> ar_decision response = Approved \<and> ar_scope response = Some Session
         \<and> ApprovalResolved (tx_call_id context) response \<in> set (drop (length (gs_log s)) (gs_log s'))
         \<and> rs_session_patterns (gs_rules s') = iset_insert (tx_approval_rule context) (rs_session_patterns (gs_rules s)))"
proof (cases "policy_service_evaluate lower globset (env_of host s) context service")
  case (Some nr)
  obtain n q where nq: "nr = (n, q)" by (cases nr)
  let ?s = "log_event (PolicyDecisionEvent (tx_call_id context) n (gs_mode s) q) s"
  have a: "resolve_policy_result q context n answers ?s = (r, s')" using assms Some nq by (simp add: authorize_def)
  show ?thesis
  proof (cases "\<exists>reason resolver response. q = Ask reason resolver \<and> an_outcome answers = Answered response")
    case True
    then obtain reason resolver response where q: "q = Ask reason resolver" "an_outcome answers = Answered response" by blast
    let ?asked = "log_event (ApprovalRequested (tx_call_id context)) ?s"
    have s': "s' = snd (finish_approval context resolver n answers response ?asked)"
      using a q by (simp add: resolve_policy_result_def request_tool_approval_def Let_def)
    obtain es where "gs_log s' = gs_log ?asked @ ApprovalResolved (tx_call_id context) response # es"
      using finish_log [OF q(2)] unfolding s' by blast
    then have "ApprovalResolved (tx_call_id context) response \<in> set (drop (length (gs_log s)) (gs_log s'))" by (simp add: log_event_def)
    then show ?thesis using q(2) unfolding s' finish_patterns by (simp add: log_event_def)
  next
    case False
    then show ?thesis using a
      by (auto simp: resolve_policy_result_def request_tool_approval_def publish_approval_error_def log_event_def Let_def
          dest!: arg_cong [of _ _ snd] simp: finish_patterns split: permission_policy_result.splits approval_outcome.splits)
  qed
qed (use assms in \<open>simp add: authorize_def\<close>)

text \<open>
  C10. In every state of the gate each session rule is the rule of a call that the user was asked for and approved for the
  session, and no rule is kept twice: no mode, no policy and no rule from outside adds one.
\<close>

theorem session_rules_from_user:
  assumes "gate_reachable lower globset s given"
  shows "distinct (rs_session_patterns (gs_rules s))
    \<and> set (rs_session_patterns (gs_rules s)) \<subseteq> {tx_approval_rule context | context response.
        (context, response) \<in> set given \<and> ar_decision response = Approved \<and> ar_scope response = Some Session}"
  using assms
proof (induction rule: gate_reachable.induct)
  case (call s given host service "context" answers r s' given')
  consider "rs_session_patterns (gs_rules s') = rs_session_patterns (gs_rules s)" "set given \<subseteq> set given'"
    | response where "ar_decision response = Approved" "ar_scope response = Some Session" "given' = given @ [(context, response)]"
        "rs_session_patterns (gs_rules s') = iset_insert (tx_approval_rule context) (rs_session_patterns (gs_rules s))"
    using authorize_patterns [OF call.hyps(2)] call.hyps(3) by (auto split: approval_outcome.splits)
  then show ?case
  proof cases
    case 1
    then show ?thesis using call.IH unfolding 1(1) by blast
  next
    case (2 response)
    then show ?thesis using call.IH by (auto simp: iset_insert_def)
  qed
qed (auto simp: apply_add_permission_rules_def)

section \<open>What a session approval covers\<close>

lemma history_matches:
  "session_approval_history lower globset context patterns \<noteq> None \<longleftrightarrow>
   list_ex (\<lambda>pattern. match_permission_rule lower globset
       \<lparr> pr_decision = RuleAllow, pr_scope = SessionRuntime, pr_pattern = pattern, pr_reason = Some (lit ''approve for session'') \<rparr>
       (tx_name context) (Some (matches_rule context)) \<noteq> None) patterns"
  by (induction patterns) (auto simp: Let_def split: option.splits)


section \<open>Policies that give way\<close>

text \<open>
  A plan that is active but cannot be read leaves its guard without effect: in auto mode a call that writes elsewhere runs.
\<close>

lemma unreadable_plan_unguarded:
  assumes "gs_plan s = Some plan" "en_plan host = Inl ()" "gs_mode s = Auto" "rs_rules (gs_rules s) = []"
    "tx_name context = lit ''Write''" "tx_tool_calls context = [lit ''Write'']"
  shows "call_runs (fst (authorize lower globset host from_dependencies context answers s))"
  using assms by (simp add: authorize_def policy_service_evaluate_def from_dependencies_def env_of_def agent_swarm_exclusive_denial_def
      auto_mode_ask_user_question_result_def evaluate_user_configured_rule_def auto_mode_result_def resolve_policy_result_def call_runs_def)

text \<open>
  A host whose kind of paths is not known leaves the question about the Git control directory out, and yolo mode approves the call.
\<close>

lemma unknown_host_approves:
  assumes "gs_plan s = None" "en_path_class host = Inl ()" "gs_mode s = Yolo" "gs_rules s = \<lparr> rs_rules = [], rs_session_patterns = [] \<rparr>"
    "tx_name context = lit ''Write''" "tx_tool_calls context = [lit ''Write'']"
    "tx_accesses context = Some [AccessFile \<lparr> fa_operation = OpWrite, fa_path = lit ''/w/.git/config'', fa_recursive = False \<rparr>]"
  shows "call_runs (fst (authorize lower globset host from_dependencies context answers s))"
proof -
  have "\<not> is_sensitive_file (lit ''/w/.git/config'')"
    by (simp add: is_sensitive_file_def slashed_def lit_def ascii_lower_def ENV_EXEMPTIONS_def PUBLIC_KEYS_def SENSITIVE_BASENAMES_def
        SENSITIVE_PREFIXES_def sensitive_variant_def strip_prefix_def contains_str_def suffix_to_prefix)
  then show ?thesis using assms
    by (simp add: authorize_def policy_service_evaluate_def from_dependencies_def env_of_def agent_swarm_exclusive_denial_def
        auto_mode_ask_user_question_result_def plan_mode_guard_denial_def evaluate_user_configured_rule_def auto_mode_result_def
        exit_plan_mode_review_ask_def goal_start_review_ask_def plan_mode_tool_approve_def plan_mode_tool_approval_def
        sensitive_file_access_ask_def file_accesses_def map_filter_simps yolo_mode_result_def resolve_policy_result_def call_runs_def)
qed

section \<open>Examples\<close>

lemma iset_insert_nonempty: "iset_insert x xs \<noteq> []"
  by (cases xs) (auto simp: iset_insert_def)

lemma sample_asks:
  "policy_service_evaluate (\<lambda>c. [c]) literal_globset (env_of sample_host (sample_gate [] None)) (sample_tool [66] None [120]) from_dependencies
   = Some (lit ''fallback-ask'', Ask None None)"
  by (simp add: sample_gate_defs chain_defs file_accesses_def lit_def)


theorem session_rules_from_user_witness:
  "\<exists>given. gate_reachable (\<lambda>c. [c]) literal_globset
       (snd (authorize (\<lambda>c. [c]) literal_globset sample_host from_dependencies (sample_tool [66] None [120]) (sample_answers Approved) (sample_gate [] None))) given
     \<and> given \<noteq> []"
proof -
  let ?c = "sample_tool [66] None [120]" and ?s = "sample_gate [] None" and ?a = "sample_answers Approved"
  obtain r s' where a: "authorize (\<lambda>c. [c]) literal_globset sample_host from_dependencies ?c ?a ?s = (r, s')" by (cases "authorize (\<lambda>c. [c]) literal_globset sample_host from_dependencies ?c ?a ?s")
  have "gate_reachable (\<lambda>c. [c]) literal_globset ?s []" by (rule start) (simp add: sample_gate_def)
  from call [OF this a refl]
  obtain given where g: "gate_reachable (\<lambda>c. [c]) literal_globset s' given" by blast
  have "rs_session_patterns (gs_rules s') \<noteq> []"
    using a by (auto simp: authorize_def sample_asks resolve_policy_result_def request_tool_approval_def Let_def log_event_def
        dest!: arg_cong [of _ _ snd] simp: finish_patterns sample_answers_def iset_insert_nonempty)
  then have "given \<noteq> []" using session_rules_from_user [OF g] by (cases "rs_session_patterns (gs_rules s')") auto
  then show ?thesis using g a by auto
qed

end
