(* ===== verification/Spec2Isabelle.thy ===== *)
theory Spec2Isabelle
  imports CodecRefs CompoundIndex Wal Snapshot TranscriptStore TranscriptPages ToolScheduler ProjectorFaithful
    RuleGlob PermissionSession
begin

text \<open>
  A verification development of the Rust workspace of a coding agent. The workspace has three parts with
  logic of their own, and this development models the core of each:

  \<^item> \<^bold>\<open>the storage engine\<close> (\<open>crates/minidb\<close>): a log-structured key-value store with snapshots,
    expiration, document queries and secondary indexes, on which sessions are persisted;
  \<^item> \<^bold>\<open>the transcript engine\<close> (\<open>crates/transcript\<close>): the replicated view of a conversation that
    clients subscribe to, built from operations that may be repeated, overlap or arrive with gaps;
  \<^item> \<^bold>\<open>the agent core\<close> (\<open>crates/agent-core-v2\<close>): the context an agent sends to a model, and the scheduler
    that runs the tool calls the model asks for.

  \<^bold>\<open>How the parts interact.\<close> A write of the database becomes a frame (\<open>Codec\<close>) that is appended to the log
  (\<open>Wal\<close>) and whose location is recorded in the store (\<open>Store\<close>); the store keeps its keys, and the indexes
  their entries, in skip lists (\<open>SkipList\<close>); values are read back by position (\<open>ValueReader\<close>); a snapshot
  (\<open>Snapshot\<close>) is written in the same frame format, and after a crash \<open>Recovery\<close> scans snapshot and log by
  reference (\<open>CodecRefs\<close>) and replays them. The events of an agent's loop are folded into its context
  (\<open>ContextMemory\<close>) and projected to the requests a model receives (\<open>ContextProjector\<close>); its tool calls pass the permission gate (\<open>PermissionGate\<close>) with the paths they resolve (\<open>PathAccess\<close>) and are started by the scheduler (\<open>ToolScheduler\<close>); and what happened is
  published as transcript operations (\<open>TranscriptOps\<close>), which the stores of server and clients apply
  (\<open>TranscriptStore\<close>) and from which clients read pages (\<open>TranscriptPages\<close>).

  \<^bold>\<open>Theories and sources.\<close> A Rust struct is a record, an enum a datatype, \<open>Result\<close> a sum with the error on
  the left, \<open>Option\<close> an option; a string is the list of its Unicode scalar values, a byte string a list of
  8-bit words; a map is an association list in insertion order where order or
  iteration matters. A function that mutates \<open>self\<close> returns the new state.

  \<^item> \<open>Prelude\<close>: strings, slices, little-endian integers, comparators, insertion-ordered maps and sets.
  \<^item> \<open>Codec\<close>, \<open>CodecRefs\<close> (\<open>codec.rs\<close>, \<open>crc32.rs\<close>): encoding and parsing of frames and batches, the
    incremental parser, resynchronisation after corruption, and the scanner that reads references from a file.
    Shown: round trips, that a log cut at any byte gives exactly its whole frames, that frames and corrupt
    ranges partition the input, independence of the chunks, and that the scanner agrees with the parser.
    The scanner is stated over the locales \<open>crc_hasher\<close> and \<open>file_reads\<close>.
  \<^item> \<open>SkipList\<close>, \<open>SkipListInv\<close>, \<open>SkipListInsert\<close>, \<open>SkipListDelete\<close>, \<open>SkipListSpec\<close> (\<open>skiplist.rs\<close>): the arena of
    nodes in the option monad (\<open>None\<close> is an index panic or a walk that does not end); the shape invariant;
    refinement of a sorted list of entries for every total comparator.
  \<^item> \<open>OrderedEntries\<close>: the contract \<open>ordered_entries\<close> that store and indexes rely on, interpreted on the skip
    list.
  \<^item> \<open>Store\<close> (\<open>store.rs\<close>), \<open>Query\<close> (\<open>query.rs\<close>), \<open>DtIndex\<close> (\<open>dt_index.rs\<close>), \<open>CompoundIndex\<close>
    (\<open>compound_index.rs\<close>): the visible records are a map with expiration, scans and prefixes list the
    right keys, paths read back what was written, and indexes list exactly the current entries after
    any sequence of operations.
  \<^item> \<open>Wal\<close> (\<open>wal.rs\<close>): appenders, the flush task, sealing, closing and size refresh as steps on one state,
    interleaved freely, with every result of the file system as an argument. An acknowledged append is in
    the file; every accepted append is answered once.
  \<^item> \<open>ValueReader\<close>, \<open>Recovery\<close>, \<open>Snapshot\<close> (\<open>value_reader.rs\<close>, \<open>recovery.rs\<close>, \<open>snapshot.rs\<close>): positioned reads
    under file replacement, replay after a crash at any byte, catching up with a growing log, and that a
    snapshot is scanned back into its entries.
  \<^item> \<open>TranscriptModel\<close>, \<open>TranscriptOps\<close>, \<open>TranscriptReducer\<close>, \<open>TranscriptInv\<close> (\<open>model/*.rs\<close>,
    \<open>ops/operation.rs\<close>, \<open>ops/apply.rs\<close>): every operation of the reducer; streamed text
    converges, every operation keeps the state well formed, and a repeated operation changes nothing. The entity
    tables share the locale \<open>entity_table\<close>.
  \<^item> \<open>TranscriptStore\<close>, \<open>TranscriptPages\<close> (\<open>store/*.rs\<close>, \<open>granularity/*.rs\<close>, \<open>pagination/paginate.rs\<close>): the
    accepted operations reproduce a state on a replica, snapshots reset replicas, and paging backwards
    reads every item once.
  \<^item> \<open>ToolScheduler\<close> (\<open>tool/tool_contract.rs\<close>, \<open>agent/tool_executor/tool_scheduler.rs\<close>): tasks that run together
    do not conflict, no task overtakes an earlier one it conflicts with, and every task is run.
  \<^item> \<open>PathAccess\<close> (\<open>tool/path_access.rs\<close>): a canonical path leads to the same place as the argument of the tool, the
    workspace check is containment of directories, and each outcome of a resolution has its exact condition.
  \<^item> \<open>RuleMatch\<close>, \<open>RuleGlob\<close>, \<open>RuleLiteral\<close> (\<open>tool/rule_match.rs\<close>, \<open>agent/permission_rules/matches_rule.rs\<close>): the patterns of
    permission rules. The parser of extended globs ends, the matcher computes the semantics, and a literal
    rule matches nothing but the call it was made from.
  \<^item> \<open>PermissionPolicy\<close>, \<open>PermissionGate\<close>, \<open>PermissionSafety\<close>, \<open>PermissionSession\<close> (\<open>agent/permission_policy/*.rs\<close>,
    \<open>agent/permission_rules/permission_rules_ops.rs\<close>, \<open>agent/permission_gate/service.rs\<close>): every policy, the order of the
    chain, and the gate with all answers of the user and the services. A denial by the user or by plan mode is
    final, unasked writes are confined, and session rules come from the user and cover only what was approved.
  \<^item> \<open>ContextModel\<close>, \<open>ContextMemory\<close>, \<open>ContextSafety\<close>, \<open>ContextCompaction\<close> (\<open>kosong/contract/message.rs\<close>,
    \<open>kosong/contract/tokens.rs\<close>, \<open>agent/context_memory/*.rs\<close>): in every reachable context each tool call is
    answered right behind its message or still pending, no message of the user is lost, undo
    removes exactly the prompts asked for, and compaction keeps the user's messages within its budget, in
    order and without repetition.
  \<^item> \<open>ContextProjector\<close>, \<open>ProjectorSafety\<close>, \<open>ProjectorStrict\<close>, \<open>ProjectorFaithful\<close>
    (\<open>agent/context_projector/service.rs\<close>, \<open>agent/context_memory/tool_result_render.rs\<close>): the request built from
    a context. Every projection pairs calls and results, the strict one is also free of repeated call ids and
    neighbouring assistant messages and starts with the user, a context whose calls are answered is sent
    without repair, and the degraded projection keeps exactly the most recent media.

  \<^bold>\<open>Parameters.\<close> Code outside the repository is an argument: the CRC of a byte string where the concrete
  one is not needed, the regex and globset crates, \<open>f64\<close> numbers, \<open>serde_json\<close> texts and lengths, the lowercase of a
  character, the clock, the levels of skip list nodes, and what the file system answers. Where a
  theorem needs a law of such a parameter it is a hypothesis, and its witness gives an instance.

  \<^bold>\<open>Bounds and fuel.\<close> Walks over the arena of the skip list, the loops of the file scanner and the positioned
  read are bounded by fuel computed from the state (the number of nodes, the bytes left); the lemmas show
  that the fuel is enough and the result is not \<open>None\<close>. All other loops are structurally recursive or
  have a measure. Sizes are natural numbers where the code cannot reach the width of the type; the lengths in
  frames, the 32-bit count of undo and the offsets in UTF-16 units are kept at their width.

  \<^bold>\<open>What the model shows of the code.\<close> A few lemmas state behaviour that differs from what the code
  means to do: \<open>rewritten_key_never_reaped\<close>, \<open>resync_replays_torn_value\<close>, \<open>set_tokens_truncates\<close>, the bound in
  \<open>store_prefix_ok\<close>, \<open>root_tree_unprotected\<close>, \<open>cut_message_exceeds\<close>, \<open>repeated_call_loses_result\<close>,
  \<open>drive_path_passes_guard\<close>, \<open>empty_subject_matches_all\<close>, \<open>unknown_host_approves\<close> and \<open>unreadable_plan_unguarded\<close>.

  \<^bold>\<open>Not modelled.\<close> The facade of the database with its background maintenance and its text index, the
  grouping of persisted history into turns and the wire schema of the transcript, the blob codec and
  the legacy record parser of the context, the services of the agent core (they are async
  glue over providers, processes and the network), the protocol types (serde data without behaviour),
  OAuth, the web server and the file system helpers.

  \<^bold>\<open>Next.\<close> The goal state machine, permission rules and path checks of the agent core; compaction of the
  database and its text index.
\<close>

end
